(* ===== verification/Prelude.thy ===== *)
theory Prelude
  imports Main "HOL-Library.Word" "HOL-Library.Monad_Syntax"
begin

unbundle bit_operations_syntax

text \<open>
  Shared vocabulary of the development: the fixed-width integers of the C code, the store
  monad in which the daemon's operations are written, and the generic facts on lists, finite
  maps and words that the component theories use.

  Every operation of the daemon that dereferences a pointer is a function into \<open>'a option\<close>.
  \<open>None\<close> is undefined behaviour of the C program: a null or dangling pointer is
  dereferenced, an array is read past its end, a shift amount is out of range. \<open>runs m Q\<close> is
  the total-correctness statement ``the step \<open>m\<close> is defined and its result satisfies \<open>Q\<close>'';
  the rules in the collection \<open>runs_rules\<close> compute it over the steps of an operation.
\<close>

section \<open>Types\<close>

type_synonym u8 = "8 word"
type_synonym u16 = "16 word"
type_synonym u32 = "32 word"
type_synonym u64 = "64 word"

text \<open>Signed 8-bit values (\<open>int8_t\<close>) are words read with \<open>sint\<close>.\<close>

type_synonym i8 = "8 word"

text \<open>Object addresses. \<open>NULL\<close> is 0; allocation hands out addresses from 1 upwards.\<close>

type_synonym ptr = nat

text \<open>IPv4 addresses as \<open>s_addr\<close> values in host byte order.\<close>

type_synonym in_addr = u32

section \<open>Defined executions\<close>

named_theorems runs_rules "weakest-precondition equations for steps that may be undefined"
named_theorems frame_simps "which parts of the state a step leaves alone"
named_theorems step_defs "definitions of the elementary steps on the store"

definition runs :: "'a option \<Rightarrow> ('a \<Rightarrow> bool) \<Rightarrow> bool" where
  "runs m Q \<longleftrightarrow> (case m of None \<Rightarrow> False | Some x \<Rightarrow> Q x)"

definition defined_if :: "bool \<Rightarrow> 'a option \<Rightarrow> 'a option" where
  "defined_if b m = (if b then m else None)"

lemma runs_Some [simp, runs_rules]: "runs (Some x) Q = Q x"
  by (simp add: runs_def)

lemma runs_None [simp, runs_rules]: "runs None Q = False"
  by (simp add: runs_def)

lemma runs_bind [simp, runs_rules]:
  "runs (Option.bind m f) Q = runs m (\<lambda>x. runs (f x) Q)"
  by (cases m) auto

lemma runs_defined_if [simp, runs_rules]: "runs (defined_if b m) Q = (b \<and> runs m Q)"
  by (simp add: defined_if_def)

lemma runs_if [runs_rules]:
  "runs (if b then m else n) Q = ((b \<longrightarrow> runs m Q) \<and> (\<not> b \<longrightarrow> runs n Q))"
  by simp

lemma runs_map_option [simp, runs_rules]: "runs (map_option f m) Q = runs m (\<lambda>x. Q (f x))"
  by (cases m) auto

lemma runs_mono: "runs m P \<Longrightarrow> (\<And>x. m = Some x \<Longrightarrow> P x \<Longrightarrow> Q x) \<Longrightarrow> runs m Q"
  by (cases m) auto

lemma runs_conjI: "runs m P \<Longrightarrow> runs m Q \<Longrightarrow> runs m (\<lambda>x. P x \<and> Q x)"
  by (cases m) auto

lemma runsE:
  assumes "runs m Q"
  obtains x where "m = Some x" "Q x"
  using assms by (cases m) auto

lemma runsD: "runs m Q \<Longrightarrow> m = Some x \<Longrightarrow> Q x"
  by simp

lemma runs_iff: "runs m Q \<longleftrightarrow> (\<exists>x. m = Some x \<and> Q x)"
  by (cases m) auto

lemma defined_if_Some [simp]: "defined_if b m = Some x \<longleftrightarrow> b \<and> m = Some x"
  by (simp add: defined_if_def)

lemma defined_if_True [simp]: "defined_if True m = m"
  by (simp add: defined_if_def)

lemma defined_if_False [simp]: "defined_if False m = None"
  by (simp add: defined_if_def)

text \<open>Loops over a list of objects: the body is a step on the state.\<close>

fun fold_steps :: "('a \<Rightarrow> 's \<Rightarrow> 's option) \<Rightarrow> 'a list \<Rightarrow> 's \<Rightarrow> 's option" where
  "fold_steps f [] s = Some s"
| "fold_steps f (x # xs) s = Option.bind (f x s) (fold_steps f xs)"

lemma fold_steps_runs:
  assumes step: "\<And>x ys s. I (x # ys) s \<Longrightarrow> runs (f x s) (I ys)"
    and init: "I xs s"
  shows "runs (fold_steps f xs s) (I [])"
  using init
proof (induction xs arbitrary: s)
  case Nil
  then show ?case by simp
next
  case (Cons x xs)
  then show ?case
    using step [OF Cons.prems] by (auto simp: runs_iff)
qed

section \<open>Lists and maps\<close>

lemma remove1_filter: "distinct xs \<Longrightarrow> remove1 x xs = filter (\<lambda>y. y \<noteq> x) xs"
  by (induction xs) (auto intro!: filter_True [symmetric])

lemma find_Some_mem: "find P xs = Some x \<Longrightarrow> x \<in> set xs \<and> P x"
  by (induction xs) (auto split: if_splits)

lemma find_None_conv: "find P xs = None \<longleftrightarrow> (\<forall>x \<in> set xs. \<not> P x)"
  by (induction xs) auto

lemma map_upd_dom_subset: "p \<in> dom m \<Longrightarrow> dom (m(p \<mapsto> v)) = dom m"
  by auto

section \<open>Words\<close>

lemma bit_word_beyond: "LENGTH('a::len) \<le> n \<Longrightarrow> \<not> bit (w :: 'a word) n"
  by (auto dest: bit_imp_le_length)

lemma word_AND_mask_id: "(w :: 'a::len word) AND (-1) = w"
  by simp

lemma word_flag_set: "(w OR m) AND m = (m :: 'a::len word)"
  by (rule bit_word_eqI) (auto simp: bit_simps)

lemma word_flag_unset: "(w AND NOT m) AND m = (0 :: 'a::len word)"
  by (rule bit_word_eqI) (auto simp: bit_simps)

lemma word_flag_set_other: "m AND k = 0 \<Longrightarrow> (w OR m) AND k = w AND (k :: 'a::len word)"
  by (simp add: bit.conj_disj_distrib2)

lemma word_flag_unset_other: "m AND k = 0 \<Longrightarrow> (w AND NOT m) AND k = w AND (k :: 'a::len word)"
proof -
  assume a: "m AND k = 0"
  have "\<And>n. bit m n \<Longrightarrow> \<not> bit k n"
    using a by (metis bit_and_iff bit_0_eq bot_apply bot_bool_def)
  then show ?thesis
    by (intro bit_word_eqI) (auto simp: bit_simps)
qed

lemma unat_less_2p: "unat (w :: 'a::len word) < 2 ^ LENGTH('a)"
  by (fact unsigned_less)

lemma unat_u8_less: "unat (w :: u8) < 256"
  using unat_less_2p [of w] by simp

lemma unat_u16_less: "unat (w :: u16) < 65536"
  using unat_less_2p [of w] by simp

lemma unat_u32_less: "unat (w :: u32) < 4294967296"
  using unat_less_2p [of w] by simp

lemma unat_ucast_widen [simp]:
  "unat (ucast (w8 :: u8) :: u32) = unat w8"
  "unat (ucast (w8 :: u8) :: u16) = unat w8"
  "unat (ucast (w16 :: u16) :: u32) = unat w16"
  using unat_u8_less [of w8] unat_u16_less [of w16]
  by (simp_all add: unsigned_ucast_eq take_bit_eq_mod)

lemma unat_two_power: "n < LENGTH('a) \<Longrightarrow> unat (2 ^ n :: 'a::len word) = 2 ^ n"
proof -
  assume "n < LENGTH('a)"
  then have "(2::nat) ^ n < 2 ^ LENGTH('a)" by simp
  moreover have "(2 ^ n :: 'a word) = of_nat (2 ^ n)" by simp
  ultimately show ?thesis by (simp only: unsigned_of_nat take_bit_eq_mod mod_less of_nat_id)
qed

end
