(* ===== verification/Linux_List.thy ===== *)
theory Linux_List
  imports Prelude
begin

text \<open>
  The intrusive doubly linked lists of \<open>libmeshias/alarm/linux_list.h\<close> at the level of their
  pointers. A store maps the address of a \<open>struct list_head\<close> to its two links; following or
  writing through an address outside the store is undefined. \<open>dll h hd xs\<close> says that the
  circular list anchored at \<open>hd\<close> runs through the entries \<open>xs\<close>. Each operation is shown to
  be the obvious operation on \<open>xs\<close>, each traversal macro to visit exactly \<open>xs\<close>, in order,
  and to end. The other theories keep the routing table, the request queue, the packet queue
  and the precursor lists as such sequences \<open>xs\<close>, which the interface \<open>intrusive_list\<close> at the
  end of this theory justifies.
\<close>

section \<open>The store\<close>

record list_head =
  lh_next :: ptr
  lh_prev :: ptr

type_synonym lstore = "ptr \<rightharpoonup> list_head"

definition LIST_POISON1 :: ptr where
  "LIST_POISON1 = 0x00100100"

definition LIST_POISON2 :: ptr where
  "LIST_POISON2 = 0x00200200"

definition get_next :: "ptr \<Rightarrow> lstore \<Rightarrow> ptr option" where
  "get_next p h = map_option lh_next (h p)"

definition get_prev :: "ptr \<Rightarrow> lstore \<Rightarrow> ptr option" where
  "get_prev p h = map_option lh_prev (h p)"

definition set_next :: "ptr \<Rightarrow> ptr \<Rightarrow> lstore \<Rightarrow> lstore option" where
  "set_next p v h = (case h p of None \<Rightarrow> None | Some n \<Rightarrow> Some (h(p \<mapsto> n\<lparr>lh_next := v\<rparr>)))"

definition set_prev :: "ptr \<Rightarrow> ptr \<Rightarrow> lstore \<Rightarrow> lstore option" where
  "set_prev p v h = (case h p of None \<Rightarrow> None | Some n \<Rightarrow> Some (h(p \<mapsto> n\<lparr>lh_prev := v\<rparr>)))"

section \<open>Operations\<close>

definition INIT_LIST_HEAD :: "ptr \<Rightarrow> lstore \<Rightarrow> lstore option" where
  "INIT_LIST_HEAD p h = do { h \<leftarrow> set_next p p h; set_prev p p h }"

definition list_add_between :: "ptr \<Rightarrow> ptr \<Rightarrow> ptr \<Rightarrow> lstore \<Rightarrow> lstore option" where
  "list_add_between new prev nxt h = do {
     h \<leftarrow> set_prev nxt new h;
     h \<leftarrow> set_next new nxt h;
     h \<leftarrow> set_prev new prev h;
     set_next prev new h }"

definition list_add :: "ptr \<Rightarrow> ptr \<Rightarrow> lstore \<Rightarrow> lstore option" where
  "list_add new head h = do { n \<leftarrow> get_next head h; list_add_between new head n h }"

definition list_add_tail :: "ptr \<Rightarrow> ptr \<Rightarrow> lstore \<Rightarrow> lstore option" where
  "list_add_tail new head h = do { p \<leftarrow> get_prev head h; list_add_between new p head h }"

definition list_add_rcu_between :: "ptr \<Rightarrow> ptr \<Rightarrow> ptr \<Rightarrow> lstore \<Rightarrow> lstore option" where
  "list_add_rcu_between new prev nxt h = do {
     h \<leftarrow> set_next new nxt h;
     h \<leftarrow> set_prev new prev h;
     h \<leftarrow> set_prev nxt new h;
     set_next prev new h }"

definition list_add_rcu :: "ptr \<Rightarrow> ptr \<Rightarrow> lstore \<Rightarrow> lstore option" where
  "list_add_rcu new head h = do { n \<leftarrow> get_next head h; list_add_rcu_between new head n h }"

definition list_add_tail_rcu :: "ptr \<Rightarrow> ptr \<Rightarrow> lstore \<Rightarrow> lstore option" where
  "list_add_tail_rcu new head h = do { p \<leftarrow> get_prev head h; list_add_rcu_between new p head h }"

definition list_del_between :: "ptr \<Rightarrow> ptr \<Rightarrow> lstore \<Rightarrow> lstore option" where
  "list_del_between prev nxt h = do { h \<leftarrow> set_prev nxt prev h; set_next prev nxt h }"

definition list_unlink :: "ptr \<Rightarrow> lstore \<Rightarrow> lstore option" where
  "list_unlink entry h = do {
     p \<leftarrow> get_prev entry h;
     n \<leftarrow> get_next entry h;
     list_del_between p n h }"

definition list_del :: "ptr \<Rightarrow> lstore \<Rightarrow> lstore option" where
  "list_del entry h = do {
     h \<leftarrow> list_unlink entry h;
     h \<leftarrow> set_next entry LIST_POISON1 h;
     set_prev entry LIST_POISON2 h }"

definition list_del_rcu :: "ptr \<Rightarrow> lstore \<Rightarrow> lstore option" where
  "list_del_rcu entry h = do {
     h \<leftarrow> list_unlink entry h;
     set_prev entry LIST_POISON2 h }"

definition list_del_init :: "ptr \<Rightarrow> lstore \<Rightarrow> lstore option" where
  "list_del_init entry h = do { h \<leftarrow> list_unlink entry h; INIT_LIST_HEAD entry h }"

definition list_move :: "ptr \<Rightarrow> ptr \<Rightarrow> lstore \<Rightarrow> lstore option" where
  "list_move entry head h = do { h \<leftarrow> list_unlink entry h; list_add entry head h }"

definition list_move_tail :: "ptr \<Rightarrow> ptr \<Rightarrow> lstore \<Rightarrow> lstore option" where
  "list_move_tail entry head h = do { h \<leftarrow> list_unlink entry h; list_add_tail entry head h }"

definition list_empty :: "ptr \<Rightarrow> lstore \<Rightarrow> bool option" where
  "list_empty head h = do { n \<leftarrow> get_next head h; Some (n = head) }"

definition list_empty_careful :: "ptr \<Rightarrow> lstore \<Rightarrow> bool option" where
  "list_empty_careful head h = do {
     n \<leftarrow> get_next head h;
     if n = head then do { p \<leftarrow> get_prev head h; Some (n = p) } else Some False }"

definition list_splice_between :: "ptr \<Rightarrow> ptr \<Rightarrow> lstore \<Rightarrow> lstore option" where
  "list_splice_between list head h = do {
     first \<leftarrow> get_next list h;
     last \<leftarrow> get_prev list h;
     at \<leftarrow> get_next head h;
     h \<leftarrow> set_prev first head h;
     h \<leftarrow> set_next head first h;
     h \<leftarrow> set_next last at h;
     set_prev at last h }"

definition list_splice :: "ptr \<Rightarrow> ptr \<Rightarrow> lstore \<Rightarrow> lstore option" where
  "list_splice list head h = do {
     e \<leftarrow> list_empty list h;
     if \<not> e then list_splice_between list head h else Some h }"

definition list_splice_init :: "ptr \<Rightarrow> ptr \<Rightarrow> lstore \<Rightarrow> lstore option" where
  "list_splice_init list head h = do {
     e \<leftarrow> list_empty list h;
     if \<not> e then do { h \<leftarrow> list_splice_between list head h; INIT_LIST_HEAD list h } else Some h }"

text \<open>
  The traversal macros. The body of a plain traversal does not change the links; the body of
  a \<open>_safe\<close> traversal may, and the macro reads the successor of \<open>n\<close> only after the body ran.
\<close>

partial_function (option) list_for_each_from ::
  "lstore \<Rightarrow> ptr \<Rightarrow> (ptr \<Rightarrow> 's \<Rightarrow> 's option) \<Rightarrow> ptr \<Rightarrow> 's \<Rightarrow> 's option" where
  "list_for_each_from h head body pos s =
     (if pos = head then Some s
      else do {
        s \<leftarrow> body pos s;
        n \<leftarrow> get_next pos h;
        list_for_each_from h head body n s })"

definition list_for_each_entry ::
  "lstore \<Rightarrow> ptr \<Rightarrow> (ptr \<Rightarrow> 's \<Rightarrow> 's option) \<Rightarrow> 's \<Rightarrow> 's option" where
  "list_for_each_entry h head body s = do {
     pos \<leftarrow> get_next head h;
     list_for_each_from h head body pos s }"

text \<open>
  A traversal may go on behind an entry, and behind the head when the entry is \<open>NULL\<close>: an entry
  is named by the address of its links, so \<open>list_entry\<close> is the identity here.
\<close>

definition list_prepare_entry :: "ptr \<Rightarrow> ptr \<Rightarrow> ptr" where
  "list_prepare_entry pos head = (if pos \<noteq> 0 then pos else head)"

definition list_for_each_entry_continue ::
  "lstore \<Rightarrow> ptr \<Rightarrow> (ptr \<Rightarrow> 's \<Rightarrow> 's option) \<Rightarrow> ptr \<Rightarrow> 's \<Rightarrow> 's option" where
  "list_for_each_entry_continue h head body pos s = do {
     pos \<leftarrow> get_next pos h;
     list_for_each_from h head body pos s }"

partial_function (option) list_for_each_back_from ::
  "lstore \<Rightarrow> ptr \<Rightarrow> (ptr \<Rightarrow> 's \<Rightarrow> 's option) \<Rightarrow> ptr \<Rightarrow> 's \<Rightarrow> 's option" where
  "list_for_each_back_from h head body pos s =
     (if pos = head then Some s
      else do {
        s \<leftarrow> body pos s;
        n \<leftarrow> get_prev pos h;
        list_for_each_back_from h head body n s })"

definition list_for_each_entry_reverse ::
  "lstore \<Rightarrow> ptr \<Rightarrow> (ptr \<Rightarrow> 's \<Rightarrow> 's option) \<Rightarrow> 's \<Rightarrow> 's option" where
  "list_for_each_entry_reverse h head body s = do {
     pos \<leftarrow> get_prev head h;
     list_for_each_back_from h head body pos s }"

partial_function (option) list_for_each_safe_from ::
  "ptr \<Rightarrow> (ptr \<Rightarrow> lstore \<times> 's \<Rightarrow> (lstore \<times> 's) option) \<Rightarrow> ptr \<Rightarrow> ptr \<Rightarrow> lstore \<times> 's
     \<Rightarrow> (lstore \<times> 's) option" where
  "list_for_each_safe_from head body pos n hs =
     (if pos = head then Some hs
      else do {
        hs \<leftarrow> body pos hs;
        n' \<leftarrow> get_next n (fst hs);
        list_for_each_safe_from head body n n' hs })"

definition list_for_each_entry_safe ::
  "ptr \<Rightarrow> (ptr \<Rightarrow> lstore \<times> 's \<Rightarrow> (lstore \<times> 's) option) \<Rightarrow> lstore \<times> 's \<Rightarrow> (lstore \<times> 's) option" where
  "list_for_each_entry_safe head body hs = do {
     pos \<leftarrow> get_next head (fst hs);
     n \<leftarrow> get_next pos (fst hs);
     list_for_each_safe_from head body pos n hs }"

section \<open>Representation\<close>

definition links :: "lstore \<Rightarrow> ptr \<Rightarrow> ptr \<Rightarrow> bool" where
  "links h a b \<longleftrightarrow> get_next a h = Some b \<and> get_prev b h = Some a"

fun seg :: "lstore \<Rightarrow> ptr \<Rightarrow> ptr list \<Rightarrow> bool" where
  "seg h a [] = True"
| "seg h a (x # xs) = (links h a x \<and> seg h x xs)"

definition dll :: "lstore \<Rightarrow> ptr \<Rightarrow> ptr list \<Rightarrow> bool" where
  "dll h l xs \<longleftrightarrow> distinct (l # xs) \<and> seg h l (xs @ [l])"

text \<open>\<open>same_outside A h h'\<close>: a step changed links of addresses in \<open>A\<close> only.\<close>

definition same_outside :: "ptr set \<Rightarrow> lstore \<Rightarrow> lstore \<Rightarrow> bool" where
  "same_outside A h h' \<longleftrightarrow> dom h' = dom h \<and> (\<forall>z. z \<notin> A \<longrightarrow> h' z = h z)"

lemma seg_append: "seg h a (xs @ ys) \<longleftrightarrow> seg h a xs \<and> seg h (last (a # xs)) ys"
  by (induction xs arbitrary: a) auto

lemma seg_frame:
  assumes "\<And>z. z \<in> set (butlast (a # xs)) \<Longrightarrow> get_next z h' = get_next z h"
    and "\<And>z. z \<in> set xs \<Longrightarrow> get_prev z h' = get_prev z h"
  shows "seg h' a xs = seg h a xs"
  using assms
proof (induction xs arbitrary: a)
  case Nil
  then show ?case by simp
next
  case (Cons x xs)
  have "seg h' x xs = seg h x xs"
    by (rule Cons.IH) (use Cons.prems in auto)
  moreover have "links h' a x = links h a x"
    using Cons.prems by (simp add: links_def)
  ultimately show ?case by simp
qed

lemma dll_frame:
  assumes "dll h l xs" and "\<And>z. z \<in> set (l # xs) \<Longrightarrow> h' z = h z"
  shows "dll h' l xs"
proof -
  have "seg h' l (xs @ [l]) = seg h l (xs @ [l])"
    by (rule seg_frame) (use assms(2) in \<open>auto simp: get_next_def get_prev_def\<close>)
  with assms(1) show ?thesis by (simp add: dll_def)
qed

lemma dll_dom: "dll h l xs \<Longrightarrow> set (l # xs) \<subseteq> dom h"
proof -
  have "seg h a ys \<Longrightarrow> set ys \<subseteq> dom h" for a ys
    by (induction ys arbitrary: a) (auto simp: links_def get_prev_def)
  then show "dll h l xs \<Longrightarrow> set (l # xs) \<subseteq> dom h"
    by (fastforce simp: dll_def)
qed

lemma runs_set_next [runs_rules]:
  "runs (set_next p v h) Q \<longleftrightarrow> p \<in> dom h \<and> Q (h(p \<mapsto> (the (h p))\<lparr>lh_next := v\<rparr>))"
  by (auto simp: set_next_def split: option.splits)

lemma runs_set_prev [runs_rules]:
  "runs (set_prev p v h) Q \<longleftrightarrow> p \<in> dom h \<and> Q (h(p \<mapsto> (the (h p))\<lparr>lh_prev := v\<rparr>))"
  by (auto simp: set_prev_def split: option.splits)

lemma get_next_upd [simp]:
  "get_next z (h(p \<mapsto> n)) = (if z = p then Some (lh_next n) else get_next z h)"
  by (simp add: get_next_def)

lemma get_prev_upd [simp]:
  "get_prev z (h(p \<mapsto> n)) = (if z = p then Some (lh_prev n) else get_prev z h)"
  by (simp add: get_prev_def)

lemma lh_next_the [simp]: "get_next p h = Some v \<Longrightarrow> lh_next (the (h p)) = v"
  by (auto simp: get_next_def)

lemma lh_prev_the [simp]: "get_prev p h = Some v \<Longrightarrow> lh_prev (the (h p)) = v"
  by (auto simp: get_prev_def)

lemma get_next_the: "p \<in> dom h \<Longrightarrow> get_next p h = Some (lh_next (the (h p)))"
  by (auto simp: get_next_def)

lemma get_prev_the: "p \<in> dom h \<Longrightarrow> get_prev p h = Some (lh_prev (the (h p)))"
  by (auto simp: get_prev_def)

section \<open>Insertion and removal\<close>

text \<open>The entry before and after a position of the circular list.\<close>

abbreviation before :: "ptr \<Rightarrow> ptr list \<Rightarrow> ptr" where
  "before l xs \<equiv> last (l # xs)"

abbreviation after :: "ptr \<Rightarrow> ptr list \<Rightarrow> ptr" where
  "after l ys \<equiv> hd (ys @ [l])"

lemma dll_split:
  "dll h l (xs @ ys) \<longleftrightarrow> distinct (l # xs @ ys) \<and> seg h l xs
     \<and> links h (before l xs) (after l ys) \<and> seg h (after l ys) (tl (ys @ [l]))"
proof -
  have "seg h (before l xs) (ys @ [l]) \<longleftrightarrow>
      links h (before l xs) (after l ys) \<and> seg h (after l ys) (tl (ys @ [l]))"
    by (cases ys) simp_all
  then show ?thesis by (auto simp: dll_def seg_append)
qed

lemma after_in: "after l ys \<in> set (l # ys)"
  by (cases ys) auto

lemma set_tl_after: "set (tl (ys @ [l])) \<subseteq> set (l # ys)"
  by (cases ys) auto

text \<open>
  What a store must satisfy to be the list with an entry put between \<open>xs\<close> and \<open>ys\<close>: the new
  links are there and nothing else that the two halves use has changed.
\<close>

lemma dll_insertI:
  assumes d: "dll h l (xs @ ys)" and new: "new \<notin> set (l # xs @ ys)"
    and "links h' (before l xs) new" "links h' new (after l ys)"
    and nxt: "\<And>z. z \<noteq> before l xs \<Longrightarrow> z \<noteq> new \<Longrightarrow> get_next z h' = get_next z h"
    and prv: "\<And>z. z \<noteq> after l ys \<Longrightarrow> z \<noteq> new \<Longrightarrow> get_prev z h' = get_prev z h"
  shows "dll h' l (xs @ new # ys)"
proof -
  have dist: "distinct (l # xs @ ys)" and s1: "seg h l xs"
    and s2: "seg h (after l ys) (tl (ys @ [l]))"
    using d by (simp_all add: dll_split)
  have "seg h' l xs = seg h l xs"
  proof (rule seg_frame)
    fix z assume z: "z \<in> set (butlast (l # xs))"
    have "distinct (l # xs)" using dist by auto
    then have "z \<noteq> before l xs"
      using z by (metis append_butlast_last_id distinct_append disjoint_iff list.distinct(1) list.set_intros(1))
    moreover have "z \<noteq> new" using z new by (metis in_set_butlastD list.set_intros(1) set_append Un_iff set_ConsD list.set_intros(2))
    ultimately show "get_next z h' = get_next z h" by (rule nxt)
  next
    fix z assume z: "z \<in> set xs"
    then have "z \<noteq> after l ys" using dist after_in [of ys l] by auto
    moreover have "z \<noteq> new" using z new by auto
    ultimately show "get_prev z h' = get_prev z h" by (rule prv)
  qed
  moreover have "seg h' (after l ys) (tl (ys @ [l])) = seg h (after l ys) (tl (ys @ [l]))"
  proof (rule seg_frame)
    fix z assume z: "z \<in> set (butlast (after l ys # tl (ys @ [l])))"
    then have zy: "z \<in> set ys" by (cases ys) auto
    have "z \<noteq> before l xs" using zy dist by (cases xs rule: rev_cases) auto
    moreover have "z \<noteq> new" using zy new by auto
    ultimately show "get_next z h' = get_next z h" by (rule nxt)
  next
    fix z assume z: "z \<in> set (tl (ys @ [l]))"
    then have "z \<noteq> after l ys" using dist by (cases ys) auto
    moreover have "z \<noteq> new" using z new set_tl_after [of ys l] by auto
    ultimately show "get_prev z h' = get_prev z h" by (rule prv)
  qed
  ultimately have "seg h' l xs" "links h' new (after l ys)" "seg h' (after l ys) (tl (ys @ [l]))"
    using s1 s2 assms(4) by auto
  moreover have "links h' (before l xs) new" by fact
  moreover have "distinct (l # xs @ new # ys)" using dist new by auto
  ultimately show ?thesis
    by (cases ys) (auto simp: dll_split)
qed

lemma dll_removeI:
  assumes d: "dll h l (xs @ x # ys)"
    and "links h' (before l xs) (after l ys)"
    and nxt: "\<And>z. z \<noteq> before l xs \<Longrightarrow> z \<noteq> x \<Longrightarrow> get_next z h' = get_next z h"
    and prv: "\<And>z. z \<noteq> after l ys \<Longrightarrow> z \<noteq> x \<Longrightarrow> get_prev z h' = get_prev z h"
  shows "dll h' l (xs @ ys)"
proof -
  have dist: "distinct (l # xs @ x # ys)" and s1: "seg h l xs" and "seg h x (ys @ [l])"
    using d by (simp_all add: dll_split)
  then have s2: "seg h (after l ys) (tl (ys @ [l]))" by (cases ys) auto
  have "seg h' l xs = seg h l xs"
  proof (rule seg_frame)
    fix z assume z: "z \<in> set (butlast (l # xs))"
    have "distinct (l # xs)" using dist by auto
    then have "z \<noteq> before l xs"
      using z by (metis append_butlast_last_id distinct_append disjoint_iff list.distinct(1) list.set_intros(1))
    moreover have "z \<noteq> x" using in_set_butlastD [OF z] dist by auto
    ultimately show "get_next z h' = get_next z h" by (rule nxt)
  next
    fix z assume z: "z \<in> set xs"
    then have "z \<noteq> after l ys" "z \<noteq> x" using dist after_in [of ys l] by auto
    then show "get_prev z h' = get_prev z h" by (rule prv)
  qed
  moreover have "seg h' (after l ys) (tl (ys @ [l])) = seg h (after l ys) (tl (ys @ [l]))"
  proof (rule seg_frame)
    fix z assume z: "z \<in> set (butlast (after l ys # tl (ys @ [l])))"
    then have zy: "z \<in> set ys" by (cases ys) auto
    have "z \<noteq> before l xs" using zy dist by (cases xs rule: rev_cases) auto
    moreover have "z \<noteq> x" using zy dist by auto
    ultimately show "get_next z h' = get_next z h" by (rule nxt)
  next
    fix z assume z: "z \<in> set (tl (ys @ [l]))"
    then have "z \<noteq> after l ys" using dist by (cases ys) auto
    moreover have "z \<noteq> x" using z dist set_tl_after [of ys l] by auto
    ultimately show "get_prev z h' = get_prev z h" by (rule prv)
  qed
  ultimately show ?thesis
    using dist s1 s2 assms(2) by (simp add: dll_split)
qed

text \<open>The effect of the two elementary relinkings on the links of single entries.\<close>

lemma list_add_between_effect:
  assumes "p \<in> dom h" "n \<in> dom h" "new \<in> dom h" "new \<noteq> p" "new \<noteq> n"
  shows "runs (list_add_between new p n h) (\<lambda>h'. links h' p new \<and> links h' new n
    \<and> (\<forall>z. z \<noteq> p \<longrightarrow> z \<noteq> new \<longrightarrow> get_next z h' = get_next z h)
    \<and> (\<forall>z. z \<noteq> n \<longrightarrow> z \<noteq> new \<longrightarrow> get_prev z h' = get_prev z h)
    \<and> same_outside {p, n, new} h h')"
  using assms unfolding list_add_between_def
  by (auto simp: runs_rules links_def same_outside_def get_next_def get_prev_def)

lemma list_add_rcu_between_effect:
  assumes "p \<in> dom h" "n \<in> dom h" "new \<in> dom h" "new \<noteq> p" "new \<noteq> n"
  shows "list_add_rcu_between new p n h = list_add_between new p n h"
  using assms unfolding list_add_between_def list_add_rcu_between_def set_next_def set_prev_def
  by (auto split: option.splits intro!: ext)

lemma list_del_between_effect:
  assumes "p \<in> dom h" "n \<in> dom h"
  shows "runs (list_del_between p n h) (\<lambda>h'. links h' p n
    \<and> (\<forall>z. z \<noteq> p \<longrightarrow> get_next z h' = get_next z h)
    \<and> (\<forall>z. z \<noteq> n \<longrightarrow> get_prev z h' = get_prev z h)
    \<and> same_outside {p, n} h h')"
  using assms unfolding list_del_between_def
  by (auto simp: runs_rules links_def same_outside_def get_next_def get_prev_def)

lemma dll_ends_dom:
  assumes "dll h l (xs @ ys)"
  shows "before l xs \<in> set (l # xs @ ys)" "after l ys \<in> set (l # xs @ ys)"
    "before l xs \<in> dom h" "after l ys \<in> dom h"
proof -
  show p: "before l xs \<in> set (l # xs @ ys)" by (cases xs rule: rev_cases) auto
  show n: "after l ys \<in> set (l # xs @ ys)" using after_in [of ys l] by auto
  show "before l xs \<in> dom h" "after l ys \<in> dom h"
    using p n dll_dom [OF assms] by blast+
qed

lemma same_outside_mono: "same_outside A h h' \<Longrightarrow> A \<subseteq> B \<Longrightarrow> same_outside B h h'"
  by (auto simp: same_outside_def)

lemma same_outside_trans:
  "same_outside A h h' \<Longrightarrow> same_outside A h' h'' \<Longrightarrow> same_outside A h h''"
  by (auto simp: same_outside_def)

lemma list_add_between_dll:
  assumes d: "dll h l (xs @ ys)" and "new \<notin> set (l # xs @ ys)" and "new \<in> dom h"
  shows "runs (list_add_between new (before l xs) (after l ys) h)
    (\<lambda>h'. dll h' l (xs @ new # ys) \<and> same_outside (set (new # l # xs @ ys)) h h')"
proof -
  note e = dll_ends_dom [OF d]
  have "new \<noteq> before l xs" "new \<noteq> after l ys" using e assms(2) by metis+
  from list_add_between_effect [OF e(3,4) assms(3) this] show ?thesis
    by (rule runs_mono)
      (use e(1,2) assms in \<open>auto intro!: dll_insertI elim!: same_outside_mono\<close>)
qed

lemma list_unlink_dll:
  assumes d: "dll h l (xs @ x # ys)"
  shows "runs (list_unlink x h) (\<lambda>h'. dll h' l (xs @ ys) \<and> same_outside (set (l # xs @ ys)) h h')"
proof -
  have lk: "get_prev x h = Some (before l xs)" "get_next x h = Some (after l ys)"
    using d by (auto simp: dll_split links_def hd_append)
      (cases ys; simp add: links_def)
  have m: "before l xs \<in> set (l # xs @ ys)" "after l ys \<in> set (l # xs @ ys)"
    using after_in [of ys l] by (cases xs rule: rev_cases; auto)+
  with dll_dom [OF d] have "before l xs \<in> dom h" "after l ys \<in> dom h"
    by (auto simp del: last.simps)
  from list_del_between_effect [OF this] have
    "runs (list_del_between (before l xs) (after l ys) h)
       (\<lambda>h'. dll h' l (xs @ ys) \<and> same_outside (set (l # xs @ ys)) h h')"
    by (rule runs_mono) (use d m in \<open>auto intro!: dll_removeI [OF d] elim!: same_outside_mono\<close>)
  then show ?thesis
    by (simp add: list_unlink_def lk)
qed

lemma dll_head_next: "dll h l xs \<Longrightarrow> get_next l h = Some (after l xs)"
  using dll_split [of h l "[]" xs] by (simp add: links_def)

lemma dll_head_prev: "dll h l xs \<Longrightarrow> get_prev l h = Some (before l xs)"
  using dll_split [of h l xs "[]"] by (simp add: links_def)

lemma INIT_LIST_HEAD_dll:
  "l \<in> dom h \<Longrightarrow> runs (INIT_LIST_HEAD l h) (\<lambda>h'. dll h' l [] \<and> same_outside {l} h h')"
  by (auto simp: INIT_LIST_HEAD_def runs_rules dll_def links_def same_outside_def)

lemma list_add_dll:
  assumes "dll h l xs" "new \<notin> set (l # xs)" "new \<in> dom h"
  shows "runs (list_add new l h)
    (\<lambda>h'. dll h' l (new # xs) \<and> same_outside (set (new # l # xs)) h h')"
  using list_add_between_dll [of h l "[]" xs new] assms
  by (simp add: list_add_def dll_head_next)

lemma list_add_tail_dll:
  assumes "dll h l xs" "new \<notin> set (l # xs)" "new \<in> dom h"
  shows "runs (list_add_tail new l h)
    (\<lambda>h'. dll h' l (xs @ [new]) \<and> same_outside (set (new # l # xs)) h h')"
  using list_add_between_dll [of h l xs "[]" new] assms
  by (simp add: list_add_tail_def dll_head_prev)

lemma list_add_rcu_eq:
  assumes "dll h l xs" "new \<notin> set (l # xs)" "new \<in> dom h"
  shows "list_add_rcu new l h = list_add new l h"
    and "list_add_tail_rcu new l h = list_add_tail new l h"
proof -
  have a: "after l xs \<in> dom h" "new \<noteq> after l xs" "l \<in> dom h" "new \<noteq> l"
    using dll_ends_dom(2,4) [of h l "[]" xs] dll_dom [OF assms(1)] assms by auto
  then show "list_add_rcu new l h = list_add new l h"
    using assms by (simp add: list_add_rcu_def list_add_def dll_head_next list_add_rcu_between_effect)
  have b: "before l xs \<in> dom h" "new \<noteq> before l xs"
    using dll_ends_dom(1,3) [of h l xs "[]"] assms by (auto simp del: last.simps)
  then show "list_add_tail_rcu new l h = list_add_tail new l h"
    using assms a
    by (simp add: list_add_tail_rcu_def list_add_tail_def dll_head_prev list_add_rcu_between_effect
        del: last.simps)
qed

lemma remove1_split: "distinct (xs @ x # ys) \<Longrightarrow> remove1 x (xs @ x # ys) = xs @ ys"
  by (simp add: remove1_append)

lemma list_unlink_remove1:
  assumes "dll h l xs" "x \<in> set xs"
  shows "runs (list_unlink x h)
    (\<lambda>h'. dll h' l (remove1 x xs) \<and> same_outside (set (l # remove1 x xs)) h h')"
proof -
  obtain as bs where xs: "xs = as @ x # bs" using assms(2) by (meson split_list)
  have "distinct xs" using assms(1) by (simp add: dll_def)
  then have "remove1 x xs = as @ bs" using xs remove1_split by metis
  with list_unlink_dll [of h l as x bs] assms(1) xs show ?thesis by simp
qed

lemma dll_remove1_notin: "dll h l xs \<Longrightarrow> x \<in> set xs \<Longrightarrow> x \<notin> set (l # remove1 x xs)"
  by (auto simp: dll_def)

lemma list_del_dll:
  assumes "dll h l xs" "x \<in> set xs"
  shows "runs (list_del x h) (\<lambda>h'. dll h' l (remove1 x xs) \<and> same_outside (set (l # xs)) h h'
    \<and> get_next x h' = Some LIST_POISON1 \<and> get_prev x h' = Some LIST_POISON2)"
proof -
  have xd: "x \<in> dom h" using assms dll_dom by fastforce
  have nx: "x \<notin> set (l # remove1 x xs)" by (rule dll_remove1_notin [OF assms])
  show ?thesis unfolding list_del_def runs_bind
  proof (rule runs_mono [OF list_unlink_remove1 [OF assms]])
    fix h1 assume h1: "dll h1 l (remove1 x xs) \<and> same_outside (set (l # remove1 x xs)) h h1"
    let ?h2 = "h1(x \<mapsto> (the (h1 x))\<lparr>lh_next := LIST_POISON1, lh_prev := LIST_POISON2\<rparr>)"
    have "x \<in> dom h1" using h1 xd by (simp add: same_outside_def)
    moreover have "dll ?h2 l (remove1 x xs)"
      by (rule dll_frame [where h = h1]) (use h1 nx in auto)
    moreover have "same_outside (set (l # xs)) h ?h2"
      using h1 assms(2) xd set_remove1_subset [of x xs] by (auto simp: same_outside_def)
    ultimately show "runs (set_next x LIST_POISON1 h1) (\<lambda>xa. runs (set_prev x LIST_POISON2 xa)
       (\<lambda>h'. dll h' l (remove1 x xs) \<and> same_outside (set (l # xs)) h h' \<and>
             get_next x h' = Some LIST_POISON1 \<and> get_prev x h' = Some LIST_POISON2))"
      by (simp add: runs_rules)
  qed
qed

text \<open>Removing an entry a second time writes through the poison address.\<close>

lemma list_del_twice:
  assumes "get_prev x h = Some LIST_POISON2" "get_next x h = Some LIST_POISON1"
    and "LIST_POISON1 \<notin> dom h"
  shows "list_del x h = None"
proof -
  have "h LIST_POISON1 = None" using assms(3) by auto
  then show ?thesis
    using assms(1,2) by (simp add: list_del_def list_unlink_def list_del_between_def set_prev_def)
qed

lemma list_del_init_dll:
  assumes "dll h l xs" "x \<in> set xs"
  shows "runs (list_del_init x h)
    (\<lambda>h'. dll h' l (remove1 x xs) \<and> dll h' x [] \<and> same_outside (set (l # xs)) h h')"
proof -
  have nx: "x \<notin> set (l # remove1 x xs)" by (rule dll_remove1_notin [OF assms])
  have sub: "set (l # remove1 x xs) \<subseteq> set (l # xs)" "{x} \<subseteq> set (l # xs)"
    using set_remove1_subset [of x xs] assms(2) by auto
  show ?thesis unfolding list_del_init_def runs_bind
  proof (rule runs_mono [OF list_unlink_remove1 [OF assms]])
    fix h1 assume h1: "dll h1 l (remove1 x xs) \<and> same_outside (set (l # remove1 x xs)) h h1"
    have "x \<in> dom h1" using h1 assms dll_dom by (fastforce simp: same_outside_def)
    from INIT_LIST_HEAD_dll [OF this]
    show "runs (INIT_LIST_HEAD x h1)
        (\<lambda>h'. dll h' l (remove1 x xs) \<and> dll h' x [] \<and> same_outside (set (l # xs)) h h')"
    proof (rule runs_mono)
      fix h2 assume h2: "dll h2 x [] \<and> same_outside {x} h1 h2"
      have "dll h2 l (remove1 x xs)"
        by (rule dll_frame [where h = h1]) (use h1 h2 nx in \<open>auto simp: same_outside_def\<close>)
      moreover have "same_outside (set (l # xs)) h h2"
        using h1 h2 sub by (blast intro: same_outside_trans same_outside_mono)
      ultimately show "dll h2 l (remove1 x xs) \<and> dll h2 x [] \<and> same_outside (set (l # xs)) h h2"
        using h2 by blast
    qed
  qed
qed

lemma list_move_dll:
  assumes "dll h l xs" "x \<in> set xs" "dll h m ys" "set (l # xs) \<inter> set (m # ys) = {}"
  shows "runs (list_move x m h) (\<lambda>h'. dll h' l (remove1 x xs) \<and> dll h' m (x # ys))"
proof -
  have sub: "set (l # remove1 x xs) \<subseteq> set (l # xs)" using set_remove1_subset [of x xs] by auto
  have nx: "x \<notin> set (l # remove1 x xs)" by (rule dll_remove1_notin [OF assms(1,2)])
  show ?thesis unfolding list_move_def runs_bind
  proof (rule runs_mono [OF list_unlink_remove1 [OF assms(1,2)]])
    fix h1 assume h1: "dll h1 l (remove1 x xs) \<and> same_outside (set (l # remove1 x xs)) h h1"
    have m1: "dll h1 m ys"
      by (rule dll_frame [OF assms(3)]) (use h1 sub assms(4) in \<open>auto simp: same_outside_def\<close>)
    have "x \<in> dom h1" "x \<notin> set (m # ys)"
      using h1 assms dll_dom [OF assms(1)] by (auto simp: same_outside_def)
    from list_add_dll [OF m1 this(2,1)]
    show "runs (list_add x m h1) (\<lambda>h'. dll h' l (remove1 x xs) \<and> dll h' m (x # ys))"
    proof (rule runs_mono, intro conjI)
      fix h2 assume h2: "dll h2 m (x # ys) \<and> same_outside (set (x # m # ys)) h1 h2"
      then show "dll h2 m (x # ys)" by simp
      have "z \<notin> set (x # m # ys)" if "z \<in> set (l # remove1 x xs)" for z
        using that nx sub assms(4) by auto
      then show "dll h2 l (remove1 x xs)"
        using h1 h2 by - (rule dll_frame [where h = h1], blast, unfold same_outside_def, blast)
    qed
  qed
qed

lemma list_empty_dll: "dll h l xs \<Longrightarrow> list_empty l h = Some (xs = [])"
  using dll_head_next [of h l xs] by (cases xs) (auto simp: list_empty_def dll_def)

lemma list_empty_careful_dll: "dll h l xs \<Longrightarrow> list_empty_careful l h = Some (xs = [])"
  using dll_head_next [of h l xs] dll_head_prev [of h l xs]
  by (cases xs) (auto simp: list_empty_careful_def dll_def)

section \<open>Joining two lists\<close>

lemma list_splice_between_effect:
  assumes "get_next l h = Some f" "get_prev l h = Some e" "get_next m h = Some t"
    and "f \<in> dom h" "m \<in> dom h" "e \<in> dom h" "t \<in> dom h" "f \<noteq> t" "m \<noteq> e"
  shows "runs (list_splice_between l m h) (\<lambda>h'. links h' m f \<and> links h' e t
    \<and> (\<forall>z. z \<noteq> m \<longrightarrow> z \<noteq> e \<longrightarrow> get_next z h' = get_next z h)
    \<and> (\<forall>z. z \<noteq> f \<longrightarrow> z \<noteq> t \<longrightarrow> get_prev z h' = get_prev z h)
    \<and> same_outside {f, m, e, t} h h')"
proof -
  define h1 where "h1 = h(f \<mapsto> (the (h f))\<lparr>lh_prev := m\<rparr>)"
  define h2 where "h2 = h1(m \<mapsto> (the (h1 m))\<lparr>lh_next := f\<rparr>)"
  define h3 where "h3 = h2(e \<mapsto> (the (h2 e))\<lparr>lh_next := t\<rparr>)"
  define h4 where "h4 = h3(t \<mapsto> (the (h3 t))\<lparr>lh_prev := e\<rparr>)"
  have dom: "dom h1 = dom h" "dom h2 = dom h" "dom h3 = dom h" "dom h4 = dom h"
    using assms(4-7) by (auto simp: h1_def h2_def h3_def h4_def)
  obtain nf nm ne nt where nodes: "h f = Some nf" "h m = Some nm" "h e = Some ne" "h t = Some nt"
    using assms(4-7) by blast
  have n: "get_next z h4 = (if z = e then Some t else if z = m then Some f else get_next z h)" for z
    by (simp add: h4_def h3_def h2_def h1_def nodes get_next_def assms(8,9))
  have p: "get_prev z h4 = (if z = t then Some e else if z = f then Some m else get_prev z h)" for z
    by (simp add: h4_def h3_def h2_def h1_def nodes get_prev_def assms(8,9) assms(9) [symmetric])
  have "list_splice_between l m h = Some h4"
    using assms(1-3) dom assms(4-7)
    by (auto simp: list_splice_between_def set_prev_def set_next_def h4_def h3_def h2_def h1_def
        split: option.splits)
  moreover have "same_outside {f, m, e, t} h h4"
    using dom by (simp add: same_outside_def) (simp add: h4_def h3_def h2_def h1_def)
  ultimately show ?thesis
    using n p assms(8,9) by (simp add: links_def)
qed

lemma list_splice_between_dll:
  assumes l: "dll h l xs" "xs \<noteq> []" and m: "dll h m ys"
    and disj: "set (l # xs) \<inter> set (m # ys) = {}"
  shows "runs (list_splice_between l m h)
    (\<lambda>h'. dll h' m (xs @ ys) \<and> same_outside (set (xs @ m # ys)) h h')"
proof -
  obtain f fs where xs: "xs = f # fs" using l(2) by (cases xs) auto
  have dists: "distinct (l # xs)" "distinct (m # ys)" using l m by (auto simp: dll_def)
  have lk: "get_next l h = Some f" "get_prev l h = Some (before f fs)" "get_next m h = Some (after m ys)"
    using dll_head_next [OF l(1)] dll_head_prev [OF l(1)] dll_head_next [OF m] xs by auto
  have e: "before f fs \<in> set xs" using xs by (cases fs rule: rev_cases) auto
  have t: "after m ys \<in> set (m # ys)" by (rule after_in)
  have dom: "f \<in> dom h" "m \<in> dom h" "before f fs \<in> dom h" "after m ys \<in> dom h"
    using dll_dom [OF l(1)] dll_dom [OF m] e t xs by auto
  have neq: "f \<noteq> after m ys" "m \<noteq> before f fs" using disj e t xs by auto
  have sx: "seg h f fs" using l(1) xs by (simp add: dll_def seg_append)
  have sy: "seg h (after m ys) (tl (ys @ [m]))" using m dll_split [of h m "[]" ys] by simp
  from list_splice_between_effect [OF lk dom neq] show ?thesis
  proof (rule runs_mono)
    fix h' assume h': "links h' m f \<and> links h' (before f fs) (after m ys)
      \<and> (\<forall>z. z \<noteq> m \<longrightarrow> z \<noteq> before f fs \<longrightarrow> get_next z h' = get_next z h)
      \<and> (\<forall>z. z \<noteq> f \<longrightarrow> z \<noteq> after m ys \<longrightarrow> get_prev z h' = get_prev z h)
      \<and> same_outside {f, m, before f fs, after m ys} h h'"
    have "seg h' f fs = seg h f fs"
    proof (rule seg_frame)
      fix z assume z: "z \<in> set (butlast (f # fs))"
      have "z \<noteq> before f fs"
        using z dists(1) xs by (metis append_butlast_last_id distinct_append disjoint_iff
            distinct.simps(2) list.distinct(1) list.set_intros(1))
      moreover have "z \<noteq> m" using in_set_butlastD [OF z] disj xs by auto
      ultimately show "get_next z h' = get_next z h" using h' by blast
    next
      fix z assume "z \<in> set fs"
      then have "z \<noteq> f" "z \<noteq> after m ys" using dists xs disj t by auto
      then show "get_prev z h' = get_prev z h" using h' by blast
    qed
    moreover have "seg h' (after m ys) (tl (ys @ [m])) = seg h (after m ys) (tl (ys @ [m]))"
    proof (rule seg_frame)
      fix z assume z: "z \<in> set (butlast (after m ys # tl (ys @ [m])))"
      then have "z \<in> set ys" by (cases ys) auto
      then have "z \<noteq> m" "z \<noteq> before f fs" using dists(2) disj e by auto
      then show "get_next z h' = get_next z h" using h' by blast
    next
      fix z assume z: "z \<in> set (tl (ys @ [m]))"
      then have "z \<noteq> after m ys" using dists(2) by (cases ys) auto
      moreover have "z \<noteq> f" using z set_tl_after [of ys m] disj xs by auto
      ultimately show "get_prev z h' = get_prev z h" using h' by blast
    qed
    ultimately have "seg h' m (xs @ ys @ [m])"
      using sx sy h' xs by (cases ys) (auto simp: seg_append)
    moreover have "distinct (m # xs @ ys)" using dists disj by auto
    moreover have "same_outside (set (xs @ m # ys)) h h'"
      using h' e t xs by (auto elim!: same_outside_mono simp del: last.simps)
    ultimately show "dll h' m (xs @ ys) \<and> same_outside (set (xs @ m # ys)) h h'"
      by (simp add: dll_def)
  qed
qed

lemma list_splice_init_dll:
  assumes l: "dll h l xs" and m: "dll h m ys" and disj: "set (l # xs) \<inter> set (m # ys) = {}"
  shows "runs (list_splice_init l m h) (\<lambda>h'. dll h' l [] \<and> dll h' m (xs @ ys))"
proof (cases "xs = []")
  case True
  then show ?thesis using l m by (simp add: list_splice_init_def list_empty_dll)
next
  case False
  have "runs (list_splice_between l m h) (\<lambda>h'. runs (INIT_LIST_HEAD l h')
     (\<lambda>h''. dll h'' l [] \<and> dll h'' m (xs @ ys)))"
  proof (rule runs_mono [OF list_splice_between_dll [OF l False m disj]])
    fix h1 assume h1: "dll h1 m (xs @ ys) \<and> same_outside (set (xs @ m # ys)) h h1"
    have "l \<in> dom h1" using h1 dll_dom [OF l] by (auto simp: same_outside_def)
    from INIT_LIST_HEAD_dll [OF this]
    show "runs (INIT_LIST_HEAD l h1) (\<lambda>h''. dll h'' l [] \<and> dll h'' m (xs @ ys))"
    proof (rule runs_mono, intro conjI)
      fix h2 assume h2: "dll h2 l [] \<and> same_outside {l} h1 h2"
      then show "dll h2 l []" by simp
      have "l \<notin> set (m # xs @ ys)" using disj l by (auto simp: dll_def)
      then show "dll h2 m (xs @ ys)"
        by - (rule dll_frame [where h = h1], use h1 h2 in \<open>auto simp: same_outside_def\<close>)
    qed
  qed
  then show ?thesis using False l by (simp add: list_splice_init_def list_empty_dll)
qed

section \<open>Traversals\<close>

lemma dll_neighbours:
  assumes "dll h l (xs @ y # ys)"
  shows "get_next y h = Some (after l ys)" "get_prev y h = Some (before l xs)" "y \<noteq> l"
proof -
  have "seg h l (xs @ y # (ys @ [l]))" "distinct (l # xs @ y # ys)"
    using assms by (simp_all add: dll_def)
  then have "links h (before l xs) y" "seg h y (ys @ [l])" "y \<noteq> l"
    by (simp_all add: seg_append)
  then show "get_next y h = Some (after l ys)" "get_prev y h = Some (before l xs)" "y \<noteq> l"
    by (cases ys; simp add: links_def)+
qed

lemma list_for_each_from_dll:
  assumes "dll h l (xs @ ys)"
  shows "list_for_each_from h l body (after l ys) s = fold_steps body ys s"
  using assms
proof (induction ys arbitrary: xs s)
  case Nil
  then show ?case by (simp add: list_for_each_from.simps)
next
  case (Cons y ys)
  note dll_neighbours [OF Cons.prems]
  moreover have "list_for_each_from h l body (after l ys) t = fold_steps body ys t" for t
    using Cons.IH [of "xs @ [y]" t] Cons.prems by simp
  ultimately show ?case
    by (subst list_for_each_from.simps) simp
qed

lemma list_for_each_entry_dll:
  "dll h l xs \<Longrightarrow> list_for_each_entry h l body s = fold_steps body xs s"
  using list_for_each_from_dll [of h l "[]" xs body s]
  by (simp add: list_for_each_entry_def dll_head_next)

lemma list_for_each_entry_continue_dll:
  assumes "dll h l (xs @ y # ys)" "y \<noteq> 0"
  shows "list_for_each_entry_continue h l body (list_prepare_entry y l) s = fold_steps body ys s"
    and "list_for_each_entry_continue h l body (list_prepare_entry 0 l) s
      = fold_steps body (xs @ y # ys) s"
  using list_for_each_from_dll [of h l "xs @ [y]" ys body s] assms dll_neighbours(1) [OF assms(1)]
    list_for_each_entry_dll [OF assms(1), of body s]
  by (simp_all add: list_for_each_entry_continue_def list_prepare_entry_def list_for_each_entry_def)

lemma list_for_each_back_from_dll:
  assumes "dll h l (xs @ ys)"
  shows "list_for_each_back_from h l body (before l xs) s = fold_steps body (rev xs) s"
  using assms
proof (induction xs arbitrary: ys s rule: rev_induct)
  case Nil
  then show ?case by (simp add: list_for_each_back_from.simps)
next
  case (snoc x xs)
  have "dll h l (xs @ x # ys)" using snoc.prems by simp
  note dll_neighbours [OF this]
  moreover have "list_for_each_back_from h l body (before l xs) t = fold_steps body (rev xs) t" for t
    using snoc.IH [of "x # ys" t] snoc.prems by simp
  ultimately show ?case
    by (simp add: list_for_each_back_from.simps [of h l body x])
qed

lemma list_for_each_entry_reverse_dll:
  "dll h l xs \<Longrightarrow> list_for_each_entry_reverse h l body s = fold_steps body (rev xs) s"
  using list_for_each_back_from_dll [of h l xs "[]" body s]
  by (simp add: list_for_each_entry_reverse_def dll_head_prev)

text \<open>
  A body of a \<open>_safe\<close> traversal that, at the entry it is given, changes the client state by
  \<open>g\<close> and unlinks exactly the entries that do not satisfy \<open>keep\<close>.
\<close>

definition unlinks_current ::
  "ptr \<Rightarrow> (ptr \<Rightarrow> bool) \<Rightarrow> (ptr \<Rightarrow> 's \<Rightarrow> 's) \<Rightarrow> (ptr \<Rightarrow> lstore \<times> 's \<Rightarrow> (lstore \<times> 's) option) \<Rightarrow> bool" where
  "unlinks_current l keep g body \<longleftrightarrow> (\<forall>ys x zs h s. dll h l (ys @ x # zs) \<longrightarrow>
     runs (body x (h, s)) (\<lambda>(h', s'). s' = g x s \<and>
        dll h' l ((if keep x then ys @ [x] else ys) @ zs)))"

lemma list_for_each_safe_from_dll:
  assumes body: "unlinks_current l keep g body"
  shows "dll h l (ys @ x # zs) \<Longrightarrow>
    runs (list_for_each_safe_from l body x (after l zs) (h, s))
      (\<lambda>(h', s'). s' = fold g (x # zs) s \<and> dll h' l (ys @ filter keep (x # zs)))"
proof (induction zs arbitrary: ys x h s)
  case Nil
  have "x \<noteq> l" using Nil by (auto simp: dll_def)
  have "runs (body x (h, s)) (\<lambda>(h', s'). s' = g x s \<and> dll h' l (if keep x then ys @ [x] else ys))"
    using body Nil by (fastforce simp: unlinks_current_def)
  then obtain h' where b: "body x (h, s) = Some (h', g x s)"
    and d: "dll h' l (if keep x then ys @ [x] else ys)"
    by (auto simp: runs_iff)
  have "list_for_each_safe_from l body x l (h, s) = Some (h', g x s)"
    using \<open>x \<noteq> l\<close> b dll_head_next [OF d]
    by (simp add: list_for_each_safe_from.simps [of l body x] list_for_each_safe_from.simps [of l body l])
  then show ?case using d by (auto split: if_splits)
next
  case (Cons z zs)
  have "x \<noteq> l" using Cons.prems by (auto simp: dll_def)
  have "runs (body x (h, s))
      (\<lambda>(h', s'). s' = g x s \<and> dll h' l ((if keep x then ys @ [x] else ys) @ z # zs))"
    using body Cons.prems by (fastforce simp: unlinks_current_def)
  then obtain h' where b: "body x (h, s) = Some (h', g x s)"
    and d: "dll h' l ((if keep x then ys @ [x] else ys) @ z # zs)"
    by (auto simp: runs_iff)
  have "get_next z h' = Some (after l zs)"
    by (rule dll_neighbours [OF d])
  then have "list_for_each_safe_from l body x z (h, s) =
      list_for_each_safe_from l body z (after l zs) (h', g x s)"
    using \<open>x \<noteq> l\<close> b by (simp add: list_for_each_safe_from.simps [of l body x])
  with Cons.IH [OF d, of "g x s"] show ?case by (auto split: if_splits)
qed

lemma list_for_each_entry_safe_dll:
  assumes "unlinks_current l keep g body" "dll h l xs"
  shows "runs (list_for_each_entry_safe l body (h, s))
    (\<lambda>(h', s'). s' = fold g xs s \<and> dll h' l (filter keep xs))"
proof (cases xs)
  case Nil
  then show ?thesis
    using dll_head_next [OF assms(2)] assms(2)
    by (simp add: list_for_each_entry_safe_def list_for_each_safe_from.simps)
next
  case (Cons x zs)
  have "get_next x h = Some (after l zs)"
    using dll_neighbours [of h l "[]" x zs] assms(2) Cons by simp
  with list_for_each_safe_from_dll [OF assms(1), of h "[]" x zs s] assms(2) Cons show ?thesis
    using dll_head_next [OF assms(2)] by (simp add: list_for_each_entry_safe_def)
qed

section \<open>The interface of the lists\<close>

text \<open>
  What the queues of the daemon rely on: a list anchored at \<open>l\<close> represents a sequence of
  distinct entries, insertion puts an entry in front, removal takes it out wherever it is,
  and neither disturbs another list of the same store.
\<close>

locale intrusive_list =
  fixes rep :: "'h \<Rightarrow> ptr \<Rightarrow> ptr list \<Rightarrow> bool"
    and mem :: "'h \<Rightarrow> ptr set"
    and add :: "ptr \<Rightarrow> ptr \<Rightarrow> 'h \<Rightarrow> 'h option"
    and del :: "ptr \<Rightarrow> 'h \<Rightarrow> 'h option"
  assumes rep_distinct: "rep h l xs \<Longrightarrow> distinct (l # xs)"
    and rep_mem: "rep h l xs \<Longrightarrow> set xs \<subseteq> mem h"
    and add_rep: "rep h l xs \<Longrightarrow> new \<notin> set (l # xs) \<Longrightarrow> new \<in> mem h \<Longrightarrow>
      runs (add new l h) (\<lambda>h'. rep h' l (new # xs) \<and> mem h' = mem h)"
    and add_frame: "rep h l xs \<Longrightarrow> new \<notin> set (l # xs) \<Longrightarrow> new \<in> mem h \<Longrightarrow> rep h m ys \<Longrightarrow>
      set (m # ys) \<inter> set (new # l # xs) = {} \<Longrightarrow> runs (add new l h) (\<lambda>h'. rep h' m ys)"
    and del_rep: "rep h l xs \<Longrightarrow> x \<in> set xs \<Longrightarrow>
      runs (del x h) (\<lambda>h'. rep h' l (remove1 x xs) \<and> mem h' = mem h)"
    and del_frame: "rep h l xs \<Longrightarrow> x \<in> set xs \<Longrightarrow> rep h m ys \<Longrightarrow>
      set (m # ys) \<inter> set (l # xs) = {} \<Longrightarrow> runs (del x h) (\<lambda>h'. rep h' m ys)"
begin

lemma add_all:
  "rep h l xs \<Longrightarrow> distinct news \<Longrightarrow> set news \<inter> set (l # xs) = {} \<Longrightarrow> set news \<subseteq> mem h \<Longrightarrow>
    runs (fold_steps (\<lambda>x. add x l) news h) (\<lambda>h'. rep h' l (rev news @ xs) \<and> mem h' = mem h)"
proof (induction news arbitrary: h xs)
  case Nil
  then show ?case by simp
next
  case (Cons n news)
  have "runs (add n l h) (\<lambda>h'. rep h' l (n # xs) \<and> mem h' = mem h)"
    using Cons.prems by (intro add_rep) auto
  then obtain h' where h': "add n l h = Some h'" "rep h' l (n # xs)" "mem h' = mem h"
    by (auto simp: runs_iff)
  from h'(2) have "runs (fold_steps (\<lambda>x. add x l) news h')
      (\<lambda>h''. rep h'' l (rev news @ n # xs) \<and> mem h'' = mem h')"
    by (rule Cons.IH) (use Cons.prems h'(3) in auto)
  then show ?case using h' by simp
qed

lemma del_all:
  "rep h l xs \<Longrightarrow> runs (fold_steps del xs h) (\<lambda>h'. rep h' l [] \<and> mem h' = mem h)"
proof (induction xs arbitrary: h)
  case Nil
  then show ?case by simp
next
  case (Cons x xs)
  have "runs (del x h) (\<lambda>h'. rep h' l (remove1 x (x # xs)) \<and> mem h' = mem h)"
    by (rule del_rep [OF Cons.prems]) simp
  then obtain h' where "del x h = Some h'" "rep h' l xs" "mem h' = mem h"
    by (auto simp: runs_iff)
  with Cons.IH [of h'] show ?case by simp
qed

lemma add_del:
  assumes "rep h l xs" "new \<notin> set (l # xs)" "new \<in> mem h"
  shows "runs (Option.bind (add new l h) (del new)) (\<lambda>h'. rep h' l xs \<and> mem h' = mem h)"
proof -
  obtain h' where h': "add new l h = Some h'" "rep h' l (new # xs)" "mem h' = mem h"
    using add_rep [OF assms] by (auto simp: runs_iff)
  show ?thesis using del_rep [OF h'(2), of new] h' by simp
qed

end

lemma list_add_frame:
  assumes "dll h l xs" "new \<notin> set (l # xs)" "new \<in> dom h" "dll h m ys"
    and "set (m # ys) \<inter> set (new # l # xs) = {}"
  shows "runs (list_add new l h) (\<lambda>h'. dll h' m ys)"
  using list_add_dll [OF assms(1-3)]
proof (rule runs_mono)
  fix h' assume "dll h' l (new # xs) \<and> same_outside (set (new # l # xs)) h h'"
  then have "h' z = h z" if "z \<in> set (m # ys)" for z
    using that assms(5) unfolding same_outside_def by blast
  then show "dll h' m ys" by (rule dll_frame [OF assms(4)])
qed

lemma list_del_frame:
  assumes "dll h l xs" "x \<in> set xs" "dll h m ys" and "set (m # ys) \<inter> set (l # xs) = {}"
  shows "runs (list_del x h) (\<lambda>h'. dll h' m ys)"
  using list_del_dll [OF assms(1,2)]
proof (rule runs_mono)
  fix h' assume "dll h' l (remove1 x xs) \<and> same_outside (set (l # xs)) h h'
    \<and> get_next x h' = Some LIST_POISON1 \<and> get_prev x h' = Some LIST_POISON2"
  then have "h' z = h z" if "z \<in> set (m # ys)" for z
    using that assms(4) unfolding same_outside_def by blast
  then show "dll h' m ys" by (rule dll_frame [OF assms(3)])
qed

interpretation dl: intrusive_list dll dom list_add list_del
proof unfold_locales
  show "dll h l xs \<Longrightarrow> distinct (l # xs)" for h l xs by (simp add: dll_def)
  show "dll h l xs \<Longrightarrow> set xs \<subseteq> dom h" for h l xs using dll_dom [of h l xs] by simp
  show "dll h l xs \<Longrightarrow> new \<notin> set (l # xs) \<Longrightarrow> new \<in> dom h \<Longrightarrow>
      runs (list_add new l h) (\<lambda>h'. dll h' l (new # xs) \<and> dom h' = dom h)" for h l xs new
    by (erule (2) runs_mono [OF list_add_dll]) (simp add: same_outside_def)
  show "dll h l xs \<Longrightarrow> x \<in> set xs \<Longrightarrow>
      runs (list_del x h) (\<lambda>h'. dll h' l (remove1 x xs) \<and> dom h' = dom h)" for h l xs x
    by (erule (1) runs_mono [OF list_del_dll]) (simp add: same_outside_def)
qed (blast intro: list_add_frame list_del_frame)+

section \<open>Properties of the lists\<close>

text \<open>A store with four separate entries, for the examples.\<close>

definition fresh_store :: lstore where
  "fresh_store = [1 \<mapsto> \<lparr>lh_next = 1, lh_prev = 1\<rparr>, 2 \<mapsto> \<lparr>lh_next = 0, lh_prev = 0\<rparr>,
     3 \<mapsto> \<lparr>lh_next = 0, lh_prev = 0\<rparr>, 4 \<mapsto> \<lparr>lh_next = 0, lh_prev = 0\<rparr>]"

lemma fresh_store_dll: "dll fresh_store 1 []"
  by (simp add: fresh_store_def dll_def links_def)

text \<open>
  Entries put one after another into a well-formed list with \<open>list_add\<close> end up in front of
  the old entries, last one first, in a well-formed list; no link outside it is followed.
\<close>
theorem list_add_sequence:
  assumes "dll h l xs" "distinct news" "set news \<inter> set (l # xs) = {}" "set news \<subseteq> dom h"
  shows "runs (fold_steps (\<lambda>x. list_add x l) news h) (\<lambda>h'. dll h' l (rev news @ xs) \<and> dom h' = dom h)"
  using assms by (rule dl.add_all)

theorem list_add_sequence_witness:
  "runs (fold_steps (\<lambda>x. list_add x 1) [2, 3, 4] fresh_store)
    (\<lambda>h'. dll h' 1 (rev [2, 3, 4] @ []) \<and> dom h' = dom fresh_store)"
  by (rule list_add_sequence [OF fresh_store_dll]) (simp_all add: fresh_store_def)

text \<open>
  C33: \<open>list_del\<close> of an entry of a well-formed list takes exactly that entry out, leaves every other
  list of the store as it was and poisons the links of the entry.
\<close>
theorem list_del_exact:
  assumes "dll h l xs" "x \<in> set xs" "dll h m ys" "set (m # ys) \<inter> set (l # xs) = {}"
  shows "runs (list_del x h) (\<lambda>h'. dll h' l (remove1 x xs) \<and> dll h' m ys
    \<and> get_next x h' = Some LIST_POISON1 \<and> get_prev x h' = Some LIST_POISON2)"
  using runs_conjI [OF list_del_dll [OF assms(1,2)] list_del_frame [OF assms]]
  by (rule runs_mono) blast

definition two_lists :: lstore where
  "two_lists = [1 \<mapsto> \<lparr>lh_next = 2, lh_prev = 2\<rparr>, 2 \<mapsto> \<lparr>lh_next = 1, lh_prev = 1\<rparr>,
     3 \<mapsto> \<lparr>lh_next = 4, lh_prev = 4\<rparr>, 4 \<mapsto> \<lparr>lh_next = 3, lh_prev = 3\<rparr>]"

theorem list_del_exact_witness:
  "runs (list_del 2 two_lists) (\<lambda>h'. dll h' 1 (remove1 2 [2]) \<and> dll h' 3 [4]
    \<and> get_next 2 h' = Some LIST_POISON1 \<and> get_prev 2 h' = Some LIST_POISON2)"
  by (rule list_del_exact) (simp_all add: two_lists_def dll_def links_def)

text \<open>
  C32: a \<open>list_for_each_entry_safe\<close> loop whose body may unlink the entry it is given visits every entry
  of the list once, in order, ends, and leaves the list of the entries that the body kept.
\<close>
theorem list_for_each_entry_safe_visits_all:
  assumes "unlinks_current l keep g body" "dll h l xs"
  shows "runs (list_for_each_entry_safe l body (h, s))
    (\<lambda>(h', s'). s' = fold g xs s \<and> dll h' l (filter keep xs))"
  using assms by (rule list_for_each_entry_safe_dll)

text \<open>The loop of the queues' destructors: unlink every entry and count them.\<close>

definition unlink_and_count :: "ptr \<Rightarrow> lstore \<times> nat \<Rightarrow> (lstore \<times> nat) option" where
  "unlink_and_count x hs = do { h \<leftarrow> list_del x (fst hs); Some (h, Suc (snd hs)) }"

lemma unlink_and_count_unlinks:
  "unlinks_current l (\<lambda>_. False) (\<lambda>_. Suc) unlink_and_count"
proof -
  have "runs (list_del x h) (\<lambda>h'. dll h' l (ys @ zs))" if "dll h l (ys @ x # zs)" for ys x zs h
  proof -
    have "remove1 x (ys @ x # zs) = ys @ zs"
      using that by (intro remove1_split) (simp add: dll_def)
    with list_del_dll [OF that, of x] show ?thesis by (auto elim!: runs_mono)
  qed
  then show ?thesis
    by (simp add: unlinks_current_def unlink_and_count_def)
qed

theorem list_for_each_entry_safe_visits_all_witness:
  "runs (list_for_each_entry_safe 3 unlink_and_count (two_lists, 0))
    (\<lambda>(h', s'). s' = fold (\<lambda>_. Suc) [4::ptr] 0 \<and> dll h' 3 (filter (\<lambda>_. False) [4]))"
  by (rule list_for_each_entry_safe_visits_all [OF unlink_and_count_unlinks])
    (simp add: two_lists_def dll_def links_def)

end
