(* ===== verification/Hlist.thy ===== *)
theory Hlist
  imports Linux_List
begin

text \<open>
  The lists with a single-pointer head of \<open>libmeshias/alarm/linux_list.h\<close> (\<open>struct hlist_head\<close>,
  \<open>struct hlist_node\<close>), at the level of their pointers. The back pointer \<open>pprev\<close> of a node is the
  address of the pointer that leads to the node: the field \<open>first\<close> of a head or the field \<open>next\<close>
  of a node. Both are the first field of their structure, so the address of the structure names
  them. A store therefore has two maps: \<open>h_link\<close> from the address of a head or node to its
  \<open>first\<close> or \<open>next\<close>, and \<open>h_pprev\<close> from the address of a node to its \<open>pprev\<close>. Reading or
  writing through \<open>NULL\<close> or outside the maps is undefined. \<open>hll h l xs\<close> says that the list at
  head \<open>l\<close> runs through the nodes \<open>xs\<close>; each operation is the obvious one on \<open>xs\<close>, and the
  traversals end and visit exactly \<open>xs\<close>. These lists provide the interface \<open>intrusive_list\<close> of
  \<^theory_text>\<open>Linux_List\<close> as well.
\<close>

section \<open>The store\<close>

record hstore =
  h_link :: "ptr \<rightharpoonup> ptr"
  h_pprev :: "ptr \<rightharpoonup> ptr"

definition link_at :: "ptr \<Rightarrow> hstore \<Rightarrow> ptr option" where
  "link_at p h = (if p = 0 then None else h_link h p)"

definition pprev_of :: "ptr \<Rightarrow> hstore \<Rightarrow> ptr option" where
  "pprev_of p h = (if p = 0 then None else h_pprev h p)"

definition put_link :: "ptr \<Rightarrow> ptr \<Rightarrow> hstore \<Rightarrow> hstore" where
  "put_link p v h = h\<lparr>h_link := (h_link h)(p \<mapsto> v)\<rparr>"

definition put_pprev :: "ptr \<Rightarrow> ptr \<Rightarrow> hstore \<Rightarrow> hstore" where
  "put_pprev p v h = h\<lparr>h_pprev := (h_pprev h)(p \<mapsto> v)\<rparr>"

definition set_link :: "ptr \<Rightarrow> ptr \<Rightarrow> hstore \<Rightarrow> hstore option" where
  "set_link p v h = (case link_at p h of None \<Rightarrow> None | Some _ \<Rightarrow> Some (put_link p v h))"

definition set_pprev :: "ptr \<Rightarrow> ptr \<Rightarrow> hstore \<Rightarrow> hstore option" where
  "set_pprev p v h = (case pprev_of p h of None \<Rightarrow> None | Some _ \<Rightarrow> Some (put_pprev p v h))"

section \<open>Operations\<close>

definition INIT_HLIST_HEAD :: "ptr \<Rightarrow> hstore \<Rightarrow> hstore option" where
  "INIT_HLIST_HEAD l h = set_link l 0 h"

definition INIT_HLIST_NODE :: "ptr \<Rightarrow> hstore \<Rightarrow> hstore option" where
  "INIT_HLIST_NODE n h = do { h \<leftarrow> set_link n 0 h; set_pprev n 0 h }"

definition hlist_unhashed :: "ptr \<Rightarrow> hstore \<Rightarrow> bool option" where
  "hlist_unhashed n h = map_option (\<lambda>p. p = 0) (pprev_of n h)"

definition hlist_empty :: "ptr \<Rightarrow> hstore \<Rightarrow> bool option" where
  "hlist_empty l h = map_option (\<lambda>p. p = 0) (link_at l h)"

definition hlist_unlink :: "ptr \<Rightarrow> hstore \<Rightarrow> hstore option" where
  "hlist_unlink n h = do {
     nxt \<leftarrow> link_at n h;
     pp \<leftarrow> pprev_of n h;
     h \<leftarrow> set_link pp nxt h;
     if nxt \<noteq> 0 then set_pprev nxt pp h else Some h }"

definition hlist_del :: "ptr \<Rightarrow> hstore \<Rightarrow> hstore option" where
  "hlist_del n h = do {
     h \<leftarrow> hlist_unlink n h;
     h \<leftarrow> set_link n LIST_POISON1 h;
     set_pprev n LIST_POISON2 h }"

definition hlist_del_rcu :: "ptr \<Rightarrow> hstore \<Rightarrow> hstore option" where
  "hlist_del_rcu n h = do {
     h \<leftarrow> hlist_unlink n h;
     set_pprev n LIST_POISON2 h }"

definition hlist_del_init :: "ptr \<Rightarrow> hstore \<Rightarrow> hstore option" where
  "hlist_del_init n h = do {
     pp \<leftarrow> pprev_of n h;
     if pp \<noteq> 0 then do { h \<leftarrow> hlist_unlink n h; INIT_HLIST_NODE n h } else Some h }"

definition hlist_add_head :: "ptr \<Rightarrow> ptr \<Rightarrow> hstore \<Rightarrow> hstore option" where
  "hlist_add_head n l h = do {
     first \<leftarrow> link_at l h;
     h \<leftarrow> set_link n first h;
     h \<leftarrow> (if first \<noteq> 0 then set_pprev first n h else Some h);
     h \<leftarrow> set_link l n h;
     set_pprev n l h }"

definition hlist_add_head_rcu :: "ptr \<Rightarrow> ptr \<Rightarrow> hstore \<Rightarrow> hstore option" where
  "hlist_add_head_rcu n l h = do {
     first \<leftarrow> link_at l h;
     h \<leftarrow> set_link n first h;
     h \<leftarrow> set_pprev n l h;
     h \<leftarrow> (if first \<noteq> 0 then set_pprev first n h else Some h);
     set_link l n h }"

definition hlist_add_before :: "ptr \<Rightarrow> ptr \<Rightarrow> hstore \<Rightarrow> hstore option" where
  "hlist_add_before n nxt h = do {
     pp \<leftarrow> pprev_of nxt h;
     h \<leftarrow> set_pprev n pp h;
     h \<leftarrow> set_link n nxt h;
     h \<leftarrow> set_pprev nxt n h;
     pp \<leftarrow> pprev_of n h;
     set_link pp n h }"

definition hlist_add_after :: "ptr \<Rightarrow> ptr \<Rightarrow> hstore \<Rightarrow> hstore option" where
  "hlist_add_after n nxt h = do {
     v \<leftarrow> link_at n h;
     h \<leftarrow> set_link nxt v h;
     h \<leftarrow> set_link n nxt h;
     h \<leftarrow> set_pprev nxt n h;
     v \<leftarrow> link_at nxt h;
     if v \<noteq> 0 then set_pprev v nxt h else Some h }"

text \<open>
  The traversals. An entry is named by the address of its node. A body of the plain traversals
  only changes the state of the client; a body of the \<open>_safe\<close> traversals may unlink the entry it
  is given.
\<close>

partial_function (option) hlist_for_each_from ::
  "hstore \<Rightarrow> (ptr \<Rightarrow> 's \<Rightarrow> 's option) \<Rightarrow> ptr \<Rightarrow> 's \<Rightarrow> 's option" where
  "hlist_for_each_from h body pos s =
     (if pos = 0 then Some s
      else do {
        s \<leftarrow> body pos s;
        n \<leftarrow> link_at pos h;
        hlist_for_each_from h body n s })"

definition hlist_for_each :: "hstore \<Rightarrow> ptr \<Rightarrow> (ptr \<Rightarrow> 's \<Rightarrow> 's option) \<Rightarrow> 's \<Rightarrow> 's option" where
  "hlist_for_each h l body s = do { pos \<leftarrow> link_at l h; hlist_for_each_from h body pos s }"

definition hlist_for_each_continue ::
  "hstore \<Rightarrow> (ptr \<Rightarrow> 's \<Rightarrow> 's option) \<Rightarrow> ptr \<Rightarrow> 's \<Rightarrow> 's option" where
  "hlist_for_each_continue h body pos s = do {
     pos \<leftarrow> link_at pos h;
     hlist_for_each_from h body pos s }"

partial_function (option) hlist_for_each_safe_from ::
  "(ptr \<Rightarrow> hstore \<times> 's \<Rightarrow> (hstore \<times> 's) option) \<Rightarrow> ptr \<Rightarrow> hstore \<times> 's \<Rightarrow> (hstore \<times> 's) option" where
  "hlist_for_each_safe_from body pos hs =
     (if pos = 0 then Some hs
      else do {
        n \<leftarrow> link_at pos (fst hs);
        hs \<leftarrow> body pos hs;
        hlist_for_each_safe_from body n hs })"

definition hlist_for_each_safe ::
  "ptr \<Rightarrow> (ptr \<Rightarrow> hstore \<times> 's \<Rightarrow> (hstore \<times> 's) option) \<Rightarrow> hstore \<times> 's \<Rightarrow> (hstore \<times> 's) option" where
  "hlist_for_each_safe l body hs = do {
     pos \<leftarrow> link_at l (fst hs);
     hlist_for_each_safe_from body pos hs }"

section \<open>Reading and writing the store\<close>

lemma runs_set_link [runs_rules]:
  "runs (set_link p v h) Q \<longleftrightarrow> (\<exists>u. link_at p h = Some u) \<and> Q (put_link p v h)"
  by (auto simp: set_link_def split: option.splits)

lemma runs_set_pprev [runs_rules]:
  "runs (set_pprev p v h) Q \<longleftrightarrow> (\<exists>u. pprev_of p h = Some u) \<and> Q (put_pprev p v h)"
  by (auto simp: set_pprev_def split: option.splits)

lemma link_at_put [simp]:
  "link_at z (put_link p v h) = (if z = p \<and> p \<noteq> 0 then Some v else link_at z h)"
  "link_at z (put_pprev p v h) = link_at z h"
  by (auto simp: link_at_def put_link_def put_pprev_def)

lemma pprev_of_put [simp]:
  "pprev_of z (put_pprev p v h) = (if z = p \<and> p \<noteq> 0 then Some v else pprev_of z h)"
  "pprev_of z (put_link p v h) = pprev_of z h"
  by (auto simp: pprev_of_def put_link_def put_pprev_def)

lemma put_commute [simp]: "put_link p v (put_pprev q u h) = put_pprev q u (put_link p v h)"
  by (simp add: put_link_def put_pprev_def)

lemma put_pprev_twist: "p \<noteq> q \<Longrightarrow> put_pprev p v (put_pprev q u h) = put_pprev q u (put_pprev p v h)"
  by (simp add: put_pprev_def fun_upd_twist)

lemma at_NULL [simp]: "link_at 0 h = None" "pprev_of 0 h = None"
  by (simp_all add: link_at_def pprev_of_def)

lemma at_not_NULL: "link_at p h = Some v \<Longrightarrow> p \<noteq> 0" "pprev_of p h = Some v \<Longrightarrow> p \<noteq> 0"
  by (auto simp: link_at_def pprev_of_def split: if_splits)

text \<open>The nodes and the heads that a store has room for.\<close>

definition is_node :: "ptr \<Rightarrow> hstore \<Rightarrow> bool" where
  "is_node p h \<longleftrightarrow> link_at p h \<noteq> None \<and> pprev_of p h \<noteq> None"

definition nodes :: "hstore \<Rightarrow> ptr set" where
  "nodes h = {p. is_node p h}"

lemma nodes_put [simp]:
  "link_at p h = Some u \<Longrightarrow> nodes (put_link p v h) = nodes h"
  "pprev_of p h = Some u \<Longrightarrow> nodes (put_pprev p v h) = nodes h"
  by (auto simp: nodes_def is_node_def)

lemma nodesD: "n \<in> nodes h \<Longrightarrow> \<exists>u v. link_at n h = Some u \<and> pprev_of n h = Some v \<and> n \<noteq> 0"
  by (cases "n = 0") (auto simp: nodes_def is_node_def)

section \<open>Well-formed lists\<close>

text \<open>
  \<open>hseg h a xs\<close>: from the pointer at \<open>a\<close> the nodes \<open>xs\<close> follow one another, each with a back
  pointer to the pointer that leads to it.
\<close>

fun hseg :: "hstore \<Rightarrow> ptr \<Rightarrow> ptr list \<Rightarrow> bool" where
  "hseg h a [] \<longleftrightarrow> True"
| "hseg h a (x # xs) \<longleftrightarrow> link_at a h = Some x \<and> pprev_of x h = Some a \<and> hseg h x xs"

definition hll :: "hstore \<Rightarrow> ptr \<Rightarrow> ptr list \<Rightarrow> bool" where
  "hll h l xs \<longleftrightarrow> distinct (l # xs) \<and> hseg h l xs \<and> link_at (last (l # xs)) h = Some 0"

lemma hseg_append: "hseg h a (xs @ ys) \<longleftrightarrow> hseg h a xs \<and> hseg h (last (a # xs)) ys"
  by (induction xs arbitrary: a) auto

lemma hseg_frame:
  "(\<And>z. z \<in> set (butlast (a # xs)) \<Longrightarrow> link_at z h' = link_at z h) \<Longrightarrow>
   (\<And>z. z \<in> set xs \<Longrightarrow> pprev_of z h' = pprev_of z h) \<Longrightarrow> hseg h' a xs = hseg h a xs"
  by (induction xs arbitrary: a) auto

lemma hll_nodes: "hll h l xs \<Longrightarrow> set xs \<subseteq> nodes h"
proof -
  have "hseg h a ys \<Longrightarrow> link_at (last (a # ys)) h = Some 0 \<Longrightarrow> set ys \<subseteq> nodes h" for a ys
  proof (induction ys arbitrary: a)
    case (Cons y ys)
    then show ?case by (cases ys) (auto simp: nodes_def is_node_def)
  qed simp
  from this [of l xs] show "hll h l xs \<Longrightarrow> set xs \<subseteq> nodes h" by (simp only: hll_def)
qed

lemma hll_not_NULL: "hll h l xs \<Longrightarrow> 0 \<notin> set (l # xs)"
proof -
  assume d: "hll h l xs"
  have "l \<noteq> 0" using d by (cases xs) (auto simp: hll_def dest: at_not_NULL)
  moreover have "0 \<notin> set xs" using hll_nodes [OF d] by (auto simp: nodes_def is_node_def)
  ultimately show ?thesis by simp
qed

text \<open>The entry that follows a position, \<open>NULL\<close> at the end.\<close>

abbreviation follower :: "ptr list \<Rightarrow> ptr" where
  "follower ys \<equiv> hd (ys @ [0])"

lemma hll_split:
  "hll h l (xs @ ys) \<longleftrightarrow> distinct (l # xs @ ys) \<and> hseg h l xs
     \<and> link_at (last (l # xs)) h = Some (follower ys)
     \<and> (ys \<noteq> [] \<longrightarrow> pprev_of (follower ys) h = Some (last (l # xs)) \<and> hseg h (follower ys) (tl ys)
          \<and> link_at (last ys) h = Some 0)"
  by (cases ys) (auto simp: hll_def hseg_append)

text \<open>Nothing that a list uses has changed.\<close>

definition h_same :: "ptr set \<Rightarrow> hstore \<Rightarrow> hstore \<Rightarrow> bool" where
  "h_same A h h' \<longleftrightarrow> (\<forall>z. z \<notin> A \<longrightarrow> link_at z h' = link_at z h \<and> pprev_of z h' = pprev_of z h)
     \<and> nodes h' = nodes h"

lemma h_sameI:
  "nodes h' = nodes h \<Longrightarrow> (\<And>z. z \<notin> A \<Longrightarrow> link_at z h' = link_at z h) \<Longrightarrow>
    (\<And>z. z \<notin> A \<Longrightarrow> z \<noteq> 0 \<Longrightarrow> pprev_of z h' = pprev_of z h) \<Longrightarrow> h_same A h h'"
  by (metis at_NULL(2) h_same_def)

lemma hll_frame: "hll h m ys \<Longrightarrow> h_same A h h' \<Longrightarrow> set (m # ys) \<inter> A = {} \<Longrightarrow> hll h' m ys"
proof -
  assume a: "hll h m ys" "h_same A h h'" "set (m # ys) \<inter> A = {}"
  have s: "link_at z h' = link_at z h" "pprev_of z h' = pprev_of z h" if "z \<in> set (m # ys)" for z
    using that a(2,3) unfolding h_same_def by blast+
  have "hseg h' m ys = hseg h m ys"
    by (rule hseg_frame) (use s in \<open>auto dest: in_set_butlastD split: if_splits\<close>)
  then show ?thesis using a(1) s(1) [of "last (m # ys)"] by (simp add: hll_def)
qed

section \<open>Insertion and removal\<close>

text \<open>
  An operation at a position of a list writes the pointer before the position, the back pointer
  behind it and the node \<open>n\<close> that comes or goes: both halves of the list stay as they were.
\<close>

definition changes_at :: "ptr \<Rightarrow> ptr list \<Rightarrow> ptr list \<Rightarrow> ptr \<Rightarrow> hstore \<Rightarrow> hstore \<Rightarrow> bool" where
  "changes_at l xs ys n h h' \<longleftrightarrow> nodes h' = nodes h
     \<and> (\<forall>z. z \<noteq> last (l # xs) \<longrightarrow> z \<noteq> n \<longrightarrow> link_at z h' = link_at z h)
     \<and> (\<forall>z. z \<noteq> 0 \<longrightarrow> z \<noteq> follower ys \<longrightarrow> z \<noteq> n \<longrightarrow> pprev_of z h' = pprev_of z h)"

lemma changes_at_outside:
  assumes "changes_at l xs ys n h h'" "z \<notin> set (n # l # xs @ ys)"
  shows "link_at z h' = link_at z h" "pprev_of z h' = pprev_of z h"
proof -
  have "last (l # xs) \<in> set (l # xs)" by (rule last_in_set) simp
  then have "z \<noteq> last (l # xs)" "z \<noteq> n" using assms(2) by auto
  then show "link_at z h' = link_at z h" using assms(1) by (simp add: changes_at_def)
  have "z = 0 \<or> z \<noteq> follower ys" using assms(2) by (cases ys) auto
  then show "pprev_of z h' = pprev_of z h" using assms(1) \<open>z \<noteq> n\<close> by (cases "z = 0") (auto simp: changes_at_def)
qed

lemma changes_at_same: "changes_at l xs ys n h h' \<Longrightarrow> h_same (set (n # l # xs @ ys)) h h'"
  unfolding h_same_def using changes_at_outside by (metis changes_at_def)

lemma changes_at_halves:
  assumes dist: "distinct (l # xs @ ys)" and n: "n \<notin> set (l # xs @ ys)" and z0: "0 \<notin> set (xs @ ys)"
    and ch: "changes_at l xs ys n h h'"
  shows "hseg h' l xs = hseg h l xs"
    and "ys = y # ys' \<Longrightarrow> hseg h' y ys' = hseg h y ys'"
    and "ys \<noteq> [] \<Longrightarrow> link_at (last ys) h' = link_at (last ys) h"
proof -
  have p: "last (l # xs) \<in> set (l # xs)" by (rule last_in_set) simp
  have lk: "link_at z h' = link_at z h" if "z \<noteq> last (l # xs)" "z \<noteq> n" for z
    using that ch by (simp add: changes_at_def)
  have pv: "pprev_of z h' = pprev_of z h" if "z \<noteq> 0" "z \<noteq> follower ys" "z \<noteq> n" for z
    using that ch by (simp add: changes_at_def)
  show "hseg h' l xs = hseg h l xs"
  proof (rule hseg_frame)
    fix z assume z: "z \<in> set (butlast (l # xs))"
    have "distinct (butlast (l # xs) @ [last (l # xs)])"
      using dist by (subst append_butlast_last_id) auto
    then have "z \<noteq> last (l # xs)" using z by auto
    moreover have "z \<noteq> n" using in_set_butlastD [OF z] n by auto
    ultimately show "link_at z h' = link_at z h" by (rule lk)
  next
    fix z assume z: "z \<in> set xs"
    then have "z \<noteq> 0" using z0 by (metis Un_iff set_append)
    moreover from this have "z \<noteq> follower ys" using z dist by (cases ys) auto
    moreover have "z \<noteq> n" using z n by auto
    ultimately show "pprev_of z h' = pprev_of z h" by (rule pv)
  qed
  have lk': "link_at z h' = link_at z h" if "z \<in> set ys" for z
  proof -
    have "z \<noteq> last (l # xs)" "z \<noteq> n" using that p dist n by auto
    then show ?thesis by (rule lk)
  qed
  then show "ys \<noteq> [] \<Longrightarrow> link_at (last ys) h' = link_at (last ys) h" by simp
  show "hseg h' y ys' = hseg h y ys'" if ys: "ys = y # ys'"
  proof (rule hseg_frame)
    show "link_at z h' = link_at z h" if "z \<in> set (butlast (y # ys'))" for z
      using in_set_butlastD [OF that] ys by (intro lk') simp
    show "pprev_of z h' = pprev_of z h" if "z \<in> set ys'" for z
    proof -
      have "z \<noteq> 0" "z \<noteq> follower ys" "z \<noteq> n" using that ys dist n z0 by auto
      then show ?thesis by (rule pv)
    qed
  qed
qed

lemma hll_insertI:
  assumes d: "hll h l (xs @ ys)" and n: "n \<notin> set (l # xs @ ys)" and ch: "changes_at l xs ys n h h'"
    and "link_at (last (l # xs)) h' = Some n" "pprev_of n h' = Some (last (l # xs))"
    and "link_at n h' = Some (follower ys)" "ys \<noteq> [] \<Longrightarrow> pprev_of (follower ys) h' = Some n"
  shows "hll h' l (xs @ n # ys)"
proof -
  have dist: "distinct (l # xs @ ys)" and s1: "hseg h l xs"
    using d by (simp_all add: hll_split)
  have z0: "0 \<notin> set (xs @ ys)" using hll_not_NULL [OF d] by simp
  note halves = changes_at_halves [OF dist n z0 ch]
  have "distinct (l # xs @ n # ys)" using dist n by auto
  moreover have "hseg h' l xs" using s1 halves(1) by simp
  moreover have "hseg h' n ys \<and> link_at (last (n # ys)) h' = Some 0"
  proof (cases ys)
    case Nil
    then show ?thesis using assms(6) by simp
  next
    case (Cons y ys')
    then show ?thesis using d halves(2) [OF Cons] halves(3) assms(6,7) by (simp add: hll_split)
  qed
  ultimately show ?thesis using assms(4,5) by (simp add: hll_def hseg_append)
qed

lemma hll_removeI:
  assumes d: "hll h l (xs @ x # ys)" and ch: "changes_at l xs ys x h h'"
    and "link_at (last (l # xs)) h' = Some (follower ys)"
    and "ys \<noteq> [] \<Longrightarrow> pprev_of (follower ys) h' = Some (last (l # xs))"
  shows "hll h' l (xs @ ys)"
proof -
  have dist: "distinct (l # xs @ ys)" and x: "x \<notin> set (l # xs @ ys)" and s1: "hseg h l xs"
    using d by (auto simp: hll_split)
  have z0: "0 \<notin> set (xs @ ys)" using hll_not_NULL [OF d] by simp
  note halves = changes_at_halves [OF dist x z0 ch]
  have "hseg h' l xs" using s1 halves(1) by simp
  moreover have "hseg h' y ys' \<and> link_at (last ys) h' = Some 0" if ys: "ys = y # ys'" for y ys'
  proof -
    have "hseg h y ys'" "link_at (last ys) h = Some 0"
      using d ys by (simp_all add: hll_def hseg_append)
    then show ?thesis using halves(2) [OF ys] halves(3) ys by simp
  qed
  ultimately show ?thesis
    using assms(3,4) dist by (cases ys) (simp_all add: hll_def hseg_append)
qed

lemma hll_at:
  assumes "hll h l (xs @ x # ys)"
  shows "link_at x h = Some (follower ys)" "pprev_of x h = Some (last (l # xs))"
    "link_at (last (l # xs)) h = Some x" "ys \<noteq> [] \<Longrightarrow> pprev_of (follower ys) h = Some x"
    "x \<noteq> 0" "l \<noteq> 0" "last (l # xs) \<noteq> 0" "last (l # xs) \<noteq> x" "ys \<noteq> [] \<Longrightarrow> follower ys \<noteq> x"
    "follower ys \<noteq> 0 \<longleftrightarrow> ys \<noteq> []"
proof -
  have d: "distinct (l # xs @ x # ys)" and z: "0 \<notin> set (l # xs @ x # ys)"
    using assms hll_not_NULL [OF assms] by (simp_all add: hll_def)
  have "last (l # xs) \<in> set (l # xs)" by (rule last_in_set) simp
  then show "last (l # xs) \<noteq> 0" "last (l # xs) \<noteq> x" using d z by auto
  show "link_at x h = Some (follower ys)" "pprev_of x h = Some (last (l # xs))"
    "link_at (last (l # xs)) h = Some x" "ys \<noteq> [] \<Longrightarrow> pprev_of (follower ys) h = Some x"
    using assms by (cases ys; simp add: hll_def hseg_append)+
  show "x \<noteq> 0" "l \<noteq> 0" "ys \<noteq> [] \<Longrightarrow> follower ys \<noteq> x" "follower ys \<noteq> 0 \<longleftrightarrow> ys \<noteq> []"
    using d z by (cases ys; auto)+
qed

lemma hlist_unlink_effect:
  assumes d: "hll h l (xs @ x # ys)"
  shows "runs (hlist_unlink x h) (\<lambda>h'. changes_at l xs ys x h h'
      \<and> link_at (last (l # xs)) h' = Some (follower ys)
      \<and> (ys \<noteq> [] \<longrightarrow> pprev_of (follower ys) h' = Some (last (l # xs)))
      \<and> link_at x h' = link_at x h \<and> pprev_of x h' = pprev_of x h)"
  using hll_at [OF d]
  by (auto simp: hlist_unlink_def runs_rules changes_at_def simp del: last.simps)

lemma hlist_unlink_hll:
  assumes d: "hll h l (xs @ x # ys)"
  shows "runs (hlist_unlink x h) (\<lambda>h'. hll h' l (xs @ ys) \<and> changes_at l xs ys x h h'
    \<and> link_at x h' = link_at x h \<and> pprev_of x h' = pprev_of x h)"
  using hlist_unlink_effect [OF d] by (rule runs_mono) (simp add: hll_removeI [OF d])


lemma remove1_at: "hll h l (xs @ x # ys) \<Longrightarrow> remove1 x (xs @ x # ys) = xs @ ys"
  by (rule remove1_split) (simp add: hll_def)

text \<open>Writing into a node outside a list does not touch the list.\<close>

lemma h_same_write:
  "h_same {x} h (put_link x v h)" if "link_at x h \<noteq> None"
  using that by (auto simp: h_same_def nodes_def is_node_def)

lemma h_same_write_back:
  "h_same {x} h (put_pprev x v h)" if "pprev_of x h \<noteq> None"
  using that by (auto simp: h_same_def nodes_def is_node_def)

lemma h_same_trans: "h_same A h h' \<Longrightarrow> h_same A h' h'' \<Longrightarrow> h_same A h h''"
  by (simp add: h_same_def)

lemma h_same_mono: "h_same A h h' \<Longrightarrow> A \<subseteq> B \<Longrightarrow> h_same B h h'"
  by (auto simp: h_same_def)

lemma rewrite_node:
  assumes "is_node x h" "x \<noteq> 0"
  shows "runs (do { h \<leftarrow> set_link x u h; set_pprev x v h })
    (\<lambda>h'. h_same {x} h h' \<and> link_at x h' = Some u \<and> pprev_of x h' = Some v)"
  using assms by (auto simp: runs_rules h_same_def nodes_def is_node_def)

lemma hlist_unlink_and_rewrite:
  assumes d: "hll h l (xs @ x # ys)"
  shows "runs (do { h \<leftarrow> hlist_unlink x h; h \<leftarrow> set_link x u h; set_pprev x v h })
    (\<lambda>h'. hll h' l (xs @ ys) \<and> h_same (set (l # xs @ x # ys)) h h'
      \<and> link_at x h' = Some u \<and> pprev_of x h' = Some v)"
proof -
  obtain h1 where h1: "hlist_unlink x h = Some h1" "hll h1 l (xs @ ys)" "changes_at l xs ys x h h1"
    using hlist_unlink_hll [OF d] by (auto simp: runs_iff)
  have x: "x \<notin> set (l # xs @ ys)" using d by (auto simp: hll_def)
  have "is_node x h" using hll_nodes [OF d] by (auto simp: nodes_def)
  then have "is_node x h1" using h1(3) by (auto simp: changes_at_def nodes_def)
  then obtain h2 where h2: "do { h \<leftarrow> set_link x u h1; set_pprev x v h } = Some h2"
    "h_same {x} h1 h2" "link_at x h2 = Some u" "pprev_of x h2 = Some v"
    using rewrite_node [of x h1 u v] hll_at(5) [OF d] by (auto simp: runs_iff)
  have "hll h2 l (xs @ ys)" by (rule hll_frame [OF h1(2) h2(2)]) (use x in auto)
  moreover have "h_same (set (l # xs @ x # ys)) h h1"
    by (rule h_same_mono [OF changes_at_same [OF h1(3)]]) auto
  then have "h_same (set (l # xs @ x # ys)) h h2"
    by (rule h_same_trans) (rule h_same_mono [OF h2(2)], simp)
  ultimately show ?thesis using h1(1) h2 by simp
qed

lemma hlist_del_hll:
  assumes "hll h l xs" "x \<in> set xs"
  shows "runs (hlist_del x h) (\<lambda>h'. hll h' l (remove1 x xs) \<and> h_same (set (l # xs)) h h'
    \<and> link_at x h' = Some LIST_POISON1 \<and> pprev_of x h' = Some LIST_POISON2)"
proof -
  obtain ys zs where xs: "xs = ys @ x # zs" using assms(2) by (meson split_list)
  have d: "hll h l (ys @ x # zs)" using assms(1) xs by simp
  show ?thesis
    unfolding xs hlist_del_def remove1_at [OF d] by (rule hlist_unlink_and_rewrite [OF d])
qed

lemma hlist_del_init_hll:
  assumes "hll h l xs" "x \<in> set xs"
  shows "runs (hlist_del_init x h) (\<lambda>h'. hll h' l (remove1 x xs) \<and> h_same (set (l # xs)) h h'
    \<and> link_at x h' = Some 0 \<and> pprev_of x h' = Some 0)"
proof -
  obtain ys zs where xs: "xs = ys @ x # zs" using assms(2) by (meson split_list)
  have d: "hll h l (ys @ x # zs)" using assms(1) xs by simp
  have "hlist_del_init x h = do { h \<leftarrow> hlist_unlink x h; h \<leftarrow> set_link x 0 h; set_pprev x 0 h }"
    using hll_at(2,7) [OF d] by (simp add: hlist_del_init_def INIT_HLIST_NODE_def [abs_def] del: last.simps)
  then show ?thesis
    unfolding xs remove1_at [OF d] by (simp only: hlist_unlink_and_rewrite [OF d])
qed

text \<open>An entry that is in no list is left alone, so it may be taken out again.\<close>

lemma hlist_del_init_unhashed:
  "hlist_unhashed x h = Some True \<Longrightarrow> hlist_del_init x h = Some h"
  by (auto simp: hlist_unhashed_def hlist_del_init_def)

text \<open>
  \<open>hlist_del_rcu\<close> keeps the forward pointer, so a traversal that stands at the entry still
  reaches the rest of the list.
\<close>

lemma hlist_del_rcu_hll:
  assumes d: "hll h l (xs @ x # ys)"
  shows "runs (hlist_del_rcu x h) (\<lambda>h'. hll h' l (xs @ ys) \<and> link_at x h' = Some (follower ys)
    \<and> pprev_of x h' = Some LIST_POISON2)"
proof -
  obtain h1 where h1: "hlist_unlink x h = Some h1" "hll h1 l (xs @ ys)" "link_at x h1 = link_at x h"
    "pprev_of x h1 = pprev_of x h"
    using hlist_unlink_hll [OF d] by (auto simp: runs_iff)
  have "x \<notin> set (l # xs @ ys)" using d by (auto simp: hll_def)
  then have "hll (put_pprev x LIST_POISON2 h1) l (xs @ ys)"
    using h1 hll_at(2) [OF d] by (intro hll_frame [OF h1(2) h_same_write_back]) auto
  then show ?thesis
    using h1 hll_at(1,2,5) [OF d] by (simp add: hlist_del_rcu_def runs_rules)
qed

lemma hll_head: "hll h l xs \<Longrightarrow> link_at l h = Some (follower xs)"
  by (cases xs) (auto simp: hll_def)

lemma hll_follower:
  assumes "hll h l (xs @ ys)"
  shows "link_at (last (l # xs)) h = Some (follower ys)" "last (l # xs) \<noteq> 0" "l \<noteq> 0"
    "follower ys \<noteq> 0 \<longleftrightarrow> ys \<noteq> []" "ys \<noteq> [] \<Longrightarrow> pprev_of (follower ys) h = Some (last (l # xs))"
    "last (l # xs) \<in> set (l # xs @ ys)" "ys \<noteq> [] \<Longrightarrow> follower ys \<in> set ys"
proof -
  show "link_at (last (l # xs)) h = Some (follower ys)"
    "ys \<noteq> [] \<Longrightarrow> pprev_of (follower ys) h = Some (last (l # xs))"
    using assms unfolding hll_split by blast+
  have z: "0 \<notin> set (l # xs @ ys)" by (rule hll_not_NULL [OF assms])
  have "last (l # xs) \<in> set (l # xs)" by (rule last_in_set) simp
  moreover have "set (l # xs) \<subseteq> set (l # xs @ ys)" by auto
  ultimately show "last (l # xs) \<in> set (l # xs @ ys)" by blast
  then show "last (l # xs) \<noteq> 0" using z by metis
  show "l \<noteq> 0" "follower ys \<noteq> 0 \<longleftrightarrow> ys \<noteq> []" "ys \<noteq> [] \<Longrightarrow> follower ys \<in> set ys"
    using z by (cases ys; auto)+
qed

lemma hlist_add_head_effect:
  assumes d: "hll h l xs" and n: "n \<notin> set (l # xs)" "n \<in> nodes h"
  shows "runs (hlist_add_head n l h) (\<lambda>h'. changes_at l [] xs n h h' \<and> link_at l h' = Some n
      \<and> pprev_of n h' = Some l \<and> link_at n h' = Some (follower xs)
      \<and> (xs \<noteq> [] \<longrightarrow> pprev_of (follower xs) h' = Some n))"
  using hll_follower [of h l "[]" xs] d n(1) nodesD [OF n(2)]
  by (auto simp: hlist_add_head_def runs_rules changes_at_def)

lemma hlist_add_head_hll:
  assumes d: "hll h l xs" and n: "n \<notin> set (l # xs)" "n \<in> nodes h"
  shows "runs (hlist_add_head n l h) (\<lambda>h'. hll h' l (n # xs) \<and> h_same (set (n # l # xs)) h h')"
  using hlist_add_head_effect [OF assms]
proof (rule runs_mono, elim conjE)
  fix h' assume ch: "changes_at l [] xs n h h'" and a: "link_at l h' = Some n" "pprev_of n h' = Some l"
    "link_at n h' = Some (follower xs)" "xs \<noteq> [] \<longrightarrow> pprev_of (follower xs) h' = Some n"
  have "hll h' l ([] @ n # xs)"
    by (rule hll_insertI [where h = h]) (use d n ch a in auto)
  with changes_at_same [OF ch] show "hll h' l (n # xs) \<and> h_same (set (n # l # xs)) h h'" by simp
qed

text \<open>The order of the writes, which matters only to concurrent readers, is the one difference.\<close>

lemma hlist_add_head_rcu_eq:
  assumes d: "hll h l xs" and n: "n \<notin> set (l # xs)" "n \<in> nodes h"
  shows "hlist_add_head_rcu n l h = hlist_add_head n l h"
  using hll_follower [of h l "[]" xs] d n(1) nodesD [OF n(2)]
  by (auto simp: hlist_add_head_def hlist_add_head_rcu_def set_link_def set_pprev_def
      put_pprev_twist [of n "hd xs"])

lemma hlist_add_before_effect:
  assumes d: "hll h l (xs @ x # ys)" and n: "n \<notin> set (l # xs @ x # ys)" "n \<in> nodes h"
  shows "runs (hlist_add_before n x h) (\<lambda>h'. changes_at l xs (x # ys) n h h'
      \<and> link_at (last (l # xs)) h' = Some n \<and> pprev_of n h' = Some (last (l # xs))
      \<and> link_at n h' = Some x \<and> pprev_of x h' = Some n)"
  using hll_at [OF d] n(1) nodesD [OF n(2)] hll_follower(6) [OF d]
  by (auto simp: hlist_add_before_def runs_rules changes_at_def simp del: last.simps)

lemma hlist_add_before_hll:
  assumes d: "hll h l (xs @ x # ys)" and n: "n \<notin> set (l # xs @ x # ys)" "n \<in> nodes h"
  shows "runs (hlist_add_before n x h)
    (\<lambda>h'. hll h' l (xs @ n # x # ys) \<and> h_same (set (n # l # xs @ x # ys)) h h')"
  using hlist_add_before_effect [OF assms]
proof (rule runs_mono, elim conjE)
  fix h' assume ch: "changes_at l xs (x # ys) n h h'"
    and a: "link_at (last (l # xs)) h' = Some n" "pprev_of n h' = Some (last (l # xs))"
      "link_at n h' = Some x" "pprev_of x h' = Some n"
  have "hll h' l (xs @ n # x # ys)"
    by (rule hll_insertI [OF d n(1) ch a(1,2)]) (use a in simp_all)
  with changes_at_same [OF ch]
  show "hll h' l (xs @ n # x # ys) \<and> h_same (set (n # l # xs @ x # ys)) h h'" by simp
qed

lemma last_snoc_head: "last (l # xs @ [x]) = x"
  by simp

lemma hlist_add_after_effect:
  assumes d: "hll h l (xs @ x # ys)" and n: "n \<notin> set (l # xs @ x # ys)" "n \<in> nodes h"
  shows "runs (hlist_add_after x n h) (\<lambda>h'. changes_at l (xs @ [x]) ys n h h'
      \<and> link_at x h' = Some n \<and> pprev_of n h' = Some x
      \<and> link_at n h' = Some (follower ys) \<and> (ys \<noteq> [] \<longrightarrow> pprev_of (follower ys) h' = Some n))"
  using hll_at [OF d] n(1) nodesD [OF n(2)] hll_follower(7) [of h l "xs @ [x]" ys] d
  by (auto simp: hlist_add_after_def runs_rules changes_at_def last_snoc_head simp del: last.simps)

lemma hlist_add_after_hll:
  assumes d: "hll h l (xs @ x # ys)" and n: "n \<notin> set (l # xs @ x # ys)" "n \<in> nodes h"
  shows "runs (hlist_add_after x n h)
    (\<lambda>h'. hll h' l (xs @ x # n # ys) \<and> h_same (set (n # l # xs @ x # ys)) h h')"
  using hlist_add_after_effect [OF assms]
proof (rule runs_mono, elim conjE)
  fix h' assume ch: "changes_at l (xs @ [x]) ys n h h'"
    and a: "link_at x h' = Some n" "pprev_of n h' = Some x" "link_at n h' = Some (follower ys)"
      "ys \<noteq> [] \<longrightarrow> pprev_of (follower ys) h' = Some n"
  have "hll h' l ((xs @ [x]) @ n # ys)"
    by (rule hll_insertI [where h = h]) (use d n ch a in auto)
  with changes_at_same [OF ch]
  show "hll h' l (xs @ x # n # ys) \<and> h_same (set (n # l # xs @ x # ys)) h h'" by simp
qed

section \<open>Heads, nodes and emptiness\<close>

lemma INIT_HLIST_HEAD_hll:
  "link_at l h \<noteq> None \<Longrightarrow> runs (INIT_HLIST_HEAD l h) (\<lambda>h'. hll h' l [])"
  by (cases "l = 0") (auto simp: INIT_HLIST_HEAD_def runs_rules hll_def)

lemma INIT_HLIST_NODE_unhashed:
  "n \<in> nodes h \<Longrightarrow> runs (INIT_HLIST_NODE n h) (\<lambda>h'. hlist_unhashed n h' = Some True)"
  by (cases "n = 0") (auto simp: INIT_HLIST_NODE_def runs_rules nodes_def is_node_def hlist_unhashed_def)

lemma hlist_empty_hll: "hll h l xs \<Longrightarrow> hlist_empty l h = Some (xs = [])"
  using hll_follower(1,4) [of h l "[]" xs] by (cases "xs = []") (simp_all add: hlist_empty_def)

lemma hlist_unhashed_hll: "hll h l xs \<Longrightarrow> x \<in> set xs \<Longrightarrow> hlist_unhashed x h = Some False"
proof -
  assume "hll h l xs" "x \<in> set xs"
  then obtain ys zs where "hll h l (ys @ x # zs)" by (metis split_list)
  from hll_at(2,7) [OF this] show ?thesis by (simp add: hlist_unhashed_def del: last.simps)
qed


section \<open>Traversals\<close>

lemma hlist_for_each_from_hll:
  "hll h l (xs @ ys) \<Longrightarrow> hlist_for_each_from h body (follower ys) s = fold_steps body ys s"
proof (induction ys arbitrary: xs s)
  case Nil
  then show ?case by (simp add: hlist_for_each_from.simps)
next
  case (Cons y ys)
  have "hlist_for_each_from h body (follower ys) t = fold_steps body ys t" for t
    using Cons.IH [of "xs @ [y]" t] Cons.prems by simp
  then show ?case
    using hll_at(1,5) [OF Cons.prems] by (subst hlist_for_each_from.simps) simp
qed

lemma hlist_for_each_hll: "hll h l xs \<Longrightarrow> hlist_for_each h l body s = fold_steps body xs s"
  using hlist_for_each_from_hll [of h l "[]" xs body s]
  by (simp add: hlist_for_each_def hll_head)

lemma hlist_for_each_continue_hll:
  "hll h l (xs @ x # ys) \<Longrightarrow> hlist_for_each_continue h body x s = fold_steps body ys s"
  using hlist_for_each_from_hll [of h l "xs @ [x]" ys body s] hll_at(1) [of h l xs x ys]
  by (simp add: hlist_for_each_continue_def)

text \<open>
  The body of a \<open>_safe\<close> traversal, as for the circular lists: at the entry it is given it changes
  the client's state by \<open>g\<close> and unlinks exactly the entries that do not satisfy \<open>keep\<close>.
\<close>

definition h_unlinks_current ::
  "ptr \<Rightarrow> (ptr \<Rightarrow> bool) \<Rightarrow> (ptr \<Rightarrow> 's \<Rightarrow> 's) \<Rightarrow> (ptr \<Rightarrow> hstore \<times> 's \<Rightarrow> (hstore \<times> 's) option) \<Rightarrow> bool" where
  "h_unlinks_current l keep g body \<longleftrightarrow> (\<forall>ys x zs h s. hll h l (ys @ x # zs) \<longrightarrow>
     runs (body x (h, s)) (\<lambda>(h', s'). s' = g x s \<and>
        hll h' l ((if keep x then ys @ [x] else ys) @ zs)))"

lemma hlist_for_each_safe_from_hll:
  assumes body: "h_unlinks_current l keep g body"
  shows "hll h l (ys @ zs) \<Longrightarrow>
    runs (hlist_for_each_safe_from body (follower zs) (h, s))
      (\<lambda>(h', s'). s' = fold g zs s \<and> hll h' l (ys @ filter keep zs))"
proof (induction zs arbitrary: ys h s)
  case Nil
  then show ?case by (simp add: hlist_for_each_safe_from.simps)
next
  case (Cons z zs)
  have "runs (body z (h, s))
      (\<lambda>(h', s'). s' = g z s \<and> hll h' l ((if keep z then ys @ [z] else ys) @ zs))"
    using body Cons.prems by (simp add: h_unlinks_current_def)
  then obtain h' where b: "body z (h, s) = Some (h', g z s)"
    and d: "hll h' l ((if keep z then ys @ [z] else ys) @ zs)"
    by (auto simp: runs_iff)
  have "hlist_for_each_safe_from body z (h, s) = hlist_for_each_safe_from body (follower zs) (h', g z s)"
    using hll_at(1,5) [OF Cons.prems] b by (subst hlist_for_each_safe_from.simps) simp
  with Cons.IH [OF d, of "g z s"] show ?case by (auto split: if_splits)
qed

lemma hlist_for_each_safe_hll:
  assumes "h_unlinks_current l keep g body" "hll h l xs"
  shows "runs (hlist_for_each_safe l body (h, s))
    (\<lambda>(h', s'). s' = fold g xs s \<and> hll h' l (filter keep xs))"
  using hlist_for_each_safe_from_hll [OF assms(1), of h "[]" xs s] assms(2)
  by (simp add: hlist_for_each_safe_def hll_head)

section \<open>The interface of the lists\<close>

lemma hlist_add_head_frame:
  assumes "hll h l xs" "new \<notin> set (l # xs)" "new \<in> nodes h" "hll h m ys"
    and "set (m # ys) \<inter> set (new # l # xs) = {}"
  shows "runs (hlist_add_head new l h) (\<lambda>h'. hll h' m ys)"
  using hlist_add_head_hll [OF assms(1-3)] hll_frame [OF assms(4) _ assms(5)]
  by (auto simp: runs_iff)

lemma hlist_del_frame:
  assumes "hll h l xs" "x \<in> set xs" "hll h m ys" and "set (m # ys) \<inter> set (l # xs) = {}"
  shows "runs (hlist_del x h) (\<lambda>h'. hll h' m ys)"
  using hlist_del_hll [OF assms(1,2)] hll_frame [OF assms(3) _ assms(4)]
  by (auto simp: runs_iff)

interpretation hl: intrusive_list hll nodes hlist_add_head hlist_del
proof unfold_locales
  show "hll h l xs \<Longrightarrow> distinct (l # xs)" for h l xs by (simp add: hll_def)
  show "hll h l xs \<Longrightarrow> set xs \<subseteq> nodes h" for h l xs by (rule hll_nodes)
  show "hll h l xs \<Longrightarrow> new \<notin> set (l # xs) \<Longrightarrow> new \<in> nodes h \<Longrightarrow>
      runs (hlist_add_head new l h) (\<lambda>h'. hll h' l (new # xs) \<and> nodes h' = nodes h)" for h l xs new
    by (erule (2) runs_mono [OF hlist_add_head_hll]) (simp add: h_same_def)
  show "hll h l xs \<Longrightarrow> x \<in> set xs \<Longrightarrow>
      runs (hlist_del x h) (\<lambda>h'. hll h' l (remove1 x xs) \<and> nodes h' = nodes h)" for h l xs x
    by (erule (1) runs_mono [OF hlist_del_hll]) (simp add: h_same_def)
qed (blast intro: hlist_add_head_frame hlist_del_frame)+

section \<open>Building and emptying a list\<close>

text \<open>A store with a head and three separate nodes, for the example.\<close>

definition fresh_hstore :: hstore where
  "fresh_hstore = \<lparr>h_link = [1 \<mapsto> 0, 2 \<mapsto> 0, 3 \<mapsto> 0, 4 \<mapsto> 0], h_pprev = [2 \<mapsto> 0, 3 \<mapsto> 0, 4 \<mapsto> 0]\<rparr>"

lemma fresh_hstore_hll: "hll fresh_hstore 1 []"
  by (simp add: fresh_hstore_def hll_def link_at_def)

text \<open>
  Nodes put one after another at the head of a list stand in front of it, last one first, and a
  traversal visits exactly these and then the old ones.
\<close>

theorem hlist_add_sequence:
  assumes "hll h l xs" "distinct news" "set news \<inter> set (l # xs) = {}" "set news \<subseteq> nodes h"
  shows "runs (fold_steps (\<lambda>x. hlist_add_head x l) news h)
    (\<lambda>h'. hlist_for_each h' l body s = fold_steps body (rev news @ xs) s)"
  using hl.add_all [OF assms] by (rule runs_mono) (simp add: hlist_for_each_hll)

theorem hlist_add_sequence_witness:
  "runs (fold_steps (\<lambda>x. hlist_add_head x 1) [2, 3, 4] fresh_hstore)
    (\<lambda>h'. hlist_for_each h' 1 (\<lambda>x s. Some (s @ [x])) [] = fold_steps (\<lambda>x s. Some (s @ [x])) (rev [2, 3, 4] @ []) [])"
  by (rule hlist_add_sequence [OF fresh_hstore_hll])
    (simp_all add: fresh_hstore_def nodes_def is_node_def link_at_def pprev_of_def)

end
