(* ===== verification/Bytes.thy ===== *)
theory Bytes
  imports Prelude
begin

unbundle bit_operations_syntax

text \<open>
  Memory of the little-endian host: how a 16- or 32-bit integer of the C program lies in
  consecutive bytes, and the conversions \<open>htonl\<close>, \<open>ntohl\<close>, \<open>htons\<close> and \<open>ntohs\<close> between
  host and network byte order. Packet and header layouts are stated over these.
\<close>

section \<open>Loads and stores\<close>

definition le32 :: "u8 \<Rightarrow> u8 \<Rightarrow> u8 \<Rightarrow> u8 \<Rightarrow> u32" where
  "le32 a b c d =
     ucast a OR push_bit 8 (ucast b) OR push_bit 16 (ucast c) OR push_bit 24 (ucast d)"

definition le16 :: "u8 \<Rightarrow> u8 \<Rightarrow> u16" where
  "le16 a b = ucast a OR push_bit 8 (ucast b)"

definition byte_of :: "nat \<Rightarrow> 'a::len word \<Rightarrow> u8" where
  "byte_of i w = ucast (drop_bit (8 * i) w)"

definition store32 :: "u32 \<Rightarrow> u8 list" where
  "store32 w = [byte_of 0 w, byte_of 1 w, byte_of 2 w, byte_of 3 w]"

definition store16 :: "u16 \<Rightarrow> u8 list" where
  "store16 w = [byte_of 0 w, byte_of 1 w]"

definition load32 :: "u8 list \<Rightarrow> nat \<Rightarrow> u32" where
  "load32 bs i = le32 (bs ! i) (bs ! (i + 1)) (bs ! (i + 2)) (bs ! (i + 3))"

definition load16 :: "u8 list \<Rightarrow> nat \<Rightarrow> u16" where
  "load16 bs i = le16 (bs ! i) (bs ! (i + 1))"

section \<open>Network byte order\<close>

definition htonl :: "u32 \<Rightarrow> u32" where
  "htonl w = le32 (byte_of 3 w) (byte_of 2 w) (byte_of 1 w) (byte_of 0 w)"

definition ntohl :: "u32 \<Rightarrow> u32" where
  "ntohl w = htonl w"

definition htons :: "u16 \<Rightarrow> u16" where
  "htons w = le16 (byte_of 1 w) (byte_of 0 w)"

definition ntohs :: "u16 \<Rightarrow> u16" where
  "ntohs w = htons w"

section \<open>Round trips\<close>

lemma byte_of_le32 [simp]:
  "byte_of 0 (le32 a b c d) = a"
  "byte_of (Suc 0) (le32 a b c d) = b"
  "byte_of 2 (le32 a b c d) = c"
  "byte_of 3 (le32 a b c d) = d"
  by (rule bit_word_eqI; auto simp: le32_def byte_of_def bit_simps bit_word_beyond)+

lemma byte_of_le16 [simp]:
  "byte_of 0 (le16 a b) = a"
  "byte_of (Suc 0) (le16 a b) = b"
  by (rule bit_word_eqI; auto simp: le16_def byte_of_def bit_simps bit_word_beyond)+

lemma le32_byte_of [simp]:
  "le32 (byte_of 0 w) (byte_of (Suc 0) w) (byte_of 2 w) (byte_of 3 w) = w"
proof (rule bit_word_eqI)
  fix n
  assume "n < LENGTH(32)"
  then consider "n < 8" | "8 \<le> n" "n < 16" | "16 \<le> n" "n < 24" | "24 \<le> n" "n < 32"
    by force
  then show "bit (le32 (byte_of 0 w) (byte_of (Suc 0) w) (byte_of 2 w) (byte_of 3 w)) n = bit w n"
    by cases (auto simp: le32_def byte_of_def bit_simps)
qed

lemma le16_byte_of [simp]: "le16 (byte_of 0 w) (byte_of (Suc 0) w) = w"
proof (rule bit_word_eqI)
  fix n
  assume "n < LENGTH(16)"
  then consider "n < 8" | "8 \<le> n" "n < 16" by force
  then show "bit (le16 (byte_of 0 w) (byte_of (Suc 0) w)) n = bit w n"
    by cases (auto simp: le16_def byte_of_def bit_simps)
qed

lemma length_store32 [simp]: "length (store32 w) = 4"
  by (simp add: store32_def)

lemma length_store16 [simp]: "length (store16 w) = 2"
  by (simp add: store16_def)

lemma byte_of_htonl [simp]:
  "byte_of 0 (htonl w) = byte_of 3 w"
  "byte_of (Suc 0) (htonl w) = byte_of 2 w"
  "byte_of 2 (htonl w) = byte_of (Suc 0) w"
  "byte_of 3 (htonl w) = byte_of 0 w"
  by (simp_all add: htonl_def)

lemma htonl_htonl [simp]: "htonl (htonl w) = w"
  by (simp add: htonl_def)

lemma ntohl_htonl [simp]: "ntohl (htonl w) = w"
  by (simp add: ntohl_def)

lemma htonl_ntohl [simp]: "htonl (ntohl w) = w"
  by (simp add: ntohl_def)

lemma htonl_inj [simp]: "htonl v = htonl w \<longleftrightarrow> v = w"
  by (metis htonl_htonl)

lemma htons_htons [simp]: "htons (htons w) = w"
  by (simp add: htons_def)

lemma ntohs_htons [simp]: "ntohs (htons w) = w"
  by (simp add: ntohs_def)

lemma htons_inj [simp]: "htons v = htons w \<longleftrightarrow> v = w"
  by (metis htons_htons)

lemma store32_htonl: "store32 (htonl w) = rev (store32 w)"
  by (simp add: store32_def)

lemma load32_store32 [simp]: "load32 (xs @ store32 w @ ys) (length xs) = w"
  by (simp add: load32_def store32_def nth_append)

lemma load16_store16 [simp]: "load16 (xs @ store16 w @ ys) (length xs) = w"
  by (simp add: load16_def store16_def nth_append)

text \<open>The network encoding of a value is its most significant byte first.\<close>

lemma ntohl_load32:
  "ntohl (load32 bs i) = le32 (bs ! (i + 3)) (bs ! (i + 2)) (bs ! (i + 1)) (bs ! i)"
  by (simp add: ntohl_def htonl_def load32_def)

lemma ntohs_load16: "ntohs (load16 bs i) = le16 (bs ! (i + 1)) (bs ! i)"
  by (simp add: ntohs_def htons_def load16_def)

end
