(* ===== verification/Nfq.thy ===== *)
theory Nfq
  imports Bytes
begin

unbundle bit_operations_syntax

text \<open>
  The netfilter queue library that the daemon is built with, \<open>libnetfilter_queue/\<close>: the queue
  handles of \<open>libnetfilter_queue.c\<close> at the level of their pointers, the messages it sends to
  the kernel, the attributes of a received packet, and the header accessors of
  \<open>libnetfilter_queue_headers.c\<close>.

  The library libnfnetlink below it is outside: the answers to the messages sent with
  \<open>nfnl_talk\<close> are a parameter \<open>talk\<close>, and \<open>struct nfattr **\<close> is a function from attribute
  numbers to the bytes of the attribute, so that \<open>nfnl_get_pointer_to_data\<close> is application.
  A read past the end of an attribute counts as undefined.
\<close>

section \<open>Reading memory\<close>

definition read8 :: "u8 list \<Rightarrow> nat \<Rightarrow> u8 option" where
  "read8 bs i = defined_if (i < length bs) (Some (bs ! i))"

definition read16 :: "u8 list \<Rightarrow> nat \<Rightarrow> u16 option" where
  "read16 bs i = defined_if (i + 2 \<le> length bs) (Some (load16 bs i))"

definition read32 :: "u8 list \<Rightarrow> nat \<Rightarrow> u32 option" where
  "read32 bs i = defined_if (i + 4 \<le> length bs) (Some (load32 bs i))"

text \<open>A 64-bit load followed by \<open>__be64_to_cpu\<close>.\<close>

definition read_be64 :: "u8 list \<Rightarrow> nat \<Rightarrow> u64 option" where
  "read_be64 bs i = defined_if (i + 8 \<le> length bs)
     (Some (foldl (\<lambda>acc b. push_bit 8 acc OR ucast b) 0 (take 8 (drop i bs))))"

section \<open>Attributes of a packet\<close>

type_synonym nfq_data = "nat \<Rightarrow> u8 list option"

definition NFQA_PACKET_HDR :: nat where "NFQA_PACKET_HDR = 1"
definition NFQA_VERDICT_HDR :: nat where "NFQA_VERDICT_HDR = 2"
definition NFQA_MARK :: nat where "NFQA_MARK = 3"
definition NFQA_TIMESTAMP :: nat where "NFQA_TIMESTAMP = 4"
definition NFQA_IFINDEX_INDEV :: nat where "NFQA_IFINDEX_INDEV = 5"
definition NFQA_IFINDEX_OUTDEV :: nat where "NFQA_IFINDEX_OUTDEV = 6"
definition NFQA_IFINDEX_PHYSINDEV :: nat where "NFQA_IFINDEX_PHYSINDEV = 7"
definition NFQA_IFINDEX_PHYSOUTDEV :: nat where "NFQA_IFINDEX_PHYSOUTDEV = 8"
definition NFQA_HWADDR :: nat where "NFQA_HWADDR = 9"
definition NFQA_PAYLOAD :: nat where "NFQA_PAYLOAD = 10"

lemmas nfqa_defs = NFQA_PACKET_HDR_def NFQA_VERDICT_HDR_def NFQA_MARK_def NFQA_TIMESTAMP_def
  NFQA_IFINDEX_INDEV_def NFQA_IFINDEX_OUTDEV_def NFQA_IFINDEX_PHYSINDEV_def NFQA_IFINDEX_PHYSOUTDEV_def
  NFQA_HWADDR_def NFQA_PAYLOAD_def

text \<open>\<open>nfnl_get_data\<close> for a 32-bit attribute: zero when the attribute is missing.\<close>

definition nfnl_get_data32 :: "nfq_data \<Rightarrow> nat \<Rightarrow> u32 option" where
  "nfnl_get_data32 nfad attr = (case nfad attr of None \<Rightarrow> Some 0 | Some bs \<Rightarrow> read32 bs 0)"

definition nfq_get_msg_packet_hdr :: "nfq_data \<Rightarrow> u8 list option" where
  "nfq_get_msg_packet_hdr nfad = nfad NFQA_PACKET_HDR"

text \<open>The packed fields of \<open>struct nfqnl_msg_packet_hdr\<close>.\<close>

definition packet_hdr_packet_id :: "u8 list \<Rightarrow> u32 option" where
  "packet_hdr_packet_id hdr = read32 hdr 0"

definition packet_hdr_hw_protocol :: "u8 list \<Rightarrow> u16 option" where
  "packet_hdr_hw_protocol hdr = read16 hdr 4"

definition packet_hdr_hook :: "u8 list \<Rightarrow> u8 option" where
  "packet_hdr_hook hdr = read8 hdr 6"

definition nfq_get_nfmark :: "nfq_data \<Rightarrow> u32 option" where
  "nfq_get_nfmark nfad = map_option ntohl (nfnl_get_data32 nfad NFQA_MARK)"

text \<open>The inner option is the return value -1.\<close>

definition nfq_get_timestamp :: "nfq_data \<Rightarrow> (u64 \<times> u64) option option" where
  "nfq_get_timestamp nfad = (case nfad NFQA_TIMESTAMP of None \<Rightarrow> Some None
     | Some qpt \<Rightarrow> do { sc \<leftarrow> read_be64 qpt 0; usc \<leftarrow> read_be64 qpt 8; Some (Some (sc, usc)) })"

definition nfq_get_indev :: "nfq_data \<Rightarrow> u32 option" where
  "nfq_get_indev nfad = map_option ntohl (nfnl_get_data32 nfad NFQA_IFINDEX_INDEV)"

definition nfq_get_physindev :: "nfq_data \<Rightarrow> u32 option" where
  "nfq_get_physindev nfad = map_option ntohl (nfnl_get_data32 nfad NFQA_IFINDEX_PHYSINDEV)"

definition nfq_get_outdev :: "nfq_data \<Rightarrow> u32 option" where
  "nfq_get_outdev nfad = map_option ntohl (nfnl_get_data32 nfad NFQA_IFINDEX_OUTDEV)"

definition nfq_get_physoutdev :: "nfq_data \<Rightarrow> u32 option" where
  "nfq_get_physoutdev nfad = map_option ntohl (nfnl_get_data32 nfad NFQA_IFINDEX_PHYSOUTDEV)"

definition nfq_get_packet_hw :: "nfq_data \<Rightarrow> u8 list option" where
  "nfq_get_packet_hw nfad = nfad NFQA_HWADDR"

text \<open>The return value with the pointer that is assigned to \<open>*data\<close>.\<close>

definition nfq_get_payload :: "nfq_data \<Rightarrow> int \<times> u8 list option" where
  "nfq_get_payload nfad = (case nfad NFQA_PAYLOAD of Some data \<Rightarrow> (int (length data), Some data) | None \<Rightarrow> (-1, None))"

section \<open>Headers\<close>

text \<open>A header pointer is the memory from where it points. The Internet header takes 20 bytes.\<close>

definition sizeof_iphdr :: nat where "sizeof_iphdr = 20"

definition nfq_get_iphdr :: "nfq_data \<Rightarrow> u8 list option" where
  "nfq_get_iphdr nfad = (case nfq_get_payload nfad of (len, data) \<Rightarrow> if len = -1 then None else data)"

text \<open>The compiler puts the first bit field, \<open>version\<close>, into the low half of the byte.\<close>

definition nfq_get_ip_version :: "u8 list \<Rightarrow> u8 option" where
  "nfq_get_ip_version hdr = map_option (\<lambda>b. take_bit 4 b) (read8 hdr 0)"

definition nfq_get_ip_ihl :: "u8 list \<Rightarrow> u8 option" where
  "nfq_get_ip_ihl hdr = map_option (\<lambda>b. drop_bit 4 b) (read8 hdr 0)"

definition nfq_get_ip_tos :: "u8 list \<Rightarrow> u8 option" where
  "nfq_get_ip_tos hdr = read8 hdr 1"

definition nfq_get_ip_tot_len :: "u8 list \<Rightarrow> u16 option" where
  "nfq_get_ip_tot_len hdr = map_option ntohs (read16 hdr 2)"

definition nfq_get_ip_id :: "u8 list \<Rightarrow> u16 option" where
  "nfq_get_ip_id hdr = map_option ntohs (read16 hdr 4)"

definition nfq_get_ip_fragoff :: "u8 list \<Rightarrow> u16 option" where
  "nfq_get_ip_fragoff hdr = map_option ntohs (read16 hdr 6)"

definition nfq_get_ip_ttl :: "u8 list \<Rightarrow> u8 option" where
  "nfq_get_ip_ttl hdr = read8 hdr 8"

definition nfq_get_ip_protocol :: "u8 list \<Rightarrow> u8 option" where
  "nfq_get_ip_protocol hdr = read8 hdr 9"

definition nfq_get_ip_check :: "u8 list \<Rightarrow> u16 option" where
  "nfq_get_ip_check hdr = map_option ntohs (read16 hdr 10)"

definition nfq_get_ip_saddr :: "u8 list \<Rightarrow> u32 option" where
  "nfq_get_ip_saddr hdr = map_option ntohl (read32 hdr 12)"

definition nfq_get_ip_daddr :: "u8 list \<Rightarrow> u32 option" where
  "nfq_get_ip_daddr hdr = map_option ntohl (read32 hdr 16)"

definition nfq_get_tcphdr :: "nfq_data \<Rightarrow> u8 list option" where
  "nfq_get_tcphdr nfad = (case nfq_get_payload nfad of (len, data) \<Rightarrow>
     if len = -1 then None else map_option (drop sizeof_iphdr) data)"

definition nfq_get_tcp_source :: "u8 list \<Rightarrow> u16 option" where
  "nfq_get_tcp_source hdr = map_option ntohs (read16 hdr 0)"

definition nfq_get_tcp_dest :: "u8 list \<Rightarrow> u16 option" where
  "nfq_get_tcp_dest hdr = map_option ntohs (read16 hdr 2)"

definition nfq_get_tcp_seq :: "u8 list \<Rightarrow> u32 option" where
  "nfq_get_tcp_seq hdr = map_option ntohl (read32 hdr 4)"

definition nfq_get_tcp_ack_seq :: "u8 list \<Rightarrow> u32 option" where
  "nfq_get_tcp_ack_seq hdr = map_option ntohl (read32 hdr 8)"

definition nfq_get_tcp_flags :: "u8 list \<Rightarrow> u16 option" where
  "nfq_get_tcp_flags hdr = map_option ntohs (read16 hdr 0)"

definition nfq_get_tcp_window :: "u8 list \<Rightarrow> u16 option" where
  "nfq_get_tcp_window hdr = map_option ntohs (read16 hdr 14)"

definition nfq_get_tcp_check :: "u8 list \<Rightarrow> u16 option" where
  "nfq_get_tcp_check hdr = map_option ntohs (read16 hdr 16)"

definition nfq_get_tcp_urg_ptr :: "u8 list \<Rightarrow> u16 option" where
  "nfq_get_tcp_urg_ptr hdr = map_option ntohs (read16 hdr 18)"

definition nfq_get_udphdr :: "nfq_data \<Rightarrow> u8 list option" where
  "nfq_get_udphdr nfad = (case nfq_get_payload nfad of (len, data) \<Rightarrow>
     if len = -1 then None else map_option (drop sizeof_iphdr) data)"

definition nfq_get_udp_source :: "u8 list \<Rightarrow> u16 option" where
  "nfq_get_udp_source hdr = map_option ntohs (read16 hdr 0)"

definition nfq_get_udp_dest :: "u8 list \<Rightarrow> u16 option" where
  "nfq_get_udp_dest hdr = map_option ntohs (read16 hdr 2)"

definition nfq_get_udp_len :: "u8 list \<Rightarrow> u16 option" where
  "nfq_get_udp_len hdr = map_option ntohs (read16 hdr 4)"

definition nfq_get_udp_check :: "u8 list \<Rightarrow> u16 option" where
  "nfq_get_udp_check hdr = map_option ntohs (read16 hdr 6)"

section \<open>Queue handles\<close>

text \<open>
  \<open>NULL\<close> is 0. The callback of a queue is a flag that says whether there is one; the theory of
  the capture has the daemon's.
\<close>

record nfq_q_handle =
  qh_next :: ptr
  qh_h :: ptr
  qh_id :: u16
  qh_cb :: bool

record nfq_handle =
  h_qh_list :: ptr

text \<open>
  The messages to the kernel, with their fields as they lie in memory: a configuration
  command, the parameters or the maximal length of a queue, and a verdict with its optional
  mark and replacement payload.
\<close>

datatype nfq_msg =
    Config_cmd u16 u8 u16
  | Config_params u16 u32 u8
  | Config_maxlen u16 u32
  | Verdict_msg u16 u32 u32 "u32 option" "u8 list"

record nfq_state =
  ns_handles :: "ptr \<rightharpoonup> nfq_handle"
  ns_queues :: "ptr \<rightharpoonup> nfq_q_handle"
  ns_next :: ptr
  ns_msgs :: "nfq_msg list"

definition NFQNL_CFG_CMD_BIND :: u8 where "NFQNL_CFG_CMD_BIND = 1"
definition NFQNL_CFG_CMD_UNBIND :: u8 where "NFQNL_CFG_CMD_UNBIND = 2"
definition NFQNL_CFG_CMD_PF_BIND :: u8 where "NFQNL_CFG_CMD_PF_BIND = 3"
definition NFQNL_CFG_CMD_PF_UNBIND :: u8 where "NFQNL_CFG_CMD_PF_UNBIND = 4"

definition upd_queue :: "ptr \<Rightarrow> (nfq_q_handle \<Rightarrow> nfq_q_handle) \<Rightarrow> nfq_state \<Rightarrow> nfq_state option" where
  "upd_queue p f S = (case ns_queues S p of None \<Rightarrow> None
     | Some q \<Rightarrow> Some (S\<lparr>ns_queues := (ns_queues S)(p \<mapsto> f q)\<rparr>))"

definition upd_handle :: "ptr \<Rightarrow> (nfq_handle \<Rightarrow> nfq_handle) \<Rightarrow> nfq_state \<Rightarrow> nfq_state option" where
  "upd_handle p f S = (case ns_handles S p of None \<Rightarrow> None
     | Some h \<Rightarrow> Some (S\<lparr>ns_handles := (ns_handles S)(p \<mapsto> f h)\<rparr>))"

text \<open>The loop of \<open>del_qh\<close>, with \<open>cur_qh\<close> and \<open>prev_qh\<close>.\<close>

partial_function (option) del_qh_from :: "ptr \<Rightarrow> ptr \<Rightarrow> ptr \<Rightarrow> nfq_state \<Rightarrow> nfq_state option" where
  "del_qh_from qh cur_qh prev_qh S =
     (if cur_qh = 0 then Some S
      else if cur_qh = qh then
        Option.bind (ns_queues S qh) (\<lambda>q.
          if prev_qh \<noteq> 0 then upd_queue prev_qh (\<lambda>p. p\<lparr>qh_next := qh_next q\<rparr>) S
          else upd_handle (qh_h q) (\<lambda>h. h\<lparr>h_qh_list := qh_next q\<rparr>) S)
      else Option.bind (ns_queues S cur_qh) (\<lambda>c. del_qh_from qh (qh_next c) cur_qh S))"

definition del_qh :: "ptr \<Rightarrow> nfq_state \<Rightarrow> nfq_state option" where
  "del_qh qh S = do {
     q \<leftarrow> ns_queues S qh;
     h \<leftarrow> ns_handles S (qh_h q);
     del_qh_from qh (h_qh_list h) 0 S }"

definition add_qh :: "ptr \<Rightarrow> nfq_state \<Rightarrow> nfq_state option" where
  "add_qh qh S = do {
     q \<leftarrow> ns_queues S qh;
     h \<leftarrow> ns_handles S (qh_h q);
     S \<leftarrow> upd_queue qh (\<lambda>q. q\<lparr>qh_next := h_qh_list h\<rparr>) S;
     upd_handle (qh_h q) (\<lambda>h. h\<lparr>h_qh_list := qh\<rparr>) S }"

partial_function (option) find_qh_from :: "u16 \<Rightarrow> ptr \<Rightarrow> nfq_state \<Rightarrow> ptr option" where
  "find_qh_from num qh S =
     (if qh = 0 then Some 0
      else Option.bind (ns_queues S qh) (\<lambda>q. if qh_id q = num then Some qh else find_qh_from num (qh_next q) S))"

definition find_qh :: "ptr \<Rightarrow> u16 \<Rightarrow> nfq_state \<Rightarrow> ptr option" where
  "find_qh h num S = do { hd \<leftarrow> ns_handles S h; find_qh_from num (h_qh_list hd) S }"

definition nfnl_talk :: "(nfq_msg \<Rightarrow> int) \<Rightarrow> nfq_msg \<Rightarrow> nfq_state \<Rightarrow> int \<times> nfq_state" where
  "nfnl_talk talk m S = (talk m, S\<lparr>ns_msgs := m # ns_msgs S\<rparr>)"

definition build_send_cfg_msg :: "(nfq_msg \<Rightarrow> int) \<Rightarrow> u8 \<Rightarrow> u16 \<Rightarrow> u16 \<Rightarrow> nfq_state \<Rightarrow> int \<times> nfq_state" where
  "build_send_cfg_msg talk command queuenum pf S = nfnl_talk talk (Config_cmd queuenum command (htons pf)) S"

definition nfq_bind_pf :: "(nfq_msg \<Rightarrow> int) \<Rightarrow> u16 \<Rightarrow> nfq_state \<Rightarrow> int \<times> nfq_state" where
  "nfq_bind_pf talk pf S = build_send_cfg_msg talk NFQNL_CFG_CMD_PF_BIND 0 pf S"

definition nfq_unbind_pf :: "(nfq_msg \<Rightarrow> int) \<Rightarrow> u16 \<Rightarrow> nfq_state \<Rightarrow> int \<times> nfq_state" where
  "nfq_unbind_pf talk pf S = build_send_cfg_msg talk NFQNL_CFG_CMD_PF_UNBIND 0 pf S"

text \<open>The result is the address of the queue handle, or 0.\<close>

definition nfq_create_queue :: "(nfq_msg \<Rightarrow> int) \<Rightarrow> ptr \<Rightarrow> u16 \<Rightarrow> bool \<Rightarrow> nfq_state \<Rightarrow> (ptr \<times> nfq_state) option" where
  "nfq_create_queue talk h num cb S = do {
     found \<leftarrow> find_qh h num S;
     if found \<noteq> 0 then Some (0, S)
     else do {
       let qh = ns_next S;
       let S = S\<lparr>ns_next := Suc qh, ns_queues := (ns_queues S)(qh \<mapsto>
                 \<lparr>qh_next = 0, qh_h = h, qh_id = num, qh_cb = cb\<rparr>)\<rparr>;
       let (ret, S) = build_send_cfg_msg talk NFQNL_CFG_CMD_BIND num 0 S;
       if ret < 0 then Some (0, S\<lparr>ns_queues := (ns_queues S)(qh := None)\<rparr>)
       else do { S \<leftarrow> add_qh qh S; Some (qh, S) } } }"

definition nfq_destroy_queue :: "(nfq_msg \<Rightarrow> int) \<Rightarrow> ptr \<Rightarrow> nfq_state \<Rightarrow> (int \<times> nfq_state) option" where
  "nfq_destroy_queue talk qh S = do {
     q \<leftarrow> ns_queues S qh;
     let (ret, S) = build_send_cfg_msg talk NFQNL_CFG_CMD_UNBIND (qh_id q) 0 S;
     if ret = 0 then do {
       S \<leftarrow> del_qh qh S;
       Some (ret, S\<lparr>ns_queues := (ns_queues S)(qh := None)\<rparr>) }
     else Some (ret, S) }"

definition nfq_set_mode :: "(nfq_msg \<Rightarrow> int) \<Rightarrow> ptr \<Rightarrow> u8 \<Rightarrow> u32 \<Rightarrow> nfq_state \<Rightarrow> (int \<times> nfq_state) option" where
  "nfq_set_mode talk qh mode rng S = do {
     q \<leftarrow> ns_queues S qh;
     Some (nfnl_talk talk (Config_params (qh_id q) (htonl rng) mode) S) }"

definition nfq_set_queue_maxlen :: "(nfq_msg \<Rightarrow> int) \<Rightarrow> ptr \<Rightarrow> u32 \<Rightarrow> nfq_state \<Rightarrow> (int \<times> nfq_state) option" where
  "nfq_set_queue_maxlen talk qh queuelen S = do {
     q \<leftarrow> ns_queues S qh;
     Some (nfnl_talk talk (Config_maxlen (qh_id q) (htonl queuelen)) S) }"

definition set_verdict ::
  "(nfq_msg \<Rightarrow> int) \<Rightarrow> ptr \<Rightarrow> u32 \<Rightarrow> u32 \<Rightarrow> u32 \<Rightarrow> bool \<Rightarrow> u8 list \<Rightarrow> nfq_state \<Rightarrow> (int \<times> nfq_state) option" where
  "set_verdict sendiov qh pid verdict mark set_mark data S = do {
     q \<leftarrow> ns_queues S qh;
     Some (nfnl_talk sendiov (Verdict_msg (qh_id q) (htonl verdict) (htonl pid)
       (if set_mark then Some mark else None) data) S) }"

definition nfq_set_verdict_plain ::
  "(nfq_msg \<Rightarrow> int) \<Rightarrow> ptr \<Rightarrow> u32 \<Rightarrow> u32 \<Rightarrow> u8 list \<Rightarrow> nfq_state \<Rightarrow> (int \<times> nfq_state) option" where
  "nfq_set_verdict_plain sendiov qh pid verdict buf S = set_verdict sendiov qh pid verdict 0 False buf S"

definition nfq_set_verdict_mark ::
  "(nfq_msg \<Rightarrow> int) \<Rightarrow> ptr \<Rightarrow> u32 \<Rightarrow> u32 \<Rightarrow> u32 \<Rightarrow> u8 list \<Rightarrow> nfq_state \<Rightarrow> (int \<times> nfq_state) option" where
  "nfq_set_verdict_mark sendiov qh pid verdict mark buf S = set_verdict sendiov qh pid verdict mark True buf S"

text \<open>
  A received packet message: the queue it names is searched and its callback called. The
  result is the handle whose callback is to be called, or the error \<open>-ENODEV\<close>.
\<close>

definition ENODEV :: int where "ENODEV = 19"

definition nfq_rcv_pkt :: "ptr \<Rightarrow> u16 \<Rightarrow> nfq_state \<Rightarrow> (int + ptr) option" where
  "nfq_rcv_pkt h res_id S = do {
     qh \<leftarrow> find_qh h (ntohs res_id) S;
     if qh = 0 then Some (Inl (- ENODEV))
     else do {
       q \<leftarrow> ns_queues S qh;
       Some (if \<not> qh_cb q then Inl (- ENODEV) else Inr qh) } }"

section \<open>The list of queue handles\<close>

fun qh_path :: "nfq_state \<Rightarrow> ptr \<Rightarrow> ptr list \<Rightarrow> bool" where
  "qh_path S p [] = (p = 0)"
| "qh_path S p (x # xs) = (p = x \<and> x \<noteq> 0 \<and> (\<exists>q. ns_queues S x = Some q \<and> qh_path S (qh_next q) xs))"

definition queue_list :: "nfq_state \<Rightarrow> ptr \<Rightarrow> ptr list \<Rightarrow> bool" where
  "queue_list S h ps \<longleftrightarrow> (\<exists>hd. ns_handles S h = Some hd \<and> qh_path S (h_qh_list hd) ps) \<and> distinct ps \<and>
     (\<forall>p \<in> set ps. \<exists>q. ns_queues S p = Some q \<and> qh_h q = h) \<and>
     dom (ns_queues S) \<subseteq> {0<..<ns_next S} \<and> 0 < ns_next S"

definition queue_num :: "nfq_state \<Rightarrow> ptr \<Rightarrow> u16" where
  "queue_num S p = qh_id (the (ns_queues S p))"

lemma qh_path_cong:
  "qh_path S p ps \<Longrightarrow> (\<And>x. x \<in> set ps \<Longrightarrow> ns_queues S' x = ns_queues S x) \<Longrightarrow> qh_path S' p ps"
  by (induction S p ps rule: qh_path.induct) auto

lemma qh_path_dom: "qh_path S p ps \<Longrightarrow> x \<in> set ps \<Longrightarrow> x \<in> dom (ns_queues S) \<and> x \<noteq> 0"
  by (induction S p ps rule: qh_path.induct) auto

lemma find_qh_from_path:
  "qh_path S p ps \<Longrightarrow> find_qh_from num p S = Some (case find (\<lambda>x. queue_num S x = num) ps of None \<Rightarrow> 0 | Some x \<Rightarrow> x)"
  by (induction S p ps rule: qh_path.induct) (auto simp: find_qh_from.simps queue_num_def)

lemma find_qh_eq:
  "queue_list S h ps \<Longrightarrow>
    find_qh h num S = Some (case find (\<lambda>x. queue_num S x = num) ps of None \<Rightarrow> 0 | Some x \<Rightarrow> x)"
  using find_qh_from_path unfolding queue_list_def find_qh_def by fastforce

lemma queue_list_cong:
  assumes "queue_list S h ps" "ns_handles S' = ns_handles S" "\<And>x. x \<in> set ps \<Longrightarrow> ns_queues S' x = ns_queues S x"
    and "dom (ns_queues S') \<subseteq> {0<..<ns_next S'}" "0 < ns_next S'"
  shows "queue_list S' h ps"
proof -
  obtain hd where "ns_handles S h = Some hd" "qh_path S (h_qh_list hd) ps" using assms(1) by (auto simp: queue_list_def)
  moreover from this(2) have "qh_path S' (h_qh_list hd) ps" by (rule qh_path_cong) (simp add: assms(3))
  ultimately show ?thesis using assms unfolding queue_list_def by simp
qed

text \<open>Linking a fresh handle in front, and unlinking a handle from wherever it is.\<close>

lemma add_qh_ok:
  assumes l: "queue_list S h ps" and q: "ns_queues S p = Some q" "qh_h q = h" "p \<notin> set ps"
  shows "runs (add_qh p S) (\<lambda>S'. queue_list S' h (p # ps) \<and> dom (ns_queues S') = dom (ns_queues S) \<and>
    ns_next S' = ns_next S \<and> ns_msgs S' = ns_msgs S \<and> (\<forall>x. queue_num S' x = queue_num S x) \<and>
    (\<forall>x. map_option qh_cb (ns_queues S' x) = map_option qh_cb (ns_queues S x)))"
proof -
  obtain hd where hd: "ns_handles S h = Some hd" "qh_path S (h_qh_list hd) ps" using l by (auto simp: queue_list_def)
  let ?S = "S\<lparr>ns_queues := (ns_queues S)(p \<mapsto> q\<lparr>qh_next := h_qh_list hd\<rparr>),
    ns_handles := (ns_handles S)(h \<mapsto> hd\<lparr>h_qh_list := p\<rparr>)\<rparr>"
  have "add_qh p S = Some ?S" using q hd by (simp add: add_qh_def upd_queue_def upd_handle_def)
  moreover have "qh_path ?S (h_qh_list hd) ps" by (rule qh_path_cong [OF hd(2)]) (use q in auto)
  moreover have "p \<noteq> 0" using q(1) l by (auto simp: queue_list_def)
  ultimately show ?thesis
    using l q hd by (auto simp: queue_list_def queue_num_def)
qed

lemma del_qh_from_here:
  assumes "qh \<noteq> 0" "ns_queues S qh = Some q" "prev \<noteq> 0" "ns_queues S prev = Some r"
  shows "del_qh_from qh qh prev S = Some (S\<lparr>ns_queues := (ns_queues S)(prev \<mapsto> r\<lparr>qh_next := qh_next q\<rparr>)\<rparr>)"
  using assms by (simp add: del_qh_from.simps upd_queue_def)

text \<open>The loop past the first node: \<open>prev\<close> is live and its successor starts the path.\<close>

lemma del_qh_from_path:
  assumes "qh_path S p ps" "distinct ps" "qh \<in> set ps" "prev \<notin> set ps" "prev \<noteq> 0" "ns_queues S prev = Some r" "qh_next r = p"
  shows "\<exists>S' r'. del_qh_from qh p prev S = Some S' \<and> ns_queues S' prev = Some r' \<and> qh_path S' (qh_next r') (remove1 qh ps) \<and>
    ns_handles S' = ns_handles S \<and> ns_next S' = ns_next S \<and> ns_msgs S' = ns_msgs S \<and>
    (\<forall>x. x \<notin> set ps \<longrightarrow> x \<noteq> prev \<longrightarrow> ns_queues S' x = ns_queues S x) \<and>
    (\<forall>x. map_option (qh_next_update (\<lambda>_. 0)) (ns_queues S' x) = map_option (qh_next_update (\<lambda>_. 0)) (ns_queues S x))"
  using assms
proof (induction ps arbitrary: p prev r)
  case (Cons x xs)
  obtain q where q: "p = x" "x \<noteq> 0" "ns_queues S x = Some q" "qh_path S (qh_next q) xs" using Cons.prems(1) by auto
  show ?case
  proof (cases "x = qh")
    case True
    let ?S = "S\<lparr>ns_queues := (ns_queues S)(prev \<mapsto> r\<lparr>qh_next := qh_next q\<rparr>)\<rparr>"
    have "qh_path ?S (qh_next q) xs" by (rule qh_path_cong [OF q(4)]) (use Cons.prems in auto)
    then show ?thesis
      using del_qh_from_here [of qh S q prev r] q True Cons.prems by auto
  next
    case False
    then have "qh \<in> set xs" "x \<notin> set xs" "distinct xs" using Cons.prems by auto
    from Cons.IH [OF q(4) this(3,1,2) q(2,3) refl]
    obtain S' r' where S': "del_qh_from qh (qh_next q) x S = Some S'" "ns_queues S' x = Some r'"
      "qh_path S' (qh_next r') (remove1 qh xs)" "ns_handles S' = ns_handles S" "ns_next S' = ns_next S" "ns_msgs S' = ns_msgs S"
      "\<forall>y. y \<notin> set xs \<longrightarrow> y \<noteq> x \<longrightarrow> ns_queues S' y = ns_queues S y"
      "\<forall>y. map_option (qh_next_update (\<lambda>_. 0)) (ns_queues S' y) = map_option (qh_next_update (\<lambda>_. 0)) (ns_queues S y)"
      by blast
    have "ns_queues S' prev = Some r" using S'(7) Cons.prems(4,6) by auto
    moreover have "del_qh_from qh p prev S = Some S'"
      using S'(1) q(1-3) False by (subst del_qh_from.simps) simp
    ultimately show ?thesis
      using S' q(1,2) False Cons.prems(7) by auto
  qed
qed simp

lemma same_but_next:
  "qh_next_update (\<lambda>_. 0) a = qh_next_update (\<lambda>_. 0) b \<Longrightarrow> qh_id a = qh_id b \<and> qh_h a = qh_h b \<and> qh_cb a = qh_cb b"
  for a b :: nfq_q_handle
  by (cases a; cases b) simp

lemma queue_num_shape:
  assumes "map_option (qh_next_update (\<lambda>_. 0)) (ns_queues S' x) = map_option (qh_next_update (\<lambda>_. 0)) (ns_queues S x)"
  shows "queue_num S' x = queue_num S x" "map_option qh_h (ns_queues S' x) = map_option qh_h (ns_queues S x)"
    "x \<in> dom (ns_queues S') \<longleftrightarrow> x \<in> dom (ns_queues S)"
    "map_option qh_cb (ns_queues S' x) = map_option qh_cb (ns_queues S x)"
  using assms
  by (cases "ns_queues S x"; cases "ns_queues S' x"; auto simp: queue_num_def dest: same_but_next)+

lemma del_qh_ok:
  assumes l: "queue_list S h ps" and p: "qh \<in> set ps"
  shows "runs (del_qh qh S) (\<lambda>S'. queue_list S' h (remove1 qh ps) \<and> ns_next S' = ns_next S \<and> ns_msgs S' = ns_msgs S \<and>
    (\<forall>x. map_option (qh_next_update (\<lambda>_. 0)) (ns_queues S' x) = map_option (qh_next_update (\<lambda>_. 0)) (ns_queues S x)))"
proof -
  obtain hd where hd: "ns_handles S h = Some hd" "qh_path S (h_qh_list hd) ps" using l by (auto simp: queue_list_def)
  obtain q where q: "ns_queues S qh = Some q" "qh_h q = h" using l p by (auto simp: queue_list_def)
  obtain x xs where ps: "ps = x # xs" using p by (cases ps) auto
  obtain r where r: "h_qh_list hd = x" "x \<noteq> 0" "ns_queues S x = Some r" "qh_path S (qh_next r) xs" using hd(2) ps by auto
  have d: "distinct xs" "x \<notin> set xs" using l ps by (auto simp: queue_list_def)
  have start: "del_qh qh S = del_qh_from qh x 0 S" using q hd r by (simp add: del_qh_def)
  show ?thesis
  proof (cases "x = qh")
    case True
    let ?S = "S\<lparr>ns_handles := (ns_handles S)(h \<mapsto> hd\<lparr>h_qh_list := qh_next q\<rparr>)\<rparr>"
    have "qh_path S (qh_next q) xs" using r(3,4) q(1) True by simp
    then have "qh_path ?S (qh_next q) xs" by (rule qh_path_cong) simp
    moreover have "del_qh qh S = Some ?S"
      using start True q hd(1) r(2) by (simp add: del_qh_from.simps upd_handle_def)
    ultimately show ?thesis
      using l ps True by (auto simp: queue_list_def)
  next
    case False
    then have "qh \<in> set xs" using p ps by auto
    from del_qh_from_path [OF r(4) d(1) this d(2) r(2,3) refl]
    obtain S' r' where S': "del_qh_from qh (qh_next r) x S = Some S'" "ns_queues S' x = Some r'"
      "qh_path S' (qh_next r') (remove1 qh xs)" "ns_handles S' = ns_handles S" "ns_next S' = ns_next S" "ns_msgs S' = ns_msgs S"
      and sh: "\<forall>y. map_option (qh_next_update (\<lambda>_. 0)) (ns_queues S' y) = map_option (qh_next_update (\<lambda>_. 0)) (ns_queues S y)"
      by blast
    have "del_qh qh S = Some S'"
      using start S'(1) r(2,3) False by (simp add: del_qh_from.simps)
    moreover have "dom (ns_queues S') = dom (ns_queues S)" using queue_num_shape(3) sh by blast
    moreover have "\<exists>q. ns_queues S' y = Some q \<and> qh_h q = h" if "y \<in> set ps" for y
    proof -
      have "map_option qh_h (ns_queues S' y) = map_option qh_h (ns_queues S y)" by (rule queue_num_shape(2) [OF spec [OF sh]])
      then show ?thesis using l that by (auto simp: queue_list_def)
    qed
    moreover have "qh_path S' x (x # remove1 qh xs)" using S'(2,3) r(2) by simp
    ultimately show ?thesis
      using l ps False S'(4-6) hd(1) r(1) sh by (auto simp: queue_list_def distinct_remove1 dest: notin_set_remove1 set_remove1_subset [THEN subsetD])
  qed
qed

section \<open>Properties of the library\<close>

text \<open>Which queue a message goes to, on the list of handles.\<close>

definition queue_for :: "nfq_state \<Rightarrow> ptr list \<Rightarrow> u16 \<Rightarrow> int + ptr" where
  "queue_for S ps num = (case find (\<lambda>x. queue_num S x = num) ps of
       None \<Rightarrow> Inl (- ENODEV)
     | Some p \<Rightarrow> if qh_cb (the (ns_queues S p)) then Inr p else Inl (- ENODEV))"

lemma found_in: "find P xs = Some x \<Longrightarrow> x \<in> set xs \<and> P x"
  by (metis find_Some_iff nth_mem)

lemma nfq_rcv_pkt_eq:
  assumes "queue_list S h ps"
  shows "nfq_rcv_pkt h (htons num) S = Some (queue_for S ps num)"
proof (cases "find (\<lambda>x. queue_num S x = num) ps")
  case None
  then show ?thesis by (simp add: nfq_rcv_pkt_def find_qh_eq [OF assms] queue_for_def)
next
  case (Some p)
  then have "p \<in> set ps" by (simp add: found_in)
  then obtain q where "ns_queues S p = Some q" "p \<noteq> 0" using assms by (fastforce simp: queue_list_def)
  then show ?thesis using Some by (simp add: nfq_rcv_pkt_def find_qh_eq [OF assms] queue_for_def)
qed

lemma queue_for_cong:
  assumes "\<And>x. x \<in> set ps \<Longrightarrow> queue_num S' x = queue_num S x \<and> qh_cb (the (ns_queues S' x)) = qh_cb (the (ns_queues S x))"
  shows "queue_for S' ps num = queue_for S ps num"
proof -
  have "find (\<lambda>x. queue_num S' x = num) ps = find (\<lambda>x. queue_num S x = num) ps"
    by (rule find_cong) (simp_all add: assms)
  then show ?thesis using assms found_in by (fastforce simp: queue_for_def split: option.split)
qed

text \<open>
  C35: creating a queue with a number that is not in use, when the kernel binds it, links its handle
  in front of the list; packets for that number are then passed to it, and packets for every
  other number go where they went before.
\<close>
theorem created_queue_receives_its_packets:
  assumes "queue_list S h ps" "\<forall>p \<in> set ps. queue_num S p \<noteq> num"
    and "0 \<le> talk (Config_cmd num NFQNL_CFG_CMD_BIND (htons 0))"
  shows "runs (nfq_create_queue talk h num True S) (\<lambda>(qh, S'). qh = ns_next S \<and> queue_list S' h (qh # ps) \<and>
    nfq_rcv_pkt h (htons num) S' = Some (Inr qh) \<and>
    (\<forall>m. m \<noteq> num \<longrightarrow> nfq_rcv_pkt h (htons m) S' = nfq_rcv_pkt h (htons m) S))"
proof -
  let ?p = "ns_next S" and ?q = "\<lparr>qh_next = 0, qh_h = h, qh_id = num, qh_cb = True\<rparr>"
  define S1 where "S1 = S\<lparr>ns_next := Suc ?p, ns_queues := (ns_queues S)(?p \<mapsto> ?q),
    ns_msgs := Config_cmd num NFQNL_CFG_CMD_BIND (htons 0) # ns_msgs S\<rparr>"
  have fresh: "?p \<notin> dom (ns_queues S)" "?p \<noteq> 0" using assms(1) by (auto simp: queue_list_def)
  have notin: "?p \<notin> set ps" using fresh assms(1) unfolding queue_list_def by blast
  have l1: "queue_list S1 h ps"
    by (rule queue_list_cong [OF assms(1)])
      (use assms(1) notin fresh in \<open>auto simp: S1_def queue_list_def less_Suc_eq\<close>)
  obtain S' where S': "add_qh ?p S1 = Some S'" "queue_list S' h (?p # ps)"
    "\<forall>x. queue_num S' x = queue_num S1 x" "\<forall>x. map_option qh_cb (ns_queues S' x) = map_option qh_cb (ns_queues S1 x)"
    using add_qh_ok [OF l1, of ?p ?q] notin by (auto simp: S1_def runs_iff)
  have none: "find (\<lambda>x. queue_num S x = num) ps = None" using assms(2) by (auto simp: find_None_iff)
  have cb: "qh_cb (the (ns_queues S' x)) = qh_cb (the (ns_queues S1 x))" for x
    using spec [OF S'(4), of x] by (cases "ns_queues S1 x"; cases "ns_queues S' x") auto
  have "nfq_create_queue talk h num True S = Some (?p, S')"
    using none S'(1) assms(3) by (simp add: nfq_create_queue_def find_qh_eq [OF assms(1)] build_send_cfg_msg_def
        nfnl_talk_def S1_def Let_def)
  moreover have "queue_for S' (?p # ps) num = Inr ?p"
    using S'(3) cb by (simp add: queue_for_def queue_num_def S1_def)
  moreover have "queue_for S' (?p # ps) m = queue_for S ps m" if "m \<noteq> num" for m
  proof -
    have "queue_num S' ?p \<noteq> m" using S'(3) that by (simp add: queue_num_def S1_def)
    then have "queue_for S' (?p # ps) m = queue_for S' ps m" by (simp add: queue_for_def)
    also have "\<dots> = queue_for S ps m"
      by (rule queue_for_cong) (use S'(3) cb notin in \<open>auto simp: queue_num_def S1_def\<close>)
    finally show ?thesis .
  qed
  ultimately show ?thesis
    using S'(2) nfq_rcv_pkt_eq [OF S'(2)] nfq_rcv_pkt_eq [OF assms(1)] by simp
qed

definition sample_nfq :: nfq_state where
  "sample_nfq = \<lparr>ns_handles = [1 \<mapsto> \<lparr>h_qh_list = 2\<rparr>],
     ns_queues = [2 \<mapsto> \<lparr>qh_next = 3, qh_h = 1, qh_id = 0, qh_cb = True\<rparr>,
                  3 \<mapsto> \<lparr>qh_next = 0, qh_h = 1, qh_id = 5, qh_cb = True\<rparr>],
     ns_next = 4, ns_msgs = []\<rparr>"

lemma sample_nfq_list: "queue_list sample_nfq 1 [2, 3]"
  by (auto simp: queue_list_def sample_nfq_def)

theorem created_queue_receives_its_packets_witness:
  "\<exists>S'. nfq_create_queue (\<lambda>m. 0) 1 7 True sample_nfq = Some (4, S') \<and> nfq_rcv_pkt 1 (htons 7) S' = Some (Inr 4)"
proof -
  have "\<forall>p \<in> set [2, 3]. queue_num sample_nfq p \<noteq> 7" "ns_next sample_nfq = 4"
    by (simp_all add: queue_num_def sample_nfq_def)
  then show ?thesis
    using created_queue_receives_its_packets [OF sample_nfq_list, of 7 "\<lambda>m. 0"] by (auto simp: runs_iff)
qed

text \<open>
  Destroying a queue, when the kernel agrees, unlinks exactly its handle: packets for its
  number are refused with \<open>-ENODEV\<close> and packets for every other queue go where they went.
\<close>
theorem destroyed_queue_is_unlinked:
  assumes "queue_list S h ps" "qh \<in> set ps" "distinct (map (queue_num S) ps)"
    and "talk (Config_cmd (queue_num S qh) NFQNL_CFG_CMD_UNBIND (htons 0)) = 0"
  shows "runs (nfq_destroy_queue talk qh S) (\<lambda>(ret, S'). ret = 0 \<and> queue_list S' h (remove1 qh ps) \<and>
    nfq_rcv_pkt h (htons (queue_num S qh)) S' = Some (Inl (- ENODEV)) \<and>
    (\<forall>m. m \<noteq> queue_num S qh \<longrightarrow> nfq_rcv_pkt h (htons m) S' = nfq_rcv_pkt h (htons m) S))"
proof -
  define S1 where "S1 = S\<lparr>ns_msgs := Config_cmd (queue_num S qh) NFQNL_CFG_CMD_UNBIND (htons 0) # ns_msgs S\<rparr>"
  obtain q where q: "ns_queues S qh = Some q" using assms(1,2) by (auto simp: queue_list_def)
  have "queue_list S1 h ps"
    by (rule queue_list_cong [OF assms(1)]) (use assms(1) in \<open>auto simp: S1_def queue_list_def\<close>)
  from del_qh_ok [OF this assms(2)] obtain S2 where S2: "del_qh qh S1 = Some S2" "queue_list S2 h (remove1 qh ps)"
    "ns_next S2 = ns_next S"
    and sh: "\<And>x. map_option (qh_next_update (\<lambda>_. 0)) (ns_queues S2 x) = map_option (qh_next_update (\<lambda>_. 0)) (ns_queues S1 x)"
    by (auto simp: runs_iff S1_def)
  define S' where "S' = S2\<lparr>ns_queues := (ns_queues S2)(qh := None)\<rparr>"
  have ps: "distinct ps" "set (remove1 qh ps) = set ps - {qh}" using assms(1) by (auto simp: queue_list_def)
  have l: "queue_list S' h (remove1 qh ps)"
    by (rule queue_list_cong [OF S2(2)]) (use S2(2) ps in \<open>auto simp: S'_def queue_list_def\<close>)
  have same: "queue_num S' x = queue_num S x \<and> qh_cb (the (ns_queues S' x)) = qh_cb (the (ns_queues S x))"
    if "x \<in> set ps" "x \<noteq> qh" for x
  proof -
    have "x \<in> dom (ns_queues S)" using assms(1) that(1) by (auto simp: queue_list_def)
    then show ?thesis
      using queue_num_shape(1,4) [OF sh, of x] that(2) by (auto simp: queue_num_def S'_def S1_def)
  qed
  have other: "queue_num S x \<noteq> queue_num S qh" if "x \<in> set ps" "x \<noteq> qh" for x
    using assms(2,3) that by (auto simp: distinct_map inj_on_def)
  have "queue_for S' (remove1 qh ps) m = (if m = queue_num S qh then Inl (- ENODEV) else queue_for S ps m)" for m
  proof -
    have "queue_for S' (remove1 qh ps) m = queue_for S (remove1 qh ps) m"
      by (rule queue_for_cong) (use same ps in auto)
    moreover have "find (\<lambda>x. queue_num S x = m) (remove1 qh ps) =
        (if m = queue_num S qh then None else find (\<lambda>x. queue_num S x = m) ps)"
      using other ps(1) by (induction ps) (auto simp: find_None_iff)
    ultimately show ?thesis by (simp add: queue_for_def)
  qed
  moreover have "nfq_destroy_queue talk qh S = Some (0, S')"
    using q S2(1) assms(4) by (simp add: nfq_destroy_queue_def build_send_cfg_msg_def nfnl_talk_def S1_def S'_def
        queue_num_def Let_def)
  ultimately show ?thesis
    using l nfq_rcv_pkt_eq [OF l] nfq_rcv_pkt_eq [OF assms(1)] by simp
qed

theorem destroyed_queue_is_unlinked_witness:
  "\<exists>S'. nfq_destroy_queue (\<lambda>m. 0) 3 sample_nfq = Some (0, S') \<and> nfq_rcv_pkt 1 (htons 5) S' = Some (Inl (- 19))"
proof -
  have "distinct (map (queue_num sample_nfq) [2, 3])" "queue_num sample_nfq 3 = 5"
    by (simp_all add: queue_num_def sample_nfq_def)
  then show ?thesis
    using destroyed_queue_is_unlinked [OF sample_nfq_list, of 3 "\<lambda>m. 0"] by (auto simp: runs_iff ENODEV_def)
qed

text \<open>
  \<open>nfq_get_ip_version\<close> and \<open>nfq_get_ip_ihl\<close> are exchanged: of a header that starts with
  version \<open>v\<close> in the upper and header length \<open>l\<close> in the lower half of its first byte, as every
  Internet header does, the one returns \<open>l\<close> and the other \<open>v\<close>.
\<close>
theorem version_and_length_are_exchanged:
  assumes "v < 16" "l < 16"
  shows "nfq_get_ip_version ((push_bit 4 v OR l) # rest) = Some l \<and> nfq_get_ip_ihl ((push_bit 4 v OR l) # rest) = Some v"
proof -
  have s: "v = take_bit 4 v" "l = take_bit 4 l"
    using assms by (simp_all add: take_bit_eq_mod word_unat_eq_iff unat_mod word_less_nat_alt)
  have bits: "bit v n \<Longrightarrow> n < 4" "bit l n \<Longrightarrow> n < 4" for n
    by (subst (asm) s, simp add: bit_take_bit_iff)+
  have "take_bit 4 (push_bit 4 v OR l) = l"
    by (rule bit_word_eqI) (auto simp: bit_simps dest: bits)
  moreover have "drop_bit 4 (push_bit 4 v OR l) = v"
    by (rule bit_word_eqI) (auto simp: bit_simps dest: bits)
  ultimately show ?thesis by (simp add: nfq_get_ip_version_def nfq_get_ip_ihl_def read8_def)
qed

theorem version_and_length_are_exchanged_witness:
  "nfq_get_ip_version [0x45] = Some 5"
  using version_and_length_are_exchanged [of 4 5 "[]"] by simp

end
