(* ===== verification/Config.thy ===== *)
theory Config
  imports Prelude
begin

unbundle bit_operations_syntax

text \<open>
  The protocol constants of \<open>libmeshias/aodv/configuration_parameters.c\<close> and the conversions
  between milliseconds and seconds of \<open>libmeshias/utils.c\<close>. All of them are 32-bit unsigned
  values as in the C code; \<open>unsigned long\<close> has 64 bits.
\<close>

section \<open>Time values\<close>

record timeval =
  tv_sec :: int
  tv_usec :: int

definition set_alarm_time :: "u32 \<Rightarrow> u64 \<times> u64" where
  "set_alarm_time ms = (ucast (ms div 1000), ucast ((ms mod 1000) * 1000))"

definition get_alarm_time :: "u64 \<Rightarrow> u64 \<Rightarrow> u32" where
  "get_alarm_time sc usc = ucast (ucast ((ucast usc :: u32) div 1000) + sc * (1000 :: u64))"

section \<open>Constants\<close>

definition AODV_UDP_PORT :: u16 where "AODV_UDP_PORT = 654"

definition ACTIVE_ROUTE_TIMEOUT :: u32 where "ACTIVE_ROUTE_TIMEOUT = 3000"

definition ALLOWED_HELLO_LOSS :: u32 where "ALLOWED_HELLO_LOSS = 2"

definition RREQ_RETRIES :: u32 where "RREQ_RETRIES = 2"

definition HELLO_INTERVAL :: u32 where "HELLO_INTERVAL = 1000"

definition LOCAL_ADD_TTL :: u32 where "LOCAL_ADD_TTL = 2"

definition NET_DIAMETER :: u32 where "NET_DIAMETER = 35"

definition RERR_RATELIMIT :: u32 where "RERR_RATELIMIT = 10"

definition RREQ_RATELIMIT :: u32 where "RREQ_RATELIMIT = 10"

definition TIMEOUT_BUFFER :: u32 where "TIMEOUT_BUFFER = 2"

definition TTL_START :: u32 where "TTL_START = 3"

definition TTL_INCREMENT :: u32 where "TTL_INCREMENT = 2"

definition TTL_THRESHOLD :: u32 where "TTL_THRESHOLD = 7"

definition NODE_TRAVERSAL_TIME :: u32 where "NODE_TRAVERSAL_TIME = 40"

definition NEXT_HOP_WAIT :: u32 where "NEXT_HOP_WAIT = NODE_TRAVERSAL_TIME + 10"

text \<open>\<open>0.3 * NET_DIAMETER()\<close> truncated to an unsigned integer.\<close>

definition MAX_REPAIR_TTL :: u32 where "MAX_REPAIR_TTL = (3 * NET_DIAMETER) div 10"

definition MY_ROUTE_TIMEOUT :: u32 where "MY_ROUTE_TIMEOUT = 2 * ACTIVE_ROUTE_TIMEOUT"

definition NET_TRAVERSAL_TIME :: u32 where
  "NET_TRAVERSAL_TIME = 2 * NODE_TRAVERSAL_TIME * NET_DIAMETER"

definition BLACKLIST_TIMEOUT :: u32 where "BLACKLIST_TIMEOUT = RREQ_RETRIES * NET_TRAVERSAL_TIME"

definition PATH_DISCOVERY_TIME :: u32 where "PATH_DISCOVERY_TIME = 2 * NET_TRAVERSAL_TIME"

definition DELETE_PERIOD :: u32 where "DELETE_PERIOD = ALLOWED_HELLO_LOSS * HELLO_INTERVAL"

definition MIN_REPAIR_TTL :: u32 where "MIN_REPAIR_TTL = 0"

definition TTL_VALUE :: u32 where "TTL_VALUE = 0"

definition RING_TRAVERSAL_TIME :: u32 where
  "RING_TRAVERSAL_TIME = 2 * NODE_TRAVERSAL_TIME * (TTL_VALUE + TIMEOUT_BUFFER)"

lemmas config_defs = ACTIVE_ROUTE_TIMEOUT_def ALLOWED_HELLO_LOSS_def RREQ_RETRIES_def
  HELLO_INTERVAL_def LOCAL_ADD_TTL_def NET_DIAMETER_def RERR_RATELIMIT_def RREQ_RATELIMIT_def
  TIMEOUT_BUFFER_def TTL_START_def TTL_INCREMENT_def TTL_THRESHOLD_def NODE_TRAVERSAL_TIME_def
  NEXT_HOP_WAIT_def MAX_REPAIR_TTL_def MY_ROUTE_TIMEOUT_def NET_TRAVERSAL_TIME_def
  BLACKLIST_TIMEOUT_def PATH_DISCOVERY_TIME_def DELETE_PERIOD_def MIN_REPAIR_TTL_def
  TTL_VALUE_def RING_TRAVERSAL_TIME_def

section \<open>Computed parameters\<close>

text \<open>
  \<open>1 << prev_tries\<close> is an \<open>int\<close> shift: undefined for a negative count and for one that moves
  the bit out of the 31 value bits.
\<close>

definition binary_exponential_backoff_time :: "i8 \<Rightarrow> u32 option" where
  "binary_exponential_backoff_time prev_tries =
     defined_if (0 \<le> sint prev_tries \<and> sint prev_tries < 31)
       (Some (push_bit (nat (sint prev_tries)) 1 * NET_TRAVERSAL_TIME))"

definition expanding_ring_search_ttl :: "u8 \<Rightarrow> i8 \<Rightarrow> u32" where
  "expanding_ring_search_ttl hop_count prev_tries =
     (if prev_tries = 0 then ucast hop_count + TTL_START
      else let ret = ucast hop_count + TTL_START + scast prev_tries * TTL_INCREMENT in
        if TTL_THRESHOLD < ret then NET_DIAMETER else ret)"

text \<open>\<open>minimal_lifetime\<close> reads the clock; \<open>now\<close> is what \<open>gettimeofday\<close> stored.\<close>

definition tv_ms :: "timeval \<Rightarrow> u32" where
  "tv_ms tv = get_alarm_time (word_of_int (tv_sec tv)) (word_of_int (tv_usec tv))"

definition minimal_lifetime :: "timeval \<Rightarrow> u8 \<Rightarrow> u32" where
  "minimal_lifetime now hop_count =
     tv_ms now + 2 * NET_TRAVERSAL_TIME - (2 * ucast hop_count) * NODE_TRAVERSAL_TIME"

section \<open>Properties\<close>

text \<open>
  Converting any number of milliseconds to seconds and microseconds and back gives the same
  number, and the microseconds stay below one second.
\<close>
theorem alarm_time_roundtrip:
  "(case set_alarm_time ms of (sc, usc) \<Rightarrow> get_alarm_time sc usc = ms \<and> unat usc < 1000000)"
proof -
  have u: "unat (ms mod 1000) = unat ms mod 1000" "unat (ms div 1000) = unat ms div 1000"
    by (simp_all add: unat_mod unat_div)
  have lt: "unat ms < 2 ^ 32" using unsigned_less [of ms] by simp
  have p: "unat ((ms mod 1000) * 1000) = unat ms mod 1000 * 1000"
    using u by (simp add: unat_word_ariths)
  have q: "unat (ucast ((ms mod 1000) * 1000) :: u64) = unat ms mod 1000 * 1000"
    by (simp add: unsigned_ucast_eq p take_bit_eq_mod)
  have r: "unat (ucast (ms div 1000) :: u64) = unat ms div 1000"
    using lt by (simp add: unsigned_ucast_eq u take_bit_eq_mod)
  have s: "(ucast (ucast ((ms mod 1000) * 1000) :: u64) :: u32) = (ms mod 1000) * 1000"
    by (simp add: ucast_down_ucast_id is_down)
  have t: "((ms mod 1000) * 1000) div 1000 = ms mod 1000"
    by (rule word_unat_eq_iff [THEN iffD2]) (simp add: unat_div p u)
  have "unat (get_alarm_time (ucast (ms div 1000)) (ucast ((ms mod 1000) * 1000))) = unat ms"
  proof -
    have m: "unat (ucast (ms mod 1000) :: u64) = unat ms mod 1000"
      by (simp add: unsigned_ucast_eq u take_bit_eq_mod)
    have "unat ms mod 1000 + unat ms div 1000 * 1000 = unat ms" by simp
    then have "unat (ucast (ms mod 1000) + ucast (ms div 1000) * 1000 :: u64) = unat ms"
      using lt m r by (simp add: unat_word_ariths)
    moreover have "get_alarm_time (ucast (ms div 1000)) (ucast ((ms mod 1000) * 1000)) =
        ucast (ucast (ms mod 1000) + ucast (ms div 1000) * 1000 :: u64)"
      by (simp only: get_alarm_time_def s t)
    ultimately show ?thesis
      using lt by (simp add: unsigned_ucast_eq take_bit_eq_mod)
  qed
  then show ?thesis
    using q by (simp add: set_alarm_time_def word_unat_eq_iff)
qed

text \<open>
  The back-off time is defined exactly for 0 to 30 previous tries; within the retries the
  daemon makes it is the traversal time doubled for each try, without wrap-around.
\<close>
theorem backoff_doubles:
  "(binary_exponential_backoff_time tries \<noteq> None) = (sint tries \<in> {0..30}) \<and>
   (sint tries \<in> {0..20} \<longrightarrow>
     map_option unat (binary_exponential_backoff_time tries) = Some (2 ^ nat (sint tries) * 2800))"
proof (intro conjI impI)
  show "(binary_exponential_backoff_time tries \<noteq> None) = (sint tries \<in> {0..30})"
    by (auto simp: binary_exponential_backoff_time_def defined_if_def)
next
  assume r: "sint tries \<in> {0..20}"
  define n where "n = nat (sint tries)"
  have "n \<le> 20" using r by (auto simp: n_def)
  then have b: "(2::nat) ^ n \<le> 2 ^ 20" by (intro power_increasing) auto
  have "unat (push_bit n 1 :: u32) = 2 ^ n"
    using \<open>n \<le> 20\<close> unat_two_power [of n, where ?'a = 32] by simp
  then have "unat (push_bit n 1 * NET_TRAVERSAL_TIME) = 2 ^ n * 2800"
    using b by (simp add: config_defs unat_word_ariths)
  then show "map_option unat (binary_exponential_backoff_time tries) = Some (2 ^ nat (sint tries) * 2800)"
    using r by (simp add: binary_exponential_backoff_time_def n_def)
qed

theorem backoff_doubles_witness:
  "map_option unat (binary_exponential_backoff_time 2) = Some 11200"
  using backoff_doubles [of 2] by simp

text \<open>
  A repeated route search never asks for a hop limit beyond the diameter of the network, and
  a first search for a destination at a known distance looks three hops further.
\<close>
theorem ring_search_ttl_bound:
  "if prev_tries = 0 then unat (expanding_ring_search_ttl hop_count prev_tries) = unat hop_count + 3
   else unat (expanding_ring_search_ttl hop_count prev_tries) \<le> 35"
proof (cases "prev_tries = 0")
  case True
  then show ?thesis
    using unat_u8_less [of hop_count]
    by (simp add: expanding_ring_search_ttl_def config_defs unat_word_ariths)
next
  case False
  have "unat x \<le> 35" if "\<not> TTL_THRESHOLD < x" for x :: u32
    using that by (simp add: config_defs word_less_nat_alt)
  then show ?thesis
    using False by (simp add: expanding_ring_search_ttl_def Let_def config_defs)
qed

end
