(* ===== verification/Rbtree.thy ===== *)
theory Rbtree
  imports Prelude
begin

text \<open>
  The red-black trees of \<open>libmeshias/alarm/rbtree.c\<close> and \<open>linux_rbtree.h\<close>, in which the alarms
  wait. A node of the tree is identified by the object it is embedded in. A node together with
  its chain of parents, which the C code reaches through \<open>rb_parent\<close>, is a subtree with a path:
  the frames of the path are the parents from the innermost one to the root, each with its
  colour, its object and the other child. Walking up the chain takes frames off the path;
  reading a child or a colour of a null node is undefined, \<open>None\<close>. The objects whose nodes a
  deletion reads or writes are collected by functions beside it (\<open>rb_erase_uses\<close>), for the places
  where some of them may have been freed. The final sections show
  that insertion and deletion keep the order of the nodes and the red-black balance, and never
  touch a null node.
\<close>

section \<open>Trees, paths\<close>

datatype color = RB_RED | RB_BLACK

datatype rb_node = Null | RbNode (rb_color: color) (rb_left: rb_node) (rb_obj: ptr) (rb_right: rb_node)

datatype frame =
    LeftOf color ptr rb_node
  | RightOf rb_node color ptr

type_synonym path = "frame list"

fun parent_color :: "frame \<Rightarrow> color" where
  "parent_color (LeftOf c x r) = c"
| "parent_color (RightOf l c x) = c"

fun sibling :: "frame \<Rightarrow> rb_node" where
  "sibling (LeftOf c x r) = r"
| "sibling (RightOf l c x) = l"

fun fill :: "rb_node \<Rightarrow> frame \<Rightarrow> rb_node" where
  "fill t (LeftOf c x r) = RbNode c t x r"
| "fill t (RightOf l c x) = RbNode c l x t"

definition plug :: "rb_node \<Rightarrow> path \<Rightarrow> rb_node" where
  "plug t ctx = foldl fill t ctx"

fun inorder :: "rb_node \<Rightarrow> ptr list" where
  "inorder Null = []"
| "inorder (RbNode c l x r) = inorder l @ x # inorder r"

text \<open>The objects before and after the hole of a path.\<close>

fun frames_before :: "path \<Rightarrow> ptr list" where
  "frames_before [] = []"
| "frames_before (LeftOf c x r # ctx) = frames_before ctx"
| "frames_before (RightOf l c x # ctx) = frames_before ctx @ inorder l @ [x]"

fun frames_after :: "path \<Rightarrow> ptr list" where
  "frames_after [] = []"
| "frames_after (LeftOf c x r # ctx) = x # inorder r @ frames_after ctx"
| "frames_after (RightOf l c x # ctx) = frames_after ctx"

section \<open>Colours and rotations\<close>

definition rb_is_red :: "rb_node \<Rightarrow> bool option" where
  "rb_is_red t = (case t of Null \<Rightarrow> None | RbNode c l x r \<Rightarrow> Some (c = RB_RED))"

text \<open>The tests \<open>uncle && rb_is_red(uncle)\<close> and \<open>!child || rb_is_black(child)\<close>.\<close>

fun red_child :: "rb_node \<Rightarrow> bool" where
  "red_child Null = False"
| "red_child (RbNode c l x r) = (c = RB_RED)"

definition black_child :: "rb_node \<Rightarrow> bool" where
  "black_child t = (\<not> red_child t)"

fun rb_set_color :: "rb_node \<Rightarrow> color \<Rightarrow> rb_node option" where
  "rb_set_color Null c = None"
| "rb_set_color (RbNode c' l x r) c = Some (RbNode c l x r)"

fun blacken :: "rb_node \<Rightarrow> rb_node" where
  "blacken Null = Null"
| "blacken (RbNode c l x r) = RbNode RB_BLACK l x r"

fun rb_rotate_left :: "rb_node \<Rightarrow> rb_node option" where
  "rb_rotate_left (RbNode c a x (RbNode c' b y d)) = Some (RbNode c' (RbNode c a x b) y d)"
| "rb_rotate_left _ = None"

fun rb_rotate_right :: "rb_node \<Rightarrow> rb_node option" where
  "rb_rotate_right (RbNode c (RbNode c' a x b) y d) = Some (RbNode c' a x (RbNode c b y d))"
| "rb_rotate_right _ = None"

section \<open>Insertion\<close>

text \<open>
  \<open>rb_insert_color node ctx\<close>: the loop of the C function at the node \<open>node\<close> below the parents
  \<open>ctx\<close>; the result is the whole tree. After the rotations the parent is black, so the loop
  condition fails at once and the root is painted black.
\<close>

fun rb_insert_color :: "rb_node \<Rightarrow> path \<Rightarrow> rb_node option" where
  "rb_insert_color node [] = rb_set_color node RB_BLACK"
| "rb_insert_color node [parent] =
     (if parent_color parent = RB_RED then None
      else rb_set_color (plug node [parent]) RB_BLACK)"
| "rb_insert_color node (parent # gparent # ctx) =
     (if parent_color parent = RB_RED then
        (case gparent of
           LeftOf gc gx uncle \<Rightarrow>
             (if red_child uncle then
                rb_insert_color (RbNode RB_RED (blacken (fill node parent)) gx (blacken uncle)) ctx
              else do {
                p \<leftarrow> (case parent of
                       RightOf _ _ _ \<Rightarrow> rb_rotate_left (fill node parent)
                     | LeftOf _ _ _ \<Rightarrow> Some (fill node parent));
                p \<leftarrow> rb_set_color p RB_BLACK;
                g \<leftarrow> rb_rotate_right (RbNode RB_RED p gx uncle);
                rb_set_color (plug g ctx) RB_BLACK })
         | RightOf uncle gc gx \<Rightarrow>
             (if red_child uncle then
                rb_insert_color (RbNode RB_RED (blacken uncle) gx (blacken (fill node parent))) ctx
              else do {
                p \<leftarrow> (case parent of
                       LeftOf _ _ _ \<Rightarrow> rb_rotate_right (fill node parent)
                     | RightOf _ _ _ \<Rightarrow> Some (fill node parent));
                p \<leftarrow> rb_set_color p RB_BLACK;
                g \<leftarrow> rb_rotate_left (RbNode RB_RED uncle gx p);
                rb_set_color (plug g ctx) RB_BLACK }))
      else rb_set_color (plug node (parent # gparent # ctx)) RB_BLACK)"

text \<open>\<open>rb_link_node\<close>: the new node is red (the colour bit of an aligned parent pointer is 0).\<close>

definition rb_link_node :: "ptr \<Rightarrow> rb_node" where
  "rb_link_node x = RbNode RB_RED Null x Null"

section \<open>Deletion\<close>

text \<open>One turn of the loop of \<open>__rb_erase_color\<close> that is not its last test.\<close>

datatype erase_turn = Done rb_node | Again rb_node path

text \<open>
  The hole is the left child of the parent \<open>(pc, px)\<close> and \<open>other\<close> is the parent's right child,
  already black (the red sibling was rotated away by the caller).
\<close>

definition erase_left_turn :: "rb_node \<Rightarrow> color \<Rightarrow> ptr \<Rightarrow> rb_node \<Rightarrow> path \<Rightarrow> erase_turn option" where
  "erase_left_turn node pc px other ctx =
     (case other of Null \<Rightarrow> None | RbNode oc ol ox orr \<Rightarrow>
       (if black_child ol \<and> black_child orr then
          Some (Again (RbNode pc node px (RbNode RB_RED ol ox orr)) ctx)
        else do {
          other \<leftarrow> (if black_child orr then
                      rb_rotate_right (RbNode RB_RED (blacken ol) ox orr)
                    else Some other);
          other \<leftarrow> rb_set_color other pc;
          top \<leftarrow> rb_rotate_left (RbNode RB_BLACK node px
                   (RbNode (rb_color other) (rb_left other) (rb_obj other) (blacken (rb_right other))));
          Some (Done (plug top ctx)) }))"

definition erase_right_turn :: "rb_node \<Rightarrow> rb_node \<Rightarrow> color \<Rightarrow> ptr \<Rightarrow> path \<Rightarrow> erase_turn option" where
  "erase_right_turn node other pc px ctx =
     (case other of Null \<Rightarrow> None | RbNode oc ol ox orr \<Rightarrow>
       (if black_child ol \<and> black_child orr then
          Some (Again (RbNode pc (RbNode RB_RED ol ox orr) px node) ctx)
        else do {
          other \<leftarrow> (if black_child ol then
                      rb_rotate_left (RbNode RB_RED ol ox (blacken orr))
                    else Some other);
          other \<leftarrow> rb_set_color other pc;
          top \<leftarrow> rb_rotate_right (RbNode RB_BLACK
                   (RbNode (rb_color other) (blacken (rb_left other)) (rb_obj other) (rb_right other))
                   px node);
          Some (Done (plug top ctx)) }))"

text \<open>
  A red sibling: it becomes black, the parent red, and the rotation puts the sibling above the
  parent, so that the hole's path gets one frame longer.
\<close>

definition erase_turn_at :: "rb_node \<Rightarrow> frame \<Rightarrow> path \<Rightarrow> erase_turn option" where
  "erase_turn_at node parent ctx = (case parent of
       LeftOf pc px other \<Rightarrow> do {
         red \<leftarrow> rb_is_red other;
         if red then erase_left_turn node RB_RED px (rb_left other)
                       (LeftOf RB_BLACK (rb_obj other) (rb_right other) # ctx)
         else erase_left_turn node pc px other ctx }
     | RightOf other pc px \<Rightarrow> do {
         red \<leftarrow> rb_is_red other;
         if red then erase_right_turn node (rb_right other) RB_RED px
                       (RightOf (rb_left other) RB_BLACK (rb_obj other) # ctx)
         else erase_right_turn node other pc px ctx })"

text \<open>
  The loop. When a turn rotated, the C code sets \<open>node = root->rb_node\<close> and breaks, so the last
  statement paints the root black; otherwise it paints the node it stopped at.
\<close>

partial_function (option) rb_erase_color :: "rb_node \<Rightarrow> path \<Rightarrow> rb_node option" where
  "rb_erase_color node ctx =
     (case ctx of
        [] \<Rightarrow> Some (blacken node)
      | parent # rest \<Rightarrow>
          if black_child node then
            Option.bind (erase_turn_at node parent rest) (\<lambda>t.
              case t of
                Done root \<Rightarrow> Some (blacken root)
              | Again n c \<Rightarrow> rb_erase_color n c)
          else Some (plug (blacken node) ctx))"

text \<open>The walk to the successor: \<open>while ((left = node->rb_left) != NULL) node = left;\<close>\<close>

fun descend_left :: "rb_node \<Rightarrow> path \<Rightarrow> (rb_node \<times> path) option" where
  "descend_left Null ctx = None"
| "descend_left (RbNode c Null x r) ctx = Some (RbNode c Null x r, ctx)"
| "descend_left (RbNode c (RbNode c' l' x' r') x r) ctx =
     descend_left (RbNode c' l' x' r') (LeftOf c x r # ctx)"

text \<open>Where the removed node's child ends: \<open>(child, colour of the removed place, path)\<close>.\<close>

definition rb_unlink :: "rb_node \<Rightarrow> path \<Rightarrow> (rb_node \<times> color \<times> path) option" where
  "rb_unlink node ctx = (case node of
       Null \<Rightarrow> None
     | RbNode c l x r \<Rightarrow>
         (if l = Null then Some (r, c, ctx)
          else if r = Null then Some (l, c, ctx)
          else do {
            (succ, sctx) \<leftarrow> descend_left r [];
            Some (rb_right succ, rb_color succ, sctx @ RightOf l c (rb_obj succ) # ctx) }))"

definition rb_erase_at :: "rb_node \<Rightarrow> path \<Rightarrow> rb_node option" where
  "rb_erase_at node ctx = do {
     (child, color, ctx) \<leftarrow> rb_unlink node ctx;
     if color = RB_BLACK then rb_erase_color child ctx else Some (plug child ctx) }"

text \<open>The position of the node embedded in an object: what its pointers give in C.\<close>

fun position_from :: "ptr \<Rightarrow> rb_node \<Rightarrow> path \<Rightarrow> (rb_node \<times> path) option" where
  "position_from x Null ctx = None"
| "position_from x (RbNode c l y r) ctx =
     (if x = y then Some (RbNode c l y r, ctx)
      else case position_from x l (LeftOf c y r # ctx) of
             Some pos \<Rightarrow> Some pos
           | None \<Rightarrow> position_from x r (RightOf l c y # ctx))"

definition rb_erase :: "ptr \<Rightarrow> rb_node \<Rightarrow> rb_node option" where
  "rb_erase x root = do { (node, ctx) \<leftarrow> position_from x root []; rb_erase_at node ctx }"

section \<open>Nodes that a deletion touches\<close>

text \<open>
  The objects whose nodes \<open>rb_erase\<close> reads or writes, in the order of the steps of the C code. The
  trees above cannot tell a live object from one that was freed while it was linked; with this
  list the owner of the objects can.
\<close>

fun head_obj :: "rb_node \<Rightarrow> ptr list" where
  "head_obj Null = []"
| "head_obj (RbNode c l x r) = [x]"

fun children_objs :: "rb_node \<Rightarrow> ptr list" where
  "children_objs Null = []"
| "children_objs (RbNode c l x r) = head_obj l @ head_obj r"

fun left_spine :: "rb_node \<Rightarrow> ptr list" where
  "left_spine Null = []"
| "left_spine (RbNode c l x r) = x # left_spine l"

fun frame_obj :: "frame \<Rightarrow> ptr" where
  "frame_obj (LeftOf c x r) = x"
| "frame_obj (RightOf l c x) = x"

definition parent_obj :: "path \<Rightarrow> ptr list" where
  "parent_obj ctx = (case ctx of [] \<Rightarrow> [] | f # _ \<Rightarrow> [frame_obj f])"

text \<open>
  A black sibling \<open>other\<close> with its child on the side of the hole and the one on the far side,
  below the parent's parents \<open>ctx\<close>.
\<close>

definition black_sibling_uses :: "rb_node \<Rightarrow> rb_node \<Rightarrow> rb_node \<Rightarrow> path \<Rightarrow> ptr list" where
  "black_sibling_uses other near far ctx = head_obj other @ head_obj near @ head_obj far @
     (if black_child near \<and> black_child far then []
      else (if black_child far then children_objs near else []) @ parent_obj ctx)"

text \<open>
  One turn: the parent, a red sibling with the rotation that moves it up, and then the sibling
  that is black. A rotation also writes to the parent of the node that it moves down.
\<close>

definition erase_turn_uses :: "frame \<Rightarrow> path \<Rightarrow> ptr list" where
  "erase_turn_uses parent ctx = (case parent of
       LeftOf pc px other \<Rightarrow> px # (if red_child other
         then rb_obj other # parent_obj ctx @ black_sibling_uses (rb_left other) (rb_left (rb_left other))
                (rb_right (rb_left other)) (LeftOf RB_BLACK (rb_obj other) (rb_right other) # ctx)
         else black_sibling_uses other (rb_left other) (rb_right other) ctx)
     | RightOf other pc px \<Rightarrow> px # (if red_child other
         then rb_obj other # parent_obj ctx @ black_sibling_uses (rb_right other) (rb_right (rb_right other))
                (rb_left (rb_right other)) (RightOf (rb_left other) RB_BLACK (rb_obj other) # ctx)
         else black_sibling_uses other (rb_right other) (rb_left other) ctx))"

text \<open>The loop follows the turns of \<open>rb_erase_color\<close>; in the end the node it stopped at is painted.\<close>

partial_function (option) rb_erase_color_uses :: "rb_node \<Rightarrow> path \<Rightarrow> ptr list option" where
  "rb_erase_color_uses node ctx =
     (case ctx of
        [] \<Rightarrow> Some (head_obj node)
      | parent # rest \<Rightarrow>
          if black_child node then
            Option.bind (erase_turn_at node parent rest) (\<lambda>t.
              Option.bind (case t of Done root \<Rightarrow> Some (head_obj root) | Again n c \<Rightarrow> rb_erase_color_uses n c)
                (\<lambda>used. Some (head_obj node @ erase_turn_uses parent rest @ used)))
          else Some (head_obj node))"

text \<open>The node itself, its parent, its children, and the way to its successor with the successor's child.\<close>

definition rb_unlink_uses :: "rb_node \<Rightarrow> path \<Rightarrow> ptr list" where
  "rb_unlink_uses node ctx = head_obj node @ parent_obj ctx @ children_objs node @
     (if rb_left node = Null \<or> rb_right node = Null then []
      else left_spine (rb_right node) @
        (case descend_left (rb_right node) [] of None \<Rightarrow> [] | Some (succ, _) \<Rightarrow> head_obj (rb_right succ)))"

definition rb_erase_uses :: "ptr \<Rightarrow> rb_node \<Rightarrow> ptr list option" where
  "rb_erase_uses x root = do {
     (node, ctx) \<leftarrow> position_from x root [];
     (child, color, cctx) \<leftarrow> rb_unlink node ctx;
     used \<leftarrow> (if color = RB_BLACK then rb_erase_color_uses child cctx else Some []);
     Some (rb_unlink_uses node ctx @ used) }"

section \<open>Traversal\<close>

fun rb_first :: "rb_node \<Rightarrow> ptr option" where
  "rb_first Null = None"
| "rb_first (RbNode c Null x r) = Some x"
| "rb_first (RbNode c (RbNode c' l' x' r') x r) = rb_first (RbNode c' l' x' r')"

fun rb_last :: "rb_node \<Rightarrow> ptr option" where
  "rb_last Null = None"
| "rb_last (RbNode c l x Null) = Some x"
| "rb_last (RbNode c l x (RbNode c' l' x' r')) = rb_last (RbNode c' l' x' r')"

fun climb_next :: "path \<Rightarrow> ptr option" where
  "climb_next [] = None"
| "climb_next (RightOf l c x # ctx) = climb_next ctx"
| "climb_next (LeftOf c x r # ctx) = Some x"

fun climb_prev :: "path \<Rightarrow> ptr option" where
  "climb_prev [] = None"
| "climb_prev (LeftOf c x r # ctx) = climb_prev ctx"
| "climb_prev (RightOf l c x # ctx) = Some x"

definition rb_next :: "ptr \<Rightarrow> rb_node \<Rightarrow> ptr option option" where
  "rb_next x root = do {
     (node, ctx) \<leftarrow> position_from x root [];
     Some (if rb_right node \<noteq> Null then rb_first (rb_right node) else climb_next ctx) }"

definition rb_prev :: "ptr \<Rightarrow> rb_node \<Rightarrow> ptr option option" where
  "rb_prev x root = do {
     (node, ctx) \<leftarrow> position_from x root [];
     Some (if rb_left node \<noteq> Null then rb_last (rb_left node) else climb_prev ctx) }"

definition rb_replace_node :: "ptr \<Rightarrow> ptr \<Rightarrow> rb_node \<Rightarrow> rb_node option" where
  "rb_replace_node victim new root = do {
     (node, ctx) \<leftarrow> position_from victim root [];
     Some (plug (RbNode (rb_color node) (rb_left node) new (rb_right node)) ctx) }"

text \<open>
  The descent of \<open>__add_alarm\<close>: to the left below nodes that come strictly later, to the right
  otherwise; \<open>before x y\<close> is the test \<open>timercmp(x, y, <)\<close>.
\<close>

fun insert_path :: "(ptr \<Rightarrow> ptr \<Rightarrow> bool) \<Rightarrow> ptr \<Rightarrow> rb_node \<Rightarrow> path \<Rightarrow> path" where
  "insert_path before x Null ctx = ctx"
| "insert_path before x (RbNode c l y r) ctx =
     (if before x y then insert_path before x l (LeftOf c y r # ctx)
      else insert_path before x r (RightOf l c y # ctx))"

definition rb_insert :: "(ptr \<Rightarrow> ptr \<Rightarrow> bool) \<Rightarrow> ptr \<Rightarrow> rb_node \<Rightarrow> rb_node option" where
  "rb_insert before x root = rb_insert_color (rb_link_node x) (insert_path before x root [])"

section \<open>Order of the nodes\<close>

lemma plug_simps [simp]: "plug t [] = t" "plug t (f # ctx) = plug (fill t f) ctx"
  by (simp_all add: plug_def)

lemma plug_append [simp]: "plug t (ctx @ ctx') = plug (plug t ctx) ctx'"
  by (simp add: plug_def)

lemma inorder_blacken [simp]: "inorder (blacken t) = inorder t"
  by (cases t) simp_all

lemma inorder_plug: "inorder (plug t ctx) = frames_before ctx @ inorder t @ frames_after ctx"
proof (induction ctx arbitrary: t)
  case (Cons f ctx)
  then show ?case by (cases f) simp_all
qed simp

lemma plug_Null: "plug t ctx = Null \<longleftrightarrow> t = Null \<and> ctx = []"
proof (induction ctx arbitrary: t)
  case (Cons f ctx)
  then show ?case by (cases f) simp_all
qed simp

section \<open>Balance\<close>

fun bheight :: "rb_node \<Rightarrow> nat" where
  "bheight Null = 0"
| "bheight (RbNode c l x r) = bheight l + (if c = RB_BLACK then 1 else 0)"

text \<open>No red node has a red child, and every path to a null node has the same black nodes.\<close>

fun balanced :: "rb_node \<Rightarrow> bool" where
  "balanced Null = True"
| "balanced (RbNode c l x r) = (balanced l \<and> balanced r \<and> bheight l = bheight r \<and>
     (c = RB_RED \<longrightarrow> black_child l \<and> black_child r))"

definition red_black :: "rb_node \<Rightarrow> bool" where
  "red_black t \<longleftrightarrow> balanced t \<and> black_child t"

text \<open>A path whose hole takes a tree of black height \<open>n\<close>.\<close>

fun fits :: "nat \<Rightarrow> path \<Rightarrow> bool" where
  "fits n [] = True"
| "fits n (f # ctx) = (balanced (sibling f) \<and> bheight (sibling f) = n \<and>
     (parent_color f = RB_RED \<longrightarrow> black_child (sibling f) \<and> ctx \<noteq> [] \<and> parent_color (hd ctx) = RB_BLACK) \<and>
     fits (n + (if parent_color f = RB_BLACK then 1 else 0)) ctx)"

text \<open>A tree whose colour the path allows.\<close>

definition color_fits :: "rb_node \<Rightarrow> path \<Rightarrow> bool" where
  "color_fits t ctx \<longleftrightarrow> (black_child t \<or> (ctx \<noteq> [] \<and> parent_color (hd ctx) = RB_BLACK))"

lemma color_neq [simp]: "c \<noteq> RB_RED \<longleftrightarrow> c = RB_BLACK" "c \<noteq> RB_BLACK \<longleftrightarrow> c = RB_RED"
  by (cases c; simp)+

lemma black_child_simps [simp]:
  "black_child Null" "black_child (RbNode c l x r) = (c = RB_BLACK)" "black_child (blacken t)"
  by (simp_all add: black_child_def) (cases t; simp)

lemma red_child_iff: "red_child t \<longleftrightarrow> \<not> black_child t"
  by (simp add: black_child_def)

lemma blacken_id [simp]: "black_child t \<Longrightarrow> blacken t = t"
  by (cases t) auto

lemma balanced_blacken: "balanced t \<Longrightarrow> balanced (blacken t)"
  by (cases t) auto

lemma bheight_blacken: "bheight (blacken t) = bheight t + (if red_child t then 1 else 0)"
  by (cases t) auto

lemma plug_red_black:
  "balanced t \<Longrightarrow> fits (bheight t) ctx \<Longrightarrow> color_fits t ctx \<Longrightarrow> red_black (plug t ctx)"
proof (induction ctx arbitrary: t)
  case Nil
  then show ?case by (simp add: red_black_def color_fits_def)
next
  case (Cons f ctx)
  have "balanced (fill t f)" "fits (bheight (fill t f)) ctx" "color_fits (fill t f) ctx"
    using Cons.prems by (cases f; auto simp: color_fits_def)+
  then show ?case using Cons.IH by simp
qed

section \<open>Insertion keeps order and balance\<close>

lemma rb_set_color_black: "t \<noteq> Null \<Longrightarrow> rb_set_color t RB_BLACK = Some (blacken t)"
  by (cases t) auto

lemma red_black_blacken: "red_black t \<Longrightarrow> blacken t = t"
  by (simp add: red_black_def)

text \<open>The rotations at the end of an insertion put a black node on top of two red ones.\<close>

lemma insert_finish:
  assumes "balanced (RbNode RB_BLACK l x r)" "fits (bheight (RbNode RB_BLACK l x r)) ctx"
  shows "runs (rb_set_color (plug (RbNode RB_BLACK l x r) ctx) RB_BLACK)
    (\<lambda>t. red_black t \<and> inorder t = frames_before ctx @ (inorder l @ x # inorder r) @ frames_after ctx)"
proof -
  have "red_black (plug (RbNode RB_BLACK l x r) ctx)"
    using assms by (intro plug_red_black) (auto simp: color_fits_def)
  then show ?thesis
    by (simp add: rb_set_color_black plug_Null red_black_blacken inorder_plug)
qed

lemma rb_insert_color_correct:
  assumes "node = RbNode RB_RED l x r" "balanced node" "fits (bheight node) ctx"
  shows "runs (rb_insert_color node ctx) (\<lambda>t. red_black t \<and>
    inorder t = frames_before ctx @ inorder node @ frames_after ctx)"
  using assms
proof (induction node ctx arbitrary: l x r rule: rb_insert_color.induct)
  case (1 node)
  then show ?case by (simp add: red_black_def)
next
  case (2 node parent)
  then have "red_black (plug node [parent])"
    by (intro plug_red_black) (auto simp: color_fits_def)
  with 2 show ?case
    by (cases parent) (auto simp: rb_set_color_black red_black_blacken)
next
  case (3 node parent gparent ctx)
  show ?case
  proof (cases "parent_color parent = RB_RED")
    case False
    then have "red_black (plug node (parent # gparent # ctx))"
      using 3 by (intro plug_red_black) (auto simp: color_fits_def)
    moreover have "plug node (parent # gparent # ctx) \<noteq> Null"
      by (simp add: plug_Null del: plug_simps)
    ultimately show ?thesis
      using False inorder_plug [of node "parent # gparent # ctx"]
      by (simp add: rb_set_color_black red_black_blacken del: plug_simps)
  next
    case True
    have pg: "parent_color gparent = RB_BLACK" using 3 True by simp
    show ?thesis
    proof (cases gparent)
      case (LeftOf gc gx uncle)
      show ?thesis
      proof (cases "red_child uncle")
        case uncle: True
        have "runs (rb_insert_color (RbNode RB_RED (blacken (fill node parent)) gx (blacken uncle)) ctx)
            (\<lambda>t. red_black t \<and> inorder t = frames_before ctx @
               inorder (RbNode RB_RED (blacken (fill node parent)) gx (blacken uncle)) @ frames_after ctx)"
          by (rule "3.IH"(1) [OF True LeftOf uncle refl])
            (use 3 True pg LeftOf uncle in \<open>cases parent;
              auto simp: balanced_blacken bheight_blacken\<close>)+
        then show ?thesis using True LeftOf uncle by (cases parent) auto
      next
        case uncle: False
        then show ?thesis
          using 3 True pg LeftOf
          by (cases parent) (auto simp: red_child_iff runs_iff [symmetric]
              intro!: runs_mono [OF insert_finish])
      qed
    next
      case (RightOf uncle gc gx)
      show ?thesis
      proof (cases "red_child uncle")
        case uncle: True
        have "runs (rb_insert_color (RbNode RB_RED (blacken uncle) gx (blacken (fill node parent))) ctx)
            (\<lambda>t. red_black t \<and> inorder t = frames_before ctx @
               inorder (RbNode RB_RED (blacken uncle) gx (blacken (fill node parent))) @ frames_after ctx)"
          by (rule "3.IH"(2) [OF True RightOf uncle refl])
            (use 3 True pg RightOf uncle in \<open>cases parent;
              auto simp: balanced_blacken bheight_blacken\<close>)+
        then show ?thesis using True RightOf uncle by (cases parent) auto
      next
        case uncle: False
        then show ?thesis
          using 3 True pg RightOf
          by (cases parent) (auto simp: red_child_iff runs_iff [symmetric]
              intro!: runs_mono [OF insert_finish])
      qed
    qed
  qed
qed

lemma insert_path_fits:
  "balanced t \<Longrightarrow> fits (bheight t) ctx \<Longrightarrow> color_fits t ctx \<Longrightarrow> fits 0 (insert_path lt x t ctx)"
proof (induction t arbitrary: ctx)
  case (RbNode c l y r)
  then show ?case by (auto simp: color_fits_def)
qed simp

text \<open>The new object comes after every object it does not precede.\<close>

lemma insert_path_order:
  assumes "sorted_wrt (\<lambda>a b. \<not> lt b a) (inorder t)"
    and "\<And>a b. lt x a \<Longrightarrow> \<not> lt b a \<Longrightarrow> lt x b"
  shows "frames_before (insert_path lt x t ctx) = frames_before ctx @ takeWhile (\<lambda>y. \<not> lt x y) (inorder t)
    \<and> frames_after (insert_path lt x t ctx) = dropWhile (\<lambda>y. \<not> lt x y) (inorder t) @ frames_after ctx"
  using assms(1)
proof (induction t arbitrary: ctx)
  case Null
  then show ?case by simp
next
  case (RbNode c l y r)
  show ?case
  proof (cases "lt x y")
    case True
    then show ?thesis using RbNode
      by (simp add: sorted_wrt_append takeWhile_append dropWhile_append)
  next
    case False
    then have "\<forall>z \<in> set (inorder l). \<not> lt x z"
      using RbNode.prems assms(2) by (auto simp: sorted_wrt_append)
    then show ?thesis using RbNode False
      by (auto simp: sorted_wrt_append takeWhile_append dropWhile_append)
  qed
qed

section \<open>Deletion keeps order and balance\<close>

text \<open>
  What a turn of the loop delivers for a hole that is one black node short: the finished tree,
  or a node that is one black node short for the rest of the path.
\<close>

definition turn_ok :: "color \<Rightarrow> nat \<Rightarrow> ptr list \<Rightarrow> path \<Rightarrow> erase_turn \<Rightarrow> bool" where
  "turn_ok pc n xs ctx t = (case t of
       Done root \<Rightarrow> red_black root \<and> inorder root = frames_before ctx @ xs @ frames_after ctx
     | Again node ctx' \<Rightarrow> balanced (blacken node) \<and> ctx' = ctx \<and> bheight node = n \<and> inorder node = xs \<and>
         black_child node = (pc = RB_BLACK))"

lemma done_ok:
  assumes "balanced t" "bheight t = bh" "fits bh ctx" "color_fits t ctx" "inorder t = xs"
  shows "turn_ok pc n xs ctx (Done (plug t ctx))"
  using plug_red_black [of t ctx] assms by (simp add: turn_ok_def inorder_plug)

lemma erase_left_turn_ok:
  assumes "balanced node" "black_child node" "balanced other" "black_child other"
    and "bheight other = Suc (bheight node)"
    and "fits (Suc (bheight node) + (if pc = RB_BLACK then 1 else 0)) ctx"
    and "pc = RB_RED \<longrightarrow> ctx \<noteq> [] \<and> parent_color (hd ctx) = RB_BLACK"
  shows "runs (erase_left_turn node pc px other ctx)
    (turn_ok pc (bheight node + (if pc = RB_BLACK then 1 else 0)) (inorder node @ px # inorder other) ctx)"
proof -
  obtain ol ox orr where other: "other = RbNode RB_BLACK ol ox orr"
    using assms(4,5) by (cases other) auto
  consider "black_child ol \<and> black_child orr" | "\<not> black_child ol" "black_child orr"
    | "\<not> black_child orr" by blast
  then show ?thesis
  proof cases
    case 1
    then show ?thesis using assms other by (simp add: erase_left_turn_def turn_ok_def)
  next
    case 2
    then obtain a y b where ol: "ol = RbNode RB_RED a y b" by (cases ol) auto
    with 2 assms other show ?thesis
      by (auto simp: erase_left_turn_def color_fits_def balanced_blacken bheight_blacken red_child_iff
          simp del: plug_simps intro!: done_ok)
  next
    case 3
    then obtain a y b where orr: "orr = RbNode RB_RED a y b" by (cases orr) auto
    with 3 assms other show ?thesis
      by (auto simp: erase_left_turn_def color_fits_def balanced_blacken bheight_blacken red_child_iff
          simp del: plug_simps intro!: done_ok)
  qed
qed

lemma erase_right_turn_ok:
  assumes "balanced node" "black_child node" "balanced other" "black_child other"
    and "bheight other = Suc (bheight node)"
    and "fits (Suc (bheight node) + (if pc = RB_BLACK then 1 else 0)) ctx"
    and "pc = RB_RED \<longrightarrow> ctx \<noteq> [] \<and> parent_color (hd ctx) = RB_BLACK"
  shows "runs (erase_right_turn node other pc px ctx)
    (turn_ok pc (bheight node + (if pc = RB_BLACK then 1 else 0)) (inorder other @ px # inorder node) ctx)"
proof -
  obtain ol ox orr where other: "other = RbNode RB_BLACK ol ox orr"
    using assms(4,5) by (cases other) auto
  consider "black_child ol \<and> black_child orr" | "black_child ol" "\<not> black_child orr"
    | "\<not> black_child ol" by blast
  then show ?thesis
  proof cases
    case 1
    then show ?thesis using assms other by (simp add: erase_right_turn_def turn_ok_def)
  next
    case 2
    then obtain a y b where orr: "orr = RbNode RB_RED a y b" by (cases orr) auto
    with 2 assms other show ?thesis
      by (auto simp: erase_right_turn_def color_fits_def balanced_blacken bheight_blacken red_child_iff
          simp del: plug_simps intro!: done_ok)
  next
    case 3
    then obtain a y b where ol: "ol = RbNode RB_RED a y b" by (cases ol) auto
    with 3 assms other show ?thesis
      by (auto simp: erase_right_turn_def color_fits_def balanced_blacken bheight_blacken red_child_iff
          simp del: plug_simps intro!: done_ok)
  qed
qed

definition erased :: "rb_node \<Rightarrow> path \<Rightarrow> rb_node \<Rightarrow> bool" where
  "erased node ctx t \<longleftrightarrow> red_black t \<and> inorder t = frames_before ctx @ inorder node @ frames_after ctx"

lemma rb_erase_color_red:
  assumes "balanced (blacken node)" "\<not> black_child node" "fits (Suc (bheight node)) ctx"
  shows "runs (rb_erase_color node ctx) (erased node ctx)"
proof (cases ctx)
  case Nil
  then show ?thesis
    using assms
    by (simp add: rb_erase_color.simps erased_def red_black_def)
next
  case (Cons f ctx')
  have "red_black (plug (blacken node) ctx)"
    using assms by (intro plug_red_black)
      (auto simp: bheight_blacken red_child_iff color_fits_def)
  then show ?thesis
    using assms Cons inorder_plug [of "blacken node" ctx]
    by (simp add: rb_erase_color.simps [of node] erased_def)
qed

text \<open>A node above a finished turn, or a red node, ends the loop.\<close>

lemma rb_erase_color_turn:
  assumes "black_child node" "runs (erase_turn_at node f ctx) Q"
    and "\<And>t. Q t \<Longrightarrow> runs (case t of Done root \<Rightarrow> Some (blacken root) | Again n c \<Rightarrow> rb_erase_color n c) R"
  shows "runs (rb_erase_color node (f # ctx)) R"
  using assms by (auto simp: rb_erase_color.simps [of node] elim!: runs_mono)

text \<open>A turn leaves the loop with a finished tree or with a smaller problem.\<close>

definition turn_continues :: "ptr list \<Rightarrow> path \<Rightarrow> erase_turn \<Rightarrow> bool" where
  "turn_continues xs ctx t \<longleftrightarrow> (\<exists>pc n ys ctx'. turn_ok pc n ys ctx' t \<and> fits (Suc n) ctx' \<and>
     (ctx' = ctx \<or> pc = RB_RED) \<and>
     frames_before ctx' @ ys @ frames_after ctx' = frames_before ctx @ xs @ frames_after ctx)"

lemma turn_continuesI:
  assumes "runs m (turn_ok pc n ys ctx')" "fits (Suc n) ctx'" "ctx' = ctx \<or> pc = RB_RED"
    and "frames_before ctx' @ ys @ frames_after ctx' = frames_before ctx @ xs @ frames_after ctx"
  shows "runs m (turn_continues xs ctx)"
  using assms(1) by (rule runs_mono) (use assms(2-4) in \<open>unfold turn_continues_def, blast\<close>)

lemma erase_turn_at_left:
  assumes node: "balanced node" and black: "black_child node"
    and fits: "fits (Suc (bheight node)) (LeftOf pc px other # ctx)"
  shows "runs (erase_turn_at node (LeftOf pc px other) ctx) (turn_continues (inorder node @ px # inorder other) ctx)"
proof (cases "black_child other")
  case True
  then have "rb_is_red other = Some False"
    using fits by (cases other) (auto simp: rb_is_red_def)
  then show ?thesis
    using erase_left_turn_ok [OF node black, of other pc ctx px] True fits
    by (auto simp: erase_turn_at_def intro: turn_continuesI)
next
  case False
  then obtain ol ox orr where other: "other = RbNode RB_RED ol ox orr" by (cases other) auto
  let ?ctx = "LeftOf RB_BLACK ox orr # ctx"
  have fits': "fits (Suc (bheight node)) ?ctx" using fits other by auto
  have "runs (erase_turn_at node (LeftOf pc px other) ctx)
      (turn_ok RB_RED (bheight node) (inorder node @ px # inorder ol) ?ctx)"
    using erase_left_turn_ok [OF node black, of ol RB_RED ?ctx px] fits' fits other
    by (simp add: erase_turn_at_def rb_is_red_def)
  then show ?thesis
    by (rule turn_continuesI) (use fits' other in auto)
qed

lemma erase_turn_at_right:
  assumes node: "balanced node" and black: "black_child node"
    and fits: "fits (Suc (bheight node)) (RightOf other pc px # ctx)"
  shows "runs (erase_turn_at node (RightOf other pc px) ctx) (turn_continues (inorder other @ px # inorder node) ctx)"
proof (cases "black_child other")
  case True
  then have "rb_is_red other = Some False"
    using fits by (cases other) (auto simp: rb_is_red_def)
  then show ?thesis
    using erase_right_turn_ok [OF node black, of other pc ctx px] True fits
    by (auto simp: erase_turn_at_def intro: turn_continuesI)
next
  case False
  then obtain ol ox orr where other: "other = RbNode RB_RED ol ox orr" by (cases other) auto
  let ?ctx = "RightOf ol RB_BLACK ox # ctx"
  have fits': "fits (Suc (bheight node)) ?ctx" using fits other by auto
  have "runs (erase_turn_at node (RightOf other pc px) ctx)
      (turn_ok RB_RED (bheight node) (inorder orr @ px # inorder node) ?ctx)"
    using erase_right_turn_ok [OF node black, of orr RB_RED ?ctx px] fits' fits other
    by (simp add: erase_turn_at_def rb_is_red_def)
  then show ?thesis
    by (rule turn_continuesI) (use fits' other in auto)
qed

lemma rb_erase_color_correct:
  assumes "balanced (blacken node)" "fits (Suc (bheight node)) ctx"
  shows "runs (rb_erase_color node ctx) (erased node ctx)"
  using assms
proof (induction ctx arbitrary: node)
  case Nil
  then show ?case
    by (cases node) (auto simp: rb_erase_color.simps erased_def red_black_def)
next
  case (Cons f ctx)
  have finish: "runs (case t of Done root \<Rightarrow> Some (blacken root) | Again n c \<Rightarrow> rb_erase_color n c)
      (\<lambda>t. red_black t \<and> inorder t = frames_before ctx @ xs @ frames_after ctx)"
    if cont: "turn_continues xs ctx t" for t xs
  proof -
    obtain pc n ys ctx' where t: "turn_ok pc n ys ctx' t" "fits (Suc n) ctx'" "ctx' = ctx \<or> pc = RB_RED"
      "frames_before ctx' @ ys @ frames_after ctx' = frames_before ctx @ xs @ frames_after ctx"
      using cont unfolding turn_continues_def by blast
    show ?thesis
    proof (cases t)
      case (Again m c)
      then have "runs (rb_erase_color m ctx') (erased m ctx')"
        using t(1-3) Cons.IH [of m] rb_erase_color_red [of m ctx'] by (auto simp: turn_ok_def)
      with t Again show ?thesis by (auto simp: turn_ok_def erased_def elim!: runs_mono)
    qed (use t in \<open>simp add: turn_ok_def red_black_blacken\<close>)
  qed
  show ?case
  proof (cases "black_child node")
    case False
    then show ?thesis using Cons.prems by (intro rb_erase_color_red)
  next
    case True
    then have "balanced node" using Cons.prems by simp
    with True Cons.prems have "runs (erase_turn_at node f ctx)
        (turn_continues (inorder (fill node f)) ctx)"
      using erase_turn_at_left erase_turn_at_right by (cases f) auto
    then show ?thesis
      by (elim rb_erase_color_turn [OF True])
        (erule runs_mono [OF finish], cases f, auto simp: erased_def)
  qed
qed

lemma descend_left_correct:
  "t \<noteq> Null \<Longrightarrow> \<exists>c x r ctx'. descend_left t ctx = Some (RbNode c Null x r, ctx' @ ctx) \<and>
    plug (RbNode c Null x r) ctx' = t \<and> frames_before ctx' = []"
proof (induction t ctx rule: descend_left.induct)
  case (3 c c' l' x' r' x r ctx)
  then obtain d y s ctx' where IH: "descend_left (RbNode c' l' x' r') (LeftOf c x r # ctx) =
      Some (RbNode d Null y s, ctx' @ LeftOf c x r # ctx)"
    "plug (RbNode d Null y s) ctx' = RbNode c' l' x' r'" "frames_before ctx' = []" by auto
  have "frames_before (ctx' @ [LeftOf c x r]) = []"
    using IH(3) by (induction ctx' rule: frames_before.induct) auto
  with IH show ?case
    by (intro exI [of _ d] exI [of _ y] exI [of _ s] exI [of _ "ctx' @ [LeftOf c x r]"]) auto
qed auto

text \<open>Taking a balanced tree apart along a path.\<close>

lemma plug_fits:
  "balanced (plug t ctx) \<Longrightarrow> fits n outer \<Longrightarrow> bheight (plug t ctx) = n \<Longrightarrow>
    color_fits (plug t ctx) outer \<Longrightarrow>
    balanced t \<and> fits (bheight t) (ctx @ outer) \<and> color_fits t (ctx @ outer)"
proof (induction ctx arbitrary: t)
  case (Cons f ctx)
  then have IH: "balanced (fill t f)" "fits (bheight (fill t f)) (ctx @ outer)"
    "color_fits (fill t f) (ctx @ outer)" by auto
  then show ?case by (cases f) (auto simp: color_fits_def)
qed simp

lemma frames_append:
  "frames_before (ctx @ outer) = frames_before outer @ frames_before ctx"
  "frames_after (ctx @ outer) = frames_after ctx @ frames_after outer"
  by (induction ctx rule: frames_before.induct) auto

lemma rb_unlink_correct:
  assumes "balanced (RbNode c l x r)" "fits (bheight (RbNode c l x r)) ctx"
    and "color_fits (RbNode c l x r) ctx"
  shows "runs (rb_unlink (RbNode c l x r) ctx) (\<lambda>(child, color, ctx').
    frames_before ctx' @ inorder child @ frames_after ctx' =
      frames_before ctx @ (inorder l @ inorder r) @ frames_after ctx \<and>
    balanced child \<and> fits (bheight child + (if color = RB_BLACK then 1 else 0)) ctx' \<and>
    (color = RB_RED \<longrightarrow> color_fits child ctx'))"
proof (cases "l = Null \<or> r = Null")
  case True
  then show ?thesis
    using assms by (auto simp: rb_unlink_def color_fits_def)
next
  case False
  then obtain sc sx sr sctx where d: "descend_left r [] = Some (RbNode sc Null sx sr, sctx)"
    "plug (RbNode sc Null sx sr) sctx = r" "frames_before sctx = []"
    using descend_left_correct [of r "[]"] by auto
  let ?outer = "RightOf l c sx # ctx"
  have "fits (bheight r) ?outer" "color_fits r ?outer" "balanced r"
    using assms by (auto simp: color_fits_def)
  then have s: "balanced (RbNode sc Null sx sr)" "fits (bheight (RbNode sc Null sx sr)) (sctx @ ?outer)"
    "color_fits (RbNode sc Null sx sr) (sctx @ ?outer)"
    using plug_fits [of "RbNode sc Null sx sr" sctx "bheight r" ?outer] d(2) by auto
  have "inorder r = sx # inorder sr @ frames_after sctx"
    using inorder_plug [of "RbNode sc Null sx sr" sctx] d by simp
  then show ?thesis
    using False d s by (auto simp: rb_unlink_def frames_append color_fits_def)
qed

lemma rb_erase_at_correct:
  assumes "balanced (RbNode c l x r)" "fits (bheight (RbNode c l x r)) ctx"
    and "color_fits (RbNode c l x r) ctx"
  shows "runs (rb_erase_at (RbNode c l x r) ctx) (\<lambda>t. red_black t \<and>
    inorder t = frames_before ctx @ (inorder l @ inorder r) @ frames_after ctx)"
proof -
  have "runs (if color = RB_BLACK then rb_erase_color child ctx' else Some (plug child ctx'))
      (erased child ctx')"
    if "balanced child" "fits (bheight child + (if color = RB_BLACK then 1 else 0)) ctx'"
      "color = RB_RED \<longrightarrow> color_fits child ctx'" for child color ctx'
    using that rb_erase_color_correct [of child ctx'] plug_red_black [of child ctx']
    by (auto simp: erased_def inorder_plug balanced_blacken)
  then have "runs (if color = RB_BLACK then rb_erase_color child ctx' else Some (plug child ctx'))
      (\<lambda>t. red_black t \<and> inorder t = frames_before ctx @ (inorder l @ inorder r) @ frames_after ctx)"
    if "frames_before ctx' @ inorder child @ frames_after ctx' =
        frames_before ctx @ (inorder l @ inorder r) @ frames_after ctx \<and>
      balanced child \<and> fits (bheight child + (if color = RB_BLACK then 1 else 0)) ctx' \<and>
      (color = RB_RED \<longrightarrow> color_fits child ctx')" for child color ctx'
    using that unfolding erased_def by metis
  then show ?thesis
    unfolding rb_erase_at_def runs_bind
    by (intro runs_mono [OF rb_unlink_correct [OF assms]]) (auto simp only: prod.case)
qed

section \<open>Positions\<close>

lemma position_from_None: "x \<notin> set (inorder t) \<Longrightarrow> position_from x t ctx = None"
  by (induction t arbitrary: ctx) auto

lemma position_from_sound:
  "position_from x t ctx = Some (node, p) \<Longrightarrow>
    rb_obj node = x \<and> node \<noteq> Null \<and> (\<exists>q. p = q @ ctx \<and> plug node q = t)"
proof (induction t arbitrary: ctx)
  case (RbNode c l y r)
  consider "x = y" | "x \<noteq> y" "position_from x l (LeftOf c y r # ctx) = Some (node, p)"
    | "x \<noteq> y" "position_from x r (RightOf l c y # ctx) = Some (node, p)"
    using RbNode.prems by (auto split: if_splits option.splits)
  then show ?case
  proof cases
    case 1
    then show ?thesis using RbNode.prems by auto
  next
    case 2
    from RbNode.IH(1) [OF this(2)] obtain q where "rb_obj node = x" "node \<noteq> Null"
      "p = q @ LeftOf c y r # ctx" "plug node q = l" by auto
    then show ?thesis by (auto intro!: exI [of _ "q @ [LeftOf c y r]"])
  next
    case 3
    from RbNode.IH(2) [OF this(2)] obtain q where "rb_obj node = x" "node \<noteq> Null"
      "p = q @ RightOf l c y # ctx" "plug node q = r" by auto
    then show ?thesis by (auto intro!: exI [of _ "q @ [RightOf l c y]"])
  qed
qed simp

lemma position_from_complete: "x \<in> set (inorder t) \<Longrightarrow> \<exists>pos. position_from x t ctx = Some pos"
proof (induction t arbitrary: ctx)
  case (RbNode c l y r)
  have "\<exists>pos. position_from x l (LeftOf c y r # ctx) = Some pos" if "x \<in> set (inorder l)"
    using RbNode.IH(1) that by blast
  with RbNode show ?case by (fastforce split: option.splits)
qed simp

lemma position_correct:
  assumes "x \<in> set (inorder t)"
  obtains c l r ctx where "position_from x t [] = Some (RbNode c l x r, ctx)"
    and "plug (RbNode c l x r) ctx = t"
proof -
  obtain node p where pos: "position_from x t [] = Some (node, p)"
    using position_from_complete [OF assms] by fastforce
  with position_from_sound [OF pos] that show ?thesis by (cases node) auto
qed

lemma remove1_middle: "distinct (xs @ x # ys) \<Longrightarrow> remove1 x (xs @ x # ys) = xs @ ys"
  by (simp add: remove1_append)

lemma rb_erase_correct:
  assumes "red_black t" "x \<in> set (inorder t)" "distinct (inorder t)"
  shows "runs (rb_erase x t) (\<lambda>t'. red_black t' \<and> inorder t' = remove1 x (inorder t))"
proof -
  obtain c l r ctx where pos: "position_from x t [] = Some (RbNode c l x r, ctx)"
    and t: "plug (RbNode c l x r) ctx = t" using position_correct [OF assms(2)] .
  have ino: "inorder t = (frames_before ctx @ inorder l) @ x # (inorder r @ frames_after ctx)"
    using t inorder_plug [of "RbNode c l x r" ctx] by simp
  then have "remove1 x (inorder t) = frames_before ctx @ (inorder l @ inorder r) @ frames_after ctx"
    using remove1_middle assms(3) by (metis append.assoc)
  moreover have "balanced (RbNode c l x r)" "fits (bheight (RbNode c l x r)) ctx"
    "color_fits (RbNode c l x r) ctx"
    using plug_fits [of "RbNode c l x r" ctx "bheight t" "[]"] assms(1) t
    by (auto simp: red_black_def color_fits_def)
  ultimately show ?thesis
    using rb_erase_at_correct [of c l x r ctx] pos by (simp add: rb_erase_def)
qed

lemma rb_insert_correct:
  assumes "red_black t" "sorted_wrt (\<lambda>a b. \<not> lt b a) (inorder t)"
    and "\<And>a b. lt x a \<Longrightarrow> \<not> lt b a \<Longrightarrow> lt x b"
  shows "runs (rb_insert lt x t) (\<lambda>t'. red_black t' \<and> inorder t' =
    takeWhile (\<lambda>y. \<not> lt x y) (inorder t) @ x # dropWhile (\<lambda>y. \<not> lt x y) (inorder t))"
proof -
  have "fits 0 (insert_path lt x t [])"
    using assms(1) by (intro insert_path_fits) (auto simp: red_black_def color_fits_def)
  then show ?thesis
    using rb_insert_color_correct [OF refl, of Null x Null "insert_path lt x t []"]
      insert_path_order [OF assms(2,3), where ctx = "[]"]
    by (simp add: rb_insert_def rb_link_node_def)
qed

section \<open>A deletion touches only nodes of the tree\<close>

definition turn_root :: "erase_turn \<Rightarrow> rb_node" where
  "turn_root t = (case t of Done root \<Rightarrow> root | Again n c \<Rightarrow> plug n c)"

lemma rotate_inorder:
  "rb_rotate_left t = Some t' \<Longrightarrow> inorder t' = inorder t"
  by (induction t rule: rb_rotate_left.induct) auto

lemma rotate_right_inorder:
  "rb_rotate_right t = Some t' \<Longrightarrow> inorder t' = inorder t"
  by (induction t rule: rb_rotate_right.induct) auto

lemma set_color_parts: "rb_set_color t c = Some t' \<Longrightarrow>
   inorder (RbNode (rb_color t') (rb_left t') (rb_obj t') (blacken (rb_right t'))) = inorder t \<and>
   inorder (RbNode (rb_color t') (blacken (rb_left t')) (rb_obj t') (rb_right t')) = inorder t"
  by (cases t) auto

lemma erase_left_turn_inorder:
  assumes "erase_left_turn node pc px other ctx = Some t"
  shows "inorder (turn_root t) = frames_before ctx @ inorder node @ px # inorder other @ frames_after ctx"
  using assms by (auto simp: erase_left_turn_def turn_root_def inorder_plug split: rb_node.splits if_splits bind_splits
      dest!: rotate_inorder rotate_right_inorder set_color_parts)

lemma erase_right_turn_inorder:
  assumes "erase_right_turn node other pc px ctx = Some t"
  shows "inorder (turn_root t) = frames_before ctx @ inorder other @ px # inorder node @ frames_after ctx"
  using assms by (auto simp: erase_right_turn_def turn_root_def inorder_plug split: rb_node.splits if_splits bind_splits
      dest!: rotate_inorder rotate_right_inorder set_color_parts)

lemma erase_turn_inorder:
  assumes "erase_turn_at node f ctx = Some t"
  shows "inorder (turn_root t) = inorder (plug node (f # ctx))"
proof (cases f)
  case (LeftOf c x r)
  then show ?thesis
    using assms by (cases r) (auto simp: erase_turn_at_def rb_is_red_def inorder_plug split: if_splits
        dest!: erase_left_turn_inorder)
next
  case (RightOf l c x)
  then show ?thesis
    using assms by (cases l) (auto simp: erase_turn_at_def rb_is_red_def inorder_plug split: if_splits
        dest!: erase_right_turn_inorder)
qed

text \<open>All nodes that an erasure touches are nodes of the tree.\<close>

lemma head_obj_in: "set (head_obj t) \<subseteq> set (inorder t)" "set (children_objs t) \<subseteq> set (inorder t)"
  "set (left_spine t) \<subseteq> set (inorder t)"
proof -
  show h: "set (head_obj t) \<subseteq> set (inorder t)" for t by (cases t) auto
  show "set (children_objs t) \<subseteq> set (inorder t)"
    by (cases t) (use h in \<open>fastforce+\<close>)
  show "set (left_spine t) \<subseteq> set (inorder t)" by (induction t) auto
qed

lemma children_in: "set (inorder (rb_left t)) \<subseteq> set (inorder t)" "set (inorder (rb_right t)) \<subseteq> set (inorder t)" if "t \<noteq> Null"
  using that by (cases t; auto)+

lemma parent_obj_in: "set (parent_obj ctx) \<subseteq> set (frames_before ctx) \<union> set (frames_after ctx)"
proof (cases ctx)
  case (Cons f fs)
  then show ?thesis by (cases f) (auto simp: parent_obj_def)
qed (simp add: parent_obj_def)

lemma black_sibling_uses_in:
  "set (black_sibling_uses other near far ctx) \<subseteq> set (inorder other) \<union> set (inorder near) \<union> set (inorder far) \<union>
     set (frames_before ctx) \<union> set (frames_after ctx)"
  using head_obj_in(1) [of other] head_obj_in(1) [of far] head_obj_in(1,2) [of near] parent_obj_in [of ctx]
  unfolding black_sibling_uses_def by auto

lemma erase_turn_uses_in:
  assumes "erase_turn_at node f ctx = Some t"
  shows "set (erase_turn_uses f ctx) \<subseteq> set (inorder (plug node (f # ctx)))"
proof -
  have turns: "erase_left_turn node pc px Null c' = None" "erase_right_turn node Null pc px c' = None" for pc px c'
    by (simp_all add: erase_left_turn_def erase_right_turn_def)
  note ins = parent_obj_in [of ctx] black_sibling_uses_in
  show ?thesis
  proof (cases f)
    case (LeftOf c x r)
    then obtain rc rl rx rr where r: "r = RbNode rc rl rx rr"
      using assms by (cases r) (auto simp: erase_turn_at_def rb_is_red_def)
    show ?thesis
    proof (cases "rc = RB_RED")
      case True
      then obtain a b d e where "rl = RbNode a b d e"
        using assms LeftOf r turns by (cases rl) (auto simp: erase_turn_at_def rb_is_red_def)
      then show ?thesis
        using LeftOf r True parent_obj_in [of ctx]
          black_sibling_uses_in [of rl b e "LeftOf RB_BLACK rx rr # ctx"]
        by (auto simp: erase_turn_uses_def inorder_plug)
    next
      case False
      then show ?thesis
        using LeftOf r black_sibling_uses_in [of r rl rr ctx]
        by (auto simp: erase_turn_uses_def inorder_plug)
    qed
  next
    case (RightOf l c x)
    then obtain lc ll lx lr where l: "l = RbNode lc ll lx lr"
      using assms by (cases l) (auto simp: erase_turn_at_def rb_is_red_def)
    show ?thesis
    proof (cases "lc = RB_RED")
      case True
      then obtain a b d e where "lr = RbNode a b d e"
        using assms RightOf l turns by (cases lr) (auto simp: erase_turn_at_def rb_is_red_def)
      then show ?thesis
        using RightOf l True parent_obj_in [of ctx]
          black_sibling_uses_in [of lr e b "RightOf ll RB_BLACK lx # ctx"]
        by (auto simp: erase_turn_uses_def inorder_plug)
    next
      case False
      then show ?thesis
        using RightOf l black_sibling_uses_in [of l lr ll ctx]
        by (auto simp: erase_turn_uses_def inorder_plug)
    qed
  qed
qed

lemma rb_erase_color_uses_in:
  assumes "rb_erase_color node ctx = Some t"
  shows "\<exists>used. rb_erase_color_uses node ctx = Some used \<and> set used \<subseteq> set (inorder (plug node ctx))"
proof (rule rb_erase_color.raw_induct [OF _ assms])
  fix f node ctx t
  assume IH: "\<And>n c t. f n c = Some t \<Longrightarrow>
      \<exists>used. rb_erase_color_uses n c = Some used \<and> set used \<subseteq> set (inorder (plug n c))"
    and body: "(case ctx of [] \<Rightarrow> Some (blacken node) | parent # rest \<Rightarrow>
        if black_child node then Option.bind (erase_turn_at node parent rest)
          (\<lambda>t. case t of Done root \<Rightarrow> Some (blacken root) | Again n c \<Rightarrow> f n c)
        else Some (plug (blacken node) ctx)) = Some t"
  note hd = head_obj_in(1) [of node]
  show "\<exists>used. rb_erase_color_uses node ctx = Some used \<and> set used \<subseteq> set (inorder (plug node ctx))"
  proof (cases "ctx = [] \<or> \<not> black_child node")
    case True
    then have "rb_erase_color_uses node ctx = Some (head_obj node)"
      by (cases ctx) (auto simp: rb_erase_color_uses.simps)
    then show ?thesis using hd by (auto simp: inorder_plug)
  next
    case False
    then obtain p rest where c: "ctx = p # rest" "black_child node" by (cases ctx) auto
    then obtain u where u: "erase_turn_at node p rest = Some u"
      using body by (cases "erase_turn_at node p rest") auto
    note ins = erase_turn_inorder [OF u] erase_turn_uses_in [OF u]
    have "\<exists>used. (case u of Done root \<Rightarrow> Some (head_obj root) | Again n c \<Rightarrow> rb_erase_color_uses n c) = Some used \<and>
        set used \<subseteq> set (inorder (turn_root u))"
    proof (cases u)
      case (Done root)
      then show ?thesis using head_obj_in(1) [of root] by (simp add: turn_root_def)
    next
      case (Again n c')
      then have "f n c' = Some t" using body c u by simp
      then show ?thesis using IH Again by (simp add: turn_root_def)
    qed
    then obtain used where w: "(case u of Done root \<Rightarrow> Some (head_obj root) | Again n c \<Rightarrow> rb_erase_color_uses n c) = Some used"
      "set used \<subseteq> set (inorder (turn_root u))" by blast
    then have "rb_erase_color_uses node ctx = Some (head_obj node @ erase_turn_uses p rest @ used)"
      using c u by (simp add: rb_erase_color_uses.simps [of node])
    moreover have "set (head_obj node) \<subseteq> set (inorder (plug node ctx))" using hd by (auto simp: inorder_plug)
    ultimately show ?thesis using w(2) ins c(1) by auto
  qed
qed

lemma position_from_plug:
  "position_from x t ctx = Some (node, ctx') \<Longrightarrow> plug node ctx' = plug t ctx"
  by (induction x t ctx arbitrary: node ctx' rule: position_from.induct) (auto split: if_splits option.splits)

lemma descend_left_plug:
  "descend_left t ctx = Some (s, ctx') \<Longrightarrow> plug s ctx' = plug t ctx"
  by (induction t ctx rule: descend_left.induct) auto

lemma descend_left_some: "descend_left t ctx = Some (s, ctx') \<Longrightarrow> s \<noteq> Null"
  by (induction t ctx rule: descend_left.induct) auto

lemma rb_unlink_in:
  assumes "rb_unlink node ctx = Some (child, color, cctx)"
  shows "set (rb_unlink_uses node ctx) \<subseteq> set (inorder (plug node ctx))"
    "set (inorder (plug child cctx)) \<subseteq> set (inorder (plug node ctx))"
proof -
  obtain c l x r where n: "node = RbNode c l x r" using assms by (cases node) (auto simp: rb_unlink_def)
  note ins = head_obj_in [of node] head_obj_in(3) [of r] parent_obj_in [of ctx]
  show "set (rb_unlink_uses node ctx) \<subseteq> set (inorder (plug node ctx))"
  proof (cases "l = Null \<or> r = Null")
    case True
    then show ?thesis using ins n by (auto simp: rb_unlink_uses_def inorder_plug)
  next
    case False
    then obtain s sctx where d: "descend_left r [] = Some (s, sctx)"
      using assms n by (auto simp: rb_unlink_def split: bind_splits)
    have "s \<noteq> Null" using descend_left_some [OF d] .
    then have "set (head_obj (rb_right s)) \<subseteq> set (inorder r)"
      using head_obj_in(1) [of "rb_right s"] children_in(2) [of s] descend_left_plug [OF d] inorder_plug [of s sctx] by auto
    then show ?thesis using ins n d False by (auto simp: rb_unlink_uses_def inorder_plug)
  qed
  show "set (inorder (plug child cctx)) \<subseteq> set (inorder (plug node ctx))"
  proof (cases "l = Null \<or> r = Null")
    case True
    then show ?thesis using assms n by (auto simp: rb_unlink_def inorder_plug split: if_splits)
  next
    case False
    then obtain s sctx where d: "descend_left r [] = Some (s, sctx)"
      and c: "child = rb_right s" "cctx = sctx @ RightOf l c (rb_obj s) # ctx"
      using assms n by (auto simp: rb_unlink_def split: bind_splits)
    have "s \<noteq> Null" using descend_left_some [OF d] .
    then obtain a b y e where s: "s = RbNode a b y e" by (cases s) auto
    then show ?thesis using descend_left_plug [OF d] inorder_plug [of s sctx] c n
      by (auto simp: inorder_plug)
  qed
qed

lemma rb_erase_uses_in:
  assumes "rb_erase x t = Some t'"
  shows "\<exists>used. rb_erase_uses x t = Some used \<and> set used \<subseteq> set (inorder t)"
proof -
  obtain node ctx child color cctx where p: "position_from x t [] = Some (node, ctx)"
    "rb_unlink node ctx = Some (child, color, cctx)"
    using assms by (auto simp: rb_erase_def rb_erase_at_def split: bind_splits)
  have t: "plug node ctx = t" using position_from_plug [OF p(1)] by simp
  note ins = rb_unlink_in [OF p(2)]
  show ?thesis
  proof (cases "color = RB_BLACK")
    case True
    then have "rb_erase_color child cctx = Some t'" using assms p by (simp add: rb_erase_def rb_erase_at_def)
    from rb_erase_color_uses_in [OF this] show ?thesis using p True ins t by (auto simp: rb_erase_uses_def)
  next
    case False
    then show ?thesis using p ins t by (auto simp: rb_erase_uses_def)
  qed
qed

section \<open>First, last, next and previous\<close>

lemma rb_first_inorder: "rb_first t = (if t = Null then None else Some (hd (inorder t)))"
  by (induction t rule: rb_first.induct) (auto simp: hd_append)

lemma rb_last_inorder: "rb_last t = (if t = Null then None else Some (last (inorder t)))"
  by (induction t rule: rb_last.induct) auto

lemma inorder_Nil [simp]: "inorder t = [] \<longleftrightarrow> t = Null"
  by (cases t) auto

lemma climb_next_after: "climb_next ctx = (case frames_after ctx of [] \<Rightarrow> None | y # _ \<Rightarrow> Some y)"
  by (induction ctx rule: climb_next.induct) auto

lemma climb_prev_before:
  "climb_prev ctx = (if frames_before ctx = [] then None else Some (last (frames_before ctx)))"
  by (induction ctx rule: climb_prev.induct) auto

lemma rb_next_correct:
  assumes "inorder t = xs @ x # ys" "distinct (inorder t)"
  shows "rb_next x t = Some (case ys of [] \<Rightarrow> None | y # _ \<Rightarrow> Some y)"
proof -
  have "x \<in> set (inorder t)" using assms(1) by simp
  then obtain c l r ctx where pos: "position_from x t [] = Some (RbNode c l x r, ctx)"
    and t: "plug (RbNode c l x r) ctx = t" using position_correct by metis
  have "inorder t = (frames_before ctx @ inorder l) @ x # (inorder r @ frames_after ctx)"
    using t inorder_plug [of "RbNode c l x r" ctx] by simp
  then have "ys = inorder r @ frames_after ctx"
    using assms by (metis distinct_append not_distinct_conv_prefix append_Cons_eq_iff
        distinct.simps(2) Int_iff disjoint_iff list.set_intros(1))
  then show ?thesis
    using pos by (cases "inorder r") (auto simp: rb_next_def rb_first_inorder climb_next_after)
qed

lemma rb_replace_node_correct:
  assumes "red_black t" "inorder t = xs @ x # ys" "distinct (inorder t)"
  shows "runs (rb_replace_node x new t) (\<lambda>t'. red_black t' \<and> inorder t' = xs @ new # ys)"
proof -
  have "x \<in> set (inorder t)" using assms(2) by simp
  then obtain c l r ctx where pos: "position_from x t [] = Some (RbNode c l x r, ctx)"
    and t: "plug (RbNode c l x r) ctx = t" using position_correct by metis
  have "inorder t = (frames_before ctx @ inorder l) @ x # (inorder r @ frames_after ctx)"
    using t inorder_plug [of "RbNode c l x r" ctx] by simp
  then have "xs = frames_before ctx @ inorder l \<and> ys = inorder r @ frames_after ctx"
    using assms(2,3) by (metis append_Cons_eq_iff distinct_append disjoint_iff distinct.simps(2)
        list.set_intros(1))
  moreover have "red_black (plug (RbNode c l new r) ctx)"
    using plug_fits [of "RbNode c l x r" ctx "bheight t" "[]"] assms(1) t
    by (intro plug_red_black) (auto simp: red_black_def color_fits_def)
  ultimately show ?thesis
    using pos by (simp add: rb_replace_node_def inorder_plug)
qed

section \<open>The tree as an ordered index\<close>

text \<open>
  What the alarm queue relies on. The order \<open>lt\<close> is given at each insertion, since the times
  it compares live in the objects; it must be the strict part of a total preorder.
\<close>

definition strict_weak :: "(ptr \<Rightarrow> ptr \<Rightarrow> bool) \<Rightarrow> bool" where
  "strict_weak lt \<longleftrightarrow> (\<forall>a b. lt a b \<longrightarrow> \<not> lt b a) \<and> (\<forall>a b c. lt a b \<longrightarrow> \<not> lt c b \<longrightarrow> lt a c)"

locale ordered_index =
  fixes ok :: "'t \<Rightarrow> bool"
    and entries :: "'t \<Rightarrow> ptr list"
    and ins :: "(ptr \<Rightarrow> ptr \<Rightarrow> bool) \<Rightarrow> ptr \<Rightarrow> 't \<Rightarrow> 't option"
    and del :: "ptr \<Rightarrow> 't \<Rightarrow> 't option"
  assumes ins_law: "ok t \<Longrightarrow> sorted_wrt (\<lambda>a b. \<not> lt b a) (entries t) \<Longrightarrow> strict_weak lt \<Longrightarrow>
      runs (ins lt x t) (\<lambda>t'. ok t' \<and> entries t' =
        takeWhile (\<lambda>y. \<not> lt x y) (entries t) @ x # dropWhile (\<lambda>y. \<not> lt x y) (entries t))"
    and del_law: "ok t \<Longrightarrow> x \<in> set (entries t) \<Longrightarrow> distinct (entries t) \<Longrightarrow>
      runs (del x t) (\<lambda>t'. ok t' \<and> entries t' = remove1 x (entries t))"
begin

lemma ins_sorted:
  assumes t: "ok t" "sorted_wrt (\<lambda>a b. \<not> lt b a) (entries t)" "strict_weak lt"
    and x: "x \<notin> set (entries t)" "distinct (entries t)"
  shows "runs (ins lt x t) (\<lambda>t'. ok t' \<and> sorted_wrt (\<lambda>a b. \<not> lt b a) (entries t') \<and>
    set (entries t') = insert x (set (entries t)) \<and> distinct (entries t'))"
proof -
  define a b where "a = takeWhile (\<lambda>y. \<not> lt x y) (entries t)" and "b = dropWhile (\<lambda>y. \<not> lt x y) (entries t)"
  have ab: "entries t = a @ b" by (simp add: a_def b_def)
  have xa: "\<forall>y \<in> set a. \<not> lt x y" using set_takeWhileD by (fastforce simp: a_def)
  have xb: "\<not> lt y x" if y: "y \<in> set b" for y
  proof -
    obtain c cs where b: "b = c # cs" using y by (cases b) auto
    then have "lt x c" using hd_dropWhile [of "\<lambda>y. \<not> lt x y" "entries t"] by (auto simp: b_def)
    moreover have "y = c \<or> \<not> lt y c" using t(2) y b ab by (auto simp: sorted_wrt_append)
    ultimately show ?thesis using t(3) unfolding strict_weak_def by metis
  qed
  have "runs (ins lt x t) (\<lambda>t'. ok t' \<and> entries t' = a @ x # b)"
    using ins_law [OF t] by (simp add: a_def b_def)
  moreover have "sorted_wrt (\<lambda>a b. \<not> lt b a) (a @ x # b)"
    using t(2) xa xb by (auto simp: ab sorted_wrt_append)
  ultimately show ?thesis
    using x by (elim runs_mono) (auto simp: ab)
qed

lemma del_sorted:
  assumes "ok t" "sorted_wrt P (entries t)" "x \<in> set (entries t)" "distinct (entries t)"
  shows "runs (del x t) (\<lambda>t'. ok t' \<and> sorted_wrt P (entries t') \<and>
    set (entries t') = set (entries t) - {x} \<and> distinct (entries t'))"
proof -
  have "sorted_wrt P (remove1 x (entries t))"
    using assms(2) by (auto simp: remove1_filter [OF assms(4)] intro: sorted_wrt_filter)
  then show ?thesis
    by (intro runs_mono [OF del_law [OF assms(1,3,4)]]) (simp add: assms(4))
qed

lemma del_all:
  "ok t \<Longrightarrow> distinct (entries t) \<Longrightarrow> runs (fold_steps del (entries t) t) (\<lambda>t'. entries t' = [])"
proof (induction "entries t" arbitrary: t)
  case Nil
  then show ?case by simp
next
  case (Cons x xs)
  have x: "x \<in> set (entries t)" using Cons.hyps(2) by (metis list.set_intros(1))
  obtain t' where "del x t = Some t'" "ok t'" "entries t' = xs"
    using del_law [OF Cons.prems(1) x Cons.prems(2)] Cons.hyps(2) [symmetric] by (auto simp: runs_iff)
  moreover from this have "runs (fold_steps del xs t') (\<lambda>t'. entries t' = [])"
    using Cons.hyps(1) [of t'] Cons.hyps(2) Cons.prems(2) by (metis distinct.simps(2))
  ultimately show ?case by (simp add: Cons.hyps(2) [symmetric])
qed

end

interpretation rb: ordered_index red_black inorder rb_insert rb_erase
proof unfold_locales
  fix t and lt :: "ptr \<Rightarrow> ptr \<Rightarrow> bool" and x
  assume "red_black t" "sorted_wrt (\<lambda>a b. \<not> lt b a) (inorder t)" "strict_weak lt"
  then show "runs (rb_insert lt x t) (\<lambda>t'. red_black t' \<and> inorder t' =
      takeWhile (\<lambda>y. \<not> lt x y) (inorder t) @ x # dropWhile (\<lambda>y. \<not> lt x y) (inorder t))"
    by - (rule rb_insert_correct, assumption, assumption, unfold strict_weak_def, blast)
qed (rule rb_erase_correct)

section \<open>Properties of the trees\<close>

text \<open>
  C30: linking a new node into a red-black tree that is sorted by \<open>lt\<close> and rebalancing it
  dereferences no null node and gives a red-black tree with exactly the old nodes and the new
  one, still sorted.
\<close>
theorem rb_insert_keeps_order:
  assumes "red_black t" "sorted_wrt (\<lambda>a b. \<not> lt b a) (inorder t)" "strict_weak lt"
    and "x \<notin> set (inorder t)" "distinct (inorder t)"
  shows "runs (rb_insert lt x t) (\<lambda>t'. red_black t' \<and> sorted_wrt (\<lambda>a b. \<not> lt b a) (inorder t') \<and>
    set (inorder t') = insert x (set (inorder t)) \<and> distinct (inorder t'))"
  using assms by (rule rb.ins_sorted)

definition sample_tree :: rb_node where
  "sample_tree = RbNode RB_BLACK (RbNode RB_RED Null 2 Null) 4 (RbNode RB_RED Null 6 Null)"

theorem rb_insert_keeps_order_witness:
  "runs (rb_insert (<) 5 sample_tree) (\<lambda>t'. red_black t' \<and> sorted_wrt (\<lambda>a b. \<not> b < a) (inorder t') \<and>
    set (inorder t') = insert 5 (set (inorder sample_tree)) \<and> distinct (inorder t'))"
  by (rule rb_insert_keeps_order)
    (auto simp: sample_tree_def red_black_def strict_weak_def)

text \<open>
  C31: \<open>rb_erase\<close> of a node of a red-black tree ends, dereferences no null node, removes exactly that
  node, keeps the order of the others and gives a red-black tree again.
\<close>
theorem rb_erase_removes_one:
  assumes "red_black t" "x \<in> set (inorder t)" "distinct (inorder t)"
  shows "runs (rb_erase x t) (\<lambda>t'. red_black t' \<and> inorder t' = remove1 x (inorder t))"
  using assms by (rule rb_erase_correct)

theorem rb_erase_removes_one_witness:
  "runs (rb_erase 4 sample_tree) (\<lambda>t'. red_black t' \<and> inorder t' = remove1 4 (inorder sample_tree))"
  by (rule rb_erase_removes_one) (auto simp: sample_tree_def red_black_def)

end
