(* ===== verification/Alarm.thy ===== *)
theory Alarm
  imports Prelude Config Rbtree
begin

text \<open>
  The alarm queue of \<open>libmeshias/alarm/alarm.c\<close>. An alarm block is embedded in the object it
  belongs to, a route or a pending route request, and is named by that object's address; the
  tree holds the blocks that wait, ordered by their expiry time. \<open>RB_EMPTY_NODE\<close> of a block is
  the negation of \<open>al_linked\<close>. The callbacks themselves belong to the owners, so running the
  collected alarms is in the theory of the main loop; here are the blocks, the tree and the
  choice of the alarms that are due. Seconds and microseconds are unbounded integers: 64-bit
  \<open>long\<close> values do not overflow for the times the clock can return.
\<close>

section \<open>Data\<close>

datatype alarm_fn = No_alarm_fn | Route_alarm_fn | Rreq_alarm_fn | Flush_alarm_fn

record alarm_block =
  al_linked :: bool
  al_tv :: timeval
  al_data :: ptr
  al_function :: alarm_fn

record alarms =
  al_blocks :: "ptr \<rightharpoonup> alarm_block"
  alarm_root :: rb_node

definition zero_tv :: timeval where
  "zero_tv = \<lparr>tv_sec = 0, tv_usec = 0\<rparr>"

definition LONG_MAX :: int where
  "LONG_MAX = 2 ^ 63 - 1"

section \<open>Arithmetic on times\<close>

definition timer_less :: "timeval \<Rightarrow> timeval \<Rightarrow> bool" where
  "timer_less a b = (if tv_sec a = tv_sec b then tv_usec a < tv_usec b else tv_sec a < tv_sec b)"

definition timeradd :: "timeval \<Rightarrow> timeval \<Rightarrow> timeval" where
  "timeradd a b =
     (let s = tv_sec a + tv_sec b; u = tv_usec a + tv_usec b in
      if u \<ge> 1000000 then \<lparr>tv_sec = s + 1, tv_usec = u - 1000000\<rparr>
      else \<lparr>tv_sec = s, tv_usec = u\<rparr>)"

definition timersub :: "timeval \<Rightarrow> timeval \<Rightarrow> timeval" where
  "timersub a b =
     (let s = tv_sec a - tv_sec b; u = tv_usec a - tv_usec b in
      if u < 0 then \<lparr>tv_sec = s - 1, tv_usec = u + 1000000\<rparr>
      else \<lparr>tv_sec = s, tv_usec = u\<rparr>)"

definition timerisset :: "timeval \<Rightarrow> bool" where
  "timerisset tv = (tv_sec tv \<noteq> 0 \<or> tv_usec tv \<noteq> 0)"

text \<open>
  Times are ordered as \<open>timercmp\<close> compares them, so that sorting and the facts on linear orders
  apply to them. A field that an extended record may add comes last.
\<close>

instantiation timeval_ext :: (linorder) linorder
begin

definition less_timeval_ext :: "'a timeval_scheme \<Rightarrow> 'a timeval_scheme \<Rightarrow> bool" where
  "less_timeval_ext a b \<longleftrightarrow> tv_sec a < tv_sec b \<or> tv_sec a = tv_sec b \<and>
     (tv_usec a < tv_usec b \<or> tv_usec a = tv_usec b \<and> timeval.more a < timeval.more b)"

definition less_eq_timeval_ext :: "'a timeval_scheme \<Rightarrow> 'a timeval_scheme \<Rightarrow> bool" where
  "less_eq_timeval_ext a b \<longleftrightarrow> a < b \<or> a = b"

instance
proof
  fix a b c :: "'a timeval_scheme"
  show "a < b \<longleftrightarrow> a \<le> b \<and> \<not> b \<le> a"
    by (auto simp: less_timeval_ext_def less_eq_timeval_ext_def)
  show "a \<le> a" by (simp add: less_eq_timeval_ext_def)
  show "a \<le> b \<Longrightarrow> b \<le> c \<Longrightarrow> a \<le> c"
    by (auto simp: less_timeval_ext_def less_eq_timeval_ext_def)
  show "a \<le> b \<Longrightarrow> b \<le> a \<Longrightarrow> a = b"
    by (auto simp: less_timeval_ext_def less_eq_timeval_ext_def)
  show "a \<le> b \<or> b \<le> a"
    by (auto simp: less_timeval_ext_def less_eq_timeval_ext_def intro: timeval.equality)
qed

end

lemma timer_less_iff: "timer_less a b \<longleftrightarrow> a < b"
  by (auto simp: timer_less_def less_timeval_ext_def)

section \<open>Operations on a block\<close>

text \<open>
  A block as \<open>calloc\<close> leaves it: its parent pointer is null and so differs from the node,
  which is how a linked node looks.
\<close>

definition zero_block :: alarm_block where
  "zero_block = \<lparr>al_linked = True, al_tv = zero_tv, al_data = 0, al_function = No_alarm_fn\<rparr>"

definition init_alarm :: "ptr \<Rightarrow> ptr \<Rightarrow> alarm_fn \<Rightarrow> alarms \<Rightarrow> alarms option" where
  "init_alarm t data fcn A = do {
     b \<leftarrow> al_blocks A t;
     Some (A\<lparr>al_blocks := (al_blocks A)(t \<mapsto>
       b\<lparr>al_linked := False, al_tv := zero_tv, al_data := data, al_function := fcn\<rparr>)\<rparr>) }"

definition block_tv :: "alarms \<Rightarrow> ptr \<Rightarrow> timeval" where
  "block_tv A p = (case al_blocks A p of None \<Rightarrow> zero_tv | Some b \<Rightarrow> al_tv b)"

definition alarm_before :: "alarms \<Rightarrow> ptr \<Rightarrow> ptr \<Rightarrow> bool" where
  "alarm_before A x y = timer_less (block_tv A x) (block_tv A y)"

definition add_alarm_node :: "ptr \<Rightarrow> alarms \<Rightarrow> alarms option" where
  "add_alarm_node alarm A = do {
     b \<leftarrow> al_blocks A alarm;
     root \<leftarrow> rb_insert (alarm_before A) alarm (alarm_root A);
     Some (A\<lparr>al_blocks := (al_blocks A)(alarm \<mapsto> b\<lparr>al_linked := True\<rparr>), alarm_root := root\<rparr>) }"

text \<open>
  Taking a node off the tree. A block that was freed while it waited is still linked: if the
  deletion comes across its node, freed memory is used.
\<close>

definition erase_alarm :: "ptr \<Rightarrow> alarms \<Rightarrow> rb_node option" where
  "erase_alarm alarm A = do {
     used \<leftarrow> rb_erase_uses alarm (alarm_root A);
     defined_if (list_all (\<lambda>p. al_blocks A p \<noteq> None) used) (rb_erase alarm (alarm_root A)) }"

definition del_alarm :: "ptr \<Rightarrow> alarms \<Rightarrow> alarms option" where
  "del_alarm alarm A = do {
     b \<leftarrow> al_blocks A alarm;
     if al_linked b then do {
       root \<leftarrow> erase_alarm alarm A;
       Some (A\<lparr>al_blocks := (al_blocks A)(alarm \<mapsto> b\<lparr>al_linked := False\<rparr>), alarm_root := root\<rparr>) }
     else Some A }"

text \<open>\<open>now\<close> is what \<open>gettimeofday\<close> returns in the call.\<close>

definition add_alarm :: "timeval \<Rightarrow> ptr \<Rightarrow> u64 \<Rightarrow> u64 \<Rightarrow> alarms \<Rightarrow> alarms option" where
  "add_alarm now alarm sc usc A = do {
     A \<leftarrow> del_alarm alarm A;
     b \<leftarrow> al_blocks A alarm;
     let tv = timeradd \<lparr>tv_sec = sint sc, tv_usec = sint usc\<rparr> now;
     add_alarm_node alarm (A\<lparr>al_blocks := (al_blocks A)(alarm \<mapsto> b\<lparr>al_tv := tv\<rparr>)\<rparr>) }"

definition alarm_pending :: "ptr \<Rightarrow> alarms \<Rightarrow> bool option" where
  "alarm_pending alarm A = map_option al_linked (al_blocks A alarm)"

section \<open>The next run\<close>

definition calculate_next_run :: "timeval \<Rightarrow> timeval \<Rightarrow> timeval option" where
  "calculate_next_run cand tv =
     (if tv_sec cand \<noteq> LONG_MAX then
        Some (if timer_less tv cand then timersub cand tv else zero_tv)
      else None)"

text \<open>The outer option is definedness, the inner one the null pointer.\<close>

definition get_next_alarm_run :: "timeval \<Rightarrow> alarms \<Rightarrow> timeval option option" where
  "get_next_alarm_run now A = (case rb_first (alarm_root A) of
       None \<Rightarrow> Some None
     | Some p \<Rightarrow> do { b \<leftarrow> al_blocks A p; Some (calculate_next_run (al_tv b) now) })"

text \<open>
  The first loop of \<open>do_alarm_run\<close>: it walks the tree from its first node and puts every due
  block at the head of the run queue, until a block is not due.
\<close>

partial_function (option) collect_due ::
  "timeval \<Rightarrow> alarms \<Rightarrow> ptr option \<Rightarrow> ptr list \<Rightarrow> ptr list option" where
  "collect_due now A node queue =
     (case node of
        None \<Rightarrow> Some queue
      | Some p \<Rightarrow> Option.bind (al_blocks A p) (\<lambda>b.
          if timer_less now (al_tv b) then Some queue
          else Option.bind (rb_next p (alarm_root A)) (\<lambda>n. collect_due now A n (p # queue))))"

definition alarm_run_queue :: "timeval \<Rightarrow> alarms \<Rightarrow> ptr list option" where
  "alarm_run_queue now A = collect_due now A (rb_first (alarm_root A)) []"

text \<open>
  Taking a due block off the tree, before its callback is called. The C code erases the node
  without testing whether it is still linked.
\<close>

definition unlink_due :: "ptr \<Rightarrow> alarms \<Rightarrow> alarms option" where
  "unlink_due p A = do {
     b \<leftarrow> al_blocks A p;
     root \<leftarrow> erase_alarm p A;
     Some (A\<lparr>al_blocks := (al_blocks A)(p \<mapsto> b\<lparr>al_linked := False\<rparr>), alarm_root := root\<rparr>) }"

section \<open>Invariant\<close>

definition tv_normal :: "timeval \<Rightarrow> bool" where
  "tv_normal tv \<longleftrightarrow> 0 \<le> tv_usec tv \<and> tv_usec tv < 1000000"

text \<open>
  The tree is a red-black tree of distinct blocks in the order of their times, and it holds
  exactly the blocks that say so.
\<close>

definition alarms_ok :: "alarms \<Rightarrow> bool" where
  "alarms_ok A \<longleftrightarrow> red_black (alarm_root A) \<and> distinct (inorder (alarm_root A)) \<and>
     sorted_wrt (\<lambda>a b. \<not> alarm_before A b a) (inorder (alarm_root A)) \<and>
     set (inorder (alarm_root A)) = {p. \<exists>b. al_blocks A p = Some b \<and> al_linked b}"

definition waiting :: "alarms \<Rightarrow> ptr set" where
  "waiting A = set (inorder (alarm_root A))"

lemma waiting_iff:
  "alarms_ok A \<Longrightarrow> p \<in> waiting A \<longleftrightarrow> (\<exists>b. al_blocks A p = Some b \<and> al_linked b)"
  by (simp add: alarms_ok_def waiting_def)

lemma timer_less_irrefl [simp]: "\<not> timer_less a a"
  by (simp add: timer_less_iff)

lemma alarm_before_strict: "strict_weak (alarm_before A)"
  by (auto simp: strict_weak_def alarm_before_def timer_less_iff)

lemma sorted_wrt_cong_on:
  "sorted_wrt P xs \<Longrightarrow> (\<And>a b. a \<in> set xs \<Longrightarrow> b \<in> set xs \<Longrightarrow> P a b \<Longrightarrow> Q a b) \<Longrightarrow> sorted_wrt Q xs"
  by (induction xs) auto

text \<open>A change of blocks that keeps the flags and the times of the waiting ones is harmless.\<close>

lemma alarms_ok_cong:
  assumes "alarms_ok A" "alarm_root A' = alarm_root A"
    and "\<And>p. p \<in> waiting A \<Longrightarrow> block_tv A' p = block_tv A p"
    and "\<And>p. (\<exists>b. al_blocks A' p = Some b \<and> al_linked b) \<longleftrightarrow> (\<exists>b. al_blocks A p = Some b \<and> al_linked b)"
  shows "alarms_ok A'"
proof -
  have "sorted_wrt (\<lambda>a b. \<not> alarm_before A' b a) (inorder (alarm_root A))"
    by (rule sorted_wrt_cong_on [where P = "\<lambda>a b. \<not> alarm_before A b a"])
      (use assms in \<open>auto simp: alarms_ok_def alarm_before_def waiting_def\<close>)
  then show ?thesis using assms by (simp add: alarms_ok_def)
qed

lemma block_tv_upd:
  "al_blocks A p = Some b \<Longrightarrow> al_tv b' = al_tv b \<Longrightarrow>
    block_tv (A\<lparr>al_blocks := (al_blocks A)(p \<mapsto> b')\<rparr>) q = block_tv A q"
  by (simp add: block_tv_def)

text \<open>As long as no block is freed while it waits, the test never fails.\<close>

lemma erase_alarm_eq:
  assumes "alarms_ok A" "rb_erase p (alarm_root A) = Some t"
  shows "erase_alarm p A = Some t"
proof -
  obtain used where u: "rb_erase_uses p (alarm_root A) = Some used" "set used \<subseteq> set (inorder (alarm_root A))"
    using rb_erase_uses_in [OF assms(2)] by blast
  moreover have "al_blocks A q \<noteq> None" if "q \<in> set used" for q
    using that u(2) assms(1) by (auto simp: alarms_ok_def)
  ultimately show ?thesis using assms(2) by (simp add: erase_alarm_def list_all_iff)
qed

lemma rb_erase_alarms:
  assumes ok: "alarms_ok A" and b: "al_blocks A p = Some b" "al_linked b"
  shows "runs (erase_alarm p A) (\<lambda>root.
    alarms_ok (A\<lparr>al_blocks := (al_blocks A)(p \<mapsto> b\<lparr>al_linked := False\<rparr>), alarm_root := root\<rparr>) \<and>
    set (inorder root) = waiting A - {p})"
proof -
  let ?A = "\<lambda>root. A\<lparr>al_blocks := (al_blocks A)(p \<mapsto> b\<lparr>al_linked := False\<rparr>), alarm_root := root\<rparr>"
  have p: "p \<in> set (inorder (alarm_root A))" using ok b by (auto simp: alarms_ok_def)
  have "block_tv (?A root) q = block_tv A q" for root q
    using b by (simp add: block_tv_def)
  then have tv: "alarm_before (?A root) = alarm_before A" for root
    by (simp add: alarm_before_def fun_eq_iff)
  have "runs (rb_erase p (alarm_root A)) (\<lambda>t'. red_black t' \<and>
      sorted_wrt (\<lambda>a b. \<not> alarm_before A b a) (inorder t') \<and>
      set (inorder t') = set (inorder (alarm_root A)) - {p} \<and> distinct (inorder t'))"
    by (rule rb.del_sorted) (use ok p in \<open>auto simp: alarms_ok_def\<close>)
  then have "runs (erase_alarm p A) (\<lambda>t'. red_black t' \<and>
      sorted_wrt (\<lambda>a b. \<not> alarm_before A b a) (inorder t') \<and>
      set (inorder t') = set (inorder (alarm_root A)) - {p} \<and> distinct (inorder t'))"
    using erase_alarm_eq [OF ok] by (auto simp: runs_iff)
  then show ?thesis
    by (rule runs_mono) (use ok in \<open>auto simp: alarms_ok_def tv waiting_def\<close>)
qed

lemma del_alarm_ok:
  assumes "alarms_ok A" "p \<in> dom (al_blocks A)"
  shows "runs (del_alarm p A) (\<lambda>A'. alarms_ok A' \<and> waiting A' = waiting A - {p} \<and>
    al_blocks A' = (al_blocks A)(p \<mapsto> (the (al_blocks A p))\<lparr>al_linked := False\<rparr>))"
proof -
  obtain b where b: "al_blocks A p = Some b" using assms(2) by auto
  show ?thesis
  proof (cases "al_linked b")
    case True
    then show ?thesis
      using rb_erase_alarms [OF assms(1) b True] b
      by (auto simp: del_alarm_def waiting_def elim!: runs_mono)
  next
    case False
    then have "p \<notin> waiting A" using waiting_iff [OF assms(1)] b by simp
    moreover have "b\<lparr>al_linked := False\<rparr> = b" using False by simp
    ultimately show ?thesis
      using False assms(1) b by (auto simp: del_alarm_def fun_upd_idem)
  qed
qed

lemma add_alarm_node_ok:
  assumes ok: "alarms_ok A" and b: "al_blocks A p = Some b" "\<not> al_linked b"
  shows "runs (add_alarm_node p A) (\<lambda>A'. alarms_ok A' \<and> waiting A' = insert p (waiting A) \<and>
    al_blocks A' = (al_blocks A)(p \<mapsto> b\<lparr>al_linked := True\<rparr>))"
proof -
  let ?A = "\<lambda>root. A\<lparr>al_blocks := (al_blocks A)(p \<mapsto> b\<lparr>al_linked := True\<rparr>), alarm_root := root\<rparr>"
  have p: "p \<notin> set (inorder (alarm_root A))" using ok b by (auto simp: alarms_ok_def)
  have "block_tv (?A root) q = block_tv A q" for root q
    using b by (simp add: block_tv_def)
  then have tv: "alarm_before (?A root) = alarm_before A" for root
    by (simp add: alarm_before_def fun_eq_iff)
  have "runs (rb_insert (alarm_before A) p (alarm_root A)) (\<lambda>t'. red_black t' \<and>
      sorted_wrt (\<lambda>a b. \<not> alarm_before A b a) (inorder t') \<and>
      set (inorder t') = insert p (set (inorder (alarm_root A))) \<and> distinct (inorder t'))"
    by (rule rb.ins_sorted [OF _ _ alarm_before_strict]) (use ok p in \<open>auto simp: alarms_ok_def\<close>)
  then show ?thesis
    unfolding add_alarm_node_def b(1) Option.bind.simps runs_bind
    by (rule runs_mono) (use ok in \<open>auto simp: alarms_ok_def tv waiting_def\<close>)
qed

lemma add_alarm_ok:
  assumes "alarms_ok A" "p \<in> dom (al_blocks A)"
  shows "runs (add_alarm now p sc usc A) (\<lambda>A'. alarms_ok A' \<and> waiting A' = insert p (waiting A) \<and>
    al_blocks A' = (al_blocks A)(p \<mapsto> (the (al_blocks A p))\<lparr>al_linked := True,
      al_tv := timeradd \<lparr>tv_sec = sint sc, tv_usec = sint usc\<rparr> now\<rparr>))"
proof -
  define b where "b = the (al_blocks A p)"
  define tv where "tv = timeradd \<lparr>tv_sec = sint sc, tv_usec = sint usc\<rparr> now"
  obtain A1 where A1: "del_alarm p A = Some A1" "alarms_ok A1" "waiting A1 = waiting A - {p}"
    "al_blocks A1 = (al_blocks A)(p \<mapsto> b\<lparr>al_linked := False\<rparr>)"
    using del_alarm_ok [OF assms] by (auto simp: runs_iff b_def)
  define A2 where "A2 = A1\<lparr>al_blocks := (al_blocks A1)(p \<mapsto> b\<lparr>al_linked := False, al_tv := tv\<rparr>)\<rparr>"
  have ok2: "alarms_ok A2"
    by (rule alarms_ok_cong [OF A1(2)]) (use A1(3,4) in \<open>auto simp: A2_def block_tv_def\<close>)
  have "waiting A2 = waiting A1" by (simp add: A2_def waiting_def)
  moreover have "add_alarm now p sc usc A = add_alarm_node p A2"
    using A1 by (simp add: add_alarm_def A2_def tv_def)
  ultimately show ?thesis
    using add_alarm_node_ok [OF ok2, of p "b\<lparr>al_linked := False, al_tv := tv\<rparr>"] A1(3,4)
    by (auto simp: A2_def b_def tv_def elim!: runs_mono)
qed

text \<open>Fresh blocks are initialised before anything else is done with them.\<close>

lemma init_fresh_alarm_ok:
  assumes "alarms_ok A" "al_blocks A p = None"
  shows "runs (init_alarm p d f (A\<lparr>al_blocks := (al_blocks A)(p \<mapsto> zero_block)\<rparr>))
    (\<lambda>A'. alarms_ok A' \<and> waiting A' = waiting A \<and> al_blocks A' =
      (al_blocks A)(p \<mapsto> \<lparr>al_linked = False, al_tv = zero_tv, al_data = d, al_function = f\<rparr>))"
proof -
  let ?b = "\<lparr>al_linked = False, al_tv = zero_tv, al_data = d, al_function = f\<rparr>"
  have "alarms_ok (A\<lparr>al_blocks := (al_blocks A)(p \<mapsto> ?b)\<rparr>)"
    by (rule alarms_ok_cong [OF assms(1)]) (use assms in \<open>auto simp: block_tv_def\<close>)
  then show ?thesis
    by (simp add: init_alarm_def zero_block_def waiting_def)
qed

text \<open>Freeing an object whose alarm does not wait.\<close>

lemma free_block_ok:
  assumes "alarms_ok A" "p \<notin> waiting A"
  shows "alarms_ok (A\<lparr>al_blocks := (al_blocks A)(p := None)\<rparr>)"
  by (rule alarms_ok_cong [OF assms(1)])
    (use assms waiting_iff [OF assms(1)] in \<open>auto simp: block_tv_def split: option.splits\<close>)

lemma unlink_due_ok:
  assumes "alarms_ok A" "p \<in> waiting A"
  shows "runs (unlink_due p A) (\<lambda>A'. alarms_ok A' \<and> waiting A' = waiting A - {p} \<and>
    al_blocks A' = (al_blocks A)(p \<mapsto> (the (al_blocks A p))\<lparr>al_linked := False\<rparr>))"
proof -
  obtain b where b: "al_blocks A p = Some b" "al_linked b"
    using waiting_iff [OF assms(1)] assms(2) by auto
  then show ?thesis
    using rb_erase_alarms [OF assms(1) b]
    by (auto simp: unlink_due_def waiting_def elim!: runs_mono)
qed

section \<open>The due alarms\<close>

definition due :: "timeval \<Rightarrow> alarms \<Rightarrow> ptr \<Rightarrow> bool" where
  "due now A p \<longleftrightarrow> \<not> timer_less now (block_tv A p)"

lemma collect_due_from:
  assumes "inorder (alarm_root A) = xs @ ys" "distinct (inorder (alarm_root A))"
    and "set (inorder (alarm_root A)) \<subseteq> dom (al_blocks A)"
  shows "collect_due now A (case ys of [] \<Rightarrow> None | y # _ \<Rightarrow> Some y) q =
    Some (rev (takeWhile (due now A) ys) @ q)"
  using assms(1)
proof (induction ys arbitrary: xs q)
  case Nil
  then show ?case by (simp add: collect_due.simps)
next
  case (Cons y ys)
  obtain b where b: "al_blocks A y = Some b" using Cons.prems assms(3) by fastforce
  have n: "rb_next y (alarm_root A) = Some (case ys of [] \<Rightarrow> None | z # _ \<Rightarrow> Some z)"
    by (rule rb_next_correct [OF Cons.prems assms(2)])
  have IH: "collect_due now A (case ys of [] \<Rightarrow> None | z # _ \<Rightarrow> Some z) (y # q) =
      Some (rev (takeWhile (due now A) ys) @ y # q)"
    using Cons.IH [of "xs @ [y]" "y # q"] Cons.prems by simp
  show ?case
    by (subst collect_due.simps) (simp add: b n IH due_def block_tv_def)
qed

lemma rb_first_case: "rb_first t = (case inorder t of [] \<Rightarrow> None | y # _ \<Rightarrow> Some y)"
  by (cases "inorder t") (auto simp: rb_first_inorder)

lemma alarms_ok_dom: "alarms_ok A \<Longrightarrow> waiting A \<subseteq> dom (al_blocks A)"
  by (auto simp: waiting_iff)

lemma sorted_takeWhile_filter:
  "sorted_wrt (\<lambda>a b. P b \<longrightarrow> P a) xs \<Longrightarrow> takeWhile P xs = filter P xs"
proof (induction xs)
  case (Cons x xs)
  show ?case
  proof (cases "P x")
    case False
    then have "filter P xs = []" using Cons.prems by (auto simp: filter_empty_conv)
    then show ?thesis using False by simp
  qed (use Cons in simp)
qed simp

lemma alarm_run_queue_due:
  assumes "alarms_ok A"
  shows "alarm_run_queue now A = Some (rev (filter (due now A) (inorder (alarm_root A))))"
proof -
  have "sorted_wrt (\<lambda>a b. due now A b \<longrightarrow> due now A a) (inorder (alarm_root A))"
    by (rule sorted_wrt_cong_on [where P = "\<lambda>a b. \<not> alarm_before A b a"])
      (use assms in \<open>auto simp: alarms_ok_def alarm_before_def due_def timer_less_iff\<close>)
  then show ?thesis
    using collect_due_from [of A "[]" "inorder (alarm_root A)" now "[]"] assms alarms_ok_dom [OF assms]
    by (simp add: alarm_run_queue_def rb_first_case sorted_takeWhile_filter alarms_ok_def waiting_def)
qed

lemma get_next_alarm_run_defined:
  "alarms_ok A \<Longrightarrow> \<exists>r. get_next_alarm_run now A = Some r"
proof -
  assume ok: "alarms_ok A"
  have "\<exists>b. al_blocks A p = Some b" if "rb_first (alarm_root A) = Some p" for p
    using that alarms_ok_dom [OF ok] by (cases "inorder (alarm_root A)")
      (auto simp: rb_first_case waiting_def)
  then show ?thesis by (auto simp: get_next_alarm_run_def split: option.splits)
qed

section \<open>Properties of the alarm queue\<close>

text \<open>A queue with alarms at 5 and 9 seconds and a block that does not wait.\<close>

definition sample_alarms :: alarms where
  "sample_alarms = \<lparr>al_blocks =
     [10 \<mapsto> \<lparr>al_linked = True, al_tv = \<lparr>tv_sec = 5, tv_usec = 0\<rparr>, al_data = 10, al_function = Route_alarm_fn\<rparr>,
      11 \<mapsto> \<lparr>al_linked = False, al_tv = zero_tv, al_data = 11, al_function = Rreq_alarm_fn\<rparr>,
      12 \<mapsto> \<lparr>al_linked = True, al_tv = \<lparr>tv_sec = 9, tv_usec = 0\<rparr>, al_data = 12, al_function = Route_alarm_fn\<rparr>],
     alarm_root = RbNode RB_BLACK Null 10 (RbNode RB_RED Null 12 Null)\<rparr>"

lemma sample_alarms_ok: "alarms_ok sample_alarms"
  by (auto simp: sample_alarms_def alarms_ok_def red_black_def alarm_before_def block_tv_def
      timer_less_def)

text \<open>
  Setting an alarm, whether it waited already or not, leaves the tree well-formed and in
  expiry order; afterwards the alarm waits, exactly once, for the current time plus the
  given delay, and no other alarm has changed.
\<close>
theorem add_alarm_schedules:
  assumes "alarms_ok A" "p \<in> dom (al_blocks A)"
  shows "runs (add_alarm now p sc usc A) (\<lambda>A'. alarms_ok A' \<and>
    waiting A' = insert p (waiting A) \<and>
    block_tv A' p = timeradd \<lparr>tv_sec = sint sc, tv_usec = sint usc\<rparr> now \<and>
    (\<forall>q. q \<noteq> p \<longrightarrow> al_blocks A' q = al_blocks A q))"
  using add_alarm_ok [OF assms] by (rule runs_mono) (simp add: block_tv_def)

theorem add_alarm_schedules_witness:
  "runs (add_alarm \<lparr>tv_sec = 4, tv_usec = 900000\<rparr> 11 2 500000 sample_alarms) (\<lambda>A'. alarms_ok A' \<and>
    waiting A' = insert 11 (waiting sample_alarms) \<and>
    block_tv A' 11 = timeradd \<lparr>tv_sec = sint (2::u64), tv_usec = sint (500000::u64)\<rparr> \<lparr>tv_sec = 4, tv_usec = 900000\<rparr> \<and>
    (\<forall>q. q \<noteq> 11 \<longrightarrow> al_blocks A' q = al_blocks sample_alarms q))"
  by (rule add_alarm_schedules [OF sample_alarms_ok]) (simp add: sample_alarms_def)

text \<open>
  C34: the run queue that \<open>do_alarm_run\<close> collects holds exactly the waiting alarms whose time has
  come, each once, the latest first; the walk over the tree ends and never reads a dead block.
\<close>
theorem run_queue_is_the_due_alarms:
  assumes "alarms_ok A"
  shows "runs (alarm_run_queue now A) (\<lambda>q. set q = {p \<in> waiting A. block_tv A p \<le> now} \<and>
    distinct q \<and> sorted (rev (map (block_tv A) q)))"
proof -
  have "sorted_wrt (\<lambda>a b. block_tv A a \<le> block_tv A b) (filter (due now A) (inorder (alarm_root A)))"
    using assms by (auto simp: alarms_ok_def alarm_before_def timer_less_iff not_less intro: sorted_wrt_filter)
  then show ?thesis
    using assms by (auto simp: alarm_run_queue_due due_def waiting_def alarms_ok_def timer_less_iff not_less
        rev_map sorted_wrt_map)
qed

theorem run_queue_is_the_due_alarms_witness:
  "runs (alarm_run_queue \<lparr>tv_sec = 7, tv_usec = 0\<rparr> sample_alarms)
    (\<lambda>q. set q = {p \<in> waiting sample_alarms. block_tv sample_alarms p \<le> \<lparr>tv_sec = 7, tv_usec = 0\<rparr>} \<and>
      distinct q \<and> sorted (rev (map (block_tv sample_alarms) q)))"
  by (rule run_queue_is_the_due_alarms [OF sample_alarms_ok])

lemma timersub_set:
  "tv_normal a \<Longrightarrow> tv_normal b \<Longrightarrow> timer_less a b \<Longrightarrow> timerisset (timersub b a)"
  by (auto simp: timersub_def timerisset_def timer_less_def tv_normal_def Let_def split: if_splits)

text \<open>
  The time until the next run is zero exactly when some waiting alarm is already due, and
  no alarm run is planned exactly when no alarm waits.
\<close>
theorem next_run_zero_iff_due:
  assumes "alarms_ok A" "tv_normal now"
    and "\<forall>p \<in> waiting A. tv_normal (block_tv A p) \<and> tv_sec (block_tv A p) \<noteq> LONG_MAX"
  shows "runs (get_next_alarm_run now A) (\<lambda>r. case r of
      None \<Rightarrow> waiting A = {}
    | Some tv \<Rightarrow> (\<not> timerisset tv) = (\<exists>p \<in> waiting A. block_tv A p \<le> now))"
proof (cases "inorder (alarm_root A)")
  case Nil
  then show ?thesis by (simp add: get_next_alarm_run_def waiting_def rb_first_case)
next
  case (Cons p ps)
  then have p: "p \<in> waiting A" by (simp add: waiting_def)
  then obtain b where b: "al_blocks A p = Some b" using alarms_ok_dom [OF assms(1)] by auto
  then have tv: "block_tv A p = al_tv b" by (simp add: block_tv_def)
  have least: "block_tv A p \<le> block_tv A q" if "q \<in> waiting A" for q
    using that assms(1) Cons by (auto simp: alarms_ok_def waiting_def alarm_before_def timer_less_iff not_less)
  have "(\<exists>q \<in> waiting A. block_tv A q \<le> now) = (\<not> timer_less now (al_tv b))"
    unfolding timer_less_iff not_less using p least tv by (metis order_trans)
  moreover have "get_next_alarm_run now A = Some (calculate_next_run (al_tv b) now)"
    using Cons b by (simp add: get_next_alarm_run_def rb_first_case)
  ultimately show ?thesis
    using assms(2,3) p tv timersub_set
    by (auto simp: calculate_next_run_def zero_tv_def timerisset_def [of "\<lparr>tv_sec = 0, tv_usec = 0\<rparr>"])
qed

theorem next_run_zero_iff_due_witness:
  "runs (get_next_alarm_run \<lparr>tv_sec = 3, tv_usec = 0\<rparr> sample_alarms) (\<lambda>r. case r of
      None \<Rightarrow> waiting sample_alarms = {}
    | Some tv \<Rightarrow> (\<not> timerisset tv) =
        (\<exists>p \<in> waiting sample_alarms. block_tv sample_alarms p \<le> \<lparr>tv_sec = 3, tv_usec = 0\<rparr>))"
  by (rule next_run_zero_iff_due [OF sample_alarms_ok])
    (auto simp: tv_normal_def waiting_def sample_alarms_def block_tv_def LONG_MAX_def)

end
