(* ===== verification/World.thy ===== *)
theory World
  imports Prelude Bytes Config Alarm
begin

text \<open>
  The state of the daemon: the global structures \<open>data\<close> (\<open>meshias_daemon/msh_data.h\<close>) and
  \<open>stats\<close> (\<open>statistics.h\<close>), the objects on the heap with the lists that link them, the alarm
  queue, and the calls made to the kernel and to libraries.

  Routes, pending route requests and queued packets are objects named by their addresses. An
  address outside its map is not allocated, so using it is undefined. The three intrusive
  lists are sequences of addresses, as \<open>Linux_List\<close> justifies: putting an entry at the head is
  \<open>Cons\<close>, and unlinking an entry that is in no list is undefined. The objects of the routing
  library that a route points to are values, since no other route shares them.

  What the world outside answers is a parameter: \<open>env\<close> gives the clock and the return values
  of the calls, the \<open>n\<close>-th answer to the \<open>n\<close>-th call. Allocation succeeds, as the C code
  assumes. The calls with an effect outside are kept in \<open>w_out\<close>, the latest first.
\<close>

section \<open>Heap objects\<close>

datatype updated_cb = No_cb | Routing_table_cb

text \<open>A route object of libnl; \<open>nat\<close> handles stand for its address objects (0 is null).\<close>

record nl_route =
  nlr_oif :: u32
  nlr_dst :: nat
  nlr_gateway :: "nat option"

record msh_route =
  rt_dst_ip :: in_addr
  rt_prefix_sz :: u8
  rt_dest_seq_num :: u32
  rt_flags :: u16
  rt_hop_count :: u8
  rt_next_hop :: in_addr
  rt_net_iface :: u32
  rt_precursors :: "in_addr list"
  rt_updated_cb :: updated_cb
  rt_cb_data :: ptr
  rt_nlroute :: "nl_route option"
  rt_alarm_action :: u32

record rreq_fifo =
  rq_rreq_id :: u32
  rq_dst :: in_addr
  rq_prev_tries :: i8

record packets_fifo =
  pf_id :: u32
  pf_dest :: in_addr

section \<open>Statistics\<close>

record statistics_t =
  packets_dropped :: u32
  no_address_received :: u32
  no_payload_received :: u32
  no_ttl_received :: u32
  send_aodv_errors :: u32
  send_aodv_incomplete :: u32
  aodv_incorrect_type :: u32
  rreq_incorrect_size :: u32
  rrep_incorrect_size :: u32
  rerr_incorrect_size :: u32
  rrep_ack_incorrect_size :: u32
  rerr_dest_cont_zero :: u32
  error_aodv_recv :: u32
  error_nfq_recv :: u32
  error_unix_recv :: u32
  invalid_route :: u32

definition zero_stats :: statistics_t where
  "zero_stats = \<lparr>packets_dropped = 0, no_address_received = 0, no_payload_received = 0,
     no_ttl_received = 0, send_aodv_errors = 0, send_aodv_incomplete = 0, aodv_incorrect_type = 0,
     rreq_incorrect_size = 0, rrep_incorrect_size = 0, rerr_incorrect_size = 0,
     rrep_ack_incorrect_size = 0, rerr_dest_cont_zero = 0, error_aodv_recv = 0, error_nfq_recv = 0,
     error_unix_recv = 0, invalid_route = 0\<rparr>"

section \<open>The outside\<close>

datatype verdict = NF_DROP | NF_ACCEPT

text \<open>
  \<open>Sent addr port ttl payload\<close>: a datagram given to \<open>sendto\<close>, with the address and the port
  as they lie in the socket address (network byte order) and the hop limit set before.
\<close>

datatype event =
    Sent u32 u16 u8 "u8 list"
  | Route_add nl_route
  | Route_del nl_route
  | Verdict u32 verdict

record env =
  clock :: "nat \<Rightarrow> timeval"
  ret_sendto :: "nat \<Rightarrow> nat \<Rightarrow> int"
  ret_route_add :: "nat \<Rightarrow> int"
  ret_route_del :: "nat \<Rightarrow> int"
  nl_addr_parse :: "string \<Rightarrow> nat"

section \<open>The state\<close>

record world =
  w_end :: bool
  w_net_iface :: u32
  w_ip_addr :: in_addr
  w_broadcast_addr :: in_addr
  w_seq_num :: u32
  w_rreq_id :: u32
  w_num_rreq_sent :: u32
  w_stats :: statistics_t
  w_routes :: "ptr \<rightharpoonup> msh_route"
  w_table :: "ptr list"
  w_find_route :: ptr
  w_rreqs :: "ptr \<rightharpoonup> rreq_fifo"
  w_rreq_queue :: "ptr list"
  w_pkts :: "ptr \<rightharpoonup> packets_fifo"
  w_packets_queue :: "ptr list"
  w_alarms :: alarms
  w_live_pkts :: nat
  w_next_ptr :: ptr
  w_tick :: nat
  w_out :: "event list"

text \<open>The address of \<open>data.rreq_flush_alarm\<close>; heap objects lie above it.\<close>

definition FLUSH_ALARM :: ptr where
  "FLUSH_ALARM = 1"

section \<open>Elementary steps\<close>

definition gettimeofday :: "env \<Rightarrow> world \<Rightarrow> timeval \<times> world" where
  "gettimeofday E w = (clock E (w_tick w), w\<lparr>w_tick := Suc (w_tick w)\<rparr>)"

definition emit :: "event \<Rightarrow> world \<Rightarrow> world" where
  "emit e w = w\<lparr>w_out := e # w_out w, w_tick := Suc (w_tick w)\<rparr>"

definition upd_stats :: "(statistics_t \<Rightarrow> statistics_t) \<Rightarrow> world \<Rightarrow> world" where
  "upd_stats f w = w\<lparr>w_stats := f (w_stats w)\<rparr>"

definition upd_route :: "ptr \<Rightarrow> (msh_route \<Rightarrow> msh_route) \<Rightarrow> world \<Rightarrow> world option" where
  "upd_route p f w = (case w_routes w p of None \<Rightarrow> None
     | Some r \<Rightarrow> Some (w\<lparr>w_routes := (w_routes w)(p \<mapsto> f r)\<rparr>))"

definition upd_rreq :: "ptr \<Rightarrow> (rreq_fifo \<Rightarrow> rreq_fifo) \<Rightarrow> world \<Rightarrow> world option" where
  "upd_rreq p f w = (case w_rreqs w p of None \<Rightarrow> None
     | Some r \<Rightarrow> Some (w\<lparr>w_rreqs := (w_rreqs w)(p \<mapsto> f r)\<rparr>))"

definition on_alarms :: "(alarms \<Rightarrow> alarms option) \<Rightarrow> world \<Rightarrow> world option" where
  "on_alarms f w = do { A \<leftarrow> f (w_alarms w); Some (w\<lparr>w_alarms := A\<rparr>) }"

text \<open>\<open>add_alarm\<close> with the clock read inside it.\<close>

definition w_add_alarm :: "env \<Rightarrow> ptr \<Rightarrow> u64 \<Rightarrow> u64 \<Rightarrow> world \<Rightarrow> world option" where
  "w_add_alarm E p sc usc w = (case gettimeofday E w of (now, w) \<Rightarrow>
     on_alarms (add_alarm now p sc usc) w)"

text \<open>A zeroed alarm block comes with a new object, and goes with it.\<close>

definition new_block :: "ptr \<Rightarrow> world \<Rightarrow> world" where
  "new_block p w = w\<lparr>w_alarms := (w_alarms w)\<lparr>al_blocks := (al_blocks (w_alarms w))(p \<mapsto> zero_block)\<rparr>\<rparr>"

definition free_block :: "ptr \<Rightarrow> world \<Rightarrow> world" where
  "free_block p w = w\<lparr>w_alarms := (w_alarms w)\<lparr>al_blocks := (al_blocks (w_alarms w))(p := None)\<rparr>\<rparr>"

section \<open>Statistics operations\<close>

definition stats_init :: "world \<Rightarrow> world" where
  "stats_init w = upd_stats (\<lambda>_. zero_stats) w"

definition stats_reset :: "world \<Rightarrow> world" where
  "stats_reset w = upd_stats (\<lambda>_. zero_stats) w"

section \<open>Text of an address\<close>

fun nat_digits :: "nat \<Rightarrow> string" where
  "nat_digits n = (if n < 10 then [char_of (48 + n)] else nat_digits (n div 10) @ [char_of (48 + n mod 10)])"

definition inet_htoa :: "in_addr \<Rightarrow> string" where
  "inet_htoa addr =
     nat_digits (unat (byte_of 3 addr)) @ ''.'' @ nat_digits (unat (byte_of 2 addr)) @ ''.'' @
     nat_digits (unat (byte_of 1 addr)) @ ''.'' @ nat_digits (unat (byte_of 0 addr))"

definition in_addr2nl_addr :: "env \<Rightarrow> in_addr \<Rightarrow> u8 \<Rightarrow> nat" where
  "in_addr2nl_addr E addr prefix_sz =
     nl_addr_parse E (if prefix_sz > 0 then inet_htoa addr @ ''/'' @ nat_digits (unat prefix_sz)
                      else inet_htoa addr)"

section \<open>Well-formed states\<close>

text \<open>
  The lists hold distinct live objects; every object that has an alarm block is live and the
  block names it; addresses are never handed out twice.
\<close>

definition heap_ok :: "world \<Rightarrow> bool" where
  "heap_ok w \<longleftrightarrow>
     distinct (w_table w) \<and> set (w_table w) \<subseteq> dom (w_routes w) \<and>
     w_find_route w \<in> dom (w_routes w) \<and> w_find_route w \<notin> set (w_table w) \<and>
     distinct (w_rreq_queue w) \<and> set (w_rreq_queue w) = dom (w_rreqs w) \<and>
     distinct (w_packets_queue w) \<and> set (w_packets_queue w) = dom (w_pkts w) \<and>
     dom (w_routes w) \<inter> dom (w_rreqs w) = {} \<and>
     dom (w_routes w) \<union> dom (w_rreqs w) \<union> dom (w_pkts w) \<subseteq> {FLUSH_ALARM<..<w_next_ptr w} \<and>
     FLUSH_ALARM < w_next_ptr w"

definition blocks_ok :: "world \<Rightarrow> bool" where
  "blocks_ok w \<longleftrightarrow> alarms_ok (w_alarms w) \<and>
     dom (al_blocks (w_alarms w)) = insert FLUSH_ALARM (dom (w_routes w) \<union> dom (w_rreqs w)) \<and>
     (\<forall>p b. al_blocks (w_alarms w) p = Some b \<longrightarrow>
        (p \<in> dom (w_routes w) \<longrightarrow> al_data b = p \<and> al_function b = Route_alarm_fn) \<and>
        (p \<in> dom (w_rreqs w) \<longrightarrow> al_data b = p \<and> al_function b = Rreq_alarm_fn) \<and>
        (p = FLUSH_ALARM \<longrightarrow> al_function b = Flush_alarm_fn) \<and>
        (p = w_find_route w \<longrightarrow> \<not> al_linked b))"

text \<open>
  A route is linked into the table if and only if it has the table's callback; the routes of
  the table are host routes to pairwise different destinations; nothing is to be done when the
  alarm of the scratch route rings.
\<close>

definition table_ok :: "world \<Rightarrow> bool" where
  "table_ok w \<longleftrightarrow>
     (\<forall>p r. w_routes w p = Some r \<longrightarrow>
        (rt_updated_cb r = Routing_table_cb \<longleftrightarrow> p \<in> set (w_table w)) \<and> rt_prefix_sz r = 0) \<and>
     (\<forall>r. w_routes w (w_find_route w) = Some r \<longrightarrow> rt_alarm_action r = 0) \<and>
     inj_on (\<lambda>p. rt_dst_ip (the (w_routes w p))) (set (w_table w))"

text \<open>The tries of a pending request never exceed the configured retries.\<close>

definition rreqs_ok :: "world \<Rightarrow> bool" where
  "rreqs_ok w \<longleftrightarrow> (\<forall>p r. w_rreqs w p = Some r \<longrightarrow>
     -1 \<le> sint (rq_prev_tries r) \<and> sint (rq_prev_tries r) \<le> 2)"

definition world_ok :: "world \<Rightarrow> bool" where
  "world_ok w \<longleftrightarrow> heap_ok w \<and> blocks_ok w \<and> table_ok w \<and> rreqs_ok w"

lemma wfI: "heap_ok w \<Longrightarrow> blocks_ok w \<Longrightarrow> table_ok w \<Longrightarrow> rreqs_ok w \<Longrightarrow> world_ok w"
  by (simp add: world_ok_def)

lemma wfD: "world_ok w \<Longrightarrow> heap_ok w"
  "world_ok w \<Longrightarrow> blocks_ok w" "world_ok w \<Longrightarrow> table_ok w" "world_ok w \<Longrightarrow> rreqs_ok w"
  by (simp_all add: world_ok_def)

text \<open>The components of the state that \<open>world_ok\<close> is about.\<close>

lemma wf_cong:
  assumes "world_ok w" "w_routes w' = w_routes w" "w_table w' = w_table w" "w_find_route w' = w_find_route w"
    "w_rreqs w' = w_rreqs w" "w_rreq_queue w' = w_rreq_queue w" "w_pkts w' = w_pkts w"
    "w_packets_queue w' = w_packets_queue w" "w_alarms w' = w_alarms w" "w_next_ptr w' = w_next_ptr w"
  shows "world_ok w'"
  using assms by (simp add: world_ok_def heap_ok_def blocks_ok_def table_ok_def rreqs_ok_def)

lemma wf_harmless [simp]:
  "world_ok (w\<lparr>w_tick := t\<rparr>) = world_ok w" "world_ok (w\<lparr>w_out := es\<rparr>) = world_ok w" "world_ok (w\<lparr>w_stats := s\<rparr>) = world_ok w"
  "world_ok (w\<lparr>w_seq_num := n\<rparr>) = world_ok w" "world_ok (w\<lparr>w_rreq_id := n\<rparr>) = world_ok w"
  "world_ok (w\<lparr>w_num_rreq_sent := n\<rparr>) = world_ok w" "world_ok (w\<lparr>w_live_pkts := k\<rparr>) = world_ok w"
  "world_ok (w\<lparr>w_end := e\<rparr>) = world_ok w" "world_ok (w\<lparr>w_ip_addr := a\<rparr>) = world_ok w" "world_ok (w\<lparr>w_net_iface := n\<rparr>) = world_ok w"
  "world_ok (w\<lparr>w_broadcast_addr := a\<rparr>) = world_ok w"
  by (simp_all add: world_ok_def heap_ok_def blocks_ok_def table_ok_def rreqs_ok_def)

lemma wf_emit [simp]: "world_ok (emit e w) = world_ok w"
  by (simp add: emit_def)

lemma wf_upd_stats [simp]: "world_ok (upd_stats f w) = world_ok w"
  by (simp add: upd_stats_def)

text \<open>Changing the alarms of live objects, within a well-formed queue.\<close>

lemma wf_alarms:
  assumes "world_ok w" "alarms_ok A" "dom (al_blocks A) = dom (al_blocks (w_alarms w))"
    and "\<And>p b. al_blocks A p = Some b \<Longrightarrow> \<exists>b0. al_blocks (w_alarms w) p = Some b0 \<and>
           al_data b = al_data b0 \<and> al_function b = al_function b0 \<and> (p = w_find_route w \<longrightarrow> al_linked b \<longrightarrow> al_linked b0)"
  shows "world_ok (w\<lparr>w_alarms := A\<rparr>)"
proof -
  have "blocks_ok (w\<lparr>w_alarms := A\<rparr>)"
    using wfD(2) [OF assms(1)] assms(2-4) unfolding blocks_ok_def by fastforce
  then show ?thesis
    using assms(1) by (simp add: world_ok_def heap_ok_def table_ok_def rreqs_ok_def)
qed

lemma on_alarms_wf:
  assumes "world_ok w" "p \<in> dom (al_blocks (w_alarms w))"
    and "runs (f (w_alarms w)) (\<lambda>A. alarms_ok A \<and> al_blocks A = (al_blocks (w_alarms w))(p \<mapsto> b))"
    and "p \<noteq> w_find_route w" "al_data b = al_data (the (al_blocks (w_alarms w) p))"
      "al_function b = al_function (the (al_blocks (w_alarms w) p))"
  shows "runs (on_alarms f w) world_ok"
proof -
  obtain b0 where "al_blocks (w_alarms w) p = Some b0" using assms(2) by auto
  then show ?thesis
    using assms by (auto simp: on_alarms_def elim!: runs_mono intro!: wf_alarms split: if_splits)
qed

section \<open>Frames\<close>

text \<open>
  Steps between two states of a handler: the later state is well-formed, the table has only
  grown at its head, routes keep their destinations (the scratch route of the table apart),
  and the node's own addresses are as before.
\<close>

definition extends :: "world \<Rightarrow> world \<Rightarrow> bool" where
  "extends w w' \<longleftrightarrow> world_ok w' \<and> (\<exists>new. w_table w' = new @ w_table w) \<and>
     w_find_route w' = w_find_route w \<and>
     (\<forall>p r. w_routes w p = Some r \<longrightarrow> p \<noteq> w_find_route w \<longrightarrow>
        (\<exists>r'. w_routes w' p = Some r' \<and> rt_dst_ip r' = rt_dst_ip r)) \<and>
     w_ip_addr w' = w_ip_addr w \<and> w_broadcast_addr w' = w_broadcast_addr w"

definition same_rreqs :: "world \<Rightarrow> world \<Rightarrow> bool" where
  "same_rreqs w w' \<longleftrightarrow> w_rreqs w' = w_rreqs w \<and> w_rreq_queue w' = w_rreq_queue w"

definition same_pkts :: "world \<Rightarrow> world \<Rightarrow> bool" where
  "same_pkts w w' \<longleftrightarrow> w_pkts w' = w_pkts w \<and> w_packets_queue w' = w_packets_queue w"

definition same_self :: "world \<Rightarrow> world \<Rightarrow> bool" where
  "same_self w w' \<longleftrightarrow> w_seq_num w' = w_seq_num w \<and> w_rreq_id w' = w_rreq_id w \<and>
     w_num_rreq_sent w' = w_num_rreq_sent w \<and> w_live_pkts w' = w_live_pkts w \<and>
     w_end w' = w_end w \<and> w_net_iface w' = w_net_iface w"

definition same_out :: "world \<Rightarrow> world \<Rightarrow> bool" where
  "same_out w w' \<longleftrightarrow> w_out w' = w_out w \<and> w_stats w' = w_stats w \<and> same_self w w'"

lemmas same_defs = same_rreqs_def same_pkts_def same_out_def same_self_def

text \<open>A step on routes and alarms alone that calls off no alarm.\<close>

definition quiet :: "world \<Rightarrow> world \<Rightarrow> bool" where
  "quiet w w' \<longleftrightarrow> extends w w' \<and> same_rreqs w w' \<and> same_pkts w w' \<and> same_out w w' \<and>
     waiting (w_alarms w) \<subseteq> waiting (w_alarms w')"

lemma extends_refl: "world_ok w \<Longrightarrow> extends w w"
  by (simp add: extends_def)

lemma extends_wf: "extends w w' \<Longrightarrow> world_ok w'"
  by (simp add: extends_def)

lemma extends_trans:
  assumes "extends u v" "extends v w"
  shows "extends u w"
proof -
  have "\<exists>r''. w_routes w p = Some r'' \<and> rt_dst_ip r'' = rt_dst_ip r"
    if "w_routes u p = Some r" "p \<noteq> w_find_route u" for p r
    using that assms unfolding extends_def by metis
  moreover have "\<exists>new. w_table w = new @ w_table u"
    using assms unfolding extends_def by (metis append.assoc)
  ultimately show ?thesis using assms unfolding extends_def by metis
qed

lemma quiet_refl: "world_ok w \<Longrightarrow> quiet w w"
  by (simp add: quiet_def extends_refl same_defs)

lemma quiet_trans: "quiet u v \<Longrightarrow> quiet v w \<Longrightarrow> quiet u w"
  by (auto simp: quiet_def same_defs intro: extends_trans)

lemma quiet_extends: "quiet w w' \<Longrightarrow> extends w w'"
  by (simp add: quiet_def)

lemma quiet_wf: "quiet w w' \<Longrightarrow> world_ok w'"
  by (auto simp: quiet_def intro: extends_wf)

lemma extends_table: "extends w w' \<Longrightarrow> p \<in> set (w_table w) \<Longrightarrow> p \<in> set (w_table w')"
  by (auto simp: extends_def)

lemma extends_live:
  "extends w w' \<Longrightarrow> world_ok w \<Longrightarrow> p \<in> dom (w_routes w) \<Longrightarrow> p \<in> dom (w_routes w')"
proof -
  assume a: "extends w w'" "world_ok w" "p \<in> dom (w_routes w)"
  show ?thesis
  proof (cases "p = w_find_route w")
    case True
    then show ?thesis using a(1) by (auto simp: extends_def world_ok_def heap_ok_def)
  next
    case False
    then show ?thesis using a unfolding extends_def by blast
  qed
qed

section \<open>Rules for the elementary steps\<close>

lemma runs_upd_route [runs_rules]:
  "runs (upd_route p f w) Q \<longleftrightarrow> p \<in> dom (w_routes w) \<and>
     Q (w\<lparr>w_routes := (w_routes w)(p \<mapsto> f (the (w_routes w p)))\<rparr>)"
  by (auto simp: upd_route_def split: option.splits)

lemma upd_route_Some:
  "w_routes w p = Some r \<Longrightarrow> upd_route p f w = Some (w\<lparr>w_routes := (w_routes w)(p \<mapsto> f r)\<rparr>)"
  by (simp add: upd_route_def)

lemma wf_route_upd:
  assumes "world_ok w" "w_routes w p = Some r" "rt_updated_cb r' = rt_updated_cb r"
    and "rt_prefix_sz r' = rt_prefix_sz r" and "p \<in> set (w_table w) \<Longrightarrow> rt_dst_ip r' = rt_dst_ip r"
    and "p = w_find_route w \<Longrightarrow> rt_alarm_action r' = rt_alarm_action r"
  shows "world_ok (w\<lparr>w_routes := (w_routes w)(p \<mapsto> r')\<rparr>)"
proof (rule wfI)
  let ?w = "w\<lparr>w_routes := (w_routes w)(p \<mapsto> r')\<rparr>"
  have d: "dom (w_routes ?w) = dom (w_routes w)" using assms(2) by auto
  show "heap_ok ?w" using wfD(1) [OF assms(1)] d by (simp add: heap_ok_def)
  show "blocks_ok ?w" using wfD(2) [OF assms(1)] d by (simp add: blocks_ok_def)
  show "rreqs_ok ?w" using wfD(4) [OF assms(1)] by (simp add: rreqs_ok_def)
  have "inj_on (\<lambda>q. rt_dst_ip (the (w_routes ?w q))) (set (w_table w)) \<longleftrightarrow>
      inj_on (\<lambda>q. rt_dst_ip (the (w_routes w q))) (set (w_table w))"
    by (rule inj_on_cong) (use assms in auto)
  then show "table_ok ?w"
    using wfD(3) [OF assms(1)] assms(2-4,6) by (auto simp: table_ok_def)
qed

text \<open>Changing a route in ways that the table does not see is a quiet step.\<close>

lemma quiet_route_upd:
  assumes "world_ok w" "w_routes w p = Some r" "rt_updated_cb r' = rt_updated_cb r"
    and "rt_prefix_sz r' = rt_prefix_sz r" "p \<noteq> w_find_route w \<Longrightarrow> rt_dst_ip r' = rt_dst_ip r"
    and "p = w_find_route w \<Longrightarrow> rt_alarm_action r' = rt_alarm_action r"
  shows "quiet w (w\<lparr>w_routes := (w_routes w)(p \<mapsto> r')\<rparr>)"
proof -
  have "p \<in> set (w_table w) \<Longrightarrow> p \<noteq> w_find_route w" using assms(1) by (auto simp: world_ok_def heap_ok_def)
  then have "world_ok (w\<lparr>w_routes := (w_routes w)(p \<mapsto> r')\<rparr>)"
    using assms by (intro wf_route_upd) auto
  then show ?thesis
    using assms by (auto simp: quiet_def extends_def same_defs)
qed

lemma wf_dom_blocks:
  "world_ok w \<Longrightarrow> dom (al_blocks (w_alarms w)) = insert FLUSH_ALARM (dom (w_routes w) \<union> dom (w_rreqs w))"
  by (simp add: world_ok_def blocks_ok_def)

lemma wf_alarms_ok: "world_ok w \<Longrightarrow> alarms_ok (w_alarms w)"
  by (simp add: world_ok_def blocks_ok_def)

lemma next_ptr_fresh:
  assumes "world_ok w"
  shows "w_next_ptr w \<notin> dom (w_routes w)" "w_next_ptr w \<notin> dom (w_rreqs w)"
    "w_next_ptr w \<notin> dom (w_pkts w)" "w_next_ptr w \<noteq> FLUSH_ALARM" "FLUSH_ALARM < w_next_ptr w"
    "al_blocks (w_alarms w) (w_next_ptr w) = None" "w_next_ptr w \<notin> waiting (w_alarms w)"
    "w_next_ptr w \<notin> set (w_table w)" "w_next_ptr w \<notin> set (w_rreq_queue w)"
    "w_next_ptr w \<notin> set (w_packets_queue w)"
proof -
  have h: "heap_ok w" by (rule wfD(1) [OF assms])
  then show f: "w_next_ptr w \<notin> dom (w_routes w)" "w_next_ptr w \<notin> dom (w_rreqs w)"
    "w_next_ptr w \<notin> dom (w_pkts w)" "w_next_ptr w \<noteq> FLUSH_ALARM" "FLUSH_ALARM < w_next_ptr w"
    unfolding heap_ok_def by auto
  then have b: "w_next_ptr w \<notin> dom (al_blocks (w_alarms w))" using wf_dom_blocks [OF assms] by blast
  then show "al_blocks (w_alarms w) (w_next_ptr w) = None" by blast
  show "w_next_ptr w \<notin> waiting (w_alarms w)"
    using b alarms_ok_dom [OF wf_alarms_ok [OF assms]] by blast
  show "w_next_ptr w \<notin> set (w_table w)" "w_next_ptr w \<notin> set (w_rreq_queue w)"
    "w_next_ptr w \<notin> set (w_packets_queue w)"
    using h f unfolding heap_ok_def by blast+
qed

text \<open>Setting the alarm of a live object.\<close>

lemma w_add_alarm_ok:
  assumes "world_ok w" "p \<in> dom (al_blocks (w_alarms w))" "p \<noteq> w_find_route w"
  obtains A where "w_add_alarm E p sc usc w = Some (w\<lparr>w_tick := Suc (w_tick w), w_alarms := A\<rparr>)"
    and "world_ok (w\<lparr>w_tick := Suc (w_tick w), w_alarms := A\<rparr>)"
    and "waiting A = insert p (waiting (w_alarms w))"
    and "block_tv A p = timeradd \<lparr>tv_sec = sint sc, tv_usec = sint usc\<rparr> (clock E (w_tick w))"
    and "\<And>q. q \<noteq> p \<Longrightarrow> al_blocks A q = al_blocks (w_alarms w) q"
proof -
  let ?now = "clock E (w_tick w)"
  let ?b = "(the (al_blocks (w_alarms w) p))\<lparr>al_linked := True,
      al_tv := timeradd \<lparr>tv_sec = sint sc, tv_usec = sint usc\<rparr> ?now\<rparr>"
  obtain A where A: "add_alarm ?now p sc usc (w_alarms w) = Some A" "alarms_ok A"
    "waiting A = insert p (waiting (w_alarms w))" "al_blocks A = (al_blocks (w_alarms w))(p \<mapsto> ?b)"
    using add_alarm_ok [OF wf_alarms_ok [OF assms(1)] assms(2), of ?now sc usc] by (auto simp: runs_iff)
  have "world_ok (w\<lparr>w_alarms := A\<rparr>)"
    by (rule wf_alarms [OF assms(1) A(2)]) (use A(4) assms(2,3) in \<open>auto split: if_splits\<close>)
  then have world_ok': "world_ok (w\<lparr>w_tick := Suc (w_tick w), w_alarms := A\<rparr>)"
    by (rule wf_cong) simp_all
  have "block_tv A p = timeradd \<lparr>tv_sec = sint sc, tv_usec = sint usc\<rparr> ?now"
    using A(4) by (simp add: block_tv_def)
  moreover have "w_add_alarm E p sc usc w = Some (w\<lparr>w_tick := Suc (w_tick w), w_alarms := A\<rparr>)"
    using A(1) by (simp add: w_add_alarm_def gettimeofday_def on_alarms_def)
  ultimately show ?thesis
    using that world_ok' A(3,4) by auto
qed

lemma quiet_alarms:
  "world_ok (w\<lparr>w_tick := t, w_alarms := A\<rparr>) \<Longrightarrow> waiting (w_alarms w) \<subseteq> waiting A \<Longrightarrow>
    quiet w (w\<lparr>w_tick := t, w_alarms := A\<rparr>)"
  by (auto simp: quiet_def extends_def same_defs)

lemma quiet_tick: "world_ok w \<Longrightarrow> quiet w (w\<lparr>w_tick := t\<rparr>)"
  by (auto simp: quiet_def extends_def same_defs)

section \<open>A sample state\<close>

text \<open>
  A node with one route in its table (3), one route object outside it (4), an own request in
  its first try (5), one in its last (6), a foreign one (7), and two waiting packets (8, 9).
\<close>

definition sample_block :: "ptr \<Rightarrow> alarm_fn \<Rightarrow> bool \<Rightarrow> int \<Rightarrow> alarm_block" where
  "sample_block p f l s = \<lparr>al_linked = l, al_tv = \<lparr>tv_sec = s, tv_usec = 0\<rparr>, al_data = p, al_function = f\<rparr>"

definition sample_route :: "in_addr \<Rightarrow> updated_cb \<Rightarrow> u32 \<Rightarrow> msh_route" where
  "sample_route a cb act = \<lparr>rt_dst_ip = a, rt_prefix_sz = 0, rt_dest_seq_num = 0, rt_flags = 6, rt_hop_count = 0,
     rt_next_hop = a, rt_net_iface = 0, rt_precursors = [], rt_updated_cb = cb, rt_cb_data = 0,
     rt_nlroute = None, rt_alarm_action = act\<rparr>"

definition sample_world :: world where
  "sample_world = \<lparr>w_end = False, w_net_iface = 1, w_ip_addr = 0x0A000001, w_broadcast_addr = 0x0A0000FF,
     w_seq_num = 4, w_rreq_id = 2, w_num_rreq_sent = 2, w_stats = zero_stats,
     w_routes = [2 \<mapsto> sample_route 0 No_cb 0, 3 \<mapsto> sample_route 0x0A000002 Routing_table_cb 8,
                 4 \<mapsto> sample_route 0x0A000003 No_cb 0],
     w_table = [3], w_find_route = 2,
     w_rreqs = [5 \<mapsto> \<lparr>rq_rreq_id = 1, rq_dst = 0x0A000003, rq_prev_tries = 0\<rparr>,
                6 \<mapsto> \<lparr>rq_rreq_id = 2, rq_dst = 0x0A000009, rq_prev_tries = 2\<rparr>,
                7 \<mapsto> \<lparr>rq_rreq_id = 9, rq_dst = 0x0A000007, rq_prev_tries = -1\<rparr>],
     w_rreq_queue = [7, 6, 5],
     w_pkts = [8 \<mapsto> \<lparr>pf_id = 41, pf_dest = 0x0A000003\<rparr>, 9 \<mapsto> \<lparr>pf_id = 42, pf_dest = 0x0A000009\<rparr>],
     w_packets_queue = [9, 8],
     w_alarms = \<lparr>al_blocks = [1 \<mapsto> sample_block 0 Flush_alarm_fn False 0, 2 \<mapsto> sample_block 2 Route_alarm_fn False 0,
         3 \<mapsto> sample_block 3 Route_alarm_fn True 8, 4 \<mapsto> sample_block 4 Route_alarm_fn False 0,
         5 \<mapsto> sample_block 5 Rreq_alarm_fn True 5, 6 \<mapsto> sample_block 6 Rreq_alarm_fn True 9,
         7 \<mapsto> sample_block 7 Rreq_alarm_fn True 12],
       alarm_root = RbNode RB_BLACK (RbNode RB_BLACK Null 5 Null) 3
         (RbNode RB_BLACK Null 6 (RbNode RB_RED Null 7 Null))\<rparr>,
     w_live_pkts = 0, w_next_ptr = 10, w_tick = 0, w_out = []\<rparr>"

definition sample_env :: env where
  "sample_env = \<lparr>clock = (\<lambda>n. \<lparr>tv_sec = 20 + int n, tv_usec = 0\<rparr>), ret_sendto = (\<lambda>n k. int k),
     ret_route_add = (\<lambda>n. 0), ret_route_del = (\<lambda>n. 0), nl_addr_parse = length\<rparr>"

lemma sample_heap_ok: "heap_ok sample_world"
  by (auto simp: sample_world_def heap_ok_def FLUSH_ALARM_def)

lemma sample_blocks_ok: "blocks_ok sample_world"
proof -
  have "alarms_ok (w_alarms sample_world)"
    by (auto simp: sample_world_def alarms_ok_def red_black_def alarm_before_def block_tv_def
        timer_less_def sample_block_def)
  then show ?thesis
    by (auto simp: sample_world_def blocks_ok_def FLUSH_ALARM_def sample_block_def split: if_splits)
qed

lemma sample_world_ok: "world_ok sample_world"
proof (rule wfI [OF sample_heap_ok sample_blocks_ok])
  show "table_ok sample_world"
    by (auto simp: sample_world_def table_ok_def sample_route_def split: if_splits)
  show "rreqs_ok sample_world"
    by (auto simp: sample_world_def rreqs_ok_def split: if_splits)
qed

lemma sample_parts:
  "w_table sample_world = [3]" "w_find_route sample_world = 2" "w_packets_queue sample_world = [9, 8]"
  "w_tick sample_world = 0" "w_out sample_world = []" "w_ip_addr sample_world = 0x0A000001"
  "w_rreq_queue sample_world = [7, 6, 5]" "w_rreq_id sample_world = 2" "w_seq_num sample_world = 4"
  "w_broadcast_addr sample_world = 0x0A0000FF" "w_next_ptr sample_world = 10"
  "w_pkts sample_world = [8 \<mapsto> \<lparr>pf_id = 41, pf_dest = 0x0A000003\<rparr>, 9 \<mapsto> \<lparr>pf_id = 42, pf_dest = 0x0A000009\<rparr>]"
  "w_rreqs sample_world = [5 \<mapsto> \<lparr>rq_rreq_id = 1, rq_dst = 0x0A000003, rq_prev_tries = 0\<rparr>,
     6 \<mapsto> \<lparr>rq_rreq_id = 2, rq_dst = 0x0A000009, rq_prev_tries = 2\<rparr>,
     7 \<mapsto> \<lparr>rq_rreq_id = 9, rq_dst = 0x0A000007, rq_prev_tries = -1\<rparr>]"
  "w_routes sample_world = [2 \<mapsto> sample_route 0 No_cb 0, 3 \<mapsto> sample_route 0x0A000002 Routing_table_cb 8,
     4 \<mapsto> sample_route 0x0A000003 No_cb 0]"
  by (simp_all add: sample_world_def)

lemma sample_answers [simp]:
  "clock sample_env n = \<lparr>tv_sec = 20 + int n, tv_usec = 0\<rparr>" "ret_route_add sample_env n = 0"
  "ret_sendto sample_env n k = int k"
  by (simp_all add: sample_env_def)

end
