(* ===== verification/Msh_Route.thy ===== *)
theory Msh_Route
  imports World
begin

unbundle bit_operations_syntax

text \<open>
  The route objects of \<open>libmeshias/msh_route.c\<close>. A route is allocated with its alarm, flagged,
  compared, kept alive by \<open>msh_route_set_lifetime\<close> and destroyed by its alarm callback. The one
  callback that listens to a route's changes, \<open>__routing_table_route_updated_cb\<close> of
  \<open>meshias_daemon/routing_table.c\<close>, is here too, because destroying a route calls it.
\<close>

section \<open>Flags\<close>

definition RTFLAG_VALID_DEST_SEQ_NUM :: u16 where "RTFLAG_VALID_DEST_SEQ_NUM = 0x0001"

definition RTFLAG_VALID_ENTRY :: u16 where "RTFLAG_VALID_ENTRY = 0x0002"

definition RTFLAG_HAS_NEXTHOP :: u16 where "RTFLAG_HAS_NEXTHOP = 0x0004"

definition RTFLAG_UNMANAGED :: u16 where "RTFLAG_UNMANAGED = 0x0008"

definition RTATTR_DST_IP :: u32 where "RTATTR_DST_IP = 0x0001"

definition RTATTR_NEXTHOP_IP :: u32 where "RTATTR_NEXTHOP_IP = 0x0002"

definition RTATTR_PREFIX_SZ :: u32 where "RTATTR_PREFIX_SZ = 0x0004"

definition RTATTR_DEST_SEQ_NUM :: u32 where "RTATTR_DEST_SEQ_NUM = 0x0008"

definition RTATTR_FLAGS :: u32 where "RTATTR_FLAGS = 0x0010"

definition RTATTR_HOP_COUNT :: u32 where "RTATTR_HOP_COUNT = 0x0020"

definition RTATTR_NET_IFACE :: u32 where "RTATTR_NET_IFACE = 0x0080"

definition RTATTR_LIFETIME :: u32 where "RTATTR_LIFETIME = 0x0100"

definition RTATTR_UPDATED_CB :: u32 where "RTATTR_UPDATED_CB = 0x0200"

definition RTATTR_CB_DATA :: u32 where "RTATTR_CB_DATA = 0x0400"

definition RTFIND_BY_DEST_LONGEST_PREFIX_MATCHING :: u32 where
  "RTFIND_BY_DEST_LONGEST_PREFIX_MATCHING = 0x1000"

definition RTACTION_UNSET_VALID_ENTRY :: u32 where "RTACTION_UNSET_VALID_ENTRY = 0x0008"

definition RTACTION_DESTROY :: u32 where "RTACTION_DESTROY = 0x0010"

definition RTACTION_CHANGE_NEXTHOP_IP :: u32 where "RTACTION_CHANGE_NEXTHOP_IP = 0x0020"

lemmas rt_consts = RTFLAG_VALID_DEST_SEQ_NUM_def RTFLAG_VALID_ENTRY_def RTFLAG_HAS_NEXTHOP_def
  RTFLAG_UNMANAGED_def RTATTR_DST_IP_def RTATTR_NEXTHOP_IP_def RTATTR_PREFIX_SZ_def
  RTATTR_DEST_SEQ_NUM_def RTATTR_FLAGS_def RTATTR_HOP_COUNT_def RTATTR_NET_IFACE_def
  RTATTR_LIFETIME_def RTATTR_UPDATED_CB_def RTATTR_CB_DATA_def
  RTFIND_BY_DEST_LONGEST_PREFIX_MATCHING_def RTACTION_UNSET_VALID_ENTRY_def RTACTION_DESTROY_def
  RTACTION_CHANGE_NEXTHOP_IP_def

definition set_flag :: "u16 \<Rightarrow> u16 \<Rightarrow> u16" where
  "set_flag flags flag =
     (if flag = RTFLAG_VALID_DEST_SEQ_NUM then flags OR RTFLAG_VALID_DEST_SEQ_NUM
      else if flag = RTFLAG_VALID_ENTRY then flags OR RTFLAG_VALID_ENTRY
      else if flag = RTFLAG_HAS_NEXTHOP then flags OR RTFLAG_HAS_NEXTHOP
      else if flag = RTFLAG_UNMANAGED then flags OR RTFLAG_UNMANAGED
      else flags)"

definition unset_flag :: "u16 \<Rightarrow> u16 \<Rightarrow> u16" where
  "unset_flag flags flag =
     (if flag = RTFLAG_VALID_DEST_SEQ_NUM then flags AND NOT RTFLAG_VALID_DEST_SEQ_NUM
      else if flag = RTFLAG_VALID_ENTRY then flags AND NOT RTFLAG_VALID_ENTRY
      else if flag = RTFLAG_HAS_NEXTHOP then flags AND NOT RTFLAG_HAS_NEXTHOP
      else if flag = RTFLAG_UNMANAGED then flags AND NOT RTFLAG_UNMANAGED
      else flags)"

section \<open>Setters and getters\<close>

definition msh_route_set_dst_ip :: "ptr \<Rightarrow> in_addr \<Rightarrow> world \<Rightarrow> world option" where
  "msh_route_set_dst_ip route dst_ip = upd_route route (\<lambda>r. r\<lparr>rt_dst_ip := dst_ip\<rparr>)"

definition msh_route_get_dst_ip :: "ptr \<Rightarrow> world \<Rightarrow> in_addr option" where
  "msh_route_get_dst_ip route w = map_option rt_dst_ip (w_routes w route)"

definition msh_route_set_prefix_sz :: "ptr \<Rightarrow> u8 \<Rightarrow> world \<Rightarrow> world option" where
  "msh_route_set_prefix_sz route prefix_sz = upd_route route (\<lambda>r. r\<lparr>rt_prefix_sz := prefix_sz\<rparr>)"

definition msh_route_get_prefix_sz :: "ptr \<Rightarrow> world \<Rightarrow> u8 option" where
  "msh_route_get_prefix_sz route w = map_option rt_prefix_sz (w_routes w route)"

definition msh_route_set_flag :: "ptr \<Rightarrow> u16 \<Rightarrow> world \<Rightarrow> world option" where
  "msh_route_set_flag route flag = upd_route route (\<lambda>r. r\<lparr>rt_flags := set_flag (rt_flags r) flag\<rparr>)"

definition msh_route_unset_flag :: "ptr \<Rightarrow> u16 \<Rightarrow> world \<Rightarrow> world option" where
  "msh_route_unset_flag route flag = upd_route route (\<lambda>r. r\<lparr>rt_flags := unset_flag (rt_flags r) flag\<rparr>)"

definition msh_route_get_flags :: "ptr \<Rightarrow> world \<Rightarrow> u16 option" where
  "msh_route_get_flags route w = map_option rt_flags (w_routes w route)"

definition msh_route_set_hop_count :: "ptr \<Rightarrow> u8 \<Rightarrow> world \<Rightarrow> world option" where
  "msh_route_set_hop_count route hop_count = upd_route route (\<lambda>r. r\<lparr>rt_hop_count := hop_count\<rparr>)"

definition msh_route_get_hop_count :: "ptr \<Rightarrow> world \<Rightarrow> u8 option" where
  "msh_route_get_hop_count route w = map_option rt_hop_count (w_routes w route)"

definition msh_route_get_next_hop :: "ptr \<Rightarrow> world \<Rightarrow> in_addr option" where
  "msh_route_get_next_hop route w = map_option rt_next_hop (w_routes w route)"

definition msh_route_set_net_iface :: "ptr \<Rightarrow> u32 \<Rightarrow> world \<Rightarrow> world option" where
  "msh_route_set_net_iface route net_iface = upd_route route (\<lambda>r. r\<lparr>rt_net_iface := net_iface\<rparr>)"

definition msh_route_get_net_iface :: "ptr \<Rightarrow> world \<Rightarrow> u32 option" where
  "msh_route_get_net_iface route w = map_option rt_net_iface (w_routes w route)"

definition msh_route_set_dest_seq_num :: "ptr \<Rightarrow> u32 \<Rightarrow> world \<Rightarrow> world option" where
  "msh_route_set_dest_seq_num route n = upd_route route (\<lambda>r. r\<lparr>rt_dest_seq_num := n\<rparr>)"

definition msh_route_get_dest_seq_num :: "ptr \<Rightarrow> world \<Rightarrow> u32 option" where
  "msh_route_get_dest_seq_num route w = map_option rt_dest_seq_num (w_routes w route)"

definition msh_route_set_rtnl_route :: "ptr \<Rightarrow> nl_route option \<Rightarrow> world \<Rightarrow> world option" where
  "msh_route_set_rtnl_route route nlroute = upd_route route (\<lambda>r. r\<lparr>rt_nlroute := nlroute\<rparr>)"

definition msh_route_get_rtnl_route :: "ptr \<Rightarrow> world \<Rightarrow> nl_route option option" where
  "msh_route_get_rtnl_route route w = map_option rt_nlroute (w_routes w route)"

definition msh_route_set_updated_callback :: "ptr \<Rightarrow> updated_cb \<Rightarrow> ptr \<Rightarrow> world \<Rightarrow> world option" where
  "msh_route_set_updated_callback route cb data =
     upd_route route (\<lambda>r. r\<lparr>rt_updated_cb := cb, rt_cb_data := data\<rparr>)"

definition msh_route_get_updated_callback_data :: "ptr \<Rightarrow> world \<Rightarrow> ptr option" where
  "msh_route_get_updated_callback_data route w = map_option rt_cb_data (w_routes w route)"

definition msh_route_get_updated_callback :: "ptr \<Rightarrow> world \<Rightarrow> updated_cb option" where
  "msh_route_get_updated_callback route w = map_option rt_updated_cb (w_routes w route)"

section \<open>Precursors\<close>

definition msh_route_add_precursor :: "ptr \<Rightarrow> in_addr \<Rightarrow> world \<Rightarrow> world option" where
  "msh_route_add_precursor route dst_ip w = do {
     r \<leftarrow> w_routes w route;
     if dst_ip \<in> set (rt_precursors r) then Some w
     else upd_route route (\<lambda>r. r\<lparr>rt_precursors := dst_ip # rt_precursors r\<rparr>) w }"

definition msh_route_del_precursor :: "ptr \<Rightarrow> in_addr \<Rightarrow> world \<Rightarrow> world option" where
  "msh_route_del_precursor route dst_ip =
     upd_route route (\<lambda>r. r\<lparr>rt_precursors := remove1 dst_ip (rt_precursors r)\<rparr>)"

text \<open>The callback is given the route, a precursor and the client's data.\<close>

definition msh_route_foreach_precursor ::
  "ptr \<Rightarrow> (ptr \<Rightarrow> in_addr \<Rightarrow> 'd \<Rightarrow> 'd option) \<Rightarrow> 'd \<Rightarrow> world \<Rightarrow> 'd option" where
  "msh_route_foreach_precursor route callback data w = do {
     r \<leftarrow> w_routes w route;
     fold_steps (callback route) (rt_precursors r) data }"

section \<open>Comparison\<close>

text \<open>
  \<open>diff\<close> is or-ed together attribute by attribute; the prefix shift is undefined for 32 and more.
  The times of the alarms are attributes of the route.
\<close>

definition msh_route_compare ::
  "msh_route \<Rightarrow> timeval \<Rightarrow> msh_route \<Rightarrow> timeval \<Rightarrow> u32 \<Rightarrow> bool option" where
  "msh_route_compare first tv1 second tv2 attr_flags =
     defined_if (attr_flags AND RTFIND_BY_DEST_LONGEST_PREFIX_MATCHING = 0 \<or> unat (rt_prefix_sz second) < 32)
      (let mask = push_bit (unat (rt_prefix_sz second)) (- 1 :: u32);
           asked = (\<lambda>attr. attr_flags AND attr \<noteq> 0) in
       Some (
         asked RTFIND_BY_DEST_LONGEST_PREFIX_MATCHING \<and>
           rt_dst_ip first AND mask \<noteq> rt_dst_ip second AND mask \<or>
         asked RTATTR_DST_IP \<and> rt_dst_ip first \<noteq> rt_dst_ip second \<or>
         asked RTATTR_PREFIX_SZ \<and> rt_prefix_sz first \<noteq> rt_prefix_sz second \<or>
         asked RTATTR_DEST_SEQ_NUM \<and> rt_dest_seq_num first \<noteq> rt_dest_seq_num second \<or>
         asked RTATTR_FLAGS \<and> rt_flags first \<noteq> rt_flags second \<or>
         asked RTATTR_HOP_COUNT \<and> rt_hop_count first \<noteq> rt_hop_count second \<or>
         asked RTATTR_NEXTHOP_IP \<and> rt_next_hop first \<noteq> rt_next_hop second \<or>
         asked RTATTR_NET_IFACE \<and> rt_net_iface first \<noteq> rt_net_iface second \<or>
         asked RTATTR_LIFETIME \<and> tv1 \<noteq> tv2 \<or>
         asked RTATTR_UPDATED_CB \<and> rt_updated_cb first \<noteq> rt_updated_cb second \<or>
         asked RTATTR_CB_DATA \<and> rt_cb_data first \<noteq> rt_cb_data second))"

text \<open>
  The comparison of the routes at two addresses; the result is \<open>diff != 0\<close>. Both are read for each
  attribute that is asked for, and neither when none is.
\<close>

definition compared_attrs :: u32 where
  "compared_attrs = RTFIND_BY_DEST_LONGEST_PREFIX_MATCHING OR RTATTR_DST_IP OR RTATTR_PREFIX_SZ OR
     RTATTR_DEST_SEQ_NUM OR RTATTR_FLAGS OR RTATTR_HOP_COUNT OR RTATTR_NEXTHOP_IP OR RTATTR_NET_IFACE OR
     RTATTR_LIFETIME OR RTATTR_UPDATED_CB OR RTATTR_CB_DATA"

definition compare_routes :: "ptr \<Rightarrow> ptr \<Rightarrow> u32 \<Rightarrow> world \<Rightarrow> bool option" where
  "compare_routes first second attr_flags w =
     (if attr_flags AND compared_attrs = 0 then Some False
      else do {
        r1 \<leftarrow> w_routes w first;
        r2 \<leftarrow> w_routes w second;
        msh_route_compare r1 (block_tv (w_alarms w) first) r2 (block_tv (w_alarms w) second) attr_flags })"

section \<open>Life of a route\<close>

definition zero_route :: msh_route where
  "zero_route = \<lparr>rt_dst_ip = 0, rt_prefix_sz = 0, rt_dest_seq_num = 0, rt_flags = 0, rt_hop_count = 0,
     rt_next_hop = 0, rt_net_iface = 0, rt_precursors = [], rt_updated_cb = No_cb, rt_cb_data = 0,
     rt_nlroute = None, rt_alarm_action = 0\<rparr>"

definition msh_route_alloc :: "world \<Rightarrow> (ptr \<times> world) option" where
  "msh_route_alloc w = do {
     let p = w_next_ptr w;
     let w = new_block p (w\<lparr>w_next_ptr := Suc p, w_routes := (w_routes w)(p \<mapsto> zero_route)\<rparr>);
     w \<leftarrow> on_alarms (init_alarm p p Route_alarm_fn) w;
     Some (p, w) }"

text \<open>Unlinking a route from the table; the links of a route that is in no list are null or poisoned.\<close>

definition table_list_del :: "ptr \<Rightarrow> world \<Rightarrow> world option" where
  "table_list_del p w = defined_if (p \<in> set (w_table w)) (Some (w\<lparr>w_table := remove1 p (w_table w)\<rparr>))"

text \<open>The return value of \<open>rtnl_route_del\<close> is only reported.\<close>

definition routing_table_route_updated_cb :: "env \<Rightarrow> ptr \<Rightarrow> u32 \<Rightarrow> world \<Rightarrow> world option" where
  "routing_table_route_updated_cb E route change_flag w =
     (if change_flag AND RTACTION_DESTROY \<noteq> 0 then do {
        w \<leftarrow> table_list_del route w;
        nlroute \<leftarrow> msh_route_get_rtnl_route route w;
        w \<leftarrow> msh_route_set_rtnl_route route None w;
        case nlroute of
          None \<Rightarrow> Some w
        | Some nl \<Rightarrow> Some (emit (Route_del nl) w) }
      else if change_flag AND RTACTION_CHANGE_NEXTHOP_IP \<noteq> 0 then do {
        nlroute \<leftarrow> msh_route_get_rtnl_route route w;
        case nlroute of
          None \<Rightarrow> Some w
        | Some nl \<Rightarrow> do {
            dst_len \<leftarrow> msh_route_get_prefix_sz route w;
            next_hop \<leftarrow> msh_route_get_next_hop route w;
            flags \<leftarrow> msh_route_get_flags route w;
            if flags AND RTFLAG_HAS_NEXTHOP \<noteq> 0 then
              msh_route_set_rtnl_route route
                (Some (nl\<lparr>nlr_gateway := Some (in_addr2nl_addr E next_hop dst_len)\<rparr>)) w
            else Some w } }
      else Some w)"

definition msh_route_updated :: "env \<Rightarrow> ptr \<Rightarrow> u32 \<Rightarrow> world \<Rightarrow> world option" where
  "msh_route_updated E route change_flag w = do {
     cb \<leftarrow> msh_route_get_updated_callback route w;
     case cb of
       No_cb \<Rightarrow> Some w
     | Routing_table_cb \<Rightarrow> routing_table_route_updated_cb E route change_flag w }"

text \<open>The precursors are freed one after another; the route and its alarm block go last.\<close>

definition msh_route_destroy :: "env \<Rightarrow> ptr \<Rightarrow> world \<Rightarrow> world option" where
  "msh_route_destroy E route w = do {
     w \<leftarrow> msh_route_updated E route RTACTION_DESTROY w;
     w \<leftarrow> on_alarms (del_alarm route) w;
     w \<leftarrow> upd_route route (\<lambda>r. r\<lparr>rt_precursors := []\<rparr>) w;
     Some (free_block route (w\<lparr>w_routes := (w_routes w)(route := None)\<rparr>)) }"

definition msh_route_set_next_hop :: "env \<Rightarrow> ptr \<Rightarrow> in_addr \<Rightarrow> world \<Rightarrow> world option" where
  "msh_route_set_next_hop E route next_hop w = do {
     w \<leftarrow> msh_route_set_flag route RTFLAG_HAS_NEXTHOP w;
     w \<leftarrow> upd_route route (\<lambda>r. r\<lparr>rt_next_hop := next_hop\<rparr>) w;
     msh_route_updated E route RTACTION_CHANGE_NEXTHOP_IP w }"

definition msh_route_set_lifetime :: "env \<Rightarrow> ptr \<Rightarrow> u32 \<Rightarrow> world \<Rightarrow> world option" where
  "msh_route_set_lifetime E route lifetime w = do {
     flags \<leftarrow> msh_route_get_flags route w;
     if flags AND RTFLAG_UNMANAGED \<noteq> 0 then Some w
     else do {
       w \<leftarrow> msh_route_set_flag route RTFLAG_VALID_ENTRY w;
       w \<leftarrow> upd_route route (\<lambda>r. r\<lparr>rt_alarm_action := RTACTION_UNSET_VALID_ENTRY\<rparr>) w;
       let (sc, usc) = set_alarm_time lifetime;
       w_add_alarm E route sc usc w } }"

definition msh_route_get_lifetime :: "env \<Rightarrow> ptr \<Rightarrow> world \<Rightarrow> (u32 \<times> world) option" where
  "msh_route_get_lifetime E route w = do {
     let (now, w) = gettimeofday E w;
     flags \<leftarrow> msh_route_get_flags route w;
     let tv = block_tv (w_alarms w) route;
     if flags AND RTFLAG_VALID_ENTRY = 0 \<or> \<not> timer_less now tv then Some (0, w)
     else Some (tv_ms (timersub now tv), w) }"

definition msh_route_alarm_cb :: "env \<Rightarrow> ptr \<Rightarrow> ptr \<Rightarrow> world \<Rightarrow> world option" where
  "msh_route_alarm_cb E alarm route w = do {
     r \<leftarrow> w_routes w route;
     if rt_alarm_action r = RTACTION_UNSET_VALID_ENTRY then do {
       w \<leftarrow> msh_route_unset_flag route RTFLAG_VALID_ENTRY w;
       w \<leftarrow> upd_route route (\<lambda>r. r\<lparr>rt_alarm_action := RTACTION_DESTROY\<rparr>) w;
       let (sc, usc) = set_alarm_time DELETE_PERIOD;
       w_add_alarm E alarm sc usc w }
     else if rt_alarm_action r = RTACTION_DESTROY then msh_route_destroy E route w
     else Some w }"

section \<open>Flags behave as bits\<close>

definition rt_flag :: "u16 \<Rightarrow> bool" where
  "rt_flag f \<longleftrightarrow> f \<in> {RTFLAG_VALID_DEST_SEQ_NUM, RTFLAG_VALID_ENTRY, RTFLAG_HAS_NEXTHOP, RTFLAG_UNMANAGED}"

lemma rt_flags_known [simp]:
  "rt_flag RTFLAG_VALID_DEST_SEQ_NUM" "rt_flag RTFLAG_VALID_ENTRY" "rt_flag RTFLAG_HAS_NEXTHOP"
  "rt_flag RTFLAG_UNMANAGED"
  by (simp_all add: rt_flag_def)

lemma rt_flag_disjoint: "rt_flag f \<Longrightarrow> rt_flag g \<Longrightarrow> f \<noteq> g \<Longrightarrow> f AND g = 0"
  by (auto simp: rt_flag_def rt_consts)

lemma rt_flag_nonzero: "rt_flag f \<Longrightarrow> f \<noteq> 0"
  by (auto simp: rt_flag_def rt_consts)

lemma set_flag_OR: "rt_flag f \<Longrightarrow> set_flag flags f = flags OR f"
  by (auto simp: rt_flag_def set_flag_def)

lemma unset_flag_AND_NOT: "rt_flag f \<Longrightarrow> unset_flag flags f = flags AND NOT f"
  unfolding rt_flag_def unset_flag_def by (simp only: insert_iff empty_iff) auto

lemma set_flag_has [simp]: "rt_flag f \<Longrightarrow> set_flag flags f AND f \<noteq> 0"
  using rt_flag_nonzero [of f] by (simp add: set_flag_OR word_flag_set)

lemma unset_flag_hasnt [simp]: "rt_flag f \<Longrightarrow> unset_flag flags f AND f = 0"
  by (simp only: unset_flag_AND_NOT word_flag_unset)

lemma set_flag_other:
  "rt_flag f \<Longrightarrow> rt_flag g \<Longrightarrow> f \<noteq> g \<Longrightarrow> set_flag flags f AND g = flags AND g"
  by (simp add: set_flag_OR rt_flag_disjoint word_flag_set_other)

lemma unset_flag_other:
  "rt_flag f \<Longrightarrow> rt_flag g \<Longrightarrow> f \<noteq> g \<Longrightarrow> unset_flag flags f AND g = flags AND g"
  by (metis unset_flag_AND_NOT word_flag_unset_other rt_flag_disjoint)

lemma rt_flags_differ [simp]:
  "RTFLAG_VALID_ENTRY \<noteq> RTFLAG_UNMANAGED" "RTFLAG_HAS_NEXTHOP \<noteq> RTFLAG_UNMANAGED"
  "RTFLAG_VALID_DEST_SEQ_NUM \<noteq> RTFLAG_UNMANAGED" "RTFLAG_VALID_ENTRY \<noteq> RTFLAG_VALID_DEST_SEQ_NUM"
  "RTFLAG_HAS_NEXTHOP \<noteq> RTFLAG_VALID_ENTRY" "RTFLAG_HAS_NEXTHOP \<noteq> RTFLAG_VALID_DEST_SEQ_NUM"
  by (simp_all add: rt_consts)

section \<open>Comparison by destination\<close>

lemma compare_longest_prefix:
  assumes "unat (rt_prefix_sz r2) < 32"
  shows "msh_route_compare r1 t1 r2 t2 RTFIND_BY_DEST_LONGEST_PREFIX_MATCHING =
    Some (rt_dst_ip r1 AND push_bit (unat (rt_prefix_sz r2)) (- 1) \<noteq>
          rt_dst_ip r2 AND push_bit (unat (rt_prefix_sz r2)) (- 1))"
  using assms by (simp add: msh_route_compare_def rt_consts Let_def)

lemma compare_host_route:
  "rt_prefix_sz r2 = 0 \<Longrightarrow>
    msh_route_compare r1 t1 r2 t2 RTFIND_BY_DEST_LONGEST_PREFIX_MATCHING =
    Some (rt_dst_ip r1 \<noteq> rt_dst_ip r2)"
  by (simp add: compare_longest_prefix)

lemma wf_prefix: "world_ok w \<Longrightarrow> w_routes w p = Some r \<Longrightarrow> rt_prefix_sz r = 0"
  by (simp add: world_ok_def table_ok_def)

lemma compare_routes_host:
  assumes "world_ok w" "w_routes w p = Some r" "w_routes w q = Some s"
  shows "compare_routes p q RTFIND_BY_DEST_LONGEST_PREFIX_MATCHING w =
    Some (rt_dst_ip r \<noteq> rt_dst_ip s)"
proof -
  have "RTFIND_BY_DEST_LONGEST_PREFIX_MATCHING AND compared_attrs \<noteq> 0" by (simp add: compared_attrs_def rt_consts)
  then show ?thesis using assms wf_prefix [OF assms(1,3)] by (simp add: compare_routes_def compare_host_route)
qed

section \<open>Allocation and destruction\<close>

lemma fresh_route_wf:
  assumes "world_ok w" "p = w_next_ptr w"
    and A: "alarms_ok A" "al_blocks A = (al_blocks (w_alarms w))
      (p \<mapsto> \<lparr>al_linked = False, al_tv = zero_tv, al_data = p, al_function = Route_alarm_fn\<rparr>)"
  shows "world_ok (w\<lparr>w_next_ptr := Suc p, w_routes := (w_routes w)(p \<mapsto> zero_route), w_alarms := A\<rparr>)"
proof -
  have p: "p \<notin> dom (w_routes w)" "p \<notin> dom (w_rreqs w)" "p \<noteq> FLUSH_ALARM"
    "p \<notin> set (w_table w)" "FLUSH_ALARM < p"
    using next_ptr_fresh [OF assms(1)] by (simp_all add: assms(2))
  let ?w = "w\<lparr>w_next_ptr := Suc p, w_routes := (w_routes w)(p \<mapsto> zero_route), w_alarms := A\<rparr>"
  have "heap_ok ?w"
    using wfD(1) [OF assms(1)] p assms(2) unfolding heap_ok_def by auto
  moreover have "blocks_ok ?w"
    using wfD(2) [OF assms(1)] A p unfolding blocks_ok_def by auto
  moreover have "inj_on (\<lambda>q. rt_dst_ip (the (w_routes ?w q))) (set (w_table w)) \<longleftrightarrow>
      inj_on (\<lambda>q. rt_dst_ip (the (w_routes w q))) (set (w_table w))"
    by (rule inj_on_cong) (use p in auto)
  then have "table_ok ?w"
    using wfD(3) [OF assms(1)] p by (auto simp: table_ok_def zero_route_def)
  moreover have "rreqs_ok ?w" using wfD(4) [OF assms(1)] by (simp add: rreqs_ok_def)
  ultimately show ?thesis by (rule wfI)
qed

lemma msh_route_alloc_ok:
  assumes "world_ok w"
  obtains w' where "msh_route_alloc w = Some (w_next_ptr w, w')" "quiet w w'"
    and "w_routes w' = (w_routes w)(w_next_ptr w \<mapsto> zero_route)" "w_table w' = w_table w"
    and "w_next_ptr w \<notin> dom (w_routes w)" "w_next_ptr w' = Suc (w_next_ptr w)"
    and "waiting (w_alarms w') = waiting (w_alarms w)" "w_tick w' = w_tick w"
proof -
  let ?p = "w_next_ptr w"
  note fresh = next_ptr_fresh(1,6) [OF assms]
  obtain A where A: "init_alarm ?p ?p Route_alarm_fn
        ((w_alarms w)\<lparr>al_blocks := (al_blocks (w_alarms w))(?p \<mapsto> zero_block)\<rparr>) = Some A"
    "alarms_ok A" "waiting A = waiting (w_alarms w)" "al_blocks A = (al_blocks (w_alarms w))
      (?p \<mapsto> \<lparr>al_linked = False, al_tv = zero_tv, al_data = ?p, al_function = Route_alarm_fn\<rparr>)"
    using init_fresh_alarm_ok [OF wf_alarms_ok [OF assms] fresh(2), of ?p Route_alarm_fn]
    by (auto simp: runs_iff)
  let ?w = "w\<lparr>w_next_ptr := Suc ?p, w_routes := (w_routes w)(?p \<mapsto> zero_route), w_alarms := A\<rparr>"
  have "world_ok ?w" by (rule fresh_route_wf [OF assms refl A(2,4)])
  then have "quiet w ?w"
    using fresh(1) A(3) by (auto simp: quiet_def extends_def same_defs)
  moreover have "msh_route_alloc w = Some (?p, ?w)"
    using A(1) by (simp add: msh_route_alloc_def new_block_def on_alarms_def Let_def)
  ultimately show ?thesis using that fresh(1) A(3) by simp
qed

section \<open>Lifetime\<close>

text \<open>
  What setting the lifetime of a managed route does: the entry becomes valid and its alarm is
  set; no other route changes.
\<close>

definition renewed :: "msh_route \<Rightarrow> msh_route" where
  "renewed r = (if rt_flags r AND RTFLAG_UNMANAGED \<noteq> 0 then r
     else r\<lparr>rt_flags := set_flag (rt_flags r) RTFLAG_VALID_ENTRY,
            rt_alarm_action := RTACTION_UNSET_VALID_ENTRY\<rparr>)"

lemma renewed_keeps [simp]:
  "rt_dst_ip (renewed r) = rt_dst_ip r" "rt_prefix_sz (renewed r) = rt_prefix_sz r"
  "rt_next_hop (renewed r) = rt_next_hop r" "rt_dest_seq_num (renewed r) = rt_dest_seq_num r"
  "rt_hop_count (renewed r) = rt_hop_count r" "rt_updated_cb (renewed r) = rt_updated_cb r"
  "rt_nlroute (renewed r) = rt_nlroute r" "rt_precursors (renewed r) = rt_precursors r"
  by (simp_all add: renewed_def)

lemma msh_route_set_lifetime_ok:
  assumes "world_ok w" "w_routes w p = Some r" "p \<noteq> w_find_route w"
  shows "runs (msh_route_set_lifetime E p l w) (\<lambda>w'. quiet w w' \<and> w_table w' = w_table w \<and>
    w_next_ptr w' = w_next_ptr w \<and> w_routes w' = (w_routes w)(p \<mapsto> renewed r) \<and>
    (rt_flags r AND RTFLAG_UNMANAGED = 0 \<longrightarrow> p \<in> waiting (w_alarms w') \<and>
      block_tv (w_alarms w') p = timeradd \<lparr>tv_sec = sint (fst (set_alarm_time l)),
        tv_usec = sint (snd (set_alarm_time l))\<rparr> (clock E (w_tick w))))"
proof (cases "rt_flags r AND RTFLAG_UNMANAGED = 0")
  case False
  then show ?thesis
    using assms by (simp add: msh_route_set_lifetime_def msh_route_get_flags_def quiet_refl
        renewed_def fun_upd_idem)
next
  case True
  define r1 where "r1 = r\<lparr>rt_flags := set_flag (rt_flags r) RTFLAG_VALID_ENTRY,
      rt_alarm_action := RTACTION_UNSET_VALID_ENTRY\<rparr>"
  define w1 where "w1 = w\<lparr>w_routes := (w_routes w)(p \<mapsto> r1)\<rparr>"
  obtain sc usc where t: "set_alarm_time l = (sc, usc)" by (cases "set_alarm_time l")
  have q1: "quiet w w1"
    using assms by (auto simp: w1_def r1_def intro!: quiet_route_upd)
  then have ok1: "world_ok w1" by (rule quiet_wf)
  have nf: "p \<noteq> w_find_route w1" using assms(3) by (simp add: w1_def)
  have "p \<in> dom (al_blocks (w_alarms w1))" using wf_dom_blocks [OF ok1] by (auto simp: w1_def)
  then obtain A where A: "w_add_alarm E p sc usc w1 = Some (w1\<lparr>w_tick := Suc (w_tick w1), w_alarms := A\<rparr>)"
    "world_ok (w1\<lparr>w_tick := Suc (w_tick w1), w_alarms := A\<rparr>)"
    "waiting A = insert p (waiting (w_alarms w1))"
    "block_tv A p = timeradd \<lparr>tv_sec = sint sc, tv_usec = sint usc\<rparr> (clock E (w_tick w1))"
    using w_add_alarm_ok [OF ok1 _ nf] by metis
  have "msh_route_set_lifetime E p l w = Some (w1\<lparr>w_tick := Suc (w_tick w1), w_alarms := A\<rparr>)"
    using A(1) True assms(2) t
    by (simp add: msh_route_set_lifetime_def msh_route_get_flags_def msh_route_set_flag_def
        upd_route_Some w1_def r1_def)
  moreover have "quiet w (w1\<lparr>w_tick := Suc (w_tick w1), w_alarms := A\<rparr>)"
    using q1 quiet_alarms [OF A(2)] A(3) quiet_trans by blast
  ultimately show ?thesis using True A(3,4) t by (auto simp: w1_def r1_def renewed_def)
qed

text \<open>A managed route stays managed; the daemon itself never sets \<open>RTFLAG_UNMANAGED\<close>.\<close>

lemma msh_route_get_lifetime_ok:
  assumes "world_ok w" "p \<in> dom (w_routes w)"
  obtains l w' where "msh_route_get_lifetime E p w = Some (l, w')" "quiet w w'"
    "w_routes w' = w_routes w" "w_table w' = w_table w" "w_next_ptr w' = w_next_ptr w"
proof -
  have q: "quiet w (w\<lparr>w_tick := Suc (w_tick w)\<rparr>)" by (rule quiet_tick [OF assms(1)])
  obtain r where r: "w_routes w p = Some r" using assms(2) by auto
  have "\<exists>l. msh_route_get_lifetime E p w = Some (l, w\<lparr>w_tick := Suc (w_tick w)\<rparr>)"
    using r by (simp add: msh_route_get_lifetime_def gettimeofday_def msh_route_get_flags_def Let_def)
  then show ?thesis using that q by auto
qed

section \<open>Next hop\<close>

text \<open>The gateway of the route object follows the next hop when there is a route object.\<close>

definition with_next_hop :: "env \<Rightarrow> in_addr \<Rightarrow> msh_route \<Rightarrow> msh_route" where
  "with_next_hop E hop r = r\<lparr>rt_flags := set_flag (rt_flags r) RTFLAG_HAS_NEXTHOP, rt_next_hop := hop,
     rt_nlroute := (if rt_updated_cb r = Routing_table_cb
       then map_option (\<lambda>nl. nl\<lparr>nlr_gateway := Some (in_addr2nl_addr E hop (rt_prefix_sz r))\<rparr>) (rt_nlroute r)
       else rt_nlroute r)\<rparr>"

lemma with_next_hop_keeps [simp]:
  "rt_dst_ip (with_next_hop E h r) = rt_dst_ip r" "rt_prefix_sz (with_next_hop E h r) = rt_prefix_sz r"
  "rt_next_hop (with_next_hop E h r) = h" "rt_dest_seq_num (with_next_hop E h r) = rt_dest_seq_num r"
  "rt_hop_count (with_next_hop E h r) = rt_hop_count r"
  "rt_updated_cb (with_next_hop E h r) = rt_updated_cb r" "rt_alarm_action (with_next_hop E h r) = rt_alarm_action r"
  by (simp_all add: with_next_hop_def)

lemma actions_differ [simp]:
  "RTACTION_CHANGE_NEXTHOP_IP \<noteq> 0" "RTACTION_DESTROY \<noteq> 0"
  "RTACTION_CHANGE_NEXTHOP_IP AND RTACTION_DESTROY = 0" "RTACTION_UNSET_VALID_ENTRY \<noteq> RTACTION_DESTROY"
  "RTACTION_DESTROY \<noteq> RTACTION_UNSET_VALID_ENTRY"
  by (simp_all add: rt_consts)

lemmas route_step_defs = msh_route_set_flag_def msh_route_unset_flag_def msh_route_updated_def
  msh_route_get_updated_callback_def routing_table_route_updated_cb_def msh_route_get_rtnl_route_def
  msh_route_get_prefix_sz_def msh_route_get_next_hop_def msh_route_get_flags_def
  msh_route_set_rtnl_route_def

lemma msh_route_set_next_hop_eq:
  assumes "w_routes w p = Some r"
  shows "msh_route_set_next_hop E p hop w =
    Some (w\<lparr>w_routes := (w_routes w)(p \<mapsto> with_next_hop E hop r)\<rparr>)"
  using assms
  by (cases r; cases "rt_updated_cb r"; cases "rt_nlroute r")
    (simp_all add: msh_route_set_next_hop_def route_step_defs upd_route_Some with_next_hop_def)

lemma quiet_with_next_hop:
  "world_ok w \<Longrightarrow> w_routes w p = Some r \<Longrightarrow>
    quiet w (w\<lparr>w_routes := (w_routes w)(p \<mapsto> with_next_hop E hop r)\<rparr>)"
  by (rule quiet_route_upd) simp_all

section \<open>Destruction\<close>

lemma remove_table_route_wf:
  assumes "world_ok w" "w_routes w p = Some r" "p \<noteq> w_find_route w"
    and A: "alarms_ok A" "al_blocks A = (al_blocks (w_alarms w))(p := None)"
  shows "world_ok (w\<lparr>w_table := remove1 p (w_table w), w_routes := (w_routes w)(p := None), w_alarms := A\<rparr>)"
proof -
  let ?w = "w\<lparr>w_table := remove1 p (w_table w), w_routes := (w_routes w)(p := None), w_alarms := A\<rparr>"
  have h: "heap_ok w" by (rule wfD(1) [OF assms(1)])
  then have t: "set (remove1 p (w_table w)) = set (w_table w) - {p}" by (simp add: heap_ok_def)
  have p: "p \<notin> dom (w_rreqs w)" "p \<noteq> FLUSH_ALARM" using h assms(2) by (auto simp: heap_ok_def)
  have "heap_ok ?w" using h assms(3) t unfolding heap_ok_def by auto
  moreover have "blocks_ok ?w"
    using wfD(2) [OF assms(1)] A p unfolding blocks_ok_def by auto
  moreover have "table_ok ?w"
  proof -
    have "inj_on (\<lambda>q. rt_dst_ip (the (w_routes ?w q))) (set (w_table w) - {p}) \<longleftrightarrow>
        inj_on (\<lambda>q. rt_dst_ip (the (w_routes w q))) (set (w_table w) - {p})"
      by (rule inj_on_cong) auto
    then show ?thesis
      using wfD(3) [OF assms(1)] t by (auto simp: table_ok_def intro: inj_on_diff)
  qed
  moreover have "rreqs_ok ?w" using wfD(4) [OF assms(1)] by (simp add: rreqs_ok_def)
  ultimately show ?thesis by (rule wfI)
qed

text \<open>
  Destroying a live route, linked or not, other than the table's scratch route: its memory,
  its alarm and its place in the table are gone, and the kernel route is deleted.
\<close>

lemma wf_updated_cb:
  "world_ok w \<Longrightarrow> w_routes w p = Some r \<Longrightarrow>
    rt_updated_cb r = (if p \<in> set (w_table w) then Routing_table_cb else No_cb)"
proof -
  assume "world_ok w" "w_routes w p = Some r"
  then have "rt_updated_cb r = Routing_table_cb \<longleftrightarrow> p \<in> set (w_table w)"
    by (simp add: world_ok_def table_ok_def)
  then show ?thesis by (cases "rt_updated_cb r") auto
qed

definition del_events :: "ptr \<Rightarrow> msh_route \<Rightarrow> world \<Rightarrow> event list" where
  "del_events p r w = (case rt_nlroute r of
       Some nl \<Rightarrow> (if p \<in> set (w_table w) then [Route_del nl] else [])
     | None \<Rightarrow> [])"

lemma msh_route_destroy_eq:
  assumes "world_ok w" "w_routes w p = Some r" "del_alarm p (w_alarms w) = Some A"
  shows "msh_route_destroy E p w = Some (w\<lparr>w_table := remove1 p (w_table w),
    w_routes := (w_routes w)(p := None), w_alarms := A\<lparr>al_blocks := (al_blocks A)(p := None)\<rparr>,
    w_out := del_events p r w @ w_out w, w_tick := w_tick w + length (del_events p r w)\<rparr>)"
proof -
  note defs = msh_route_destroy_def route_step_defs upd_route_Some on_alarms_def free_block_def
    table_list_del_def emit_def del_events_def
  show ?thesis
  proof (cases "p \<in> set (w_table w)")
    case True
    then show ?thesis
      using assms(2,3) wf_updated_cb [OF assms(1,2)] by (cases "rt_nlroute r") (simp_all add: defs)
  next
    case False
    then have "remove1 p (w_table w) = w_table w" by (simp add: remove1_idem)
    moreover have "del_events p r w = []" using False by (simp add: del_events_def split: option.splits)
    moreover have "msh_route_destroy E p w = Some (w\<lparr>w_routes := (w_routes w)(p := None),
        w_alarms := A\<lparr>al_blocks := (al_blocks A)(p := None)\<rparr>\<rparr>)"
      using False assms(2,3) wf_updated_cb [OF assms(1,2)]
      by (simp add: msh_route_destroy_def msh_route_updated_def msh_route_get_updated_callback_def
          upd_route_Some on_alarms_def free_block_def)
    ultimately show ?thesis by simp
  qed
qed

lemma msh_route_destroy_ok:
  assumes "world_ok w" "w_routes w p = Some r" "p \<noteq> w_find_route w"
  shows "runs (msh_route_destroy E p w) (\<lambda>w'. world_ok w' \<and>
    w_routes w' = (w_routes w)(p := None) \<and> w_table w' = remove1 p (w_table w) \<and>
    w_find_route w' = w_find_route w \<and> same_rreqs w w' \<and> same_pkts w w' \<and>
    waiting (w_alarms w') = waiting (w_alarms w) - {p} \<and>
    (\<forall>q. q \<noteq> p \<longrightarrow> al_blocks (w_alarms w') q = al_blocks (w_alarms w) q) \<and>
    w_ip_addr w' = w_ip_addr w \<and> w_broadcast_addr w' = w_broadcast_addr w \<and>
    w_next_ptr w' = w_next_ptr w \<and> w_stats w' = w_stats w \<and> same_self w w' \<and>
    w_out w' = del_events p r w @ w_out w)"
proof -
  have "p \<in> dom (al_blocks (w_alarms w))" using wf_dom_blocks [OF assms(1)] assms(2) by auto
  from del_alarm_ok [OF wf_alarms_ok [OF assms(1)] this]
  obtain A where A: "del_alarm p (w_alarms w) = Some A" "alarms_ok A"
    "waiting A = waiting (w_alarms w) - {p}"
    "al_blocks A = (al_blocks (w_alarms w))(p \<mapsto> (the (al_blocks (w_alarms w) p))\<lparr>al_linked := False\<rparr>)"
    by (auto simp: runs_iff)
  define A' where "A' = A\<lparr>al_blocks := (al_blocks A)(p := None)\<rparr>"
  have ok': "alarms_ok A'" unfolding A'_def by (rule free_block_ok [OF A(2)]) (simp add: A(3))
  have b: "al_blocks A' = (al_blocks (w_alarms w))(p := None)" by (simp add: A'_def A(4))
  have wt: "waiting A' = waiting (w_alarms w) - {p}" using A(3) by (simp add: A'_def waiting_def)
  have "world_ok (w\<lparr>w_table := remove1 p (w_table w), w_routes := (w_routes w)(p := None),
      w_alarms := A', w_out := del_events p r w @ w_out w, w_tick := w_tick w + length (del_events p r w)\<rparr>)"
    by (rule wf_cong [OF remove_table_route_wf [OF assms ok' b]]) simp_all
  with wt b show ?thesis
    by (simp add: msh_route_destroy_eq [OF assms(1,2) A(1)] same_defs A'_def)
qed

section \<open>The alarm of a route\<close>

text \<open>
  The callback runs when the alarm has been taken off the queue. An active route becomes
  invalid and gets its deletion scheduled; an invalid one is destroyed.
\<close>

definition route_aged :: "env \<Rightarrow> ptr \<Rightarrow> msh_route \<Rightarrow> world \<Rightarrow> world \<Rightarrow> bool" where
  "route_aged E p r w w' \<longleftrightarrow>
     (if rt_alarm_action r = RTACTION_UNSET_VALID_ENTRY then
        w_routes w' = (w_routes w)(p \<mapsto>
          r\<lparr>rt_flags := unset_flag (rt_flags r) RTFLAG_VALID_ENTRY, rt_alarm_action := RTACTION_DESTROY\<rparr>) \<and>
        w_table w' = w_table w \<and> w_out w' = w_out w \<and> p \<in> waiting (w_alarms w') \<and>
        block_tv (w_alarms w') p = timeradd \<lparr>tv_sec = sint (fst (set_alarm_time DELETE_PERIOD)),
          tv_usec = sint (snd (set_alarm_time DELETE_PERIOD))\<rparr> (clock E (w_tick w))
      else if rt_alarm_action r = RTACTION_DESTROY then
        w_routes w' = (w_routes w)(p := None) \<and> w_table w' = remove1 p (w_table w) \<and>
        p \<notin> waiting (w_alarms w') \<and> w_out w' = del_events p r w @ w_out w
      else w' = w)"

lemma msh_route_alarm_cb_ok:
  assumes "world_ok w" "w_routes w p = Some r"
  shows "runs (msh_route_alarm_cb E p p w) (\<lambda>w'. world_ok w' \<and>
    w_find_route w' = w_find_route w \<and> same_rreqs w w' \<and> same_pkts w w' \<and>
    (\<forall>q. q \<noteq> p \<longrightarrow> al_blocks (w_alarms w') q = al_blocks (w_alarms w) q) \<and>
    (\<forall>q. q \<noteq> p \<longrightarrow> (q \<in> waiting (w_alarms w') \<longleftrightarrow> q \<in> waiting (w_alarms w))) \<and>
    (\<forall>q. q \<noteq> p \<longrightarrow> w_routes w' q = w_routes w q) \<and> same_self w w' \<and> w_stats w' = w_stats w \<and>
    w_ip_addr w' = w_ip_addr w \<and> w_broadcast_addr w' = w_broadcast_addr w \<and> route_aged E p r w w')"
proof -
  have scratch: "p = w_find_route w \<Longrightarrow> rt_alarm_action r \<noteq> RTACTION_UNSET_VALID_ENTRY"
    "p = w_find_route w \<Longrightarrow> rt_alarm_action r \<noteq> RTACTION_DESTROY"
    using wfD(3) [OF assms(1)] assms(2) by (auto simp: table_ok_def RTACTION_UNSET_VALID_ENTRY_def RTACTION_DESTROY_def)
  consider "rt_alarm_action r = RTACTION_UNSET_VALID_ENTRY" | "rt_alarm_action r = RTACTION_DESTROY"
    | "rt_alarm_action r \<noteq> RTACTION_UNSET_VALID_ENTRY" "rt_alarm_action r \<noteq> RTACTION_DESTROY" by blast
  then show ?thesis
  proof cases
    case 1
    define w1 where "w1 = w\<lparr>w_routes := (w_routes w)(p \<mapsto>
        r\<lparr>rt_flags := unset_flag (rt_flags r) RTFLAG_VALID_ENTRY, rt_alarm_action := RTACTION_DESTROY\<rparr>)\<rparr>"
    have ok1: "world_ok w1" unfolding w1_def using assms 1 scratch by (intro wf_route_upd) auto
    then have "p \<in> dom (al_blocks (w_alarms w1))" using wf_dom_blocks [OF ok1] by (auto simp: w1_def)
    have nf: "p \<noteq> w_find_route w1" using scratch(1) 1 by (auto simp: w1_def)
    obtain sc usc where t: "set_alarm_time DELETE_PERIOD = (sc, usc)" by (cases "set_alarm_time DELETE_PERIOD")
    obtain A where "w_add_alarm E p sc usc w1 = Some (w1\<lparr>w_tick := Suc (w_tick w1), w_alarms := A\<rparr>)"
      "world_ok (w1\<lparr>w_tick := Suc (w_tick w1), w_alarms := A\<rparr>)"
      "waiting A = insert p (waiting (w_alarms w1))"
      "block_tv A p = timeradd \<lparr>tv_sec = sint sc, tv_usec = sint usc\<rparr> (clock E (w_tick w1))"
      "\<And>q. q \<noteq> p \<Longrightarrow> al_blocks A q = al_blocks (w_alarms w1) q"
      using w_add_alarm_ok [OF ok1 \<open>p \<in> dom (al_blocks (w_alarms w1))\<close> nf] by metis
    with 1 assms t show ?thesis
      by (simp add: msh_route_alarm_cb_def msh_route_unset_flag_def upd_route_Some w1_def
          same_defs route_aged_def)
  next
    case 2
    then have "msh_route_alarm_cb E p p w = msh_route_destroy E p w"
      using assms(2) by (simp add: msh_route_alarm_cb_def)
    moreover have "p \<noteq> w_find_route w" using 2 scratch by auto
    ultimately show ?thesis using msh_route_destroy_ok [OF assms, of E] 2
      by (auto simp: route_aged_def elim!: runs_mono)
  next
    case 3
    then show ?thesis
      using assms by (simp add: msh_route_alarm_cb_def same_defs route_aged_def)
  qed
qed

section \<open>Properties of routes\<close>

lemma sample_route_4: "w_routes sample_world 4 = Some (sample_route 0x0A000003 No_cb 0)"
  by (simp add: sample_world_def)

lemma sample_route_3: "w_routes sample_world 3 = Some (sample_route 0x0A000002 Routing_table_cb 8)"
  by (simp add: sample_world_def)

text \<open>
  C26: destroying a live route other than the table's scratch route uses no dead object and keeps
  the state well-formed; the route, its alarm and its place in the table are gone, the kernel
  is asked to delete its route if and only if it was in the table with a kernel route, and no
  other route, request, packet or alarm changes. All this is so whatever the kernel answers: the
  answer is only printed, so a kernel route whose deletion fails stays and is forgotten.
\<close>
theorem destroy_removes_one_route:
  assumes "world_ok w" "w_routes w p = Some r" "p \<noteq> w_find_route w"
  shows "runs (msh_route_destroy E p w) (\<lambda>w'. world_ok w' \<and>
    w_routes w' = (w_routes w)(p := None) \<and> w_table w' = remove1 p (w_table w) \<and>
    waiting (w_alarms w') = waiting (w_alarms w) - {p} \<and>
    (\<forall>q. q \<noteq> p \<longrightarrow> al_blocks (w_alarms w') q = al_blocks (w_alarms w) q) \<and>
    w_rreqs w' = w_rreqs w \<and> w_pkts w' = w_pkts w \<and>
    w_out w' = (if p \<in> set (w_table w) \<and> rt_nlroute r \<noteq> None then [Route_del (the (rt_nlroute r))] else []) @ w_out w)"
  by (rule runs_mono [OF msh_route_destroy_ok [OF assms]])
    (auto simp: same_defs del_events_def split: option.splits)

theorem destroy_removes_one_route_witness:
  "\<exists>w'. msh_route_destroy sample_env 3 sample_world = Some w' \<and> world_ok w' \<and> w_table w' = [] \<and>
    3 \<notin> dom (w_routes w') \<and> 3 \<notin> waiting (w_alarms w')"
proof -
  have t: "w_table sample_world = [3]" "w_find_route sample_world = 2" by (simp_all add: sample_world_def)
  show ?thesis
    using destroy_removes_one_route [OF sample_world_ok sample_route_3, of sample_env] t
    by (auto simp: runs_iff)
qed

text \<open>
  Setting or clearing one of the four flags of a route sets or clears exactly that flag.
\<close>
theorem flags_are_independent:
  assumes "w_routes w p = Some r" "rt_flag f" "rt_flag g"
  shows "runs (msh_route_set_flag p f w) (\<lambda>w'. \<exists>r'. w_routes w' p = Some r' \<and>
      (rt_flags r' AND g \<noteq> 0 \<longleftrightarrow> f = g \<or> rt_flags r AND g \<noteq> 0)) \<and>
    runs (msh_route_unset_flag p f w) (\<lambda>w'. \<exists>r'. w_routes w' p = Some r' \<and>
      (rt_flags r' AND g \<noteq> 0 \<longleftrightarrow> f \<noteq> g \<and> rt_flags r AND g \<noteq> 0))"
  using assms by (cases "f = g") (auto simp: msh_route_set_flag_def msh_route_unset_flag_def
      upd_route_Some set_flag_other unset_flag_other)

theorem flags_are_independent_witness:
  "runs (msh_route_set_flag 4 RTFLAG_UNMANAGED sample_world) (\<lambda>w'. \<exists>r'. w_routes w' 4 = Some r' \<and>
      rt_flags r' AND RTFLAG_VALID_ENTRY \<noteq> 0)"
proof -
  have "rt_flags (sample_route 0x0A000003 No_cb 0) AND RTFLAG_VALID_ENTRY \<noteq> 0"
    by (simp add: sample_route_def RTFLAG_VALID_ENTRY_def)
  then show ?thesis
    using flags_are_independent [OF sample_route_4, of RTFLAG_UNMANAGED RTFLAG_VALID_ENTRY] by auto
qed

text \<open>
  C25: a route ends in two steps. When the alarm of an active route rings, the entry becomes
  invalid, stays in the table, and its alarm is set anew for the deletion period; when it
  rings again, the route is destroyed. No other route, request, packet or alarm changes, and
  the state stays well-formed.
\<close>
theorem route_expires_in_two_steps:
  assumes "world_ok w" "w_routes w p = Some r"
  shows "runs (msh_route_alarm_cb E p p w) (\<lambda>w'. world_ok w' \<and>
    (\<forall>q. q \<noteq> p \<longrightarrow> w_routes w' q = w_routes w q \<and> al_blocks (w_alarms w') q = al_blocks (w_alarms w) q) \<and>
    w_rreqs w' = w_rreqs w \<and> w_pkts w' = w_pkts w \<and>
    (rt_alarm_action r = RTACTION_UNSET_VALID_ENTRY \<longrightarrow> w_table w' = w_table w \<and>
       (\<exists>r'. w_routes w' p = Some r' \<and> rt_flags r' AND RTFLAG_VALID_ENTRY = 0 \<and> rt_alarm_action r' = RTACTION_DESTROY) \<and>
       p \<in> waiting (w_alarms w') \<and> block_tv (w_alarms w') p = timeradd \<lparr>tv_sec = 2, tv_usec = 0\<rparr> (clock E (w_tick w))) \<and>
    (rt_alarm_action r = RTACTION_DESTROY \<longrightarrow> p \<notin> dom (w_routes w') \<and> p \<notin> set (w_table w') \<and>
       p \<notin> waiting (w_alarms w')))"
proof -
  have d: "distinct (w_table w)" using assms(1) by (simp add: world_ok_def heap_ok_def)
  have t: "set_alarm_time DELETE_PERIOD = (2, 0)" by (simp add: set_alarm_time_def config_defs)
  show ?thesis
    by (rule runs_mono [OF msh_route_alarm_cb_ok [OF assms]]) (use d t in \<open>auto simp: route_aged_def same_defs\<close>)
qed

theorem route_expires_in_two_steps_witness:
  "\<exists>w'. msh_route_alarm_cb sample_env 3 3 sample_world = Some w' \<and> world_ok w' \<and> w_table w' = [3] \<and>
    block_tv (w_alarms w') 3 = \<lparr>tv_sec = 22, tv_usec = 0\<rparr>"
  using route_expires_in_two_steps [OF sample_world_ok sample_route_3, of sample_env]
  by (auto simp: runs_iff sample_route_def RTACTION_UNSET_VALID_ENTRY_def sample_world_def sample_env_def timeradd_def)

end
