(* ===== verification/Packets_Fifo.thy ===== *)
theory Packets_Fifo
  imports Msh_Route
begin

text \<open>
  The queue of captured packets that wait for a route, \<open>meshias_daemon/packets_fifo.c\<close>. A
  queued packet is known by its number in the netfilter queue; leaving the queue means giving
  the kernel a verdict for that number. The traversals of the C code that unlink entries are
  steps over the entries the queue had at their start, which \<open>Linux_List\<close> shows them to visit.
\<close>

section \<open>Operations\<close>

definition packets_list_del :: "ptr \<Rightarrow> world \<Rightarrow> world option" where
  "packets_list_del p w = defined_if (p \<in> set (w_packets_queue w))
     (Some (w\<lparr>w_packets_queue := remove1 p (w_packets_queue w)\<rparr>))"

definition free_packet :: "ptr \<Rightarrow> world \<Rightarrow> world" where
  "free_packet p w = w\<lparr>w_pkts := (w_pkts w)(p := None)\<rparr>"

definition nfq_set_verdict :: "u32 \<Rightarrow> verdict \<Rightarrow> world \<Rightarrow> world" where
  "nfq_set_verdict pid v w = emit (Verdict pid v) w"

definition packet_obj_accept :: "ptr \<Rightarrow> world \<Rightarrow> world option" where
  "packet_obj_accept packet_obj w = do {
     e \<leftarrow> w_pkts w packet_obj;
     let w = nfq_set_verdict (pf_id e) NF_ACCEPT w;
     w \<leftarrow> packets_list_del packet_obj w;
     Some (free_packet packet_obj w) }"

definition packet_obj_drop :: "ptr \<Rightarrow> world \<Rightarrow> world option" where
  "packet_obj_drop packet_obj w = do {
     e \<leftarrow> w_pkts w packet_obj;
     let w = nfq_set_verdict (pf_id e) NF_DROP w;
     w \<leftarrow> packets_list_del packet_obj w;
     let w = free_packet packet_obj w;
     Some (upd_stats (\<lambda>s. s\<lparr>packets_dropped := packets_dropped s + 1\<rparr>) w) }"

text \<open>\<open>packets_fifo_alloc\<close> makes the empty queue.\<close>

definition packets_fifo_alloc :: "world \<Rightarrow> world" where
  "packets_fifo_alloc w = w\<lparr>w_packets_queue := []\<rparr>"

definition packets_fifo_delete :: "world \<Rightarrow> world option" where
  "packets_fifo_delete w = fold_steps packet_obj_drop (w_packets_queue w) w"

definition packets_fifo_push :: "u32 \<Rightarrow> in_addr \<Rightarrow> world \<Rightarrow> world" where
  "packets_fifo_push pid dest w =
     (let p = w_next_ptr w in
      w\<lparr>w_next_ptr := Suc p, w_pkts := (w_pkts w)(p \<mapsto> \<lparr>pf_id = pid, pf_dest = dest\<rparr>),
        w_packets_queue := p # w_packets_queue w\<rparr>)"

definition packets_fifo_drop_packets :: "in_addr \<Rightarrow> world \<Rightarrow> world option" where
  "packets_fifo_drop_packets dest w =
     fold_steps (\<lambda>entry w. do {
       e \<leftarrow> w_pkts w entry;
       if pf_dest e = dest then packet_obj_drop entry w else Some w }) (w_packets_queue w) w"

definition process_entry :: "ptr \<Rightarrow> ptr \<Rightarrow> ptr \<Rightarrow> world \<Rightarrow> world option" where
  "process_entry first route entry w = do {
     e \<leftarrow> w_pkts w entry;
     w \<leftarrow> msh_route_set_dst_ip first (pf_dest e) w;
     diff \<leftarrow> compare_routes first route RTFIND_BY_DEST_LONGEST_PREFIX_MATCHING w;
     if \<not> diff then packet_obj_accept entry w else Some w }"

definition packets_fifo_process_route :: "env \<Rightarrow> ptr \<Rightarrow> world \<Rightarrow> world option" where
  "packets_fifo_process_route E route w = do {
     (first, w) \<leftarrow> msh_route_alloc w;
     w \<leftarrow> fold_steps (process_entry first route) (w_packets_queue w) w;
     msh_route_destroy E first w }"

definition packets_fifo_is_empty :: "world \<Rightarrow> bool" where
  "packets_fifo_is_empty w = (w_packets_queue w = [])"

section \<open>Well-formedness\<close>

text \<open>The packets of a queue, by address, and the verdicts their removal gives.\<close>

definition packet_dest :: "world \<Rightarrow> ptr \<Rightarrow> in_addr" where
  "packet_dest w p = pf_dest (the (w_pkts w p))"

definition packet_id :: "world \<Rightarrow> ptr \<Rightarrow> u32" where
  "packet_id w p = pf_id (the (w_pkts w p))"

definition verdicts :: "world \<Rightarrow> verdict \<Rightarrow> ptr list \<Rightarrow> event list" where
  "verdicts w v ps = map (\<lambda>p. Verdict (packet_id w p) v) ps"

lemma remove_packet_wf:
  assumes "world_ok w"
  shows "world_ok (w\<lparr>w_packets_queue := remove1 p (w_packets_queue w), w_pkts := (w_pkts w)(p := None)\<rparr>)"
proof -
  let ?w = "w\<lparr>w_packets_queue := remove1 p (w_packets_queue w), w_pkts := (w_pkts w)(p := None)\<rparr>"
  have h: "heap_ok w" by (rule wfD(1) [OF assms])
  then have "set (remove1 p (w_packets_queue w)) = set (w_packets_queue w) - {p}"
    by (simp add: heap_ok_def)
  then have "heap_ok ?w" using h unfolding heap_ok_def by auto
  then show ?thesis
    using assms by (simp add: world_ok_def blocks_ok_def table_ok_def rreqs_ok_def)
qed

lemma wf_packets: "world_ok w \<Longrightarrow> set (w_packets_queue w) = dom (w_pkts w)" "world_ok w \<Longrightarrow> distinct (w_packets_queue w)"
  by (simp_all add: world_ok_def heap_ok_def)

lemma packets_fifo_push_wf:
  assumes "world_ok w"
  shows "world_ok (packets_fifo_push pid dest w)"
proof -
  let ?p = "w_next_ptr w"
  have h: "heap_ok w" by (rule wfD(1) [OF assms])
  then have "heap_ok (packets_fifo_push pid dest w)"
    using next_ptr_fresh [OF assms] unfolding heap_ok_def packets_fifo_push_def Let_def by auto
  then show ?thesis
    using assms by (simp add: world_ok_def blocks_ok_def table_ok_def rreqs_ok_def packets_fifo_push_def Let_def)
qed

text \<open>
  Both ways of leaving the queue, with what they leave behind: the state without the packet,
  with one verdict more.
\<close>

definition without_packet :: "ptr \<Rightarrow> verdict \<Rightarrow> world \<Rightarrow> world" where
  "without_packet p v w = w\<lparr>w_packets_queue := remove1 p (w_packets_queue w),
     w_pkts := (w_pkts w)(p := None), w_out := Verdict (packet_id w p) v # w_out w,
     w_tick := Suc (w_tick w)\<rparr>"

lemma without_packet_wf: "world_ok w \<Longrightarrow> world_ok (without_packet p v w)"
  by (rule wf_cong [OF remove_packet_wf]) (simp_all add: without_packet_def)

lemma packet_obj_accept_eq:
  "world_ok w \<Longrightarrow> p \<in> set (w_packets_queue w) \<Longrightarrow> packet_obj_accept p w = Some (without_packet p NF_ACCEPT w)"
  using wf_packets(1) [of w]
  by (auto simp: packet_obj_accept_def nfq_set_verdict_def emit_def packets_list_del_def
      free_packet_def without_packet_def packet_id_def)

lemma packet_obj_drop_eq:
  "world_ok w \<Longrightarrow> p \<in> set (w_packets_queue w) \<Longrightarrow> packet_obj_drop p w =
    Some (upd_stats (\<lambda>s. s\<lparr>packets_dropped := packets_dropped s + 1\<rparr>) (without_packet p NF_DROP w))"
  using wf_packets(1) [of w]
  by (auto simp: packet_obj_drop_def nfq_set_verdict_def emit_def packets_list_del_def
      free_packet_def without_packet_def packet_id_def upd_stats_def)

text \<open>Everything but the packets, the verdicts and the statistics.\<close>

definition pkts_only :: "world \<Rightarrow> world \<Rightarrow> bool" where
  "pkts_only w w' \<longleftrightarrow> w_table w' = w_table w \<and> w_find_route w' = w_find_route w \<and> same_rreqs w w' \<and>
     w_alarms w' = w_alarms w \<and> w_next_ptr w' = w_next_ptr w \<and> w_ip_addr w' = w_ip_addr w \<and>
     w_broadcast_addr w' = w_broadcast_addr w \<and> same_self w w'"

lemma pkts_only_refl [simp]: "pkts_only w w"
  by (simp add: pkts_only_def same_defs)

lemma pkts_only_trans: "pkts_only u v \<Longrightarrow> pkts_only v w \<Longrightarrow> pkts_only u w"
  by (simp add: pkts_only_def same_defs)

lemma pkts_only_without [simp]: "pkts_only w (without_packet p v w)"
  by (simp add: pkts_only_def same_defs without_packet_def)

text \<open>One lemma for all loops over the queue: a step keeps an entry or removes it.\<close>

definition packet_step :: "(ptr \<Rightarrow> bool) \<Rightarrow> verdict \<Rightarrow> (world \<Rightarrow> bool) \<Rightarrow> ptr \<Rightarrow> (world \<Rightarrow> world option) \<Rightarrow> world \<Rightarrow> bool" where
  "packet_step P v I p f w \<longleftrightarrow> runs (f w) (\<lambda>w'. I w' \<and> world_ok w' \<and> pkts_only w w' \<and>
     (if P p then w_packets_queue w' = remove1 p (w_packets_queue w) \<and>
          w_pkts w' = (w_pkts w)(p := None) \<and> w_out w' = Verdict (packet_id w p) v # w_out w
      else w_packets_queue w' = w_packets_queue w \<and> w_pkts w' = w_pkts w \<and> w_out w' = w_out w))"

lemma packet_loop:
  assumes step: "\<And>p w. I w \<Longrightarrow> world_ok w \<Longrightarrow> p \<in> set (w_packets_queue w) \<Longrightarrow> w_pkts w p = w_pkts w0 p \<Longrightarrow>
      packet_step P v I p (f p) w"
    and init: "I w" "world_ok w"
    and queue: "w_packets_queue w = done @ ps"
    and same: "\<And>p. p \<in> set ps \<Longrightarrow> w_pkts w p = w_pkts w0 p"
  shows "runs (fold_steps f ps w) (\<lambda>w'. I w' \<and> world_ok w' \<and> pkts_only w w' \<and>
    w_packets_queue w' = done @ filter (\<lambda>p. \<not> P p) ps \<and>
    w_pkts w' = w_pkts w |` (- {p \<in> set ps. P p}) \<and>
    w_out w' = rev (verdicts w0 v (filter P ps)) @ w_out w)"
  using init queue same
proof (induction ps arbitrary: w "done")
  case Nil
  then show ?case by (simp add: verdicts_def)
next
  case (Cons p ps)
  have dist: "distinct (done @ p # ps)" using Cons.prems(2,3) wf_packets(2) by metis
  have p: "packet_id w p = packet_id w0 p" using Cons.prems(4) by (simp add: packet_id_def)
  have "packet_step P v I p (f p) w"
    using Cons.prems by (intro step) auto
  then obtain w1 where w1: "f p w = Some w1" "I w1" "world_ok w1" "pkts_only w w1"
    "if P p then w_packets_queue w1 = remove1 p (w_packets_queue w) \<and>
          w_pkts w1 = (w_pkts w)(p := None) \<and> w_out w1 = Verdict (packet_id w p) v # w_out w
      else w_packets_queue w1 = w_packets_queue w \<and> w_pkts w1 = w_pkts w \<and> w_out w1 = w_out w"
    by (auto simp: packet_step_def runs_iff)
  let ?done = "if P p then done else done @ [p]"
  have q1: "w_packets_queue w1 = ?done @ ps"
    using w1(5) Cons.prems(3) dist by (auto simp: remove1_append)
  have s1: "w_pkts w1 q = w_pkts w0 q" if "q \<in> set ps" for q
    using w1(5) Cons.prems(4) that dist by (auto split: if_splits)
  have "w_pkts w1 |` (- {q \<in> set ps. P q}) = w_pkts w |` (- {q \<in> set (p # ps). P q})"
    using w1(5) by (auto simp: restrict_map_def fun_eq_iff split: if_splits)
  then show ?case
    using Cons.IH [OF w1(2,3) q1 s1] w1(1,4,5) p
    by (auto simp: verdicts_def elim!: runs_mono intro: pkts_only_trans split: if_splits)
qed

section \<open>What the loops do\<close>

lemma process_entry_step:
  assumes "first \<noteq> route" "R route = Some r"
    and I: "w_routes w = R(first \<mapsto> rf)" "rt_updated_cb rf = No_cb" "world_ok w" "w_stats w = S"
    and p: "p \<in> set (w_packets_queue w)" "w_pkts w p = w_pkts w0 p"
  shows "packet_step (\<lambda>p. packet_dest w0 p = rt_dst_ip r) NF_ACCEPT
    (\<lambda>w. (\<exists>rf. w_routes w = R(first \<mapsto> rf) \<and> rt_updated_cb rf = No_cb) \<and> w_stats w = S) p
    (process_entry first route p) w"
proof -
  obtain e where e: "w_pkts w p = Some e" using p(1) wf_packets(1) [OF I(3)] by auto
  have d: "packet_dest w0 p = pf_dest e" using e p(2) by (simp add: packet_dest_def)
  define w1 where "w1 = w\<lparr>w_routes := R(first \<mapsto> rf\<lparr>rt_dst_ip := pf_dest e\<rparr>)\<rparr>"
  have rf: "w_routes w first = Some rf" by (simp add: I(1))
  have nt: "first \<notin> set (w_table w)" using wf_updated_cb [OF I(3) rf] I(2) by (auto split: if_splits)
  have "w_routes w1 = (w_routes w)(first \<mapsto> rf\<lparr>rt_dst_ip := pf_dest e\<rparr>)"
    by (simp add: w1_def I(1))
  then have w1_eq: "w1 = w\<lparr>w_routes := (w_routes w)(first \<mapsto> rf\<lparr>rt_dst_ip := pf_dest e\<rparr>)\<rparr>"
    by (simp add: w1_def)
  have ok1: "world_ok w1"
    unfolding w1_eq using nt by (intro wf_route_upd [OF I(3) rf]) auto
  have set: "msh_route_set_dst_ip first (pf_dest e) w = Some w1"
    by (simp add: msh_route_set_dst_ip_def upd_route_Some [OF rf] w1_eq)
  have cmp: "compare_routes first route RTFIND_BY_DEST_LONGEST_PREFIX_MATCHING w1 =
      Some (pf_dest e \<noteq> rt_dst_ip r)"
    using assms(1,2) by (subst compare_routes_host [OF ok1, of first "rf\<lparr>rt_dst_ip := pf_dest e\<rparr>" route r])
      (simp_all add: w1_def)
  have q1: "p \<in> set (w_packets_queue w1)" using p(1) by (simp add: w1_def)
  have only: "pkts_only w w1" by (simp add: w1_def pkts_only_def same_defs)
  show ?thesis
  proof (cases "pf_dest e = rt_dst_ip r")
    case True
    then have "process_entry first route p w = Some (without_packet p NF_ACCEPT w1)"
      using e set cmp packet_obj_accept_eq [OF ok1 q1] by (simp add: process_entry_def)
    moreover have "packet_id w1 p = packet_id w p" by (simp add: packet_id_def w1_def)
    moreover have "pkts_only w (without_packet p NF_ACCEPT w1)"
      using only pkts_only_without pkts_only_trans by blast
    ultimately show ?thesis
      using True d without_packet_wf [OF ok1, of p NF_ACCEPT] I(2,4)
      by (auto simp: packet_step_def without_packet_def w1_def)
  next
    case False
    then show ?thesis
      using e set cmp d ok1 only I(2,4) by (auto simp: packet_step_def process_entry_def w1_def)
  qed
qed

text \<open>
  \<open>packets_fifo_process_route\<close>: the packets for the route's destination are accepted, in queue
  order, and leave; the others stay. The temporary route used for comparing is gone.
\<close>

lemma packets_fifo_process_route_ok:
  assumes ok: "world_ok w" and r: "w_routes w route = Some r"
  shows "runs (packets_fifo_process_route E route w) (\<lambda>w'. extends w w' \<and> same_rreqs w w' \<and>
    w_routes w' = w_routes w \<and> w_table w' = w_table w \<and> w_stats w' = w_stats w \<and> same_self w w' \<and>
    waiting (w_alarms w') = waiting (w_alarms w) \<and>
    w_packets_queue w' = filter (\<lambda>p. packet_dest w p \<noteq> rt_dst_ip r) (w_packets_queue w) \<and>
    w_pkts w' = w_pkts w |` (- {p \<in> set (w_packets_queue w). packet_dest w p = rt_dst_ip r}) \<and>
    w_out w' = rev (verdicts w NF_ACCEPT
        (filter (\<lambda>p. packet_dest w p = rt_dst_ip r) (w_packets_queue w))) @ w_out w)"
proof -
  define first where "first = w_next_ptr w"
  obtain w1 where alloc: "msh_route_alloc w = Some (first, w1)" "quiet w w1"
    "w_routes w1 = (w_routes w)(first \<mapsto> zero_route)" "w_table w1 = w_table w"
    "first \<notin> dom (w_routes w)" "waiting (w_alarms w1) = waiting (w_alarms w)"
    unfolding first_def using msh_route_alloc_ok [OF ok] by metis
  have ok1: "world_ok w1" using alloc(2) by (rule quiet_wf)
  have fr: "first \<noteq> route" using alloc(5) r by auto
  have ff: "first \<noteq> w_find_route w" using alloc(5) ok by (auto simp: world_ok_def heap_ok_def)
  have q1: "w_packets_queue w1 = w_packets_queue w" "w_pkts w1 = w_pkts w" "w_stats w1 = w_stats w"
    using alloc(2) by (simp_all add: quiet_def same_defs)
  let ?P = "\<lambda>p. packet_dest w p = rt_dst_ip r"
  let ?I = "\<lambda>u. (\<exists>rf. w_routes u = (w_routes w)(first \<mapsto> rf) \<and> rt_updated_cb rf = No_cb) \<and> w_stats u = w_stats w"
  have "?I w1" using alloc(3) q1(3) by (auto simp: zero_route_def)
  have "runs (fold_steps (process_entry first route) (w_packets_queue w1) w1) (\<lambda>w'. ?I w' \<and>
      world_ok w' \<and> pkts_only w1 w' \<and>
      w_packets_queue w' = [] @ filter (\<lambda>p. \<not> ?P p) (w_packets_queue w1) \<and>
      w_pkts w' = w_pkts w1 |` (- {p \<in> set (w_packets_queue w1). ?P p}) \<and>
      w_out w' = rev (verdicts w NF_ACCEPT (filter ?P (w_packets_queue w1))) @ w_out w1)"
    by (rule packet_loop [where I = ?I, OF _ \<open>?I w1\<close> ok1])
      (use process_entry_step [where R = "w_routes w", OF fr r] q1 in auto)
  then obtain w2 rf where w2: "fold_steps (process_entry first route) (w_packets_queue w1) w1 = Some w2"
    "w_routes w2 = (w_routes w)(first \<mapsto> rf)" "rt_updated_cb rf = No_cb" "w_stats w2 = w_stats w"
    "world_ok w2" "pkts_only w1 w2" "w_packets_queue w2 = filter (\<lambda>p. \<not> ?P p) (w_packets_queue w)"
    "w_pkts w2 = w_pkts w |` (- {p \<in> set (w_packets_queue w). ?P p})"
    "w_out w2 = rev (verdicts w NF_ACCEPT (filter ?P (w_packets_queue w))) @ w_out w1"
    using q1 by (auto simp: runs_iff)
  have rf: "w_routes w2 first = Some rf" "first \<noteq> w_find_route w2" "first \<notin> set (w_table w2)"
    using w2(2,3,5,6) ff alloc(2) wf_updated_cb [OF w2(5), of first rf]
    by (auto simp: pkts_only_def quiet_def extends_def split: if_splits)
  have "w_routes w = (w_routes w2)(first := None)"
    using w2(2) alloc(5) by (auto simp: fun_eq_iff)
  moreover have "runs (packets_fifo_process_route E route w) Q = runs (msh_route_destroy E first w2) Q" for Q
    using alloc(1) w2(1) by (simp add: packets_fifo_process_route_def)
  moreover have "del_events first rf w2 = []" using rf(3) by (simp add: del_events_def split: option.splits)
  moreover have "first \<notin> waiting (w_alarms w)"
    unfolding first_def by (rule next_ptr_fresh(7) [OF ok])
  ultimately show ?thesis
    using msh_route_destroy_ok [OF w2(5) rf(1,2), of E] w2(4,6-9) alloc(2,4,6) rf(3)
    by (auto simp: quiet_def extends_def same_defs pkts_only_def remove1_idem elim!: runs_mono)
qed

text \<open>Dropping: the number of drops plus the length of the queue is constant.\<close>

definition drop_balance :: "world \<Rightarrow> u32" where
  "drop_balance w = packets_dropped (w_stats w) + of_nat (length (w_packets_queue w))"

lemma drop_step:
  assumes "world_ok w" "p \<in> set (w_packets_queue w)" "w_routes w = R" "drop_balance w = K"
  shows "packet_step (\<lambda>_. True) NF_DROP (\<lambda>w. w_routes w = R \<and> drop_balance w = K) p (packet_obj_drop p) w"
proof -
  let ?w = "upd_stats (\<lambda>s. s\<lparr>packets_dropped := packets_dropped s + 1\<rparr>) (without_packet p NF_DROP w)"
  have ok: "world_ok ?w" by (simp add: without_packet_wf [OF assms(1)])
  have "length (w_packets_queue w) = Suc (length (remove1 p (w_packets_queue w)))"
    using assms(2) length_pos_if_in_set [OF assms(2)] by (simp add: length_remove1)
  then have bal: "drop_balance ?w = drop_balance w"
    by (simp add: drop_balance_def upd_stats_def without_packet_def)
  have only: "pkts_only w ?w" by (simp add: pkts_only_def same_defs upd_stats_def without_packet_def)
  show ?thesis
    unfolding packet_step_def packet_obj_drop_eq [OF assms(1,2)] runs_Some
    using ok bal only assms(3,4) by (simp add: upd_stats_def without_packet_def)
qed

lemma drop_if_step:
  assumes "world_ok w" "p \<in> set (w_packets_queue w)" "w_routes w = R" "drop_balance w = K"
    and "w_pkts w p = w_pkts w0 p"
  shows "packet_step (\<lambda>p. packet_dest w0 p = dest) NF_DROP (\<lambda>w. w_routes w = R \<and> drop_balance w = K) p
    (\<lambda>w. do { e \<leftarrow> w_pkts w p; if pf_dest e = dest then packet_obj_drop p w else Some w }) w"
proof -
  obtain e where e: "w_pkts w p = Some e" using assms(2) wf_packets(1) [OF assms(1)] by auto
  then have "packet_dest w0 p = pf_dest e" using assms(5) by (simp add: packet_dest_def)
  then show ?thesis
    using e drop_step [OF assms(1-4)] assms(1,3,4) by (auto simp: packet_step_def)
qed

lemma packets_fifo_drop_packets_ok:
  assumes "world_ok w"
  shows "runs (packets_fifo_drop_packets dest w) (\<lambda>w'. world_ok w' \<and> pkts_only w w' \<and>
    w_routes w' = w_routes w \<and>
    w_packets_queue w' = filter (\<lambda>p. packet_dest w p \<noteq> dest) (w_packets_queue w) \<and>
    w_pkts w' = w_pkts w |` (- {p \<in> set (w_packets_queue w). packet_dest w p = dest}) \<and>
    w_out w' = rev (verdicts w NF_DROP (filter (\<lambda>p. packet_dest w p = dest) (w_packets_queue w))) @ w_out w \<and>
    packets_dropped (w_stats w') = packets_dropped (w_stats w) +
      of_nat (length (filter (\<lambda>p. packet_dest w p = dest) (w_packets_queue w))))"
proof -
  let ?P = "\<lambda>p. packet_dest w p = dest"
  let ?I = "\<lambda>u. w_routes u = w_routes w \<and> drop_balance u = drop_balance w"
  have "length (w_packets_queue w) =
      length (filter ?P (w_packets_queue w)) + length (filter (\<lambda>p. \<not> ?P p) (w_packets_queue w))"
    by (metis sum_length_filter_compl)
  then have len: "(of_nat (length (w_packets_queue w)) :: u32) = of_nat (length (filter ?P (w_packets_queue w))) +
      of_nat (length (filter (\<lambda>p. \<not> ?P p) (w_packets_queue w)))"
    by (simp only: of_nat_add)
  have "runs (packets_fifo_drop_packets dest w) (\<lambda>w'. ?I w' \<and> world_ok w' \<and> pkts_only w w' \<and>
      w_packets_queue w' = [] @ filter (\<lambda>p. \<not> ?P p) (w_packets_queue w) \<and>
      w_pkts w' = w_pkts w |` (- {p \<in> set (w_packets_queue w). ?P p}) \<and>
      w_out w' = rev (verdicts w NF_DROP (filter ?P (w_packets_queue w))) @ w_out w)"
    unfolding packets_fifo_drop_packets_def
    by (rule packet_loop [where I = ?I]) (use assms in \<open>auto intro: drop_if_step\<close>)
  then show ?thesis
    by (rule runs_mono) (auto simp: drop_balance_def len)
qed

lemma packets_fifo_delete_ok:
  assumes "world_ok w"
  shows "runs (packets_fifo_delete w) (\<lambda>w'. world_ok w' \<and> pkts_only w w' \<and> w_routes w' = w_routes w \<and>
    w_packets_queue w' = [] \<and> w_out w' = rev (verdicts w NF_DROP (w_packets_queue w)) @ w_out w)"
proof -
  let ?I = "\<lambda>u. w_routes u = w_routes w \<and> drop_balance u = drop_balance w"
  have "runs (packets_fifo_delete w) (\<lambda>w'. ?I w' \<and> world_ok w' \<and> pkts_only w w' \<and>
      w_packets_queue w' = [] @ filter (\<lambda>p. \<not> True) (w_packets_queue w) \<and>
      w_pkts w' = w_pkts w |` (- {p \<in> set (w_packets_queue w). True}) \<and>
      w_out w' = rev (verdicts w NF_DROP (filter (\<lambda>_. True) (w_packets_queue w))) @ w_out w)"
    unfolding packets_fifo_delete_def
    by (rule packet_loop [where I = ?I]) (use assms in \<open>auto intro: drop_step\<close>)
  then show ?thesis by (rule runs_mono) simp
qed

section \<open>Properties of the waiting packets\<close>

text \<open>
  Giving up a destination drops exactly the packets that wait for it: each gets one verdict
  \<open>NF_DROP\<close>, in queue order, and counts once in the statistics; the other packets stay
  queued in their order, and nothing else changes.
\<close>
theorem drop_packets_exact:
  assumes "world_ok w"
  shows "runs (packets_fifo_drop_packets dest w) (\<lambda>w'. world_ok w' \<and>
    w_packets_queue w' = filter (\<lambda>p. pf_dest (the (w_pkts w p)) \<noteq> dest) (w_packets_queue w) \<and>
    w_out w' = rev (map (\<lambda>p. Verdict (pf_id (the (w_pkts w p))) NF_DROP)
      (filter (\<lambda>p. pf_dest (the (w_pkts w p)) = dest) (w_packets_queue w))) @ w_out w \<and>
    packets_dropped (w_stats w') = packets_dropped (w_stats w) +
      of_nat (length (filter (\<lambda>p. pf_dest (the (w_pkts w p)) = dest) (w_packets_queue w))) \<and>
    w_routes w' = w_routes w \<and> w_table w' = w_table w \<and> w_rreqs w' = w_rreqs w \<and> w_alarms w' = w_alarms w)"
  by (rule runs_mono [OF packets_fifo_drop_packets_ok [OF assms]])
    (simp add: packet_dest_def packet_id_def verdicts_def pkts_only_def same_defs)

theorem drop_packets_exact_witness:
  "\<exists>w'. packets_fifo_drop_packets 0x0A000009 sample_world = Some w' \<and> w_packets_queue w' = [8] \<and>
    w_out w' = [Verdict 42 NF_DROP] \<and> packets_dropped (w_stats w') = 1"
  using drop_packets_exact [OF sample_world_ok, of "0x0A000009"]
  by (auto simp: runs_iff) (simp_all add: sample_world_def zero_stats_def)

text \<open>
  When a route comes up, \<open>packets_fifo_process_route\<close> accepts exactly the packets that wait for
  its destination, each with one verdict, and leaves the others, the routes, the requests and
  the waiting alarms as they are; the route it allocates for the comparison is freed again.
\<close>
theorem process_route_releases_waiting_packets:
  assumes "world_ok w" "w_routes w route = Some r"
  shows "runs (packets_fifo_process_route E route w) (\<lambda>w'. world_ok w' \<and>
    w_packets_queue w' = filter (\<lambda>p. pf_dest (the (w_pkts w p)) \<noteq> rt_dst_ip r) (w_packets_queue w) \<and>
    w_out w' = rev (map (\<lambda>p. Verdict (pf_id (the (w_pkts w p))) NF_ACCEPT)
      (filter (\<lambda>p. pf_dest (the (w_pkts w p)) = rt_dst_ip r) (w_packets_queue w))) @ w_out w \<and>
    w_routes w' = w_routes w \<and> w_table w' = w_table w \<and> w_rreqs w' = w_rreqs w \<and>
    waiting (w_alarms w') = waiting (w_alarms w))"
  by (rule runs_mono [OF packets_fifo_process_route_ok [OF assms]])
    (auto simp: packet_dest_def packet_id_def verdicts_def same_defs intro: extends_wf)

theorem process_route_releases_waiting_packets_witness:
  "\<exists>w'. packets_fifo_process_route sample_env 4 sample_world = Some w' \<and> w_packets_queue w' = [9] \<and>
    w_out w' = [Verdict 41 NF_ACCEPT]"
  using process_route_releases_waiting_packets [OF sample_world_ok sample_route_4, of sample_env]
  by (auto simp: runs_iff) (simp_all add: sample_world_def sample_route_def)

end
