(* ===== verification/Routing_Table.thy ===== *)
theory Routing_Table
  imports Msh_Route Packets_Fifo
begin

unbundle bit_operations_syntax

text \<open>
  The routing table of \<open>meshias_daemon/routing_table.c\<close>: a list of routes, newest first, kept
  in step with the kernel's table, and a scratch route for searching. Adding a route installs
  it in the kernel, gives it a lifetime and releases the packets that waited for it;
  \<open>routing_table_update_route\<close> renews the routes that a data packet uses.
\<close>

section \<open>Searching\<close>

text \<open>The result 0 of the C function is \<open>None\<close> inside.\<close>

fun find_from :: "ptr \<Rightarrow> u32 \<Rightarrow> ptr list \<Rightarrow> world \<Rightarrow> ptr option option" where
  "find_from route attr_flags [] w = Some None"
| "find_from route attr_flags (entry # entries) w = do {
     diff \<leftarrow> compare_routes route entry attr_flags w;
     if \<not> diff then Some (Some entry) else find_from route attr_flags entries w }"

definition routing_table_find :: "ptr \<Rightarrow> u32 \<Rightarrow> world \<Rightarrow> ptr option option" where
  "routing_table_find route attr_flags w = find_from route attr_flags (w_table w) w"

definition routing_table_find_by_ip :: "in_addr \<Rightarrow> world \<Rightarrow> (ptr option \<times> world) option" where
  "routing_table_find_by_ip addr w = do {
     w \<leftarrow> msh_route_set_dst_ip (w_find_route w) addr w;
     route \<leftarrow> routing_table_find (w_find_route w) RTFIND_BY_DEST_LONGEST_PREFIX_MATCHING w;
     Some (route, w) }"

section \<open>Allocation, addition, removal\<close>

definition routing_table_alloc :: "world \<Rightarrow> world option" where
  "routing_table_alloc w = do {
     (p, w) \<leftarrow> msh_route_alloc w;
     Some (w\<lparr>w_table := [], w_find_route := p\<rparr>) }"

definition list_add_table :: "ptr \<Rightarrow> world \<Rightarrow> world" where
  "list_add_table p w = w\<lparr>w_table := p # w_table w\<rparr>"

definition new_nlroute :: "env \<Rightarrow> msh_route \<Rightarrow> world \<Rightarrow> nl_route" where
  "new_nlroute E r w = \<lparr>nlr_oif = w_net_iface w, nlr_dst = in_addr2nl_addr E (rt_dst_ip r) (rt_prefix_sz r),
     nlr_gateway = (if rt_flags r AND RTFLAG_HAS_NEXTHOP \<noteq> 0 \<and> rt_dst_ip r \<noteq> rt_next_hop r
                    then Some (in_addr2nl_addr E (rt_next_hop r) 0) else None)\<rparr>"

text \<open>
  The result is the return value: 1 if a route exists, -1 if the kernel refused the route for
  another reason than that it has it (\<open>-17\<close>), 0 otherwise.
\<close>

definition routing_table_add :: "env \<Rightarrow> ptr \<Rightarrow> world \<Rightarrow> (int \<times> world) option" where
  "routing_table_add E route w = do {
     found \<leftarrow> routing_table_find route RTFIND_BY_DEST_LONGEST_PREFIX_MATCHING w;
     if found \<noteq> None then Some (1, w)
     else do {
       r \<leftarrow> w_routes w route;
       let nlroute = new_nlroute E r w;
       let errno = ret_route_add E (w_tick w);
       let w = emit (Route_add nlroute) w;
       if errno < 0 \<and> errno \<noteq> -17 then Some (-1, w)
       else do {
         w \<leftarrow> msh_route_set_rtnl_route route (Some nlroute) w;
         w \<leftarrow> msh_route_set_lifetime E route ACTIVE_ROUTE_TIMEOUT w;
         w \<leftarrow> msh_route_set_updated_callback route Routing_table_cb 0 w;
         let w = list_add_table route w;
         w \<leftarrow> packets_fifo_process_route E route w;
         Some (0, w) } } }"

text \<open>
  \<open>routing_table_del\<close> returns 1 when the search finds an entry; when it finds none it reads the
  flags of the null result.
\<close>

definition routing_table_del :: "env \<Rightarrow> ptr \<Rightarrow> world \<Rightarrow> (int \<times> world) option" where
  "routing_table_del E route w = do {
     found \<leftarrow> routing_table_find route 0 w;
     case found of
       Some _ \<Rightarrow> Some (1, w)
     | None \<Rightarrow> None }"

text \<open>
  The destructor frees each entry after \<open>routing_table_del\<close>, without unlinking it or deleting
  its alarm, and destroys the scratch route at the end.
\<close>

definition routing_table_delete :: "env \<Rightarrow> world \<Rightarrow> world option" where
  "routing_table_delete E w = do {
     w \<leftarrow> fold_steps (\<lambda>entry w. do {
            (_, w) \<leftarrow> routing_table_del E entry w;
            w_routes w entry;
            Some (free_block entry (w\<lparr>w_routes := (w_routes w)(entry := None)\<rparr>)) }) (w_table w) w;
     msh_route_destroy E (w_find_route w) w }"

section \<open>Using a route\<close>

text \<open>
  The pointer \<open>invalid_route\<close> is a parameter of the C function that only the local copy of is
  assigned, so nothing comes back through it.
\<close>

definition renew :: "env \<Rightarrow> ptr \<Rightarrow> world \<Rightarrow> world option" where
  "renew E route w = msh_route_set_lifetime E route ACTIVE_ROUTE_TIMEOUT w"

definition renew_hop :: "env \<Rightarrow> in_addr \<Rightarrow> ptr \<Rightarrow> world \<Rightarrow> world option" where
  "renew_hop E ip route w = do {
     hop \<leftarrow> msh_route_get_next_hop route w;
     if hop \<noteq> ip then do {
       (hop_route, w) \<leftarrow> routing_table_find_by_ip hop w;
       case hop_route of
         Some p \<Rightarrow> renew E p w
       | None \<Rightarrow> Some w }
     else Some w }"

definition update_orig :: "env \<Rightarrow> in_addr \<Rightarrow> world \<Rightarrow> (bool \<times> world) option" where
  "update_orig E orig_ip w =
     (if orig_ip = 0 then Some (True, w)
      else do {
        (orig_route, w) \<leftarrow> routing_table_find_by_ip orig_ip w;
        case orig_route of
          Some p \<Rightarrow> do {
            w \<leftarrow> renew E p w;
            w \<leftarrow> renew_hop E orig_ip p w;
            Some (True, w) }
        | None \<Rightarrow> Some (True, w) })"

definition routing_table_update_route :: "env \<Rightarrow> in_addr \<Rightarrow> in_addr \<Rightarrow> world \<Rightarrow> (bool \<times> world) option" where
  "routing_table_update_route E dst_ip orig_ip w =
     (if dst_ip \<noteq> w_ip_addr w then do {
        (dst_route, w) \<leftarrow> routing_table_find_by_ip dst_ip w;
        case dst_route of
          None \<Rightarrow> Some (False, w)
        | Some p \<Rightarrow> do {
            flags \<leftarrow> msh_route_get_flags p w;
            if flags AND RTFLAG_VALID_ENTRY = 0 then
              Some (False, upd_stats (\<lambda>s. s\<lparr>invalid_route := invalid_route s + 1\<rparr>) w)
            else do {
              w \<leftarrow> renew E p w;
              w \<leftarrow> renew_hop E dst_ip p w;
              update_orig E orig_ip w } } }
      else update_orig E orig_ip w)"

definition routing_table_foreach :: "(ptr \<Rightarrow> 'd \<Rightarrow> 'd option) \<Rightarrow> 'd \<Rightarrow> world \<Rightarrow> 'd option" where
  "routing_table_foreach callback data w = fold_steps callback (w_table w) data"

section \<open>Searching by destination\<close>

text \<open>The destination of an entry and the entry for a destination.\<close>

definition route_dst :: "world \<Rightarrow> ptr \<Rightarrow> in_addr" where
  "route_dst w p = rt_dst_ip (the (w_routes w p))"

definition route_to :: "world \<Rightarrow> in_addr \<Rightarrow> ptr option" where
  "route_to w a = find (\<lambda>p. route_dst w p = a) (w_table w)"

lemma route_to_unique:
  "world_ok w \<Longrightarrow> route_to w a = Some p \<longleftrightarrow> p \<in> set (w_table w) \<and> route_dst w p = a"
proof
  assume "route_to w a = Some p"
  then show "p \<in> set (w_table w) \<and> route_dst w p = a"
    unfolding route_to_def by (rule find_Some_mem)
next
  assume ok: "world_ok w" and p: "p \<in> set (w_table w) \<and> route_dst w p = a"
  then obtain q where q: "route_to w a = Some q"
    by (cases "route_to w a") (auto simp: route_to_def find_None_conv)
  then have "q \<in> set (w_table w) \<and> route_dst w q = a"
    unfolding route_to_def by (rule find_Some_mem)
  then have "q = p"
    using p ok by (auto simp: world_ok_def table_ok_def route_dst_def inj_on_def)
  with q show "route_to w a = Some p" by simp
qed

lemma route_to_None: "route_to w a = None \<longleftrightarrow> (\<forall>p \<in> set (w_table w). route_dst w p \<noteq> a)"
  by (simp add: route_to_def find_None_conv)

lemma find_from_host:
  assumes "world_ok w" "w_routes w route = Some r" "set ps \<subseteq> set (w_table w)"
  shows "find_from route RTFIND_BY_DEST_LONGEST_PREFIX_MATCHING ps w =
    Some (find (\<lambda>p. route_dst w p = rt_dst_ip r) ps)"
  using assms(3)
proof (induction ps)
  case (Cons p ps)
  have "p \<in> dom (w_routes w)" using Cons.prems assms(1) by (auto simp: world_ok_def heap_ok_def)
  then obtain s where s: "w_routes w p = Some s" by auto
  show ?case
    using Cons by (auto simp: compare_routes_host [OF assms(1,2) s] route_dst_def s)
qed simp

lemma routing_table_find_host:
  "world_ok w \<Longrightarrow> w_routes w route = Some r \<Longrightarrow>
    routing_table_find route RTFIND_BY_DEST_LONGEST_PREFIX_MATCHING w = Some (route_to w (rt_dst_ip r))"
  by (simp add: routing_table_find_def find_from_host route_to_def)

text \<open>A search writes the wanted address into the scratch route and changes nothing else.\<close>

definition searched :: "in_addr \<Rightarrow> world \<Rightarrow> world" where
  "searched a w = w\<lparr>w_routes := (w_routes w)(w_find_route w \<mapsto>
     (the (w_routes w (w_find_route w)))\<lparr>rt_dst_ip := a\<rparr>)\<rparr>"

lemma searched_quiet: "world_ok w \<Longrightarrow> quiet w (searched a w)"
proof -
  assume ok: "world_ok w"
  obtain r where r: "w_routes w (w_find_route w) = Some r"
    using ok by (auto simp: world_ok_def heap_ok_def)
  show ?thesis
    unfolding searched_def r option.sel by (rule quiet_route_upd [OF ok r]) simp_all
qed

lemma searched_table [simp]:
  "w_table (searched a w) = w_table w" "w_alarms (searched a w) = w_alarms w"
  "w_next_ptr (searched a w) = w_next_ptr w" "w_find_route (searched a w) = w_find_route w"
  by (simp_all add: searched_def)

lemma searched_routes: "p \<noteq> w_find_route w \<Longrightarrow> w_routes (searched a w) p = w_routes w p"
  by (simp add: searched_def)

lemma table_not_scratch: "world_ok w \<Longrightarrow> p \<in> set (w_table w) \<Longrightarrow> p \<noteq> w_find_route w"
  by (auto simp: world_ok_def heap_ok_def)

lemma table_live: "world_ok w \<Longrightarrow> p \<in> set (w_table w) \<Longrightarrow> p \<in> dom (w_routes w)"
  by (auto simp: world_ok_def heap_ok_def)

lemma route_to_searched: "world_ok w \<Longrightarrow> route_to (searched a w) b = route_to w b"
  unfolding route_to_def searched_table
  by (rule find_cong) (auto simp: route_dst_def searched_routes table_not_scratch)

lemma routing_table_find_by_ip_eq:
  assumes "world_ok w"
  shows "routing_table_find_by_ip a w = Some (route_to w a, searched a w)"
proof -
  obtain r where r: "w_routes w (w_find_route w) = Some r"
    using assms by (auto simp: world_ok_def heap_ok_def)
  have "world_ok (searched a w)" by (rule quiet_wf [OF searched_quiet [OF assms]])
  then have "routing_table_find (w_find_route w) RTFIND_BY_DEST_LONGEST_PREFIX_MATCHING (searched a w) =
      Some (route_to w a)"
    using routing_table_find_host [of "searched a w" "w_find_route w"]
    by (simp add: route_to_searched [OF assms]) (simp add: searched_def r)
  moreover have "msh_route_set_dst_ip (w_find_route w) a w = Some (searched a w)"
    by (simp add: msh_route_set_dst_ip_def upd_route_Some [OF r] searched_def r)
  ultimately show ?thesis by (simp add: routing_table_find_by_ip_def)
qed

section \<open>Addition\<close>

lemma link_route_wf:
  assumes "world_ok w" "w_routes w p = Some r" "p \<notin> set (w_table w)" "p \<noteq> w_find_route w"
    and "route_to w (rt_dst_ip r) = None"
    and r': "rt_dst_ip r' = rt_dst_ip r" "rt_prefix_sz r' = rt_prefix_sz r" "rt_updated_cb r' = Routing_table_cb"
  shows "world_ok (w\<lparr>w_routes := (w_routes w)(p \<mapsto> r'), w_table := p # w_table w\<rparr>)"
proof (rule wfI)
  let ?w = "w\<lparr>w_routes := (w_routes w)(p \<mapsto> r'), w_table := p # w_table w\<rparr>"
  have d: "dom (w_routes ?w) = dom (w_routes w)" using assms(2) by auto
  show "heap_ok ?w" using wfD(1) [OF assms(1)] d assms(2-4) by (auto simp: heap_ok_def)
  show "blocks_ok ?w" using wfD(2) [OF assms(1)] d by (simp add: blocks_ok_def)
  show "rreqs_ok ?w" using wfD(4) [OF assms(1)] by (simp add: rreqs_ok_def)
  define f where "f = (\<lambda>q. rt_dst_ip (the (w_routes ?w q)))"
  have old: "f q = route_dst w q" if "q \<in> set (w_table w)" for q
    using that assms(3) by (auto simp: f_def route_dst_def)
  have "inj_on f (set (w_table w)) \<longleftrightarrow> inj_on (route_dst w) (set (w_table w))"
    by (rule inj_on_cong) (rule old)
  moreover have "f p = rt_dst_ip r" by (simp add: f_def r')
  moreover have "rt_dst_ip r \<notin> f ` set (w_table w)"
    using assms(5) old by (auto simp: route_to_None)
  ultimately have "inj_on f (set (p # w_table w))"
    using wfD(3) [OF assms(1)] assms(3) by (simp add: table_ok_def route_dst_def [abs_def])
  then show "table_ok ?w"
    using wfD(3) [OF assms(1)] assms(2-4) r'(2,3) unfolding table_ok_def f_def [symmetric] by auto
qed

definition installed :: "env \<Rightarrow> msh_route \<Rightarrow> world \<Rightarrow> msh_route" where
  "installed E r w = (renewed (r\<lparr>rt_nlroute := Some (new_nlroute E r w)\<rparr>))
     \<lparr>rt_updated_cb := Routing_table_cb, rt_cb_data := 0\<rparr>"

lemma installed_keeps [simp]:
  "rt_dst_ip (installed E r w) = rt_dst_ip r" "rt_prefix_sz (installed E r w) = rt_prefix_sz r"
  "rt_next_hop (installed E r w) = rt_next_hop r" "rt_dest_seq_num (installed E r w) = rt_dest_seq_num r"
  "rt_hop_count (installed E r w) = rt_hop_count r" "rt_updated_cb (installed E r w) = Routing_table_cb"
  "rt_nlroute (installed E r w) = Some (new_nlroute E r w)"
  by (simp_all add: installed_def)

lemma routing_table_add_exists:
  "world_ok w \<Longrightarrow> w_routes w p = Some r \<Longrightarrow> route_to w (rt_dst_ip r) \<noteq> None \<Longrightarrow>
    routing_table_add E p w = Some (1, w)"
  by (auto simp: routing_table_add_def routing_table_find_host)

lemma routing_table_add_refused:
  "world_ok w \<Longrightarrow> w_routes w p = Some r \<Longrightarrow> route_to w (rt_dst_ip r) = None \<Longrightarrow>
    ret_route_add E (w_tick w) < 0 \<Longrightarrow> ret_route_add E (w_tick w) \<noteq> -17 \<Longrightarrow>
    routing_table_add E p w = Some (-1, emit (Route_add (new_nlroute E r w)) w)"
  by (simp add: routing_table_add_def routing_table_find_host Let_def)

text \<open>The steps of a successful addition, up to the release of the waiting packets.\<close>

lemma routing_table_add_link:
  assumes ok: "world_ok w" and r: "w_routes w p = Some r" and p: "p \<notin> set (w_table w)" "p \<noteq> w_find_route w"
    and new: "route_to w (rt_dst_ip r) = None"
    and ret: "ret_route_add E (w_tick w) \<ge> 0 \<or> ret_route_add E (w_tick w) = -17"
  obtains w1 where "runs (routing_table_add E p w) Q = runs (packets_fifo_process_route E p w1) (\<lambda>w'. Q (0, w'))"
    and "world_ok w1" "w_routes w1 = (w_routes w)(p \<mapsto> installed E r w)" "w_table w1 = p # w_table w"
    and "w_find_route w1 = w_find_route w" "same_rreqs w w1" "same_pkts w w1" "same_self w w1"
    and "w_stats w1 = w_stats w" "w_out w1 = Route_add (new_nlroute E r w) # w_out w"
    and "w_ip_addr w1 = w_ip_addr w" "w_broadcast_addr w1 = w_broadcast_addr w"
    and "rt_flags r AND RTFLAG_UNMANAGED = 0 \<Longrightarrow> p \<in> waiting (w_alarms w1)"
proof -
  define nl where "nl = new_nlroute E r w"
  define wa where "wa = (emit (Route_add nl) w)\<lparr>w_routes := (w_routes w)(p \<mapsto> r\<lparr>rt_nlroute := Some nl\<rparr>)\<rparr>"
  have ra: "w_routes wa p = Some (r\<lparr>rt_nlroute := Some nl\<rparr>)" by (simp add: wa_def)
  have oka: "world_ok wa"
    unfolding wa_def using wf_route_upd [of "emit (Route_add nl) w" p r "r\<lparr>rt_nlroute := Some nl\<rparr>"] ok r
    by (simp add: emit_def)
  have nfa: "p \<noteq> w_find_route wa" using p(2) by (simp add: wa_def emit_def)
  from msh_route_set_lifetime_ok [OF oka ra nfa, of E ACTIVE_ROUTE_TIMEOUT]
  obtain wb where wb: "msh_route_set_lifetime E p ACTIVE_ROUTE_TIMEOUT wa = Some wb" "quiet wa wb"
    "w_table wb = w_table wa" "w_routes wb = (w_routes wa)(p \<mapsto> renewed (r\<lparr>rt_nlroute := Some nl\<rparr>))"
    "rt_flags r AND RTFLAG_UNMANAGED = 0 \<longrightarrow> p \<in> waiting (w_alarms wb)"
    by (auto simp: runs_iff)
  define wc where "wc = wb\<lparr>w_routes := (w_routes wb)(p \<mapsto> installed E r w), w_table := p # w_table wb\<rparr>"
  have okb: "world_ok wb" using wb(2) by (rule quiet_wf)
  have rb: "w_routes wb p = Some (renewed (r\<lparr>rt_nlroute := Some nl\<rparr>))" using wb(4) by simp
  have "route_to wb (rt_dst_ip r) = None"
    using new p wb(3,4) by (auto simp: route_to_None route_dst_def wa_def emit_def)
  moreover have "w_find_route wb = w_find_route w" using wb(2) by (simp add: quiet_def extends_def wa_def emit_def)
  ultimately have okc: "world_ok wc"
    unfolding wc_def using p wb(3) by (intro link_route_wf [OF okb rb]) (simp_all add: wa_def emit_def)
  have "msh_route_set_rtnl_route p (Some nl) (emit (Route_add nl) w) = Some wa"
    using r by (simp add: msh_route_set_rtnl_route_def upd_route_def wa_def emit_def)
  moreover have "map_option (list_add_table p) (msh_route_set_updated_callback p Routing_table_cb 0 wb) = Some wc"
    using rb by (simp add: msh_route_set_updated_callback_def upd_route_Some list_add_table_def wc_def
        installed_def nl_def)
  ultimately have "runs (routing_table_add E p w) Q = runs (packets_fifo_process_route E p wc) (\<lambda>w'. Q (0, w'))"
    using r new ret wb(1) unfolding routing_table_add_def routing_table_find_host [OF ok r]
    by (auto simp: nl_def [symmetric] Let_def not_less)
  moreover have "w_routes wc = (w_routes w)(p \<mapsto> installed E r w)"
    using wb(4) by (simp add: wc_def wa_def)
  ultimately show ?thesis
    using that [of wc] okc wb(2,3,5)
    by (simp add: wc_def wa_def emit_def nl_def quiet_def extends_def same_defs)
qed

lemma routing_table_add_ok:
  assumes ok: "world_ok w" and r: "w_routes w p = Some r" and p: "p \<notin> set (w_table w)" "p \<noteq> w_find_route w"
    and new: "route_to w (rt_dst_ip r) = None"
    and ret: "ret_route_add E (w_tick w) \<ge> 0 \<or> ret_route_add E (w_tick w) = -17"
  shows "runs (routing_table_add E p w) (\<lambda>(rc, w'). rc = 0 \<and> extends w w' \<and> same_rreqs w w' \<and>
    same_self w w' \<and> w_stats w' = w_stats w \<and>
    w_table w' = p # w_table w \<and> w_routes w' = (w_routes w)(p \<mapsto> installed E r w) \<and>
    (rt_flags r AND RTFLAG_UNMANAGED = 0 \<longrightarrow> p \<in> waiting (w_alarms w')) \<and>
    w_packets_queue w' = filter (\<lambda>q. packet_dest w q \<noteq> rt_dst_ip r) (w_packets_queue w) \<and>
    w_pkts w' = w_pkts w |` (- {q \<in> set (w_packets_queue w). packet_dest w q = rt_dst_ip r}) \<and>
    w_out w' = rev (verdicts w NF_ACCEPT
        (filter (\<lambda>q. packet_dest w q = rt_dst_ip r) (w_packets_queue w))) @
      Route_add (new_nlroute E r w) # w_out w)" (is "runs _ ?Q")
proof -
  obtain w1 where w1: "runs (routing_table_add E p w) ?Q = runs (packets_fifo_process_route E p w1) (\<lambda>w'. ?Q (0, w'))"
    "world_ok w1" "w_routes w1 = (w_routes w)(p \<mapsto> installed E r w)" "w_table w1 = p # w_table w"
    "w_find_route w1 = w_find_route w" "same_rreqs w w1" "same_pkts w w1" "same_self w w1"
    "w_stats w1 = w_stats w" "w_out w1 = Route_add (new_nlroute E r w) # w_out w"
    "w_ip_addr w1 = w_ip_addr w" "w_broadcast_addr w1 = w_broadcast_addr w"
    "rt_flags r AND RTFLAG_UNMANAGED = 0 \<Longrightarrow> p \<in> waiting (w_alarms w1)"
    using routing_table_add_link [OF assms, of ?Q] by blast
  have r1: "w_routes w1 p = Some (installed E r w)" using w1(3) by simp
  have pk: "packet_dest w1 = packet_dest w" "verdicts w1 = verdicts w" "w_packets_queue w1 = w_packets_queue w"
    "w_pkts w1 = w_pkts w"
    using w1(7) by (simp_all add: packet_dest_def packet_id_def verdicts_def same_defs fun_eq_iff)
  have "extends w w1"
    using w1(2-5,11,12) r by (auto simp: extends_def)
  with w1 pk show ?thesis
    by (simp only: w1(1), intro runs_mono [OF packets_fifo_process_route_ok [OF w1(2) r1, of E]])
      (auto simp: same_defs intro: extends_trans)
qed

text \<open>Whatever the kernel answers, adding a route that is not in the table is harmless.\<close>

lemma routing_table_add_extends:
  assumes ok: "world_ok w" and r: "w_routes w p = Some r" and p: "p \<notin> set (w_table w)" "p \<noteq> w_find_route w"
  shows "runs (routing_table_add E p w) (\<lambda>(rc, w'). extends w w' \<and> same_rreqs w w' \<and> same_self w w')"
proof -
  consider "route_to w (rt_dst_ip r) \<noteq> None"
    | "route_to w (rt_dst_ip r) = None" "ret_route_add E (w_tick w) < 0" "ret_route_add E (w_tick w) \<noteq> -17"
    | "route_to w (rt_dst_ip r) = None" "ret_route_add E (w_tick w) \<ge> 0 \<or> ret_route_add E (w_tick w) = -17"
    by linarith
  then show ?thesis
  proof cases
    case 1
    then show ?thesis using ok by (simp add: routing_table_add_exists [OF ok r] extends_refl same_defs)
  next
    case 2
    have "extends w (emit (Route_add (new_nlroute E r w)) w)" using ok by (auto simp: extends_def emit_def)
    then show ?thesis by (simp add: routing_table_add_refused [OF ok r 2] same_defs) (simp add: emit_def)
  next
    case 3
    from routing_table_add_ok [OF ok r p 3] show ?thesis by (rule runs_mono) auto
  qed
qed

section \<open>Use of a route\<close>

lemma extends_route_to:
  assumes "extends w w'" "world_ok w" "w_table w' = w_table w"
  shows "route_to w' a = route_to w a"
  unfolding route_to_def assms(3)
proof (rule find_cong)
  fix p assume "p \<in> set (w_table w)"
  then have "p \<in> dom (w_routes w)" "p \<noteq> w_find_route w"
    using assms(2) table_live table_not_scratch by auto
  then show "(route_dst w' p = a) = (route_dst w p = a)"
    using assms(1) by (force simp: extends_def route_dst_def)
qed simp

lemma renew_ok:
  assumes "world_ok w" "p \<in> dom (w_routes w)" "p \<noteq> w_find_route w"
  shows "runs (renew E p w) (\<lambda>w'. quiet w w' \<and> w_table w' = w_table w)"
proof -
  obtain r where "w_routes w p = Some r" using assms(2) by auto
  from msh_route_set_lifetime_ok [OF assms(1) this assms(3)] show ?thesis
    unfolding renew_def by (rule runs_mono) simp
qed

lemma renew_hop_ok:
  assumes "world_ok w" "p \<in> dom (w_routes w)"
  shows "runs (renew_hop E ip p w) (\<lambda>w'. quiet w w' \<and> w_table w' = w_table w)"
proof -
  obtain r where r: "w_routes w p = Some r" using assms(2) by auto
  have s: "quiet w (searched a w)" for a by (rule searched_quiet [OF assms(1)])
  have "runs (renew E q (searched a w)) (\<lambda>w'. quiet w w' \<and> w_table w' = w_table w)"
    if "route_to w a = Some q" for a q
  proof -
    have "q \<in> set (w_table w)" using that route_to_unique [OF assms(1)] by simp
    then have "q \<in> dom (w_routes (searched a w))"
      using assms(1) s [of a] extends_live table_live quiet_extends by blast
    have "q \<noteq> w_find_route (searched a w)"
      using table_not_scratch [OF assms(1) \<open>q \<in> set (w_table w)\<close>] by simp
    from renew_ok [OF quiet_wf [OF s] \<open>q \<in> dom (w_routes (searched a w))\<close> this] show ?thesis
      by (rule runs_mono) (auto intro: quiet_trans [OF s])
  qed
  then show ?thesis
    using r s assms(1) by (auto simp: renew_hop_def msh_route_get_next_hop_def
        routing_table_find_by_ip_eq quiet_refl split: option.splits)
qed

lemma update_orig_ok:
  assumes "world_ok w"
  shows "runs (update_orig E ip w) (\<lambda>(b, w'). b \<and> quiet w w' \<and> w_table w' = w_table w)"
proof (cases "ip = 0 \<or> route_to w ip = None")
  case True
  then show ?thesis
    using assms searched_quiet [OF assms]
    by (auto simp: update_orig_def routing_table_find_by_ip_eq quiet_refl)
next
  case False
  then obtain p where p: "route_to w ip = Some p" "ip \<noteq> 0" by auto
  have s: "quiet w (searched ip w)" by (rule searched_quiet [OF assms])
  have live: "p \<in> dom (w_routes (searched ip w))"
    using p route_to_unique [OF assms] assms s extends_live table_live quiet_extends by blast
  have notscratch: "p \<noteq> w_find_route (searched ip w)"
    using p(1) route_to_unique [OF assms] table_not_scratch [OF assms] by simp
  have "runs (renew E p (searched ip w)) (\<lambda>w1. runs (renew_hop E ip p w1) (\<lambda>w'. quiet w w' \<and> w_table w' = w_table w))"
    using renew_ok [OF quiet_wf [OF s] live notscratch]
  proof (rule runs_mono)
    fix w1 assume w1: "quiet (searched ip w) w1 \<and> w_table w1 = w_table (searched ip w)"
    then have q1: "quiet w w1" using s quiet_trans by blast
    have "p \<in> dom (w_routes w1)"
      using w1 live extends_live quiet_extends quiet_wf [OF s] by blast
    from renew_hop_ok [OF quiet_wf [OF q1] this, of E ip]
    show "runs (renew_hop E ip p w1) (\<lambda>w'. quiet w w' \<and> w_table w' = w_table w)"
      by (rule runs_mono) (use w1 q1 in \<open>auto intro: quiet_trans\<close>)
  qed
  then show ?thesis
    using p by (simp add: update_orig_def routing_table_find_by_ip_eq [OF assms])
qed

text \<open>Whether the table has an active route to an address.\<close>

definition active_route :: "world \<Rightarrow> in_addr \<Rightarrow> bool" where
  "active_route w a \<longleftrightarrow> (\<exists>p r. route_to w a = Some p \<and> w_routes w p = Some r \<and>
     rt_flags r AND RTFLAG_VALID_ENTRY \<noteq> 0)"

lemma routing_table_update_route_ok:
  assumes "world_ok w"
  shows "runs (routing_table_update_route E dst orig w) (\<lambda>(b, w'). extends w w' \<and> w_table w' = w_table w \<and>
    same_rreqs w w' \<and> same_pkts w w' \<and> same_self w w' \<and> w_out w' = w_out w \<and>
    waiting (w_alarms w) \<subseteq> waiting (w_alarms w') \<and> b = (dst = w_ip_addr w \<or> active_route w dst))"
proof (cases "dst = w_ip_addr w")
  case True
  then show ?thesis
    using update_orig_ok [OF assms, of E orig]
    by (auto simp: routing_table_update_route_def quiet_def same_out_def elim!: runs_mono)
next
  case neq: False
  let ?s = "searched dst w"
  have s: "quiet w ?s" by (rule searched_quiet [OF assms])
  show ?thesis
  proof (cases "route_to w dst")
    case None
    then show ?thesis
      using neq s by (simp add: routing_table_update_route_def routing_table_find_by_ip_eq [OF assms]
          active_route_def quiet_def same_out_def)
  next
    case (Some p)
    then have pt: "p \<in> set (w_table w)" using route_to_unique [OF assms] by simp
    then obtain r where r: "w_routes w p = Some r" using table_live [OF assms] by blast
    then have rs: "w_routes ?s p = Some r" using searched_routes table_not_scratch [OF assms pt] by simp
    have act: "active_route w dst \<longleftrightarrow> rt_flags r AND RTFLAG_VALID_ENTRY \<noteq> 0"
      using Some r by (simp add: active_route_def)
    have "runs (renew E p ?s) (\<lambda>w1. runs (renew_hop E dst p w1)
        (\<lambda>w2. runs (update_orig E orig w2) (\<lambda>(b, w'). b \<and> quiet w w' \<and> w_table w' = w_table w)))"
    proof (rule runs_mono [OF renew_ok [OF quiet_wf [OF s]]])
      show "p \<in> dom (w_routes ?s)" using rs by auto
      show "p \<noteq> w_find_route ?s" using table_not_scratch [OF assms pt] by simp
      fix w1 assume "quiet ?s w1 \<and> w_table w1 = w_table ?s"
      then have w1: "quiet w w1" "w_table w1 = w_table w" using s quiet_trans by auto
      have "p \<in> dom (w_routes w1)" using w1(1) r assms extends_live quiet_extends by blast
      from renew_hop_ok [OF quiet_wf [OF w1(1)] this]
      show "runs (renew_hop E dst p w1)
          (\<lambda>w2. runs (update_orig E orig w2) (\<lambda>(b, w'). b \<and> quiet w w' \<and> w_table w' = w_table w))"
      proof (rule runs_mono)
        fix w2 assume w2: "quiet w1 w2 \<and> w_table w2 = w_table w1"
        then have "quiet w w2" using w1 quiet_trans by blast
        from update_orig_ok [OF quiet_wf [OF this], of E orig]
        show "runs (update_orig E orig w2) (\<lambda>(b, w'). b \<and> quiet w w' \<and> w_table w' = w_table w)"
          by (rule runs_mono) (use \<open>quiet w w2\<close> w1 w2 in \<open>auto intro: quiet_trans\<close>)
      qed
    qed
    then have *: "runs (Option.bind (renew E p ?s) (\<lambda>w1. Option.bind (renew_hop E dst p w1) (update_orig E orig)))
        (\<lambda>(b, w'). b \<and> quiet w w' \<and> w_table w' = w_table w)" by simp
    have "extends w (upd_stats f ?s)" for f
      using s by (auto simp: quiet_def extends_def upd_stats_def)
    then show ?thesis
      using neq Some rs act s runs_mono [OF *]
      by (auto simp: routing_table_update_route_def routing_table_find_by_ip_eq [OF assms]
          msh_route_get_flags_def quiet_def same_defs upd_stats_def)
  qed
qed

section \<open>Properties of the table\<close>

text \<open>
  C21: \<open>routing_table_find_by_ip\<close> is an exact lookup: it returns a route of the table if and only if
  that route's destination is the wanted address, and null if and only if there is none; the
  address is written into the scratch route and nothing else changes.
\<close>
theorem find_by_ip_is_exact:
  assumes "world_ok w"
  shows "runs (routing_table_find_by_ip a w) (\<lambda>(found, w'). world_ok w' \<and>
    (\<forall>p. found = Some p \<longleftrightarrow> p \<in> set (w_table w) \<and> rt_dst_ip (the (w_routes w p)) = a) \<and>
    (found = None \<longleftrightarrow> a \<notin> (\<lambda>p. rt_dst_ip (the (w_routes w p))) ` set (w_table w)) \<and>
    w_table w' = w_table w \<and> w_alarms w' = w_alarms w \<and> w_out w' = w_out w \<and>
    (\<forall>p. p \<noteq> w_find_route w \<longrightarrow> w_routes w' p = w_routes w p))"
  using assms route_to_unique [OF assms, of a] quiet_wf [OF searched_quiet [OF assms, of a]]
  by (auto simp: routing_table_find_by_ip_eq route_to_None searched_routes route_dst_def)
    (auto simp: searched_def)

theorem find_by_ip_is_exact_witness:
  "\<exists>w'. routing_table_find_by_ip 0x0A000002 sample_world = Some (Some 3, w')"
proof -
  have "\<exists>found w'. routing_table_find_by_ip 0x0A000002 sample_world = Some (found, w') \<and>
      (found = Some 3 \<longleftrightarrow> 3 \<in> set (w_table sample_world) \<and> rt_dst_ip (the (w_routes sample_world 3)) = 0x0A000002)"
    using find_by_ip_is_exact [OF sample_world_ok, of "0x0A000002"] by (auto simp: runs_iff)
  then show ?thesis by (auto simp: sample_route_3) (auto simp: sample_world_def sample_route_def)
qed

text \<open>
  C16: adding a route to a destination that is not in the table, when the kernel takes the route
  (or has it), puts it at the head of the table, asks the kernel once for a route with its
  destination and gateway, makes the entry valid with its expiry alarm set (a route the daemon
  manages), and accepts exactly the packets that waited for that destination.
\<close>
theorem table_add_installs_and_releases:
  assumes "world_ok w" "w_routes w p = Some r" "p \<notin> set (w_table w)" "p \<noteq> w_find_route w"
    and "route_to w (rt_dst_ip r) = None" "rt_flags r AND RTFLAG_UNMANAGED = 0"
    and "ret_route_add E (w_tick w) \<ge> 0 \<or> ret_route_add E (w_tick w) = -17"
  shows "runs (routing_table_add E p w) (\<lambda>(rc, w'). rc = 0 \<and> world_ok w' \<and> w_table w' = p # w_table w \<and>
    route_to w' (rt_dst_ip r) = Some p \<and> active_route w' (rt_dst_ip r) \<and> p \<in> waiting (w_alarms w') \<and>
    w_packets_queue w' = filter (\<lambda>q. packet_dest w q \<noteq> rt_dst_ip r) (w_packets_queue w) \<and>
    w_out w' = rev (verdicts w NF_ACCEPT (filter (\<lambda>q. packet_dest w q = rt_dst_ip r) (w_packets_queue w))) @
      Route_add (new_nlroute E r w) # w_out w)"
proof (rule runs_mono [OF routing_table_add_ok [OF assms(1-5,7)]])
  fix x assume q: "case x of (rc, w') \<Rightarrow> rc = 0 \<and> extends w w' \<and> same_rreqs w w' \<and>
    same_self w w' \<and> w_stats w' = w_stats w \<and>
    w_table w' = p # w_table w \<and> w_routes w' = (w_routes w)(p \<mapsto> installed E r w) \<and>
    (rt_flags r AND RTFLAG_UNMANAGED = 0 \<longrightarrow> p \<in> waiting (w_alarms w')) \<and>
    w_packets_queue w' = filter (\<lambda>q. packet_dest w q \<noteq> rt_dst_ip r) (w_packets_queue w) \<and>
    w_pkts w' = w_pkts w |` (- {q \<in> set (w_packets_queue w). packet_dest w q = rt_dst_ip r}) \<and>
    w_out w' = rev (verdicts w NF_ACCEPT
        (filter (\<lambda>q. packet_dest w q = rt_dst_ip r) (w_packets_queue w))) @
      Route_add (new_nlroute E r w) # w_out w"
  obtain rc w' where x: "x = (rc, w')" by (cases x)
  have "rt_flags (installed E r w) AND RTFLAG_VALID_ENTRY \<noteq> 0"
    using assms(6) by (simp add: installed_def renewed_def)
  moreover have "route_to w' (rt_dst_ip r) = Some p"
    using q x by (simp add: route_to_def route_dst_def)
  ultimately show "case x of (rc, w') \<Rightarrow> rc = 0 \<and> world_ok w' \<and> w_table w' = p # w_table w \<and>
    route_to w' (rt_dst_ip r) = Some p \<and> active_route w' (rt_dst_ip r) \<and> p \<in> waiting (w_alarms w') \<and>
    w_packets_queue w' = filter (\<lambda>q. packet_dest w q \<noteq> rt_dst_ip r) (w_packets_queue w) \<and>
    w_out w' = rev (verdicts w NF_ACCEPT (filter (\<lambda>q. packet_dest w q = rt_dst_ip r) (w_packets_queue w))) @
      Route_add (new_nlroute E r w) # w_out w"
    using q x assms(6) by (auto simp: active_route_def intro: extends_wf)
qed

lemma sample_route_to:
  "route_to sample_world 0x0A000003 = None" "route_to sample_world 0x0A000002 = Some 3"
  by (simp_all add: route_to_def route_dst_def sample_world_def sample_route_def)

theorem table_add_installs_and_releases_witness:
  "\<exists>w'. routing_table_add sample_env 4 sample_world = Some (0, w') \<and> w_table w' = [4, 3] \<and> w_packets_queue w' = [9]"
proof -
  have "rt_dst_ip (sample_route a cb act) = a" "rt_flags (sample_route a cb act) = 6" for a cb act
    by (simp_all add: sample_route_def)
  then show ?thesis
    using table_add_installs_and_releases [OF sample_world_ok sample_route_4, of sample_env] sample_route_to(1)
    by (auto simp: runs_iff sample_parts RTFLAG_UNMANAGED_def packet_dest_def)
qed

text \<open>
  A route that is not added leaves the table alone: when the destination is in the table, the
  state does not change at all and the result is 1; when the kernel refuses the route for any
  reason but that it has it, the result is -1 and only the refused call is left behind.
\<close>
theorem table_add_failures:
  assumes "world_ok w" "w_routes w p = Some r"
  shows "(route_to w (rt_dst_ip r) \<noteq> None \<longrightarrow> routing_table_add E p w = Some (1, w)) \<and>
    (route_to w (rt_dst_ip r) = None \<longrightarrow> ret_route_add E (w_tick w) < 0 \<longrightarrow> ret_route_add E (w_tick w) \<noteq> -17 \<longrightarrow>
       routing_table_add E p w = Some (-1, emit (Route_add (new_nlroute E r w)) w))"
  using routing_table_add_exists [OF assms] routing_table_add_refused [OF assms] by blast

theorem table_add_failures_witness:
  "routing_table_add sample_env 3 sample_world = Some (1, sample_world)"
  using table_add_failures [OF sample_world_ok sample_route_3, of sample_env] sample_route_to(2)
  by (simp add: sample_route_def)

text \<open>
  C27: for a captured packet, \<open>routing_table_update_route\<close> says yes if and only if the packet is for
  this node or the table has an active route to its destination; it calls off no alarm,
  removes no route, and touches no pending request or waiting packet.
\<close>
theorem update_route_decides:
  assumes "world_ok w"
  shows "runs (routing_table_update_route E dst orig w) (\<lambda>(b, w'). world_ok w' \<and> w_table w' = w_table w \<and>
    w_rreqs w' = w_rreqs w \<and> w_pkts w' = w_pkts w \<and> w_out w' = w_out w \<and>
    waiting (w_alarms w) \<subseteq> waiting (w_alarms w') \<and> b = (dst = w_ip_addr w \<or> active_route w dst))"
  by (rule runs_mono [OF routing_table_update_route_ok [OF assms]]) (auto simp: same_defs intro: extends_wf)

theorem update_route_decides_witness:
  "\<exists>w'. routing_table_update_route sample_env 0x0A000002 0 sample_world = Some (True, w') \<and> w_table w' = [3]"
proof -
  have "active_route sample_world 0x0A000002"
    by (simp add: active_route_def sample_route_to(2) sample_route_3 sample_route_def RTFLAG_VALID_ENTRY_def)
  then show ?thesis
    using update_route_decides [OF sample_world_ok, of sample_env "0x0A000002" 0]
    by (auto simp: runs_iff sample_parts)
qed

section \<open>Removal does not work\<close>

text \<open>With no attribute to compare, every search ends at the first entry, which it does not read.\<close>

lemma find_any: "routing_table_find p 0 w = Some (case w_table w of [] \<Rightarrow> None | q # _ \<Rightarrow> Some q)"
  by (cases "w_table w") (simp_all add: routing_table_find_def compare_routes_def)

text \<open>
  \<open>routing_table_del\<close> never removes a route: with any route in the table it returns 1 and
  changes nothing, and with an empty table it reads through a null pointer.
\<close>
theorem table_del_removes_nothing:
  "routing_table_del E p w = (if w_table w = [] then None else Some (1, w))"
  by (simp add: routing_table_del_def find_any split: list.splits)

text \<open>Freeing the entries one after another, each while it is linked.\<close>

definition without_routes :: "ptr set \<Rightarrow> world \<Rightarrow> world" where
  "without_routes S w = w\<lparr>w_routes := w_routes w |` (- S),
     w_alarms := (w_alarms w)\<lparr>al_blocks := al_blocks (w_alarms w) |` (- S)\<rparr>\<rparr>"

lemma without_routes_simps [simp]:
  "w_table (without_routes S w) = w_table w" "w_routes (without_routes S w) p = (if p \<in> S then None else w_routes w p)"
  by (simp_all add: without_routes_def restrict_map_def)

lemma without_routes_insert:
  "free_block p ((without_routes S w)\<lparr>w_routes := (w_routes (without_routes S w))(p := None)\<rparr>) = without_routes (insert p S) w"
  by (simp add: without_routes_def free_block_def restrict_map_def fun_eq_iff)

lemma free_entries:
  assumes "set ps \<subseteq> set (w_table w)" "set ps \<subseteq> dom (w_routes w) - S" "distinct ps"
  shows "fold_steps (\<lambda>entry w. do {
      (_, w) \<leftarrow> routing_table_del E entry w;
      w_routes w entry;
      Some (free_block entry (w\<lparr>w_routes := (w_routes w)(entry := None)\<rparr>)) }) ps (without_routes S w) =
    Some (without_routes (set ps \<union> S) w)"
  using assms
proof (induction ps arbitrary: S)
  case (Cons p ps)
  obtain r where "w_routes w p = Some r" "p \<notin> S" using Cons.prems(2) by auto
  moreover have "w_table w \<noteq> []" using Cons.prems(1) by auto
  ultimately show ?case
    using Cons.IH [of "insert p S"] Cons.prems
    by (simp add: table_del_removes_nothing without_routes_insert [unfolded fun_upd_def] fun_upd_def)
      auto
qed simp

lemma routing_table_delete_eq:
  assumes ok: "world_ok w"
  shows "routing_table_delete E w = Some (without_routes (insert (w_find_route w) (set (w_table w))) w)"
proof -
  let ?fr = "w_find_route w" and ?w = "without_routes (set (w_table w)) w"
  have h: "set (w_table w) \<subseteq> dom (w_routes w)" "distinct (w_table w)" "?fr \<notin> set (w_table w)" "?fr \<in> dom (w_routes w)"
    using wfD(1) [OF ok] by (auto simp: heap_ok_def)
  have "without_routes {} w = w" by (simp add: without_routes_def restrict_map_def)
  then have f: "fold_steps (\<lambda>entry w. do {
      (_, w) \<leftarrow> routing_table_del E entry w;
      w_routes w entry;
      Some (free_block entry (w\<lparr>w_routes := (w_routes w)(entry := None)\<rparr>)) }) (w_table w) w = Some ?w"
    using free_entries [of "w_table w" w "{}" E] h by simp
  obtain r where r: "w_routes w ?fr = Some r" using h(4) by auto
  obtain b where b: "al_blocks (w_alarms w) ?fr = Some b" using wf_dom_blocks [OF ok] h(4) by fastforce
  have n: "rt_updated_cb r = No_cb" using wf_updated_cb [OF ok r] h(3) by simp
  have u: "\<not> al_linked b" using wfD(2) [OF ok] b by (auto simp: blocks_ok_def)
  have "msh_route_destroy E ?fr ?w = Some (without_routes (insert ?fr (set (w_table w))) w)"
    using r b n u h(3)
    by (simp add: msh_route_destroy_def msh_route_updated_def msh_route_get_updated_callback_def on_alarms_def
        del_alarm_def upd_route_Some without_routes_def free_block_def restrict_map_def fun_eq_iff)
  then show ?thesis using f by (simp add: routing_table_delete_def without_routes_def)
qed

text \<open>
  C40: deleting the table frees its routes and its scratch route and nothing else. None of them
  is removed from the kernel, and the alarms of the routes stay in the tree, which links
  freed blocks from then on.
\<close>
theorem table_delete_leaves_alarms_behind:
  assumes "world_ok w"
  shows "runs (routing_table_delete E w) (\<lambda>w'.
    w_routes w' = w_routes w |` (- insert (w_find_route w) (set (w_table w))) \<and> w_out w' = w_out w \<and>
    waiting (w_alarms w') = waiting (w_alarms w) \<and>
    (\<forall>p \<in> set (w_table w). al_blocks (w_alarms w') p = None) \<and>
    w_rreqs w' = w_rreqs w \<and> w_pkts w' = w_pkts w)"
  unfolding routing_table_delete_eq [OF assms] by (simp add: without_routes_def waiting_def)

theorem table_delete_leaves_alarms_behind_witness:
  "\<exists>w'. routing_table_delete sample_env sample_world = Some w' \<and> 3 \<in> waiting (w_alarms w') \<and>
    al_blocks (w_alarms w') 3 = None \<and> w_out w' = w_out sample_world"
proof -
  have "3 \<in> waiting (w_alarms sample_world)" by (simp add: waiting_def sample_world_def)
  then show ?thesis
    using table_delete_leaves_alarms_behind [OF sample_world_ok, of sample_env] by (auto simp: runs_iff sample_parts)
qed

end
