(* ===== verification/Rreq_Fifo.thy ===== *)
theory Rreq_Fifo
  imports Routing_Table
begin

text \<open>
  The queue of route requests seen or sent lately, \<open>meshias_daemon/rreq_fifo.c\<close>. An entry of
  our own counts the tries that failed (\<open>prev_tries \<ge> 0\<close>); an entry of somebody else has
  \<open>prev_tries = -1\<close>. Every entry has an alarm: it forgets a foreign request, and repeats or
  gives up an own one. The alarm callback needs \<open>aodv_find_route\<close> and so is in \<open>Logic\<close>.
\<close>

section \<open>Operations\<close>

definition rreq_list_del :: "ptr \<Rightarrow> world \<Rightarrow> world option" where
  "rreq_list_del p w = defined_if (p \<in> set (w_rreq_queue w))
     (Some (w\<lparr>w_rreq_queue := remove1 p (w_rreq_queue w)\<rparr>))"

definition rreq_fifo_entry_delete :: "ptr \<Rightarrow> world \<Rightarrow> world option" where
  "rreq_fifo_entry_delete entry w = do {
     w \<leftarrow> on_alarms (del_alarm entry) w;
     w \<leftarrow> rreq_list_del entry w;
     w_rreqs w entry;
     Some (free_block entry (w\<lparr>w_rreqs := (w_rreqs w)(entry := None)\<rparr>)) }"

text \<open>\<open>rreq_fifo_alloc\<close> makes the empty queue (the head's own alarm is never set).\<close>

definition rreq_fifo_alloc :: "world \<Rightarrow> world" where
  "rreq_fifo_alloc w = w\<lparr>w_rreq_queue := []\<rparr>"

definition rreq_fifo_delete :: "world \<Rightarrow> world option" where
  "rreq_fifo_delete w = fold_steps rreq_fifo_entry_delete (w_rreq_queue w) w"

definition push_entry :: "env \<Rightarrow> u32 \<Rightarrow> in_addr \<Rightarrow> i8 \<Rightarrow> u32 \<Rightarrow> world \<Rightarrow> world option" where
  "push_entry E rreq_id dst prev_tries ms w = do {
     let entry = w_next_ptr w;
     let w = new_block entry (w\<lparr>w_next_ptr := Suc entry, w_rreqs := (w_rreqs w)(entry \<mapsto>
               \<lparr>rq_rreq_id = rreq_id, rq_dst = dst, rq_prev_tries = prev_tries\<rparr>)\<rparr>);
     let (sc, usc) = set_alarm_time ms;
     w \<leftarrow> on_alarms (init_alarm entry entry Rreq_alarm_fn) w;
     w \<leftarrow> w_add_alarm E entry sc usc w;
     Some (w\<lparr>w_rreq_queue := entry # w_rreq_queue w\<rparr>) }"

definition rreq_fifo_push :: "env \<Rightarrow> u32 \<Rightarrow> in_addr \<Rightarrow> world \<Rightarrow> world option" where
  "rreq_fifo_push E rreq_id dst w = push_entry E rreq_id dst (-1) PATH_DISCOVERY_TIME w"

definition rreq_fifo_push_owned :: "env \<Rightarrow> u32 \<Rightarrow> in_addr \<Rightarrow> i8 \<Rightarrow> world \<Rightarrow> world option" where
  "rreq_fifo_push_owned E rreq_id dst prev_tries w = do {
     ms \<leftarrow> binary_exponential_backoff_time prev_tries;
     push_entry E rreq_id dst prev_tries ms w }"

fun rreq_find :: "(rreq_fifo \<Rightarrow> bool) \<Rightarrow> ptr list \<Rightarrow> world \<Rightarrow> ptr option option" where
  "rreq_find P [] w = Some None"
| "rreq_find P (entry # entries) w = do {
     e \<leftarrow> w_rreqs w entry;
     if P e then Some (Some entry) else rreq_find P entries w }"

definition rreq_fifo_contains :: "u32 \<Rightarrow> in_addr \<Rightarrow> world \<Rightarrow> bool option" where
  "rreq_fifo_contains rreq_id dst w =
     map_option (\<lambda>f. f \<noteq> None) (rreq_find (\<lambda>e. rq_rreq_id e = rreq_id \<and> rq_dst e = dst) (w_rreq_queue w) w)"

definition rreq_fifo_waiting_response_for :: "in_addr \<Rightarrow> world \<Rightarrow> bool option" where
  "rreq_fifo_waiting_response_for dst w =
     map_option (\<lambda>f. f \<noteq> None) (rreq_find (\<lambda>e. 0 \<le> sint (rq_prev_tries e) \<and> rq_dst e = dst) (w_rreq_queue w) w)"

definition rreq_fifo_del :: "u32 \<Rightarrow> in_addr \<Rightarrow> world \<Rightarrow> world option" where
  "rreq_fifo_del rreq_id dst w = do {
     found \<leftarrow> rreq_find (\<lambda>e. rq_rreq_id e \<le> rreq_id \<and> rq_dst e = dst) (w_rreq_queue w) w;
     case found of
       Some entry \<Rightarrow> rreq_fifo_entry_delete entry w
     | None \<Rightarrow> Some w }"

section \<open>Searching\<close>

lemma wf_rreqs: "world_ok w \<Longrightarrow> set (w_rreq_queue w) = dom (w_rreqs w)" "world_ok w \<Longrightarrow> distinct (w_rreq_queue w)"
  by (simp_all add: world_ok_def heap_ok_def)

lemma rreq_find_eq:
  "set ps \<subseteq> dom (w_rreqs w) \<Longrightarrow> rreq_find P ps w = Some (find (\<lambda>p. P (the (w_rreqs w p))) ps)"
  by (induction ps) auto

lemma rreq_find_queue:
  "world_ok w \<Longrightarrow> rreq_find P (w_rreq_queue w) w = Some (find (\<lambda>p. P (the (w_rreqs w p))) (w_rreq_queue w))"
  by (simp add: rreq_find_eq wf_rreqs)

lemma find_iff_ran:
  assumes "world_ok w"
  shows "(\<exists>y. find (\<lambda>p. P (the (w_rreqs w p))) (w_rreq_queue w) = Some y) \<longleftrightarrow> (\<exists>e \<in> ran (w_rreqs w). P e)"
proof -
  have "(\<exists>y. find (\<lambda>p. P (the (w_rreqs w p))) (w_rreq_queue w) = Some y) \<longleftrightarrow>
      (\<exists>p \<in> dom (w_rreqs w). P (the (w_rreqs w p)))"
    using find_None_conv [of "\<lambda>p. P (the (w_rreqs w p))" "w_rreq_queue w"]
    unfolding wf_rreqs(1) [OF assms] by auto
  also have "\<dots> \<longleftrightarrow> (\<exists>e \<in> ran (w_rreqs w). P e)" by (force simp: ran_def)
  finally show ?thesis .
qed

lemma rreq_fifo_contains_eq:
  "world_ok w \<Longrightarrow> rreq_fifo_contains rid dst w =
    Some (\<exists>e \<in> ran (w_rreqs w). rq_rreq_id e = rid \<and> rq_dst e = dst)"
  using find_iff_ran [of w "\<lambda>e. rq_rreq_id e = rid \<and> rq_dst e = dst"]
  by (simp add: rreq_fifo_contains_def rreq_find_queue)

lemma rreq_fifo_waiting_eq:
  "world_ok w \<Longrightarrow> rreq_fifo_waiting_response_for dst w =
    Some (\<exists>e \<in> ran (w_rreqs w). 0 \<le> sint (rq_prev_tries e) \<and> rq_dst e = dst)"
  using find_iff_ran [of w "\<lambda>e. 0 \<le> sint (rq_prev_tries e) \<and> rq_dst e = dst"]
  by (simp add: rreq_fifo_waiting_response_for_def rreq_find_queue)

section \<open>Entries come and go\<close>

lemma same_routes_extends:
  assumes "world_ok w" "world_ok w'" "w_routes w' = w_routes w" "w_table w' = w_table w" "w_find_route w' = w_find_route w"
    and "w_ip_addr w' = w_ip_addr w" "w_broadcast_addr w' = w_broadcast_addr w"
  shows "extends w w'"
  using assms by (auto simp: extends_def)

text \<open>Everything but the requests and the alarms.\<close>

definition rreqs_only :: "world \<Rightarrow> world \<Rightarrow> bool" where
  "rreqs_only w w' \<longleftrightarrow> world_ok w' \<and> w_routes w' = w_routes w \<and> w_table w' = w_table w \<and>
     w_find_route w' = w_find_route w \<and> same_pkts w w' \<and> same_out w w' \<and>
     w_ip_addr w' = w_ip_addr w \<and> w_broadcast_addr w' = w_broadcast_addr w"

lemma rreqs_only_extends: "world_ok w \<Longrightarrow> rreqs_only w w' \<Longrightarrow> extends w w'"
  by (rule same_routes_extends) (auto simp: rreqs_only_def)

lemma fresh_rreq_wf:
  assumes ok: "world_ok w" and p: "p = w_next_ptr w" and e: "-1 \<le> sint (rq_prev_tries e)" "sint (rq_prev_tries e) \<le> 2"
    and A: "alarms_ok A" "al_blocks A = (al_blocks (w_alarms w))(p \<mapsto> b)" "al_data b = p" "al_function b = Rreq_alarm_fn"
  shows "world_ok (w\<lparr>w_next_ptr := Suc p, w_rreqs := (w_rreqs w)(p \<mapsto> e), w_rreq_queue := p # w_rreq_queue w,
    w_alarms := A, w_tick := t\<rparr>)"
proof (rule wfI)
  let ?w = "w\<lparr>w_next_ptr := Suc p, w_rreqs := (w_rreqs w)(p \<mapsto> e), w_rreq_queue := p # w_rreq_queue w,
    w_alarms := A, w_tick := t\<rparr>"
  note f = next_ptr_fresh [OF ok]
  show "heap_ok ?w" using wfD(1) [OF ok] f unfolding heap_ok_def p by auto
  have "w_find_route w \<noteq> p" using f wfD(1) [OF ok] unfolding heap_ok_def p by auto
  then show "blocks_ok ?w" using wfD(2) [OF ok] A f unfolding blocks_ok_def p by auto
  show "table_ok ?w" using wfD(3) [OF ok] by (simp add: table_ok_def)
  show "rreqs_ok ?w" using wfD(4) [OF ok] e by (simp add: rreqs_ok_def)
qed

lemma push_entry_ok:
  assumes ok: "world_ok w" and tries: "-1 \<le> sint prev_tries" "sint prev_tries \<le> 2"
  shows "runs (push_entry E rid dst prev_tries ms w) (\<lambda>w'. rreqs_only w w' \<and>
    w_rreqs w' = (w_rreqs w)(w_next_ptr w \<mapsto> \<lparr>rq_rreq_id = rid, rq_dst = dst, rq_prev_tries = prev_tries\<rparr>) \<and>
    w_rreq_queue w' = w_next_ptr w # w_rreq_queue w \<and>
    waiting (w_alarms w') = insert (w_next_ptr w) (waiting (w_alarms w)))"
proof -
  let ?p = "w_next_ptr w" and ?e = "\<lparr>rq_rreq_id = rid, rq_dst = dst, rq_prev_tries = prev_tries\<rparr>"
  obtain sc usc where t: "set_alarm_time ms = (sc, usc)" by (cases "set_alarm_time ms")
  have fresh: "al_blocks (w_alarms w) ?p = None" by (rule next_ptr_fresh(6) [OF ok])
  obtain A where A: "init_alarm ?p ?p Rreq_alarm_fn
        ((w_alarms w)\<lparr>al_blocks := (al_blocks (w_alarms w))(?p \<mapsto> zero_block)\<rparr>) = Some A"
    "alarms_ok A" "waiting A = waiting (w_alarms w)" "al_blocks A = (al_blocks (w_alarms w))
      (?p \<mapsto> \<lparr>al_linked = False, al_tv = zero_tv, al_data = ?p, al_function = Rreq_alarm_fn\<rparr>)"
    using init_fresh_alarm_ok [OF wf_alarms_ok [OF ok] fresh, of ?p Rreq_alarm_fn] by (auto simp: runs_iff)
  obtain A2 where A2: "add_alarm (clock E (w_tick w)) ?p sc usc A = Some A2" "alarms_ok A2"
    "waiting A2 = insert ?p (waiting A)" "al_blocks A2 = (al_blocks A)(?p \<mapsto> (the (al_blocks A ?p))
      \<lparr>al_linked := True, al_tv := timeradd \<lparr>tv_sec = sint sc, tv_usec = sint usc\<rparr> (clock E (w_tick w))\<rparr>)"
    using add_alarm_ok [OF A(2), of ?p "clock E (w_tick w)" sc usc] A(4) by (auto simp: runs_iff)
  let ?w = "w\<lparr>w_next_ptr := Suc ?p, w_rreqs := (w_rreqs w)(?p \<mapsto> ?e), w_rreq_queue := ?p # w_rreq_queue w,
    w_alarms := A2, w_tick := Suc (w_tick w)\<rparr>"
  have "push_entry E rid dst prev_tries ms w = Some ?w"
    using A(1) A2(1) t by (simp add: push_entry_def new_block_def on_alarms_def w_add_alarm_def gettimeofday_def Let_def)
  moreover have "world_ok ?w"
    by (rule fresh_rreq_wf [OF ok refl]) (use tries A2(2,4) A(4) in auto)
  ultimately show ?thesis using A(3) A2(3) by (simp add: rreqs_only_def same_defs)
qed

lemma remove_rreq_wf:
  assumes ok: "world_ok w" and p: "p \<in> dom (w_rreqs w)"
    and A: "alarms_ok A" "al_blocks A = (al_blocks (w_alarms w))(p := None)"
  shows "world_ok (w\<lparr>w_rreqs := (w_rreqs w)(p := None), w_rreq_queue := remove1 p (w_rreq_queue w), w_alarms := A\<rparr>)"
proof (rule wfI)
  let ?w = "w\<lparr>w_rreqs := (w_rreqs w)(p := None), w_rreq_queue := remove1 p (w_rreq_queue w), w_alarms := A\<rparr>"
  have h: "heap_ok w" by (rule wfD(1) [OF ok])
  then have t: "set (remove1 p (w_rreq_queue w)) = set (w_rreq_queue w) - {p}" by (simp add: heap_ok_def)
  have p': "p \<notin> dom (w_routes w)" "p \<noteq> FLUSH_ALARM" using h p by (auto simp: heap_ok_def)
  show "heap_ok ?w" using h t unfolding heap_ok_def by auto
  show "blocks_ok ?w" using wfD(2) [OF ok] A p' unfolding blocks_ok_def by auto
  show "table_ok ?w" using wfD(3) [OF ok] by (simp add: table_ok_def)
  show "rreqs_ok ?w" using wfD(4) [OF ok] by (simp add: rreqs_ok_def)
qed

lemma rreq_fifo_entry_delete_ok:
  assumes ok: "world_ok w" and p: "p \<in> dom (w_rreqs w)"
  shows "runs (rreq_fifo_entry_delete p w) (\<lambda>w'. rreqs_only w w' \<and> w_rreqs w' = (w_rreqs w)(p := None) \<and>
    w_rreq_queue w' = remove1 p (w_rreq_queue w) \<and> waiting (w_alarms w') = waiting (w_alarms w) - {p} \<and>
    (\<forall>q. q \<noteq> p \<longrightarrow> al_blocks (w_alarms w') q = al_blocks (w_alarms w) q))"
proof -
  have "p \<in> dom (al_blocks (w_alarms w))" using wf_dom_blocks [OF ok] p by auto
  from del_alarm_ok [OF wf_alarms_ok [OF ok] this]
  obtain A where A: "del_alarm p (w_alarms w) = Some A" "alarms_ok A"
    "waiting A = waiting (w_alarms w) - {p}"
    "al_blocks A = (al_blocks (w_alarms w))(p \<mapsto> (the (al_blocks (w_alarms w) p))\<lparr>al_linked := False\<rparr>)"
    by (auto simp: runs_iff)
  define A' where "A' = A\<lparr>al_blocks := (al_blocks A)(p := None)\<rparr>"
  have ok': "alarms_ok A'" unfolding A'_def by (rule free_block_ok [OF A(2)]) (simp add: A(3))
  have b: "al_blocks A' = (al_blocks (w_alarms w))(p := None)" by (simp add: A'_def A(4))
  have wt: "waiting A' = waiting (w_alarms w) - {p}" using A(3) by (simp add: A'_def waiting_def)
  let ?w = "w\<lparr>w_rreqs := (w_rreqs w)(p := None), w_rreq_queue := remove1 p (w_rreq_queue w), w_alarms := A'\<rparr>"
  have q: "p \<in> set (w_rreq_queue w)" using p wf_rreqs(1) [OF ok] by simp
  then have "rreq_fifo_entry_delete p w = Some ?w"
    using A(1) p by (auto simp: rreq_fifo_entry_delete_def on_alarms_def rreq_list_del_def free_block_def A'_def)
  then show ?thesis
    using remove_rreq_wf [OF ok p ok' b] wt b by (simp add: rreqs_only_def same_defs)
qed

lemma rreq_fifo_del_ok:
  assumes ok: "world_ok w"
  shows "runs (rreq_fifo_del rid dst w) (\<lambda>w'. rreqs_only w w' \<and>
    (case find (\<lambda>p. rq_rreq_id (the (w_rreqs w p)) \<le> rid \<and> rq_dst (the (w_rreqs w p)) = dst) (w_rreq_queue w) of
       None \<Rightarrow> w' = w
     | Some p \<Rightarrow> w_rreqs w' = (w_rreqs w)(p := None) \<and> w_rreq_queue w' = remove1 p (w_rreq_queue w)))"
proof (cases "find (\<lambda>p. rq_rreq_id (the (w_rreqs w p)) \<le> rid \<and> rq_dst (the (w_rreqs w p)) = dst) (w_rreq_queue w)")
  case None
  then show ?thesis
    using ok by (simp add: rreq_fifo_del_def rreq_find_queue rreqs_only_def same_defs)
next
  case (Some p)
  then have "p \<in> dom (w_rreqs w)" using find_Some_mem [OF Some] wf_rreqs(1) [OF ok] by simp
  from rreq_fifo_entry_delete_ok [OF ok this] Some show ?thesis
    using ok by (simp add: rreq_fifo_del_def rreq_find_queue) (auto elim!: runs_mono)
qed

section \<open>Properties of the queue\<close>

text \<open>
  Recording a foreign request with \<open>rreq_fifo_push\<close> makes exactly that pair of identifier and
  destination known to \<open>rreq_fifo_contains\<close>, in addition to those known before, and sets an
  alarm for it; it makes the node wait for no response it did not wait for.
\<close>
theorem pushed_request_is_contained:
  assumes "world_ok w"
  shows "runs (rreq_fifo_push E rid dst w) (\<lambda>w'. world_ok w' \<and>
    (\<forall>rid' dst'. rreq_fifo_contains rid' dst' w' =
       map_option (\<lambda>b. b \<or> rid' = rid \<and> dst' = dst) (rreq_fifo_contains rid' dst' w)) \<and>
    (\<forall>dst'. rreq_fifo_waiting_response_for dst' w' = rreq_fifo_waiting_response_for dst' w) \<and>
    waiting (w_alarms w') = insert (w_next_ptr w) (waiting (w_alarms w)))"
proof -
  have fresh: "w_rreqs w (w_next_ptr w) = None" using next_ptr_fresh(2) [OF assms] by blast
  show ?thesis
    unfolding rreq_fifo_push_def
    by (rule runs_mono [OF push_entry_ok [OF assms]])
      (use assms fresh in \<open>auto simp: rreqs_only_def rreq_fifo_contains_eq rreq_fifo_waiting_eq ran_map_upd\<close>)
qed

theorem pushed_request_is_contained_witness:
  "\<exists>w'. rreq_fifo_push sample_env 11 0x0A000008 sample_world = Some w' \<and>
    rreq_fifo_contains 11 0x0A000008 w' = Some True \<and> rreq_fifo_waiting_response_for 0x0A000008 w' = Some False"
  using pushed_request_is_contained [OF sample_world_ok, of sample_env 11 "0x0A000008"]
  by (auto simp: runs_iff rreq_fifo_contains_eq rreq_fifo_waiting_eq sample_world_ok)
    (auto simp: sample_parts ran_def split: if_splits)

lemma first_match:
  "find P (w_rreq_queue w) = Some p \<Longrightarrow> P p \<and> p \<in> set (w_rreq_queue w)"
  by (metis find_Some_iff nth_mem)

text \<open>
  \<open>rreq_fifo_del\<close> removes one entry for the destination whose identifier is not above the
  given one, with its alarm, or changes nothing when there is none; every other entry and
  every other alarm stays.
\<close>
theorem rreq_del_removes_one:
  assumes "world_ok w"
  shows "runs (rreq_fifo_del rid dst w) (\<lambda>w'. world_ok w' \<and>
    (if \<exists>e \<in> ran (w_rreqs w). rq_rreq_id e \<le> rid \<and> rq_dst e = dst then
       \<exists>p e. w_rreqs w p = Some e \<and> rq_rreq_id e \<le> rid \<and> rq_dst e = dst \<and>
         w_rreqs w' = (w_rreqs w)(p := None) \<and> w_rreq_queue w' = remove1 p (w_rreq_queue w) \<and>
         waiting (w_alarms w') = waiting (w_alarms w) - {p}
     else w' = w))"
proof (cases "find (\<lambda>p. rq_rreq_id (the (w_rreqs w p)) \<le> rid \<and> rq_dst (the (w_rreqs w p)) = dst) (w_rreq_queue w)")
  case None
  then show ?thesis
    using find_iff_ran [OF assms, of "\<lambda>e. rq_rreq_id e \<le> rid \<and> rq_dst e = dst"] assms
    by (auto simp: rreq_fifo_del_def rreq_find_queue)
next
  case (Some p)
  then have p: "p \<in> dom (w_rreqs w)" "rq_rreq_id (the (w_rreqs w p)) \<le> rid" "rq_dst (the (w_rreqs w p)) = dst"
    using first_match [OF Some] wf_rreqs(1) [OF assms] by auto
  then obtain e where e: "w_rreqs w p = Some e" by auto
  then have "\<exists>e \<in> ran (w_rreqs w). rq_rreq_id e \<le> rid \<and> rq_dst e = dst" using p by (auto simp: ran_def)
  moreover have "rreq_fifo_del rid dst w = rreq_fifo_entry_delete p w"
    using Some assms by (simp add: rreq_fifo_del_def rreq_find_queue)
  ultimately show ?thesis
    using rreq_fifo_entry_delete_ok [OF assms p(1)] p e by (auto simp: runs_iff rreqs_only_def)
qed

theorem rreq_del_removes_one_witness:
  "\<exists>w'. rreq_fifo_del 2 0x0A000003 sample_world = Some w' \<and> world_ok w' \<and> w_rreqs w' \<noteq> w_rreqs sample_world"
proof -
  have "\<exists>e \<in> ran (w_rreqs sample_world). rq_rreq_id e \<le> 2 \<and> rq_dst e = 0x0A000003"
    by (rule bexI [of _ "\<lparr>rq_rreq_id = 1, rq_dst = 0x0A000003, rq_prev_tries = 0\<rparr>"]) (auto simp: sample_parts ran_def)
  then obtain w' p e where w': "rreq_fifo_del 2 0x0A000003 sample_world = Some w'" "world_ok w'"
    "w_rreqs sample_world p = Some e" "w_rreqs w' = (w_rreqs sample_world)(p := None)"
    using rreq_del_removes_one [OF sample_world_ok, of 2 "0x0A000003"] by (auto simp: runs_iff)
  then have "w_rreqs w' p \<noteq> w_rreqs sample_world p" by simp
  then show ?thesis using w'(1,2) by auto
qed

end
