(* ===== verification/Packet.thy ===== *)
theory Packet
  imports World
begin

unbundle bit_operations_syntax

text \<open>
  AODV messages, \<open>meshias_daemon/aodv/packet.h\<close> and \<open>packet.c\<close>. A message is the bytes of the
  datagram. The C code reads and writes the bytes through structures laid over them; the
  layouts below are those of a little-endian host with bit-fields allocated from the low bit.
  Packets are values that the handlers pass along; the number of packets allocated and not
  yet destroyed is counted in the state.
\<close>

section \<open>Layouts\<close>

definition AODV_RREQ :: int where "AODV_RREQ = 1"

definition AODV_RREP :: int where "AODV_RREP = 2"

definition AODV_RERR :: int where "AODV_RERR = 3"

definition AODV_RREP_ACK :: int where "AODV_RREP_ACK = 4"

definition RREP_REPAIR_FLAG :: u8 where "RREP_REPAIR_FLAG = 2"

definition RREP_ACK_REQUIRED_FLAG :: u8 where "RREP_ACK_REQUIRED_FLAG = 1"

definition JOIN_FLAG :: u8 where "JOIN_FLAG = 16"

definition RREQ_REPAIR_FLAG :: u8 where "RREQ_REPAIR_FLAG = 8"

definition RREQ_GRATUITOUS_RREP_FLAG :: u8 where "RREQ_GRATUITOUS_RREP_FLAG = 4"

definition RREQ_DEST_ONLY_FLAG :: u8 where "RREQ_DEST_ONLY_FLAG = 2"

definition RREQ_UNKNOWN_SEQ_NUM_FLAG :: u8 where "RREQ_UNKNOWN_SEQ_NUM_FLAG = 1"

definition RERR_NO_DELETE_FLAG :: u8 where "RERR_NO_DELETE_FLAG = 1"

record aodv_rrep =
  rrep_type :: u8
  rrep_reserved2 :: u8
  rrep_flags :: u8
  rrep_prefix_sz :: u8
  rrep_reserved :: u8
  rrep_hop_count :: u8
  rrep_dest_ip_addr :: u32
  rrep_dest_seq_num :: u32
  rrep_orig_ip_addr :: u32
  rrep_lifetime :: u32

record aodv_rrep_ack =
  ack_type :: u8
  ack_reserved :: u8

record aodv_rreq =
  rreq_type :: u8
  rreq_reserved2 :: u8
  rreq_flags :: u8
  rreq_reserved :: u8
  rreq_hop_count :: u8
  rreq_rreq_id :: u32
  rreq_dest_ip_addr :: u32
  rreq_dest_seq_num :: u32
  rreq_orig_ip_addr :: u32
  rreq_orig_seq_num :: u32

record aodv_rerr =
  rerr_type :: u8
  rerr_reserved2 :: u8
  rerr_flag :: u8
  rerr_reserved :: u8
  rerr_dest_count :: u8

record unrecheable_dest =
  ud_ip_addr :: u32
  ud_seq_num :: u32

text \<open>
  A byte made of two bit-fields, the first one \<open>k\<close> bits wide. A bit-field keeps the low bits of
  the value assigned to it.
\<close>

definition pack :: "nat \<Rightarrow> u8 \<Rightarrow> u8 \<Rightarrow> u8" where
  "pack k lo hi = (lo AND mask k) OR push_bit k hi"

definition low_field :: "nat \<Rightarrow> u8 \<Rightarrow> u8" where
  "low_field k b = b AND mask k"

definition high_field :: "nat \<Rightarrow> u8 \<Rightarrow> u8" where
  "high_field k b = drop_bit k b"

text \<open>The bytes of a structure, and the structure over bytes.\<close>

definition rreq_bytes :: "aodv_rreq \<Rightarrow> u8 list" where
  "rreq_bytes r = [rreq_type r, pack 3 (rreq_reserved2 r) (rreq_flags r), rreq_reserved r,
     rreq_hop_count r] @ store32 (rreq_rreq_id r) @ store32 (rreq_dest_ip_addr r) @
     store32 (rreq_dest_seq_num r) @ store32 (rreq_orig_ip_addr r) @ store32 (rreq_orig_seq_num r)"

definition rreq_of :: "u8 list \<Rightarrow> aodv_rreq" where
  "rreq_of bs = \<lparr>rreq_type = bs ! 0, rreq_reserved2 = low_field 3 (bs ! 1), rreq_flags = high_field 3 (bs ! 1),
     rreq_reserved = bs ! 2, rreq_hop_count = bs ! 3, rreq_rreq_id = load32 bs 4,
     rreq_dest_ip_addr = load32 bs 8, rreq_dest_seq_num = load32 bs 12,
     rreq_orig_ip_addr = load32 bs 16, rreq_orig_seq_num = load32 bs 20\<rparr>"

definition rrep_bytes :: "aodv_rrep \<Rightarrow> u8 list" where
  "rrep_bytes r = [rrep_type r, pack 6 (rrep_reserved2 r) (rrep_flags r),
     pack 5 (rrep_prefix_sz r) (rrep_reserved r), rrep_hop_count r] @
     store32 (rrep_dest_ip_addr r) @ store32 (rrep_dest_seq_num r) @ store32 (rrep_orig_ip_addr r) @
     store32 (rrep_lifetime r)"

definition rrep_of :: "u8 list \<Rightarrow> aodv_rrep" where
  "rrep_of bs = \<lparr>rrep_type = bs ! 0, rrep_reserved2 = low_field 6 (bs ! 1), rrep_flags = high_field 6 (bs ! 1),
     rrep_prefix_sz = low_field 5 (bs ! 2), rrep_reserved = high_field 5 (bs ! 2), rrep_hop_count = bs ! 3,
     rrep_dest_ip_addr = load32 bs 4, rrep_dest_seq_num = load32 bs 8,
     rrep_orig_ip_addr = load32 bs 12, rrep_lifetime = load32 bs 16\<rparr>"

definition rerr_bytes :: "aodv_rerr \<Rightarrow> u8 list" where
  "rerr_bytes r = [rerr_type r, pack 7 (rerr_reserved2 r) (rerr_flag r), rerr_reserved r,
     rerr_dest_count r]"

definition rerr_of :: "u8 list \<Rightarrow> aodv_rerr" where
  "rerr_of bs = \<lparr>rerr_type = bs ! 0, rerr_reserved2 = low_field 7 (bs ! 1), rerr_flag = high_field 7 (bs ! 1),
     rerr_reserved = bs ! 2, rerr_dest_count = bs ! 3\<rparr>"

definition rrep_ack_bytes :: "aodv_rrep_ack \<Rightarrow> u8 list" where
  "rrep_ack_bytes r = [ack_type r, ack_reserved r]"

section \<open>Packets\<close>

definition DEFAULT_TTL :: u8 where "DEFAULT_TTL = 64"

definition AF_INET :: u16 where "AF_INET = 2"

record sockaddr_in =
  sin_family :: u16
  sin_port :: u16
  sin_addr :: u32

record aodv_pkt =
  pkt_payload :: "u8 list option"
  pkt_payload_len :: nat
  pkt_address :: sockaddr_in
  pkt_ttl :: u8

text \<open>A message as \<open>recvmsg\<close> fills it in: the sender, the data and the control messages.\<close>

record cmsghdr =
  cmsg_level :: int
  cmsg_type :: int
  cmsg_data :: "u8 list"

record msghdr =
  msg_namelen :: nat
  msg_name :: sockaddr_in
  msg_iovlen :: nat
  msg_iov_base :: "u8 list"
  msg_controllen :: nat
  msg_control :: "cmsghdr list"

definition SOL_IP :: int where "SOL_IP = 0"

definition IP_TTL :: int where "IP_TTL = 2"

definition zero_pkt :: aodv_pkt where
  "zero_pkt = \<lparr>pkt_payload = None, pkt_payload_len = 0,
     pkt_address = \<lparr>sin_family = 0, sin_port = 0, sin_addr = 0\<rparr>, pkt_ttl = 0\<rparr>"

definition count_pkt :: "world \<Rightarrow> world" where
  "count_pkt w = w\<lparr>w_live_pkts := Suc (w_live_pkts w)\<rparr>"

definition aodv_pkt_alloc :: "world \<Rightarrow> aodv_pkt \<times> world" where
  "aodv_pkt_alloc w = (zero_pkt\<lparr>pkt_ttl := DEFAULT_TTL,
     pkt_address := \<lparr>sin_family = AF_INET, sin_port = htons AODV_UDP_PORT, sin_addr = w_broadcast_addr w\<rparr>\<rparr>,
     count_pkt w)"

fun receive_ttl_from :: "cmsghdr list \<Rightarrow> u8 option" where
  "receive_ttl_from [] = Some (-1)"
| "receive_ttl_from (cmsg # rest) =
     (if cmsg_level cmsg = SOL_IP \<and> cmsg_type cmsg = IP_TTL then
        (case cmsg_data cmsg of [] \<Rightarrow> None | b # _ \<Rightarrow> Some b)
      else receive_ttl_from rest)"

definition aodv_pkt_receive_ttl :: "msghdr \<Rightarrow> u8 option" where
  "aodv_pkt_receive_ttl msg = receive_ttl_from (msg_control msg)"

definition aodv_pkt_get :: "msghdr \<Rightarrow> int \<Rightarrow> world \<Rightarrow> (aodv_pkt \<times> world) option" where
  "aodv_pkt_get msg received w = do {
     let w = count_pkt w;
     let pkt = zero_pkt;
     let (pkt, w) = (if msg_namelen msg > 0 then (pkt\<lparr>pkt_address := msg_name msg\<rparr>, w)
       else (pkt, upd_stats (\<lambda>s. s\<lparr>no_address_received := no_address_received s + 1\<rparr>) w));
     (pkt, w) \<leftarrow> (if msg_iovlen msg > 0 then
         defined_if (0 \<le> received \<and> nat received \<le> length (msg_iov_base msg))
           (Some (pkt\<lparr>pkt_payload_len := nat received,
                      pkt_payload := Some (take (nat received) (msg_iov_base msg))\<rparr>, w))
       else Some (pkt, upd_stats (\<lambda>s. s\<lparr>no_payload_received := no_payload_received s + 1\<rparr>) w));
     if msg_controllen msg > 0 then do {
       ttl \<leftarrow> aodv_pkt_receive_ttl msg;
       Some (pkt\<lparr>pkt_ttl := ttl\<rparr>, w) }
     else Some (pkt, upd_stats (\<lambda>s. s\<lparr>no_ttl_received := no_ttl_received s + 1\<rparr>) w) }"

definition pkt_bytes :: "aodv_pkt \<Rightarrow> u8 list" where
  "pkt_bytes pkt = (case pkt_payload pkt of None \<Rightarrow> [] | Some bs \<Rightarrow> take (pkt_payload_len pkt) bs)"

definition aodv_pkt_send :: "env \<Rightarrow> aodv_pkt \<Rightarrow> world \<Rightarrow> aodv_pkt \<times> world" where
  "aodv_pkt_send E pkt w =
     (let numbytes = ret_sendto E (w_tick w) (pkt_payload_len pkt);
          a = pkt_address pkt;
          w = emit (Sent (sin_addr a) (sin_port a) (pkt_ttl pkt) (pkt_bytes pkt)) w;
          w = (if numbytes = -1 then upd_stats (\<lambda>s. s\<lparr>send_aodv_errors := send_aodv_errors s + 1\<rparr>) w
               else if numbytes \<noteq> int (pkt_payload_len pkt) then
                 upd_stats (\<lambda>s. s\<lparr>send_aodv_incomplete := send_aodv_incomplete s + 1\<rparr>) w
               else w)
      in (pkt\<lparr>pkt_address := a\<lparr>sin_addr := htonl (sin_addr a)\<rparr>\<rparr>, w))"

definition aodv_pkt_destroy :: "aodv_pkt \<Rightarrow> world \<Rightarrow> world" where
  "aodv_pkt_destroy pkt w = w\<lparr>w_live_pkts := w_live_pkts w - 1\<rparr>"

definition aodv_pkt_get_ttl :: "aodv_pkt \<Rightarrow> u8" where
  "aodv_pkt_get_ttl pkt = pkt_ttl pkt"

definition aodv_pkt_set_ttl :: "aodv_pkt \<Rightarrow> u8 \<Rightarrow> aodv_pkt" where
  "aodv_pkt_set_ttl pkt ttl = pkt\<lparr>pkt_ttl := ttl\<rparr>"

definition aodv_pkt_decrease_ttl :: "aodv_pkt \<Rightarrow> aodv_pkt" where
  "aodv_pkt_decrease_ttl pkt = pkt\<lparr>pkt_ttl := pkt_ttl pkt - 1\<rparr>"

definition aodv_pkt_get_address :: "aodv_pkt \<Rightarrow> in_addr" where
  "aodv_pkt_get_address pkt = ntohl (sin_addr (pkt_address pkt))"

definition aodv_pkt_set_address :: "aodv_pkt \<Rightarrow> in_addr \<Rightarrow> aodv_pkt" where
  "aodv_pkt_set_address pkt addr = pkt\<lparr>pkt_address := (pkt_address pkt)\<lparr>sin_addr := htonl addr\<rparr>\<rparr>"

definition aodv_pkt_get_payload_len :: "aodv_pkt \<Rightarrow> int" where
  "aodv_pkt_get_payload_len pkt = int (pkt_payload_len pkt)"

definition aodv_pkt_get_size :: "aodv_pkt \<Rightarrow> nat" where
  "aodv_pkt_get_size pkt = pkt_payload_len pkt"

text \<open>Reading the first byte of an absent or empty payload is undefined.\<close>

definition aodv_pkt_get_type :: "aodv_pkt \<Rightarrow> int option" where
  "aodv_pkt_get_type pkt = (case pkt_payload pkt of
       Some (b # _) \<Rightarrow> Some (sint b)
     | _ \<Rightarrow> None)"

section \<open>Structures over the payload\<close>

definition pkt_rreq :: "aodv_pkt \<Rightarrow> aodv_rreq option" where
  "pkt_rreq pkt = do { bs \<leftarrow> pkt_payload pkt; defined_if (24 \<le> length bs) (Some (rreq_of bs)) }"

definition set_pkt_rreq :: "aodv_rreq \<Rightarrow> aodv_pkt \<Rightarrow> aodv_pkt option" where
  "set_pkt_rreq r pkt = do { bs \<leftarrow> pkt_payload pkt;
     defined_if (24 \<le> length bs) (Some (pkt\<lparr>pkt_payload := Some (rreq_bytes r @ drop 24 bs)\<rparr>)) }"

definition pkt_rrep :: "aodv_pkt \<Rightarrow> aodv_rrep option" where
  "pkt_rrep pkt = do { bs \<leftarrow> pkt_payload pkt; defined_if (20 \<le> length bs) (Some (rrep_of bs)) }"

definition set_pkt_rrep :: "aodv_rrep \<Rightarrow> aodv_pkt \<Rightarrow> aodv_pkt option" where
  "set_pkt_rrep r pkt = do { bs \<leftarrow> pkt_payload pkt;
     defined_if (20 \<le> length bs) (Some (pkt\<lparr>pkt_payload := Some (rrep_bytes r @ drop 20 bs)\<rparr>)) }"

definition rreq_swap :: "aodv_rreq \<Rightarrow> aodv_rreq" where
  "rreq_swap r = r\<lparr>rreq_rreq_id := ntohl (rreq_rreq_id r), rreq_dest_ip_addr := ntohl (rreq_dest_ip_addr r),
     rreq_dest_seq_num := ntohl (rreq_dest_seq_num r), rreq_orig_ip_addr := ntohl (rreq_orig_ip_addr r),
     rreq_orig_seq_num := ntohl (rreq_orig_seq_num r)\<rparr>"

definition rrep_swap :: "aodv_rrep \<Rightarrow> aodv_rrep" where
  "rrep_swap r = r\<lparr>rrep_dest_ip_addr := ntohl (rrep_dest_ip_addr r),
     rrep_dest_seq_num := ntohl (rrep_dest_seq_num r), rrep_orig_ip_addr := ntohl (rrep_orig_ip_addr r),
     rrep_lifetime := ntohl (rrep_lifetime r)\<rparr>"

definition aodv_pkt_prepare_rreq :: "aodv_rreq \<Rightarrow> aodv_rreq" where
  "aodv_pkt_prepare_rreq r = r\<lparr>rreq_rreq_id := htonl (rreq_rreq_id r),
     rreq_dest_ip_addr := htonl (rreq_dest_ip_addr r), rreq_dest_seq_num := htonl (rreq_dest_seq_num r),
     rreq_orig_ip_addr := htonl (rreq_orig_ip_addr r), rreq_orig_seq_num := htonl (rreq_orig_seq_num r)\<rparr>"

definition aodv_pkt_prepare_rrep :: "aodv_rrep \<Rightarrow> aodv_rrep" where
  "aodv_pkt_prepare_rrep r = r\<lparr>rrep_dest_ip_addr := htonl (rrep_dest_ip_addr r),
     rrep_dest_seq_num := htonl (rrep_dest_seq_num r), rrep_orig_ip_addr := htonl (rrep_orig_ip_addr r),
     rrep_lifetime := htonl (rrep_lifetime r)\<rparr>"

section \<open>Checking a received packet\<close>

definition count_bad :: "(statistics_t \<Rightarrow> statistics_t) \<Rightarrow> aodv_pkt \<Rightarrow> world \<Rightarrow> (bool \<times> aodv_pkt \<times> world) option" where
  "count_bad f pkt w = Some (False, pkt, upd_stats f w)"

definition aodv_pkt_check :: "aodv_pkt \<Rightarrow> world \<Rightarrow> (bool \<times> aodv_pkt \<times> world) option" where
  "aodv_pkt_check pkt w = do {
     type \<leftarrow> aodv_pkt_get_type pkt;
     if type = AODV_RREQ then
       (if 24 \<le> aodv_pkt_get_payload_len pkt then do {
          rreq \<leftarrow> pkt_rreq pkt;
          pkt \<leftarrow> set_pkt_rreq (rreq_swap rreq) pkt;
          Some (True, pkt, w) }
        else count_bad (\<lambda>s. s\<lparr>rreq_incorrect_size := rreq_incorrect_size s + 1\<rparr>) pkt w)
     else if type = AODV_RREP then
       (if 20 \<le> aodv_pkt_get_payload_len pkt then do {
          rrep \<leftarrow> pkt_rrep pkt;
          pkt \<leftarrow> set_pkt_rrep (rrep_swap rrep) pkt;
          Some (True, pkt, w) }
        else count_bad (\<lambda>s. s\<lparr>rrep_incorrect_size := rrep_incorrect_size s + 1\<rparr>) pkt w)
     else if type = AODV_RERR then
       (if aodv_pkt_get_payload_len pkt \<ge> 4 + 8 then do {
          bs \<leftarrow> pkt_payload pkt;
          let rerr = rerr_of bs;
          if rerr_dest_count rerr = 0 then
            count_bad (\<lambda>s. s\<lparr>rerr_dest_cont_zero := rerr_dest_cont_zero s + 1\<rparr>) pkt w
          else if aodv_pkt_get_payload_len pkt = 4 + 8 * uint (rerr_dest_count rerr) then Some (True, pkt, w)
          else count_bad (\<lambda>s. s\<lparr>rerr_incorrect_size := rerr_incorrect_size s + 1\<rparr>) pkt w }
        else count_bad (\<lambda>s. s\<lparr>rerr_incorrect_size := rerr_incorrect_size s + 1\<rparr>) pkt w)
     else if type = AODV_RREP_ACK then
       (if 2 \<le> aodv_pkt_get_payload_len pkt then Some (True, pkt, w)
        else count_bad (\<lambda>s. s\<lparr>rrep_ack_incorrect_size := rrep_ack_incorrect_size s + 1\<rparr>) pkt w)
     else Some (False, pkt, w) }"

section \<open>Building packets\<close>

definition aodv_pkt_build_rrep ::
  "aodv_pkt \<Rightarrow> u8 \<Rightarrow> u8 \<Rightarrow> u8 \<Rightarrow> in_addr \<Rightarrow> u32 \<Rightarrow> in_addr \<Rightarrow> u32 \<Rightarrow> aodv_pkt" where
  "aodv_pkt_build_rrep pkt flags prefix_sz hop_count dest_ip_addr dest_seq_num orig_ip_addr lifetime =
     pkt\<lparr>pkt_payload_len := 20, pkt_payload := Some (rrep_bytes
       \<lparr>rrep_type = 2, rrep_reserved2 = 0, rrep_flags = flags, rrep_prefix_sz = prefix_sz,
        rrep_reserved = 0, rrep_hop_count = hop_count, rrep_dest_ip_addr = htonl dest_ip_addr,
        rrep_dest_seq_num = htonl dest_seq_num, rrep_orig_ip_addr = htonl orig_ip_addr,
        rrep_lifetime = htonl lifetime\<rparr>)\<rparr>"

definition aodv_pkt_build_rreq ::
  "aodv_pkt \<Rightarrow> u8 \<Rightarrow> u8 \<Rightarrow> u32 \<Rightarrow> in_addr \<Rightarrow> u32 \<Rightarrow> in_addr \<Rightarrow> u32 \<Rightarrow> aodv_pkt" where
  "aodv_pkt_build_rreq pkt flags hop_count rreq_id dest_ip_addr dest_seq_num orig_ip_addr orig_seq_num =
     pkt\<lparr>pkt_payload_len := 24, pkt_payload := Some (rreq_bytes
       \<lparr>rreq_type = 1, rreq_reserved2 = 0, rreq_flags = flags, rreq_reserved = 0,
        rreq_hop_count = hop_count, rreq_rreq_id = htonl rreq_id, rreq_dest_ip_addr = htonl dest_ip_addr,
        rreq_dest_seq_num = htonl dest_seq_num, rreq_orig_ip_addr = htonl orig_ip_addr,
        rreq_orig_seq_num = htonl orig_seq_num\<rparr>)\<rparr>"

definition aodv_pkt_build_rrep_ack :: "aodv_pkt \<Rightarrow> aodv_pkt" where
  "aodv_pkt_build_rrep_ack pkt = pkt\<lparr>pkt_payload_len := 2,
     pkt_payload := Some (rrep_ack_bytes \<lparr>ack_type = 4, ack_reserved = 0\<rparr>)\<rparr>"

definition aodv_pkt_send_rrep_ack :: "aodv_rrep_ack \<Rightarrow> int \<Rightarrow> int" where
  "aodv_pkt_send_rrep_ack to_sent ttl = 0"

text \<open>
  \<open>aodv_pkt_build_rerr\<close>: \<open>(struct unrecheable_dest*)rerr + sizeof(struct aodv_rerr)\<close> is four
  structures of eight bytes, not four bytes, past the start of the buffer.
\<close>

definition write_at :: "u8 list \<Rightarrow> nat \<Rightarrow> u8 list \<Rightarrow> u8 list option" where
  "write_at bs i xs = defined_if (i + length xs \<le> length bs)
     (Some (take i bs @ xs @ drop (i + length xs) bs))"

fun write_dests :: "nat \<Rightarrow> unrecheable_dest list \<Rightarrow> u8 list \<Rightarrow> u8 list option" where
  "write_dests i [] bs = Some bs"
| "write_dests i (d # ds) bs = do {
     bs \<leftarrow> write_at bs i (store32 (htonl (ud_ip_addr d)) @ store32 (htonl (ud_seq_num d)));
     write_dests (i + 8) ds bs }"

definition aodv_pkt_build_rerr :: "aodv_pkt \<Rightarrow> u8 \<Rightarrow> u8 \<Rightarrow> unrecheable_dest list \<Rightarrow> aodv_pkt option" where
  "aodv_pkt_build_rerr pkt flag dest_count dests = do {
     let len = 4 + unat dest_count * 8;
     let bs = rerr_bytes \<lparr>rerr_type = 3, rerr_reserved2 = 0, rerr_flag = flag, rerr_reserved = 0,
               rerr_dest_count = dest_count\<rparr> @ replicate (unat dest_count * 8) 0;
     bs \<leftarrow> defined_if (unat dest_count \<le> length dests)
       (write_dests (4 * 8) (take (unat dest_count) dests) bs);
     Some (pkt\<lparr>pkt_payload_len := len, pkt_payload := Some bs\<rparr>) }"

section \<open>Layouts and bytes correspond\<close>

lemma length_rreq_bytes [simp]: "length (rreq_bytes r) = 24"
  by (simp add: rreq_bytes_def)

lemma length_rrep_bytes [simp]: "length (rrep_bytes r) = 20"
  by (simp add: rrep_bytes_def)

lemma low_field_pack [simp]: "low_field k (pack k a b) = low_field k a"
  unfolding low_field_def pack_def by (rule bit_word_eqI) (auto simp: bit_simps)

lemma high_field_pack [simp]: "high_field k (pack k a b) = take_bit (8 - k) b"
  unfolding high_field_def pack_def by (rule bit_word_eqI) (auto simp: bit_simps)

lemma pack_fields [simp]: "pack k (low_field k b) (high_field k b) = b"
  unfolding low_field_def high_field_def pack_def
proof (rule bit_word_eqI)
  fix n
  show "bit ((b AND mask k) AND mask k OR push_bit k (drop_bit k b)) n = bit b n" if "n < LENGTH(8)"
    using that by (cases "n < k") (auto simp: bit_simps)
qed

text \<open>The values a structure has once its fields are as narrow as their bit-fields.\<close>

definition rreq_fits :: "aodv_rreq \<Rightarrow> aodv_rreq" where
  "rreq_fits r = r\<lparr>rreq_reserved2 := low_field 3 (rreq_reserved2 r), rreq_flags := take_bit 5 (rreq_flags r)\<rparr>"

definition rrep_fits :: "aodv_rrep \<Rightarrow> aodv_rrep" where
  "rrep_fits r = r\<lparr>rrep_reserved2 := low_field 6 (rrep_reserved2 r), rrep_flags := take_bit 2 (rrep_flags r),
     rrep_prefix_sz := low_field 5 (rrep_prefix_sz r), rrep_reserved := take_bit 3 (rrep_reserved r)\<rparr>"

lemma rreq_of_bytes [simp]: "rreq_of (rreq_bytes r @ rest) = rreq_fits r"
  by (cases r) (simp add: rreq_of_def rreq_bytes_def rreq_fits_def load32_def store32_def)

lemma rrep_of_bytes [simp]: "rrep_of (rrep_bytes r @ rest) = rrep_fits r"
  by (cases r) (simp add: rrep_of_def rrep_bytes_def rrep_fits_def load32_def store32_def)

lemma take4: "i + 4 \<le> length bs \<Longrightarrow> take 4 (drop i bs) = [bs ! i, bs ! (i + 1), bs ! (i + 2), bs ! (i + 3)]"
  by (rule nth_equalityI) (auto simp: less_Suc_eq numeral_nat)

lemma store32_load32: "i + 4 \<le> length bs \<Longrightarrow> store32 (load32 bs i) = take 4 (drop i bs)"
  by (simp add: store32_def load32_def take4)

lemma take_words:
  "take 24 bs = take 4 (drop 0 bs) @ take 4 (drop 4 bs) @ take 4 (drop 8 bs) @ take 4 (drop 12 bs) @
      take 4 (drop 16 bs) @ take 4 (drop 20 bs)"
  "take 20 bs = take 4 (drop 0 bs) @ take 4 (drop 4 bs) @ take 4 (drop 8 bs) @ take 4 (drop 12 bs) @
      take 4 (drop 16 bs)"
  using take_add [of 4 20 bs] take_add [of 4 16 "drop 4 bs"] take_add [of 4 12 "drop 8 bs"]
    take_add [of 4 8 "drop 12 bs"] take_add [of 4 4 "drop 16 bs"]
    take_add [of 4 16 bs] take_add [of 4 12 "drop 4 bs"] take_add [of 4 8 "drop 8 bs"]
    take_add [of 4 4 "drop 12 bs"] by simp_all

lemma take4_start: "4 \<le> length bs \<Longrightarrow> take 4 bs = [bs ! 0, bs ! 1, bs ! 2, bs ! 3]"
  using take4 [of 0 bs] by (simp add: numeral_2_eq_2)

lemma rreq_bytes_of: "24 \<le> length bs \<Longrightarrow> rreq_bytes (rreq_of bs) = take 24 bs"
  by (subst take_words) (simp add: rreq_bytes_def rreq_of_def store32_load32 take4_start)

lemma rrep_bytes_of: "20 \<le> length bs \<Longrightarrow> rrep_bytes (rrep_of bs) = take 20 bs"
  by (subst take_words(2)) (simp add: rrep_bytes_def rrep_of_def store32_load32 take4_start)

lemma swap_prepare [simp]:
  "rreq_swap (aodv_pkt_prepare_rreq r) = r" "aodv_pkt_prepare_rreq (rreq_swap r) = r"
  "rrep_swap (aodv_pkt_prepare_rrep p) = p" "aodv_pkt_prepare_rrep (rrep_swap p) = p"
  by (simp_all add: rreq_swap_def aodv_pkt_prepare_rreq_def rrep_swap_def aodv_pkt_prepare_rrep_def)

lemma prepare_fits [simp]:
  "rreq_fits (aodv_pkt_prepare_rreq r) = aodv_pkt_prepare_rreq (rreq_fits r)"
  "rrep_fits (aodv_pkt_prepare_rrep p) = aodv_pkt_prepare_rrep (rrep_fits p)"
  by (simp_all add: rreq_fits_def aodv_pkt_prepare_rreq_def rrep_fits_def aodv_pkt_prepare_rrep_def)

section \<open>Received packets\<close>

text \<open>A packet whose payload is there and as long as it says.\<close>

definition pkt_ok :: "aodv_pkt \<Rightarrow> bool" where
  "pkt_ok pkt \<longleftrightarrow> (\<exists>b bs. pkt_payload pkt = Some (b # bs) \<and> pkt_payload_len pkt = Suc (length bs))"

lemma pkt_rreq_set:
  "set_pkt_rreq r pkt = Some pkt' \<Longrightarrow> pkt_rreq pkt' = Some (rreq_fits r)"
  by (auto simp: set_pkt_rreq_def pkt_rreq_def split: option.splits bind_splits)

lemma pkt_rrep_set:
  "set_pkt_rrep r pkt = Some pkt' \<Longrightarrow> pkt_rrep pkt' = Some (rrep_fits r)"
  by (auto simp: set_pkt_rrep_def pkt_rrep_def split: option.splits bind_splits)

text \<open>Checking touches the payload, the statistics, and nothing else.\<close>

definition checked :: "aodv_pkt \<Rightarrow> aodv_pkt \<Rightarrow> bool" where
  "checked pkt pkt' \<longleftrightarrow> pkt_ok pkt' \<and> aodv_pkt_get_type pkt' = aodv_pkt_get_type pkt \<and>
     (aodv_pkt_get_type pkt = Some AODV_RREQ \<longrightarrow> 24 \<le> pkt_payload_len pkt \<and>
        (\<exists>r. pkt_rreq pkt = Some r \<and> set_pkt_rreq (rreq_swap r) pkt = Some pkt')) \<and>
     (aodv_pkt_get_type pkt = Some AODV_RREP \<longrightarrow> 20 \<le> pkt_payload_len pkt \<and>
        (\<exists>r. pkt_rrep pkt = Some r \<and> set_pkt_rrep (rrep_swap r) pkt = Some pkt')) \<and>
     (aodv_pkt_get_type pkt \<noteq> Some AODV_RREQ \<longrightarrow> aodv_pkt_get_type pkt \<noteq> Some AODV_RREP \<longrightarrow>
        pkt' = pkt \<and> aodv_pkt_get_type pkt \<in> {Some AODV_RERR, Some AODV_RREP_ACK})"

lemmas aodv_types = AODV_RREQ_def AODV_RREP_def AODV_RERR_def AODV_RREP_ACK_def

lemma pkt_ok_set_rreq:
  assumes "pkt_ok pkt" "24 \<le> pkt_payload_len pkt"
  obtains r pkt' where "pkt_rreq pkt = Some r" "set_pkt_rreq (rreq_swap r) pkt = Some pkt'" "pkt_ok pkt'"
    "aodv_pkt_get_type pkt' = aodv_pkt_get_type pkt" "pkt_address pkt' = pkt_address pkt" "pkt_ttl pkt' = pkt_ttl pkt"
proof -
  obtain b bs where p: "pkt_payload pkt = Some (b # bs)" "pkt_payload_len pkt = Suc (length bs)"
    using assms(1) by (auto simp: pkt_ok_def)
  let ?r = "rreq_of (b # bs)"
  let ?p = "pkt\<lparr>pkt_payload := Some (rreq_bytes (rreq_swap ?r) @ drop 24 (b # bs))\<rparr>"
  have "pkt_rreq pkt = Some ?r" "set_pkt_rreq (rreq_swap ?r) pkt = Some ?p"
    using p assms(2) by (simp_all add: pkt_rreq_def set_pkt_rreq_def)
  moreover have "pkt_ok ?p"
    using p assms(2) by (simp add: pkt_ok_def rreq_bytes_def store32_def)
  moreover have "aodv_pkt_get_type ?p = aodv_pkt_get_type pkt"
    using p(1) by (simp add: aodv_pkt_get_type_def rreq_bytes_def rreq_swap_def rreq_of_def)
  ultimately show ?thesis using that [of ?r ?p] by simp
qed

lemma pkt_ok_set_rrep:
  assumes "pkt_ok pkt" "20 \<le> pkt_payload_len pkt"
  obtains r pkt' where "pkt_rrep pkt = Some r" "set_pkt_rrep (rrep_swap r) pkt = Some pkt'" "pkt_ok pkt'"
    "aodv_pkt_get_type pkt' = aodv_pkt_get_type pkt" "pkt_address pkt' = pkt_address pkt" "pkt_ttl pkt' = pkt_ttl pkt"
proof -
  obtain b bs where p: "pkt_payload pkt = Some (b # bs)" "pkt_payload_len pkt = Suc (length bs)"
    using assms(1) by (auto simp: pkt_ok_def)
  let ?r = "rrep_of (b # bs)"
  let ?p = "pkt\<lparr>pkt_payload := Some (rrep_bytes (rrep_swap ?r) @ drop 20 (b # bs))\<rparr>"
  have "pkt_rrep pkt = Some ?r" "set_pkt_rrep (rrep_swap ?r) pkt = Some ?p"
    using p assms(2) by (simp_all add: pkt_rrep_def set_pkt_rrep_def)
  moreover have "pkt_ok ?p"
    using p assms(2) by (simp add: pkt_ok_def rrep_bytes_def store32_def)
  moreover have "aodv_pkt_get_type ?p = aodv_pkt_get_type pkt"
    using p(1) by (simp add: aodv_pkt_get_type_def rrep_bytes_def rrep_swap_def rrep_of_def)
  ultimately show ?thesis using that [of ?r ?p] by simp
qed

lemma aodv_pkt_check_ok:
  assumes "pkt_ok pkt"
  shows "runs (aodv_pkt_check pkt w) (\<lambda>(b, pkt', w'). (\<exists>f. w' = upd_stats f w) \<and>
    pkt_address pkt' = pkt_address pkt \<and> pkt_ttl pkt' = pkt_ttl pkt \<and> (b \<longrightarrow> w' = w \<and> checked pkt pkt'))"
proof -
  obtain b bs where p: "pkt_payload pkt = Some (b # bs)" "pkt_payload_len pkt = Suc (length bs)"
    using assms by (auto simp: pkt_ok_def)
  then have t: "aodv_pkt_get_type pkt = Some (sint b)" by (simp add: aodv_pkt_get_type_def)
  have len: "aodv_pkt_get_payload_len pkt = int (pkt_payload_len pkt)" by (simp add: aodv_pkt_get_payload_len_def)
  have same: "\<exists>f. w = upd_stats f w" by (rule exI [of _ "\<lambda>s. s"]) (simp add: upd_stats_def)
  consider (q) "sint b = AODV_RREQ" "24 \<le> pkt_payload_len pkt" | (p) "sint b = AODV_RREP" "20 \<le> pkt_payload_len pkt"
    | (o) "sint b = AODV_RREQ \<longrightarrow> pkt_payload_len pkt < 24" "sint b = AODV_RREP \<longrightarrow> pkt_payload_len pkt < 20"
    by linarith
  then show ?thesis
  proof cases
    case q
    obtain r pkt' where r: "pkt_rreq pkt = Some r" "set_pkt_rreq (rreq_swap r) pkt = Some pkt'" "pkt_ok pkt'"
      "aodv_pkt_get_type pkt' = aodv_pkt_get_type pkt" "pkt_address pkt' = pkt_address pkt" "pkt_ttl pkt' = pkt_ttl pkt"
      using pkt_ok_set_rreq [OF assms q(2)] by blast
    have "aodv_pkt_check pkt w = Some (True, pkt', w)" using q r t by (simp add: aodv_pkt_check_def len)
    then show ?thesis using q r same t by (auto simp: checked_def aodv_types)
  next
    case p
    obtain r pkt' where r: "pkt_rrep pkt = Some r" "set_pkt_rrep (rrep_swap r) pkt = Some pkt'" "pkt_ok pkt'"
      "aodv_pkt_get_type pkt' = aodv_pkt_get_type pkt" "pkt_address pkt' = pkt_address pkt" "pkt_ttl pkt' = pkt_ttl pkt"
      using pkt_ok_set_rrep [OF assms p(2)] by blast
    have "aodv_pkt_check pkt w = Some (True, pkt', w)"
      using p r t by (simp add: aodv_pkt_check_def len AODV_RREQ_def AODV_RREP_def)
    then show ?thesis using p r same t by (auto simp: checked_def aodv_types)
  next
    case o
    define Q where "Q = (\<lambda>(b, pkt', w'). (\<exists>f. w' = upd_stats f w) \<and>
      pkt_address pkt' = pkt_address pkt \<and> pkt_ttl pkt' = pkt_ttl pkt \<and> (b \<longrightarrow> w' = w \<and> checked pkt pkt'))"
    have bad: "runs (count_bad f pkt w) Q" for f by (auto simp: count_bad_def Q_def)
    have no: "Q (False, pkt, w)" using same by (simp add: Q_def)
    have yes: "Q (True, pkt, w)" if "sint b = AODV_RERR \<or> sint b = AODV_RREP_ACK"
      using that same assms t by (auto simp: Q_def checked_def aodv_types)
    show ?thesis
      using o bad no yes p(1) unfolding Q_def [symmetric]
      by (cases "sint b = AODV_RREQ"; cases "sint b = AODV_RREP"; cases "sint b = AODV_RERR")
        (simp_all add: aodv_pkt_check_def len t Let_def not_le [symmetric])
  qed
qed

section \<open>What is built is what is read\<close>

lemma rreq_swap_fits [simp]: "rreq_swap (rreq_fits r) = rreq_fits (rreq_swap r)"
  by (simp add: rreq_swap_def rreq_fits_def)

lemma rrep_swap_fits [simp]: "rrep_swap (rrep_fits r) = rrep_fits (rrep_swap r)"
  by (simp add: rrep_swap_def rrep_fits_def)

lemma fits_idem [simp]: "rreq_fits (rreq_fits r) = rreq_fits r" "rrep_fits (rrep_fits p) = rrep_fits p"
  by (simp_all add: rreq_fits_def rrep_fits_def low_field_def)

section \<open>What is accepted\<close>

lemma checked_rerr:
  assumes "aodv_pkt_get_type pkt = Some AODV_RERR" "pkt_payload pkt = Some bs" "aodv_pkt_check pkt w = Some (True, pkt', w')"
  shows "rerr_dest_count (rerr_of bs) \<noteq> 0 \<and> aodv_pkt_get_payload_len pkt = 4 + 8 * uint (rerr_dest_count (rerr_of bs))"
  using assms(3) unfolding aodv_pkt_check_def assms(1,2) count_bad_def Let_def Option.bind.simps
  by (simp add: aodv_types split: if_split_asm)

text \<open>
  C28: a packet that passes \<open>aodv_pkt_check\<close> has the type that its first byte says, and this type is
  one of the four of the protocol; its payload is long enough for the structure of that type, so
  that the structure can be read, with values that fit its bit-fields; and an error message has
  exactly the length that its number of destinations asks for.
\<close>
theorem accepted_packet_is_typed:
  assumes "pkt_ok pkt" "aodv_pkt_check pkt w = Some (True, pkt', w')"
  shows "\<exists>t bs. aodv_pkt_get_type pkt' = Some t \<and> pkt_payload pkt' = Some bs \<and> pkt_payload_len pkt' = length bs \<and>
    (t = AODV_RREQ \<and> (\<exists>q. pkt_rreq pkt' = Some q \<and> rreq_fits q = q) \<or>
     t = AODV_RREP \<and> (\<exists>r. pkt_rrep pkt' = Some r \<and> rrep_fits r = r) \<or>
     t = AODV_RERR \<and> rerr_dest_count (rerr_of bs) \<noteq> 0 \<and> length bs = 4 + 8 * unat (rerr_dest_count (rerr_of bs)) \<or>
     t = AODV_RREP_ACK \<and> 2 \<le> length bs)"
proof -
  have c: "checked pkt pkt'" using aodv_pkt_check_ok [OF assms(1), of w] assms(2) by simp
  then obtain b bs where p: "pkt_payload pkt' = Some (b # bs)" "pkt_payload_len pkt' = length (b # bs)"
    by (auto simp: checked_def pkt_ok_def)
  then have t: "aodv_pkt_get_type pkt' = Some (sint b)" by (simp add: aodv_pkt_get_type_def)
  have ty: "aodv_pkt_get_type pkt = Some (sint b)" using c t by (simp add: checked_def)
  consider "sint b = AODV_RREQ" | "sint b = AODV_RREP" | "sint b = AODV_RERR" "pkt' = pkt" | "sint b = AODV_RREP_ACK" "pkt' = pkt"
    using c ty by (auto simp: checked_def)
  then have "sint b = AODV_RREQ \<and> (\<exists>q. pkt_rreq pkt' = Some q \<and> rreq_fits q = q) \<or>
     sint b = AODV_RREP \<and> (\<exists>r. pkt_rrep pkt' = Some r \<and> rrep_fits r = r) \<or>
     sint b = AODV_RERR \<and> rerr_dest_count (rerr_of (b # bs)) \<noteq> 0 \<and>
       length (b # bs) = 4 + 8 * unat (rerr_dest_count (rerr_of (b # bs))) \<or>
     sint b = AODV_RREP_ACK \<and> 2 \<le> length (b # bs)"
  proof cases
    case 1
    then show ?thesis using c ty pkt_rreq_set by (fastforce simp: checked_def)
  next
    case 2
    then show ?thesis using c ty pkt_rrep_set by (fastforce simp: checked_def)
  next
    case 3
    then have len: "aodv_pkt_get_payload_len pkt = int (length (b # bs))" "pkt_payload pkt = Some (b # bs)"
      using p by (simp_all add: aodv_pkt_get_payload_len_def)
    let ?n = "rerr_dest_count (rerr_of (b # bs))"
    have "?n \<noteq> 0 \<and> int (length (b # bs)) = 4 + 8 * uint ?n"
      using checked_rerr [OF ty [unfolded 3(1)] len(2) assms(2)] unfolding len(1) .
    then have "?n \<noteq> 0" "length (b # bs) = 4 + 8 * unat ?n" unfolding uint_nat by linarith+
    then show ?thesis using 3(1) by blast
  next
    case 4
    then have len: "aodv_pkt_get_payload_len pkt = int (length (b # bs))"
      using p by (simp add: aodv_pkt_get_payload_len_def)
    have "2 \<le> length (b # bs)"
      using assms(2) 4(1) unfolding aodv_pkt_check_def ty len count_bad_def
      by (simp add: aodv_types split: if_split_asm)
    then show ?thesis using 4(1) by blast
  qed
  then show ?thesis using p t by blast
qed

theorem accepted_packet_is_typed_witness:
  "\<exists>t. aodv_pkt_get_type (zero_pkt\<lparr>pkt_payload := Some [4, 0], pkt_payload_len := 2\<rparr>) = Some t \<and> t = AODV_RREP_ACK"
proof -
  let ?p = "zero_pkt\<lparr>pkt_payload := Some [4, 0], pkt_payload_len := 2\<rparr>"
  have "pkt_ok ?p" "aodv_pkt_check ?p w = Some (True, ?p, w)" for w
    by (simp_all add: pkt_ok_def aodv_pkt_check_def aodv_pkt_get_type_def aodv_pkt_get_payload_len_def aodv_types)
  from accepted_packet_is_typed [OF this] show ?thesis
    by (auto simp: aodv_pkt_get_type_def aodv_types)
qed

text \<open>
  C29: a route request that \<open>aodv_pkt_build_rreq\<close> builds passes \<open>aodv_pkt_check\<close> at the receiver,
  whatever the addresses and the numbers are, and the receiver then reads the values the
  sender gave, in host order (the flags are five bits wide). The statistics do not change.
\<close>

theorem built_rreq_is_read:
  "\<exists>pkt'. aodv_pkt_check (aodv_pkt_build_rreq pkt flags hops rid dest dseq orig oseq) w = Some (True, pkt', w) \<and>
     aodv_pkt_get_type pkt' = Some AODV_RREQ \<and> pkt_ttl pkt' = pkt_ttl pkt \<and>
     pkt_rreq pkt' = Some \<lparr>rreq_type = 1, rreq_reserved2 = 0, rreq_flags = take_bit 5 flags, rreq_reserved = 0,
        rreq_hop_count = hops, rreq_rreq_id = rid, rreq_dest_ip_addr = dest, rreq_dest_seq_num = dseq,
        rreq_orig_ip_addr = orig, rreq_orig_seq_num = oseq\<rparr>"
proof -
  let ?p = "aodv_pkt_build_rreq pkt flags hops rid dest dseq orig oseq"
  let ?r = "\<lparr>rreq_type = 1, rreq_reserved2 = 0, rreq_flags = flags, rreq_reserved = 0,
        rreq_hop_count = hops, rreq_rreq_id = rid, rreq_dest_ip_addr = dest, rreq_dest_seq_num = dseq,
        rreq_orig_ip_addr = orig, rreq_orig_seq_num = oseq\<rparr>"
  have p: "pkt_payload ?p = Some (rreq_bytes (aodv_pkt_prepare_rreq ?r))" "pkt_payload_len ?p = 24"
    by (simp_all add: aodv_pkt_build_rreq_def aodv_pkt_prepare_rreq_def)
  have r: "pkt_rreq ?p = Some (rreq_fits (aodv_pkt_prepare_rreq ?r))"
    using p rreq_of_bytes [of "aodv_pkt_prepare_rreq ?r" "[]"] by (simp add: pkt_rreq_def del: prepare_fits)
  obtain pkt' where s: "set_pkt_rreq (rreq_swap (rreq_fits (aodv_pkt_prepare_rreq ?r))) ?p = Some pkt'"
    using p by (simp add: set_pkt_rreq_def)
  have t: "aodv_pkt_get_type ?p = Some AODV_RREQ" "aodv_pkt_get_type pkt' = Some AODV_RREQ"
    using s p(1) by (auto simp: aodv_pkt_get_type_def set_pkt_rreq_def rreq_bytes_def rreq_swap_def rreq_fits_def
        aodv_pkt_prepare_rreq_def AODV_RREQ_def)
  have "aodv_pkt_check ?p w = Some (True, pkt', w)"
    using r s t p(2) by (simp add: aodv_pkt_check_def aodv_pkt_get_payload_len_def)
  moreover have "pkt_rreq pkt' = Some (rreq_fits ?r)"
    using pkt_rreq_set [OF s] by simp
  moreover have "pkt_ttl pkt' = pkt_ttl pkt"
    using s by (auto simp: set_pkt_rreq_def aodv_pkt_build_rreq_def)
  ultimately show ?thesis using t(2) by (simp add: rreq_fits_def low_field_def)
qed

text \<open>
  A route reply that \<open>aodv_pkt_build_rrep\<close> builds passes \<open>aodv_pkt_check\<close> at the receiver and
  is read back with the values the sender gave, in host order (two bits of flags, five of
  prefix size).
\<close>

theorem built_rrep_is_read:
  "\<exists>pkt'. aodv_pkt_check (aodv_pkt_build_rrep pkt flags psz hops dest dseq orig life) w = Some (True, pkt', w) \<and>
     aodv_pkt_get_type pkt' = Some AODV_RREP \<and> pkt_ttl pkt' = pkt_ttl pkt \<and>
     pkt_rrep pkt' = Some \<lparr>rrep_type = 2, rrep_reserved2 = 0, rrep_flags = take_bit 2 flags,
        rrep_prefix_sz = psz AND 31, rrep_reserved = 0, rrep_hop_count = hops, rrep_dest_ip_addr = dest,
        rrep_dest_seq_num = dseq, rrep_orig_ip_addr = orig, rrep_lifetime = life\<rparr>"
proof -
  let ?p = "aodv_pkt_build_rrep pkt flags psz hops dest dseq orig life"
  let ?r = "\<lparr>rrep_type = 2, rrep_reserved2 = 0, rrep_flags = flags,
        rrep_prefix_sz = psz, rrep_reserved = 0, rrep_hop_count = hops, rrep_dest_ip_addr = dest,
        rrep_dest_seq_num = dseq, rrep_orig_ip_addr = orig, rrep_lifetime = life\<rparr>"
  have p: "pkt_payload ?p = Some (rrep_bytes (aodv_pkt_prepare_rrep ?r))" "pkt_payload_len ?p = 20"
    by (simp_all add: aodv_pkt_build_rrep_def aodv_pkt_prepare_rrep_def)
  have r: "pkt_rrep ?p = Some (rrep_fits (aodv_pkt_prepare_rrep ?r))"
    using p rrep_of_bytes [of "aodv_pkt_prepare_rrep ?r" "[]"] by (simp add: pkt_rrep_def del: prepare_fits)
  obtain pkt' where s: "set_pkt_rrep (rrep_swap (rrep_fits (aodv_pkt_prepare_rrep ?r))) ?p = Some pkt'"
    using p by (simp add: set_pkt_rrep_def)
  have t: "aodv_pkt_get_type ?p = Some AODV_RREP" "aodv_pkt_get_type pkt' = Some AODV_RREP"
    using s p(1) by (auto simp: aodv_pkt_get_type_def set_pkt_rrep_def rrep_bytes_def rrep_swap_def rrep_fits_def
        aodv_pkt_prepare_rrep_def AODV_RREP_def)
  have "aodv_pkt_check ?p w = Some (True, pkt', w)"
    using r s t p(2) by (simp add: aodv_pkt_check_def aodv_pkt_get_payload_len_def aodv_types)
  moreover have "pkt_rrep pkt' = Some (rrep_fits ?r)"
    using pkt_rrep_set [OF s] by simp
  moreover have "pkt_ttl pkt' = pkt_ttl pkt"
    using s by (auto simp: set_pkt_rrep_def aodv_pkt_build_rrep_def)
  moreover have "low_field 5 psz = psz AND 31"
    by (simp add: low_field_def mask_eq_exp_minus_1)
  ultimately show ?thesis using t(2) by (simp add: rrep_fits_def low_field_def)
qed

section \<open>Error messages cannot be built\<close>

lemma length_write_at: "write_at bs i xs = Some bs' \<Longrightarrow> length bs' = length bs"
  by (auto simp: write_at_def)

lemma write_dests_None:
  "ds \<noteq> [] \<Longrightarrow> length bs < i + 8 * length ds \<Longrightarrow> write_dests i ds bs = None"
proof (induction ds arbitrary: i bs)
  case (Cons d ds)
  show ?case
  proof (cases "write_at bs i (store32 (htonl (ud_ip_addr d)) @ store32 (htonl (ud_seq_num d)))")
    case (Some bs')
    then have "length bs' = length bs" "i + 8 \<le> length bs"
      using length_write_at [OF Some] by (auto simp: write_at_def store32_def)
    then have "ds \<noteq> []" "length bs' < (i + 8) + 8 * length ds" using Cons.prems(2) by auto
    from Cons.IH [OF this] Some show ?thesis by simp
  qed simp
qed simp

text \<open>
  \<open>aodv_pkt_build_rerr\<close> with at least one unreachable destination writes outside the buffer
  it has allocated: the first destination goes 32 bytes past the start of a buffer of
  \<open>4 + 8 * dest_count\<close> bytes, and the last one always lies beyond its end.
\<close>

theorem build_rerr_overflows: "0 < dest_count \<Longrightarrow> aodv_pkt_build_rerr pkt flag dest_count dests = None"
proof -
  assume "0 < dest_count"
  then have pos: "0 < unat dest_count" by (simp add: word_less_nat_alt)
  have "write_dests 32 (take (unat dest_count) dests)
      (3 # pack 7 0 flag # 0 # dest_count # replicate (unat dest_count * 8) 0) = None"
    if "unat dest_count \<le> length dests"
    using that pos by (intro write_dests_None) auto
  then show ?thesis
    by (simp add: aodv_pkt_build_rerr_def Let_def defined_if_def rerr_bytes_def)
qed

theorem build_rerr_overflows_witness:
  "aodv_pkt_build_rerr zero_pkt 0 1 [\<lparr>ud_ip_addr = 7, ud_seq_num = 9\<rparr>] = None"
  by (rule build_rerr_overflows) simp

end
