(* ===== verification/Logic.thy ===== *)
theory Logic
  imports Routing_Table Rreq_Fifo Packet
begin

unbundle bit_operations_syntax

text \<open>
  The protocol, \<open>meshias_daemon/aodv/logic.c\<close>: starting a route search, and what the node does
  with the messages it receives; and the alarm of a pending request from
  \<open>meshias_daemon/rreq_fifo.c\<close>, which repeats the search.

  A handler gets the packet as a value and the state. Writing through \<open>struct aodv_rreq*\<close> or
  \<open>struct aodv_rrep*\<close> changes the payload of the packet value.
\<close>

section \<open>Searching a route\<close>

text \<open>The second half of \<open>aodv_find_route\<close>: the request is built and broadcast.\<close>

definition broadcast_rreq :: "env \<Rightarrow> in_addr \<Rightarrow> ptr option \<Rightarrow> u8 \<Rightarrow> world \<Rightarrow> world option" where
  "broadcast_rreq E dest inv_route prev_tries w = do {
     let (pkt, w) = aodv_pkt_alloc w;
     hop_count \<leftarrow> (case inv_route of Some r \<Rightarrow> msh_route_get_hop_count r w | None \<Rightarrow> Some 0);
     dest_seq_num \<leftarrow> (case inv_route of Some r \<Rightarrow> msh_route_get_dest_seq_num r w | None \<Rightarrow> Some 0);
     let flags = RREQ_GRATUITOUS_RREP_FLAG;
     let flags = flags OR (if inv_route = None then RREQ_UNKNOWN_SEQ_NUM_FLAG else 0);
     let pkt = aodv_pkt_set_ttl pkt (ucast (expanding_ring_search_ttl hop_count prev_tries));
     let pkt = aodv_pkt_build_rreq pkt flags hop_count (w_rreq_id w) dest dest_seq_num (w_ip_addr w) (w_seq_num w);
     let pkt = aodv_pkt_set_address pkt (w_broadcast_addr w);
     let w = w\<lparr>w_num_rreq_sent := w_num_rreq_sent w + 1\<rparr>;
     let (pkt, w) = aodv_pkt_send E pkt w;
     Some (aodv_pkt_destroy pkt w) }"

definition aodv_find_route :: "env \<Rightarrow> in_addr \<Rightarrow> ptr option \<Rightarrow> u8 \<Rightarrow> world \<Rightarrow> world option" where
  "aodv_find_route E dest inv_route prev_tries w = do {
     let w = w\<lparr>w_seq_num := w_seq_num w + 1\<rparr>;
     let w = w\<lparr>w_rreq_id := w_rreq_id w + 1\<rparr>;
     w \<leftarrow> (if prev_tries = 0 then rreq_fifo_push_owned E (w_rreq_id w) dest prev_tries w else Some w);
     broadcast_rreq E dest inv_route prev_tries w }"

section \<open>Answering a request\<close>

definition answer_as_destination :: "env \<Rightarrow> aodv_rreq \<Rightarrow> in_addr \<Rightarrow> world \<Rightarrow> world" where
  "answer_as_destination E rreq prev_hop w =
     (let (pkt, w) = aodv_pkt_alloc w;
          w = (if rreq_dest_seq_num rreq = w_seq_num w then w\<lparr>w_seq_num := w_seq_num w + 1\<rparr> else w);
          pkt = aodv_pkt_set_address pkt prev_hop;
          pkt = aodv_pkt_build_rrep pkt 0 0 0 (w_ip_addr w) (w_seq_num w) (rreq_orig_ip_addr rreq) MY_ROUTE_TIMEOUT;
          (pkt, w) = aodv_pkt_send E pkt w
      in aodv_pkt_destroy pkt w)"

text \<open>The replies of an intermediate node are built and destroyed; neither is sent.\<close>

definition answer_as_intermediate ::
  "env \<Rightarrow> aodv_rreq \<Rightarrow> in_addr \<Rightarrow> ptr \<Rightarrow> ptr \<Rightarrow> world \<Rightarrow> world option" where
  "answer_as_intermediate E rreq prev_hop route_to_orig route_to_dest w = do {
     w \<leftarrow> msh_route_add_precursor route_to_dest prev_hop w;
     next_hop \<leftarrow> msh_route_get_next_hop route_to_dest w;
     w \<leftarrow> msh_route_add_precursor route_to_orig next_hop w;
     let (pkt, w) = aodv_pkt_alloc w;
     known_dest_seq_num \<leftarrow> msh_route_get_dest_seq_num route_to_dest w;
     dest_hop_count \<leftarrow> msh_route_get_hop_count route_to_dest w;
     let (now, w) = gettimeofday E w;
     (route_lifetime, w) \<leftarrow> msh_route_get_lifetime E route_to_dest w;
     let lifetime = route_lifetime - tv_ms now;
     let pkt = aodv_pkt_set_address pkt (rreq_orig_ip_addr rreq);
     let pkt = aodv_pkt_build_rrep pkt 0 0 dest_hop_count (rreq_dest_ip_addr rreq) known_dest_seq_num
                 (rreq_orig_ip_addr rreq) lifetime;
     let w = aodv_pkt_destroy pkt w;
     if rreq_flags rreq AND RREQ_GRATUITOUS_RREP_FLAG \<noteq> 0 then do {
       let (pkt, w) = aodv_pkt_alloc w;
       orig_hop_count \<leftarrow> msh_route_get_hop_count route_to_orig w;
       (orig_lifetime, w) \<leftarrow> msh_route_get_lifetime E route_to_orig w;
       let pkt = aodv_pkt_set_address pkt (rreq_dest_ip_addr rreq);
       let pkt = aodv_pkt_build_rrep pkt 0 0 orig_hop_count (rreq_orig_ip_addr rreq) (rreq_orig_seq_num rreq)
                   (rreq_dest_ip_addr rreq) orig_lifetime;
       Some (aodv_pkt_destroy pkt w) }
     else Some w }"

definition aodv_answer_to_rreq :: "env \<Rightarrow> aodv_rreq \<Rightarrow> in_addr \<Rightarrow> ptr \<Rightarrow> world \<Rightarrow> (bool \<times> world) option" where
  "aodv_answer_to_rreq E rreq prev_hop route_to_orig w =
     (if rreq_dest_ip_addr rreq = w_ip_addr w then Some (True, answer_as_destination E rreq prev_hop w)
      else do {
        (found, w) \<leftarrow> routing_table_find_by_ip (rreq_dest_ip_addr rreq) w;
        case found of
          Some route_to_dest \<Rightarrow>
            (if sint (rreq_dest_seq_num rreq) \<ge> sint (w_seq_num w) \<and>
                rreq_flags rreq AND RREQ_DEST_ONLY_FLAG = 0 then do {
               w \<leftarrow> answer_as_intermediate E rreq prev_hop route_to_orig route_to_dest w;
               Some (True, w) }
             else Some (False, w))
        | None \<Rightarrow> Some (False, w) })"

section \<open>Receiving a request\<close>

text \<open>The route to the neighbour that sent the packet.\<close>

definition rreq_prev_hop :: "env \<Rightarrow> in_addr \<Rightarrow> world \<Rightarrow> world option" where
  "rreq_prev_hop E prev_hop w = do {
     (found, w) \<leftarrow> routing_table_find_by_ip prev_hop w;
     case found of
       Some route_to_prev_hop \<Rightarrow> msh_route_set_lifetime E route_to_prev_hop ACTIVE_ROUTE_TIMEOUT w
     | None \<Rightarrow> do {
         (route_to_prev_hop, w) \<leftarrow> msh_route_alloc w;
         w \<leftarrow> msh_route_set_dst_ip route_to_prev_hop prev_hop w;
         w \<leftarrow> msh_route_set_next_hop E route_to_prev_hop prev_hop w;
         (_, w) \<leftarrow> routing_table_add E route_to_prev_hop w;
         Some w } }"

text \<open>The reverse route to the originator of the request.\<close>

definition update_orig_route ::
  "env \<Rightarrow> ptr \<Rightarrow> in_addr \<Rightarrow> u8 \<Rightarrow> u32 \<Rightarrow> u32 \<Rightarrow> world \<Rightarrow> world option" where
  "update_orig_route E route_to_orig prev_hop hop_count seq_num_new min_lifetime w = do {
     seq_num_old \<leftarrow> msh_route_get_dest_seq_num route_to_orig w;
     (lifetime_old, w) \<leftarrow> msh_route_get_lifetime E route_to_orig w;
     w \<leftarrow> msh_route_set_flag route_to_orig RTFLAG_VALID_DEST_SEQ_NUM w;
     w \<leftarrow> msh_route_set_next_hop E route_to_orig prev_hop w;
     w \<leftarrow> msh_route_set_hop_count route_to_orig hop_count w;
     w \<leftarrow> (if sint seq_num_old < sint seq_num_new
           then msh_route_set_dest_seq_num route_to_orig seq_num_new w else Some w);
     if min_lifetime > lifetime_old then msh_route_set_lifetime E route_to_orig min_lifetime w
     else Some w }"

definition create_orig_route ::
  "env \<Rightarrow> in_addr \<Rightarrow> in_addr \<Rightarrow> u8 \<Rightarrow> u32 \<Rightarrow> u32 \<Rightarrow> world \<Rightarrow> (ptr \<times> world) option" where
  "create_orig_route E addr_orig prev_hop hop_count seq_num_new min_lifetime w = do {
     (route_to_orig, w) \<leftarrow> msh_route_alloc w;
     w \<leftarrow> msh_route_set_dst_ip route_to_orig addr_orig w;
     w \<leftarrow> msh_route_set_dest_seq_num route_to_orig seq_num_new w;
     w \<leftarrow> msh_route_set_next_hop E route_to_orig prev_hop w;
     w \<leftarrow> msh_route_set_hop_count route_to_orig hop_count w;
     w \<leftarrow> msh_route_set_lifetime E route_to_orig min_lifetime w;
     w \<leftarrow> msh_route_set_flag route_to_orig RTFLAG_VALID_DEST_SEQ_NUM w;
     (_, w) \<leftarrow> routing_table_add E route_to_orig w;
     Some (route_to_orig, w) }"

definition rreq_orig_route :: "env \<Rightarrow> aodv_rreq \<Rightarrow> in_addr \<Rightarrow> u8 \<Rightarrow> world \<Rightarrow> (ptr \<times> world) option" where
  "rreq_orig_route E rreq prev_hop hop_count w = do {
     let addr_orig = rreq_orig_ip_addr rreq;
     (found, w) \<leftarrow> routing_table_find_by_ip addr_orig w;
     let seq_num_new = rreq_orig_seq_num rreq;
     let (now, w) = gettimeofday E w;
     let min_lifetime = minimal_lifetime now hop_count;
     case found of
       Some route_to_orig \<Rightarrow> do {
         w \<leftarrow> update_orig_route E route_to_orig prev_hop hop_count seq_num_new min_lifetime w;
         Some (route_to_orig, w) }
     | None \<Rightarrow> create_orig_route E addr_orig prev_hop hop_count seq_num_new min_lifetime w }"

text \<open>
  Passing the request on. The assignment to \<open>rreq->dest_seq_num\<close> gives the field the value it
  has.
\<close>

definition rreq_forward :: "env \<Rightarrow> aodv_pkt \<Rightarrow> world \<Rightarrow> world option" where
  "rreq_forward E pkt w = do {
     rreq \<leftarrow> pkt_rreq pkt;
     let pkt = aodv_pkt_set_address pkt (w_broadcast_addr w);
     let pkt = aodv_pkt_decrease_ttl pkt;
     (found, w) \<leftarrow> routing_table_find_by_ip (rreq_dest_ip_addr rreq) w;
     rreq \<leftarrow> (case found of
         Some route_to_dest \<Rightarrow> do {
           flags \<leftarrow> msh_route_get_flags route_to_dest w;
           if flags AND RTFLAG_VALID_ENTRY = 0 \<and> flags AND RTFLAG_VALID_DEST_SEQ_NUM \<noteq> 0 then do {
             dest_seq_num_old \<leftarrow> msh_route_get_dest_seq_num route_to_dest w;
             let dest_seq_num_new = rreq_dest_seq_num rreq;
             if dest_seq_num_old < dest_seq_num_new then Some (rreq\<lparr>rreq_dest_seq_num := dest_seq_num_new\<rparr>)
             else Some rreq }
           else Some rreq }
       | None \<Rightarrow> Some rreq);
     let w = w\<lparr>w_num_rreq_sent := w_num_rreq_sent w + 1\<rparr>;
     pkt \<leftarrow> set_pkt_rreq (aodv_pkt_prepare_rreq rreq) pkt;
     let (pkt, w) = aodv_pkt_send E pkt w;
     Some w }"

definition aodv_process_rreq :: "env \<Rightarrow> aodv_pkt \<Rightarrow> world \<Rightarrow> world option" where
  "aodv_process_rreq E pkt w = do {
     let prev_hop = aodv_pkt_get_address pkt;
     w \<leftarrow> rreq_prev_hop E prev_hop w;
     rreq \<leftarrow> pkt_rreq pkt;
     let dest_addr = rreq_dest_ip_addr rreq;
     seen \<leftarrow> rreq_fifo_contains (rreq_rreq_id rreq) dest_addr w;
     if seen then Some w
     else do {
       w \<leftarrow> rreq_fifo_push E (rreq_rreq_id rreq) dest_addr w;
       let hop_count = rreq_hop_count rreq;
       let rreq = rreq\<lparr>rreq_hop_count := hop_count + 1\<rparr>;
       pkt \<leftarrow> set_pkt_rreq rreq pkt;
       (route_to_orig, w) \<leftarrow> rreq_orig_route E rreq prev_hop hop_count w;
       (answered, w) \<leftarrow> aodv_answer_to_rreq E rreq prev_hop route_to_orig w;
       if \<not> answered \<and> aodv_pkt_get_ttl pkt > 1 then rreq_forward E pkt w
       else Some w } }"

section \<open>Receiving a reply\<close>

definition rrep_prev_hop :: "env \<Rightarrow> in_addr \<Rightarrow> world \<Rightarrow> (ptr \<times> world) option" where
  "rrep_prev_hop E prev_hop w = do {
     (found, w) \<leftarrow> routing_table_find_by_ip prev_hop w;
     case found of
       Some route_to_prev_hop \<Rightarrow> do {
         w \<leftarrow> msh_route_set_lifetime E route_to_prev_hop ACTIVE_ROUTE_TIMEOUT w;
         Some (route_to_prev_hop, w) }
     | None \<Rightarrow> do {
         (route_to_prev_hop, w) \<leftarrow> msh_route_alloc w;
         w \<leftarrow> msh_route_set_dst_ip route_to_prev_hop prev_hop w;
         w \<leftarrow> msh_route_set_next_hop E route_to_prev_hop prev_hop w;
         w \<leftarrow> msh_route_unset_flag route_to_prev_hop RTFLAG_VALID_DEST_SEQ_NUM w;
         (_, w) \<leftarrow> routing_table_add E route_to_prev_hop w;
         Some (route_to_prev_hop, w) } }"

text \<open>The route to the destination, and whether it is new.\<close>

definition rrep_dest_route :: "env \<Rightarrow> aodv_rrep \<Rightarrow> in_addr \<Rightarrow> world \<Rightarrow> (ptr \<times> bool \<times> world) option" where
  "rrep_dest_route E rrep prev_hop w = do {
     let dest_addr = rrep_dest_ip_addr rrep;
     (found, w) \<leftarrow> routing_table_find_by_ip dest_addr w;
     case found of
       Some route_to_dest \<Rightarrow> Some (route_to_dest, False, w)
     | None \<Rightarrow> do {
         (route_to_dest, w) \<leftarrow> msh_route_alloc w;
         w \<leftarrow> msh_route_set_dst_ip route_to_dest dest_addr w;
         w \<leftarrow> msh_route_set_next_hop E route_to_dest prev_hop w;
         w \<leftarrow> msh_route_set_dest_seq_num route_to_dest (rrep_dest_seq_num rrep) w;
         w \<leftarrow> msh_route_set_flag route_to_dest RTFLAG_VALID_DEST_SEQ_NUM w;
         (_, w) \<leftarrow> routing_table_add E route_to_dest w;
         Some (route_to_dest, True, w) } }"

definition rrep_updates :: "aodv_rrep \<Rightarrow> bool \<Rightarrow> u16 \<Rightarrow> u32 \<Rightarrow> u8 \<Rightarrow> bool" where
  "rrep_updates rrep created flags dest_seq_num dest_hop_count \<longleftrightarrow>
     created \<or> flags AND RTFLAG_VALID_DEST_SEQ_NUM = 0 \<or>
     sint (rrep_dest_seq_num rrep) > sint dest_seq_num \<or>
     (sint (rrep_dest_seq_num rrep) = sint dest_seq_num \<and> flags AND RTFLAG_VALID_ENTRY = 0) \<or>
     rrep_hop_count rrep = dest_hop_count"

text \<open>Passing the reply on towards the originator; \<open>now\<close> is the time read for the lifetime.\<close>

definition rrep_forward ::
  "env \<Rightarrow> aodv_pkt \<Rightarrow> aodv_rrep \<Rightarrow> timeval \<Rightarrow> ptr \<Rightarrow> ptr \<Rightarrow> world \<Rightarrow> world option" where
  "rrep_forward E pkt rrep now route_to_dest route_to_prev_hop w = do {
     (found, w) \<leftarrow> routing_table_find_by_ip (rrep_orig_ip_addr rrep) w;
     case found of
       None \<Rightarrow> Some w
     | Some route_to_orig \<Rightarrow> do {
         next_hop \<leftarrow> msh_route_get_next_hop route_to_orig w;
         let pkt = aodv_pkt_set_address pkt next_hop;
         let pkt = aodv_pkt_decrease_ttl pkt;
         pkt \<leftarrow> set_pkt_rrep (aodv_pkt_prepare_rrep rrep) pkt;
         let (pkt, w) = aodv_pkt_send E pkt w;
         w \<leftarrow> (if rrep_dest_ip_addr rrep \<noteq> next_hop then msh_route_add_precursor route_to_dest next_hop w
               else Some w);
         (found, w) \<leftarrow> routing_table_find_by_ip next_hop w;
         w \<leftarrow> (case found of
             Some route_to_next_hop \<Rightarrow> do {
               (lifetime, w) \<leftarrow> msh_route_get_lifetime E route_to_next_hop w;
               let timeout = tv_ms now + ACTIVE_ROUTE_TIMEOUT;
               if lifetime < timeout then msh_route_set_lifetime E route_to_next_hop lifetime w else Some w }
           | None \<Rightarrow> Some w);
         msh_route_add_precursor route_to_prev_hop next_hop w } }"

definition rrep_update_dest ::
  "env \<Rightarrow> aodv_rrep \<Rightarrow> in_addr \<Rightarrow> ptr \<Rightarrow> world \<Rightarrow> (timeval \<times> world) option" where
  "rrep_update_dest E rrep prev_hop route_to_dest w = do {
     w \<leftarrow> msh_route_set_dest_seq_num route_to_dest (rrep_dest_seq_num rrep) w;
     w \<leftarrow> msh_route_set_flag route_to_dest RTFLAG_VALID_DEST_SEQ_NUM w;
     w \<leftarrow> msh_route_set_next_hop E route_to_dest prev_hop w;
     w \<leftarrow> msh_route_set_hop_count route_to_dest (rrep_hop_count rrep) w;
     let (now, w) = gettimeofday E w;
     let lifetime = tv_ms now + rrep_lifetime rrep;
     w \<leftarrow> msh_route_set_lifetime E route_to_dest lifetime w;
     Some (now, w) }"

definition aodv_process_rrep :: "env \<Rightarrow> aodv_pkt \<Rightarrow> world \<Rightarrow> world option" where
  "aodv_process_rrep E pkt w = do {
     let prev_hop = aodv_pkt_get_address pkt;
     (route_to_prev_hop, w) \<leftarrow> rrep_prev_hop E prev_hop w;
     rrep \<leftarrow> pkt_rrep pkt;
     let rrep = rrep\<lparr>rrep_hop_count := rrep_hop_count rrep + 1\<rparr>;
     pkt \<leftarrow> set_pkt_rrep rrep pkt;
     (route_to_dest, created, w) \<leftarrow> rrep_dest_route E rrep prev_hop w;
     dest_seq_num \<leftarrow> msh_route_get_dest_seq_num route_to_dest w;
     dest_hop_count \<leftarrow> msh_route_get_hop_count route_to_dest w;
     flags \<leftarrow> msh_route_get_flags route_to_dest w;
     if rrep_updates rrep created flags dest_seq_num dest_hop_count then do {
       (now, w) \<leftarrow> rrep_update_dest E rrep prev_hop route_to_dest w;
       if w_ip_addr w = rrep_orig_ip_addr rrep then rreq_fifo_del (w_rreq_id w) (rrep_dest_ip_addr rrep) w
       else rrep_forward E pkt rrep now route_to_dest route_to_prev_hop w }
     else Some w }"

section \<open>Other messages and dispatch\<close>

definition aodv_process_rerr :: "aodv_pkt \<Rightarrow> world \<Rightarrow> world option" where
  "aodv_process_rerr pkt w = Some w"

definition aodv_process_rrep_ack :: "aodv_pkt \<Rightarrow> world \<Rightarrow> world option" where
  "aodv_process_rrep_ack pkt w = Some w"

definition aodv_process_packet :: "env \<Rightarrow> msghdr \<Rightarrow> int \<Rightarrow> world \<Rightarrow> world option" where
  "aodv_process_packet E msg numbytes w = do {
     (pkt, w) \<leftarrow> aodv_pkt_get msg numbytes w;
     (good, pkt, w) \<leftarrow> aodv_pkt_check pkt w;
     if \<not> good then Some w
     else if aodv_pkt_get_address pkt = w_ip_addr w then Some w
     else do {
       type \<leftarrow> aodv_pkt_get_type pkt;
       w \<leftarrow> (if type = AODV_RREQ then aodv_process_rreq E pkt w
             else if type = AODV_RREP then aodv_process_rrep E pkt w
             else if type = AODV_RERR then aodv_process_rerr pkt w
             else if type = AODV_RREP_ACK then aodv_process_rrep_ack pkt w
             else Some (upd_stats (\<lambda>s. s\<lparr>aodv_incorrect_type := aodv_incorrect_type s + 1\<rparr>) w));
       Some (aodv_pkt_destroy pkt w) } }"

section \<open>The alarm of a pending request\<close>

text \<open>
  After the last try the entry is freed and its destination is read from the freed entry.
  \<open>expired_route\<close> stays null, since \<open>routing_table_update_route\<close> cannot assign it.
\<close>

definition rreq_fifo_alarm_cb :: "env \<Rightarrow> ptr \<Rightarrow> ptr \<Rightarrow> world \<Rightarrow> world option" where
  "rreq_fifo_alarm_cb E alarm entry w = do {
     e \<leftarrow> w_rreqs w entry;
     let dst = rq_dst e;
     if sint (rq_prev_tries e) < 0 then rreq_fifo_entry_delete entry w
     else do {
       w \<leftarrow> upd_rreq entry (\<lambda>e. e\<lparr>rq_prev_tries := rq_prev_tries e + 1\<rparr>) w;
       e \<leftarrow> w_rreqs w entry;
       if scast (rq_prev_tries e) > RREQ_RETRIES then do {
         w \<leftarrow> rreq_fifo_entry_delete entry w;
         e \<leftarrow> w_rreqs w entry;
         w \<leftarrow> packets_fifo_drop_packets (rq_dst e) w;
         Some (upd_stats (\<lambda>s. s\<lparr>packets_dropped := packets_dropped s + 1\<rparr>) w) }
       else do {
         (_, w) \<leftarrow> routing_table_update_route E dst 0 w;
         ms \<leftarrow> binary_exponential_backoff_time (rq_prev_tries e);
         let (sc, usc) = set_alarm_time ms;
         w \<leftarrow> w_add_alarm E entry sc usc w;
         w \<leftarrow> aodv_find_route E dst None (rq_prev_tries e) w;
         upd_rreq entry (\<lambda>e. e\<lparr>rq_rreq_id := w_rreq_id w\<rparr>) w } } }"

section \<open>Steps that send nothing\<close>

fun is_sent :: "event \<Rightarrow> bool" where
  "is_sent (Sent a b c d) = True"
| "is_sent _ = False"

text \<open>The datagrams sent so far, the latest first.\<close>

definition sent :: "world \<Rightarrow> event list" where
  "sent w = filter is_sent (w_out w)"

text \<open>The table has a live route to the destination.\<close>

definition knows :: "world \<Rightarrow> in_addr \<Rightarrow> bool" where
  "knows w d \<longleftrightarrow> (\<exists>p \<in> set (w_table w). p \<noteq> w_find_route w \<and> (\<exists>r. w_routes w p = Some r \<and> rt_dst_ip r = d))"

lemma knows_iff: "world_ok w \<Longrightarrow> knows w d \<longleftrightarrow> route_to w d \<noteq> None"
  unfolding knows_def route_to_None route_dst_def using table_live [of w] table_not_scratch [of w] by fastforce

lemma knows_extends: "extends w w' \<Longrightarrow> knows w d \<Longrightarrow> knows w' d"
  unfolding knows_def extends_def by fastforce

text \<open>
  No packet is lost: a packet leaves the queue only by a verdict that accepts it, because a
  route to its destination, which was missing before, has been added. Reports to the outside
  are never taken back.
\<close>

definition accounted :: "world \<Rightarrow> world \<Rightarrow> bool" where
  "accounted w w' \<longleftrightarrow> w_pkts w' \<subseteq>\<^sub>m w_pkts w \<and> (\<exists>es. w_out w' = es @ w_out w \<and>
     (\<forall>q \<in> dom (w_pkts w) - dom (w_pkts w'). Verdict (packet_id w q) NF_ACCEPT \<in> set es \<and>
        \<not> knows w (packet_dest w q) \<and> knows w' (packet_dest w q)))"

lemma accounted_same: "w_pkts w' = w_pkts w \<Longrightarrow> w_out w' = es @ w_out w \<Longrightarrow> accounted w w'"
  by (simp add: accounted_def)

lemma accounted_kept: "w_pkts w' = w_pkts w \<Longrightarrow> w_out w' = w_out w \<Longrightarrow> accounted w w'"
  by (simp add: accounted_def)

lemma accounted_event: "w_pkts w' = w_pkts w \<Longrightarrow> w_out w' = e # w_out w \<Longrightarrow> accounted w w'"
  by (simp add: accounted_def)

lemma knows_live [simp]: "knows (w\<lparr>w_live_pkts := k\<rparr>) d = knows w d"
  by (simp add: knows_def)

lemma accounted_pkts: "accounted w w' \<Longrightarrow> w_pkts w' \<subseteq>\<^sub>m w_pkts w"
  by (simp add: accounted_def)

lemma accounted_gone:
  assumes "accounted w w'" "q \<in> dom (w_pkts w) - dom (w_pkts w')"
  obtains es where "w_out w' = es @ w_out w" "Verdict (packet_id w q) NF_ACCEPT \<in> set es"
    "\<not> knows w (packet_dest w q)" "knows w' (packet_dest w q)"
  using assms unfolding accounted_def by blast

lemma accounted_trans:
  assumes e: "extends u v" "extends v w" and a: "accounted u v" "accounted v w"
  shows "accounted u w"
proof -
  obtain es es' where o: "w_out v = es @ w_out u" "w_out w = es' @ w_out v"
    using a unfolding accounted_def by blast
  have "Verdict (packet_id u q) NF_ACCEPT \<in> set (es' @ es) \<and> \<not> knows u (packet_dest u q) \<and> knows w (packet_dest u q)"
    if q: "q \<in> dom (w_pkts u) - dom (w_pkts w)" for q
  proof (cases "q \<in> dom (w_pkts v)")
    case True
    then have "w_pkts v q = w_pkts u q" using a(1) by (auto simp: accounted_def map_le_def)
    then have "packet_id v q = packet_id u q" "packet_dest v q = packet_dest u q"
      by (simp_all add: packet_id_def packet_dest_def)
    moreover have "q \<in> dom (w_pkts v) - dom (w_pkts w)" using True q by simp
    ultimately show ?thesis using accounted_gone [OF a(2)] knows_extends [OF e(1)] o(2) by (metis UnCI append_same_eq set_append)
  next
    case False
    then have "q \<in> dom (w_pkts u) - dom (w_pkts v)" using q by simp
    then show ?thesis using accounted_gone [OF a(1)] knows_extends [OF e(2)] o(1) by (metis UnCI append_same_eq set_append)
  qed
  moreover have "w_pkts w \<subseteq>\<^sub>m w_pkts u" using a unfolding accounted_def by (blast intro: map_le_trans)
  moreover have "w_out w = (es' @ es) @ w_out u" using o by simp
  ultimately show ?thesis unfolding accounted_def by blast
qed

text \<open>A step on routes and waiting packets that sends no datagram.\<close>

definition routed :: "world \<Rightarrow> world \<Rightarrow> bool" where
  "routed w w' \<longleftrightarrow> extends w w' \<and> same_rreqs w w' \<and> same_self w w' \<and> sent w' = sent w \<and>
     w_stats w' = w_stats w \<and> accounted w w'"

lemma quiet_routed: "quiet w w' \<Longrightarrow> routed w w'"
  by (simp add: quiet_def routed_def same_defs sent_def accounted_kept)

lemma routed_trans: "routed u v \<Longrightarrow> routed v w \<Longrightarrow> routed u w"
  by (auto simp: routed_def same_defs intro: extends_trans accounted_trans)

lemma routed_refl: "world_ok w \<Longrightarrow> routed w w"
  by (simp add: quiet_routed quiet_refl)

lemma routed_wf: "routed w w' \<Longrightarrow> world_ok w'"
  by (auto simp: routed_def intro: extends_wf)

lemma routed_live: "routed w w' \<Longrightarrow> world_ok w \<Longrightarrow> p \<in> dom (w_routes w) \<Longrightarrow> p \<in> dom (w_routes w')"
  by (metis routed_def extends_live)

lemma routed_rreqs: "routed w w' \<Longrightarrow> w_rreqs w' = w_rreqs w"
  by (simp add: routed_def same_defs)

lemma verdicts_not_sent [simp]: "filter is_sent (rev (verdicts w v ps)) = []"
  by (auto simp: verdicts_def filter_empty_conv)

text \<open>The kernel takes every route that the node adds.\<close>

definition takes_routes :: "env \<Rightarrow> bool" where
  "takes_routes E \<longleftrightarrow> (\<forall>n. ret_route_add E n \<ge> 0 \<or> ret_route_add E n = -17)"

lemma accounted_release:
  assumes "world_ok w" "w_pkts w' = w_pkts w |` (- {q \<in> set (w_packets_queue w). packet_dest w q = d})"
    and "w_out w' = rev (verdicts w NF_ACCEPT (filter (\<lambda>q. packet_dest w q = d) (w_packets_queue w))) @ es @ w_out w"
    and "\<not> knows w d" "knows w' d"
  shows "accounted w w'"
proof -
  let ?es = "rev (verdicts w NF_ACCEPT (filter (\<lambda>q. packet_dest w q = d) (w_packets_queue w))) @ es"
  have "Verdict (packet_id w q) NF_ACCEPT \<in> set ?es \<and> packet_dest w q = d" if "q \<in> dom (w_pkts w) - dom (w_pkts w')" for q
    using that assms(2) wf_packets(1) [OF assms(1)] by (auto simp: verdicts_def restrict_map_def split: if_splits)
  moreover have "w_pkts w' \<subseteq>\<^sub>m w_pkts w" using assms(2) by (auto simp: map_le_def restrict_map_def split: if_splits)
  moreover have "w_out w' = ?es @ w_out w" using assms(3) by simp
  ultimately show ?thesis using assms(4,5) unfolding accounted_def by blast
qed

definition no_waiters :: "in_addr \<Rightarrow> world \<Rightarrow> bool" where
  "no_waiters d w \<longleftrightarrow> (\<forall>q \<in> dom (w_pkts w). packet_dest w q \<noteq> d)"

lemma no_waiters_release:
  "world_ok w \<Longrightarrow> w_pkts w' = w_pkts w |` (- {q \<in> set (w_packets_queue w). packet_dest w q = d}) \<Longrightarrow> no_waiters d w'"
  using wf_packets(1) [of w] by (auto simp: no_waiters_def packet_dest_def restrict_map_def split: if_splits)

lemma no_waiters_mono: "no_waiters d w \<Longrightarrow> w_pkts w' \<subseteq>\<^sub>m w_pkts w \<Longrightarrow> no_waiters d w'"
  unfolding no_waiters_def packet_dest_def map_le_def by (metis domD domI)

lemma no_waiters_routed: "no_waiters d w \<Longrightarrow> routed w w' \<Longrightarrow> no_waiters d w'"
  by (rule no_waiters_mono) (auto simp: routed_def accounted_def)

lemma routing_table_add_routed:
  assumes ok: "world_ok w" and r: "w_routes w p = Some r" and p: "p \<notin> set (w_table w)" "p \<noteq> w_find_route w"
  shows "runs (routing_table_add E p w) (\<lambda>(rc, w'). routed w w' \<and> p \<in> dom (w_routes w') \<and>
    (route_to w (rt_dst_ip r) = None \<longrightarrow> takes_routes E \<longrightarrow>
       w_table w' = p # w_table w \<and> w_routes w' = (w_routes w)(p \<mapsto> installed E r w) \<and> no_waiters (rt_dst_ip r) w'))"
proof -
  consider "route_to w (rt_dst_ip r) \<noteq> None"
    | "route_to w (rt_dst_ip r) = None" "ret_route_add E (w_tick w) < 0" "ret_route_add E (w_tick w) \<noteq> -17"
    | "route_to w (rt_dst_ip r) = None" "ret_route_add E (w_tick w) \<ge> 0 \<or> ret_route_add E (w_tick w) = -17"
    by linarith
  then show ?thesis
  proof cases
    case 1
    then show ?thesis using ok r by (auto simp: routing_table_add_exists [OF ok r] routed_refl)
  next
    case 2
    have "extends w (emit (Route_add (new_nlroute E r w)) w)" using ok by (auto simp: extends_def emit_def)
    moreover have "\<not> takes_routes E" unfolding takes_routes_def using 2 linorder_not_le by blast
    ultimately show ?thesis
      using r by (simp add: routing_table_add_refused [OF ok r 2] routed_def same_defs)
        (auto simp: emit_def sent_def intro!: accounted_event)
  next
    case 3
    have n: "\<not> knows w (rt_dst_ip r)" using 3(1) by (simp add: knows_iff [OF ok])
    from routing_table_add_ok [OF ok r p 3] show ?thesis
    proof (rule runs_mono, clarify)
      fix rc w'
      assume e: "extends w w'" and t: "w_table w' = p # w_table w" "w_routes w' = (w_routes w)(p \<mapsto> installed E r w)"
        and rest: "same_rreqs w w'" "same_self w w'" "w_stats w' = w_stats w"
        and pk: "w_pkts w' = w_pkts w |` (- {q \<in> set (w_packets_queue w). packet_dest w q = rt_dst_ip r})"
        and out: "w_out w' = rev (verdicts w NF_ACCEPT
          (filter (\<lambda>q. packet_dest w q = rt_dst_ip r) (w_packets_queue w))) @ Route_add (new_nlroute E r w) # w_out w"
      have "w_find_route w' = w_find_route w" using e by (simp add: extends_def)
      then have "knows w' (rt_dst_ip r)" using t p(2) by (simp add: knows_def installed_def)
      then have "accounted w w'" using out by (intro accounted_release [OF ok pk _ n]) simp_all
      then show "routed w w' \<and> p \<in> dom (w_routes w') \<and>
        (route_to w (rt_dst_ip r) = None \<longrightarrow> takes_routes E \<longrightarrow>
           w_table w' = p # w_table w \<and> w_routes w' = (w_routes w)(p \<mapsto> installed E r w) \<and> no_waiters (rt_dst_ip r) w')"
        using e t rest out no_waiters_release [OF ok pk] by (simp add: routed_def sent_def)
    qed
  qed
qed

text \<open>A route object made since the state \<open>w\<close> and filled in, but not yet in the table.\<close>

lemma add_fresh:
  assumes ok: "world_ok w" and q: "quiet w w2" "w_table w2 = w_table w"
    and p: "p \<notin> dom (w_routes w)" and r: "w_routes w2 = (w_routes w)(p \<mapsto> r)"
  shows "runs (routing_table_add E p w2) (\<lambda>(rc, w'). routed w w' \<and> p \<in> dom (w_routes w') \<and>
    (route_to w (rt_dst_ip r) = None \<longrightarrow> takes_routes E \<longrightarrow>
       w_table w' = p # w_table w \<and> w_routes w' = (w_routes w)(p \<mapsto> installed E r w2) \<and> no_waiters (rt_dst_ip r) w'))"
proof -
  have "p \<notin> set (w_table w)" "p \<noteq> w_find_route w" using p ok by (auto simp: world_ok_def heap_ok_def)
  moreover have "w_find_route w2 = w_find_route w" using q(1) by (simp add: quiet_def extends_def)
  moreover have "route_to w2 a = route_to w a" for a
    by (rule extends_route_to [OF quiet_extends [OF q(1)] ok q(2)])
  moreover have "w_routes w2 p = Some r" using r by simp
  ultimately show ?thesis
    using routing_table_add_routed [of w2 p r E] quiet_wf [OF q(1)] q(2) r
    by (auto elim!: runs_mono intro: routed_trans [OF quiet_routed [OF q(1)]])
qed

lemma runs_get [runs_rules]:
  "runs (msh_route_get_next_hop p w) Q \<longleftrightarrow> p \<in> dom (w_routes w) \<and> Q (rt_next_hop (the (w_routes w p)))"
  "runs (msh_route_get_hop_count p w) Q' \<longleftrightarrow> p \<in> dom (w_routes w) \<and> Q' (rt_hop_count (the (w_routes w p)))"
  "runs (msh_route_get_dest_seq_num p w) Q'' \<longleftrightarrow> p \<in> dom (w_routes w) \<and> Q'' (rt_dest_seq_num (the (w_routes w p)))"
  "runs (msh_route_get_flags p w) Q3 \<longleftrightarrow> p \<in> dom (w_routes w) \<and> Q3 (rt_flags (the (w_routes w p)))"
  by (auto simp: msh_route_get_next_hop_def msh_route_get_hop_count_def msh_route_get_dest_seq_num_def
      msh_route_get_flags_def runs_def split: option.splits)

section \<open>Searching a route\<close>

definition rreq_event :: "u8 \<Rightarrow> world \<Rightarrow> aodv_rreq \<Rightarrow> event" where
  "rreq_event ttl w rreq = Sent (htonl (w_broadcast_addr w)) (htons AODV_UDP_PORT) ttl
     (rreq_bytes (aodv_pkt_prepare_rreq rreq))"

lemma aodv_pkt_send_eq:
  "\<exists>pkt' f. aodv_pkt_send E pkt w = (pkt', upd_stats f (emit (Sent (sin_addr (pkt_address pkt))
     (sin_port (pkt_address pkt)) (pkt_ttl pkt) (pkt_bytes pkt)) w))"
  by (rule exI, rule exI [of _ "\<lambda>s. if ret_sendto E (w_tick w) (pkt_payload_len pkt) = -1
      then s\<lparr>send_aodv_errors := send_aodv_errors s + 1\<rparr>
      else if ret_sendto E (w_tick w) (pkt_payload_len pkt) \<noteq> int (pkt_payload_len pkt)
      then s\<lparr>send_aodv_incomplete := send_aodv_incomplete s + 1\<rparr> else s"])
    (simp add: aodv_pkt_send_def Let_def upd_stats_def)

text \<open>The request that a search sends, and the state after sending a datagram.\<close>

definition own_rreq :: "in_addr \<Rightarrow> msh_route option \<Rightarrow> world \<Rightarrow> aodv_rreq" where
  "own_rreq dest r w = \<lparr>rreq_type = 1, rreq_reserved2 = 0,
     rreq_flags = RREQ_GRATUITOUS_RREP_FLAG OR (if r = None then RREQ_UNKNOWN_SEQ_NUM_FLAG else 0),
     rreq_reserved = 0, rreq_hop_count = (case r of None \<Rightarrow> 0 | Some r \<Rightarrow> rt_hop_count r),
     rreq_rreq_id = w_rreq_id w, rreq_dest_ip_addr = dest,
     rreq_dest_seq_num = (case r of None \<Rightarrow> 0 | Some r \<Rightarrow> rt_dest_seq_num r),
     rreq_orig_ip_addr = w_ip_addr w, rreq_orig_seq_num = w_seq_num w\<rparr>"

definition after_send :: "event \<Rightarrow> world \<Rightarrow> world \<Rightarrow> bool" where
  "after_send e w w' \<longleftrightarrow> (\<exists>f. w' = upd_stats f (emit e w))"

lemma aodv_pkt_send_after:
  obtains pkt' w' where "aodv_pkt_send E pkt w = (pkt', w')"
    "after_send (Sent (sin_addr (pkt_address pkt)) (sin_port (pkt_address pkt)) (pkt_ttl pkt) (pkt_bytes pkt)) w w'"
  using aodv_pkt_send_eq [of E pkt w] unfolding after_send_def by blast

lemma after_send_wf: "after_send e w w' \<Longrightarrow> world_ok w' = world_ok w"
  by (auto simp: after_send_def)

lemma after_send_same:
  assumes "after_send e w w'"
  shows "w_routes w' = w_routes w" "w_table w' = w_table w" "w_find_route w' = w_find_route w"
    "w_rreqs w' = w_rreqs w" "w_rreq_queue w' = w_rreq_queue w" "w_pkts w' = w_pkts w"
    "w_packets_queue w' = w_packets_queue w" "w_alarms w' = w_alarms w" "w_next_ptr w' = w_next_ptr w"
    "w_ip_addr w' = w_ip_addr w" "w_broadcast_addr w' = w_broadcast_addr w" "w_seq_num w' = w_seq_num w"
    "w_rreq_id w' = w_rreq_id w" "w_num_rreq_sent w' = w_num_rreq_sent w" "w_live_pkts w' = w_live_pkts w"
    "w_end w' = w_end w" "w_net_iface w' = w_net_iface w" "w_out w' = e # w_out w"
  using assms by (auto simp: after_send_def upd_stats_def emit_def)

lemma broadcast_rreq_ok:
  assumes r: "case ivr of None \<Rightarrow> ir = None | Some p \<Rightarrow> w_routes w p = ir \<and> ir \<noteq> None"
  obtains w' where "broadcast_rreq E dest ivr tries w = Some w'"
    and "after_send (rreq_event (ucast (expanding_ring_search_ttl (rreq_hop_count (own_rreq dest ir w)) tries)) w
      (own_rreq dest ir w)) (w\<lparr>w_num_rreq_sent := w_num_rreq_sent w + 1\<rparr>) w'"
proof -
  let ?q = "own_rreq dest ir w"
  let ?t = "ucast (expanding_ring_search_ttl (rreq_hop_count ?q) tries)"
  define pkt where "pkt = \<lparr>pkt_payload = Some (rreq_bytes (aodv_pkt_prepare_rreq ?q)), pkt_payload_len = 24,
      pkt_address = \<lparr>sin_family = AF_INET, sin_port = htons AODV_UDP_PORT, sin_addr = htonl (w_broadcast_addr w)\<rparr>,
      pkt_ttl = ?t\<rparr>"
  define w2 where "w2 = w\<lparr>w_live_pkts := Suc (w_live_pkts w), w_num_rreq_sent := w_num_rreq_sent w + 1\<rparr>"
  obtain pkt' w3 where s: "aodv_pkt_send E pkt w2 = (pkt', w3)" "after_send (rreq_event ?t w ?q) w2 w3"
    using aodv_pkt_send_after [of E pkt w2] by (auto simp: rreq_event_def pkt_def pkt_bytes_def)
  have get: "(case ivr of None \<Rightarrow> Some 0 | Some p \<Rightarrow> msh_route_get_hop_count p (count_pkt w)) = Some (rreq_hop_count ?q)"
    "(case ivr of None \<Rightarrow> Some 0 | Some p \<Rightarrow> msh_route_get_dest_seq_num p (count_pkt w)) = Some (rreq_dest_seq_num ?q)"
    "RREQ_GRATUITOUS_RREP_FLAG OR (if ivr = None then RREQ_UNKNOWN_SEQ_NUM_FLAG else 0) = rreq_flags ?q"
    using r by (auto simp: own_rreq_def msh_route_get_hop_count_def msh_route_get_dest_seq_num_def
        count_pkt_def split: option.splits)
  have built: "aodv_pkt_set_address (aodv_pkt_build_rreq (aodv_pkt_set_ttl (zero_pkt\<lparr>pkt_ttl := DEFAULT_TTL,
       pkt_address := \<lparr>sin_family = AF_INET, sin_port = htons AODV_UDP_PORT, sin_addr = w_broadcast_addr w\<rparr>\<rparr>) ?t)
      (rreq_flags ?q) (rreq_hop_count ?q) (w_rreq_id w) dest (rreq_dest_seq_num ?q) (w_ip_addr w) (w_seq_num w))
      (w_broadcast_addr w) = pkt"
    by (simp add: pkt_def aodv_pkt_set_address_def aodv_pkt_build_rreq_def aodv_pkt_set_ttl_def zero_pkt_def
        own_rreq_def aodv_pkt_prepare_rreq_def)
  have cnt: "(count_pkt w)\<lparr>w_num_rreq_sent := w_num_rreq_sent w + 1\<rparr> = w2" "w_rreq_id (count_pkt w) = w_rreq_id w"
    "w_ip_addr (count_pkt w) = w_ip_addr w" "w_seq_num (count_pkt w) = w_seq_num w"
    "w_broadcast_addr (count_pkt w) = w_broadcast_addr w" "w_num_rreq_sent (count_pkt w) = w_num_rreq_sent w"
    by (simp_all add: count_pkt_def w2_def)
  have "broadcast_rreq E dest ivr tries w = Some (aodv_pkt_destroy pkt' w3)"
    unfolding broadcast_rreq_def aodv_pkt_alloc_def by (simp add: Let_def get built cnt s(1))
  moreover have "after_send (rreq_event ?t w ?q) (w\<lparr>w_num_rreq_sent := w_num_rreq_sent w + 1\<rparr>)
      (aodv_pkt_destroy pkt' w3)"
    using s(2) by (auto simp: after_send_def aodv_pkt_destroy_def w2_def upd_stats_def emit_def)
  ultimately show ?thesis using that by blast
qed

definition next_self :: "world \<Rightarrow> world" where
  "next_self w = w\<lparr>w_seq_num := w_seq_num w + 1, w_rreq_id := w_rreq_id w + 1\<rparr>"

definition searching :: "in_addr \<Rightarrow> u8 \<Rightarrow> world \<Rightarrow> world \<Rightarrow> bool" where
  "searching dest tries w w' \<longleftrightarrow> (if tries = 0 then
       w_rreqs w' = (w_rreqs w)(w_next_ptr w \<mapsto> \<lparr>rq_rreq_id = w_rreq_id w + 1, rq_dst = dest, rq_prev_tries = 0\<rparr>) \<and>
       w_rreq_queue w' = w_next_ptr w # w_rreq_queue w \<and>
       waiting (w_alarms w') = insert (w_next_ptr w) (waiting (w_alarms w))
     else same_rreqs w w' \<and> w_alarms w' = w_alarms w)"

lemma push_own_ok:
  assumes "world_ok w"
  obtains w1 where "(if tries = 0 then rreq_fifo_push_owned E (w_rreq_id (next_self w)) dest tries (next_self w)
      else Some (next_self w)) = Some w1"
    "rreqs_only (next_self w) w1" "searching dest tries w w1"
proof -
  have ok0: "world_ok (next_self w)" using assms by (simp add: next_self_def)
  obtain ms where ms: "binary_exponential_backoff_time 0 = Some ms"
    by (simp add: binary_exponential_backoff_time_def)
  have "runs (if tries = 0 then rreq_fifo_push_owned E (w_rreq_id (next_self w)) dest tries (next_self w)
      else Some (next_self w)) (\<lambda>w1. rreqs_only (next_self w) w1 \<and> searching dest tries w w1)"
  proof (cases "tries = 0")
    case True
    then show ?thesis
      using push_entry_ok [OF ok0, of 0 E "w_rreq_id (next_self w)" dest ms] ms
      by (auto simp: rreq_fifo_push_owned_def next_self_def searching_def elim!: runs_mono)
  next
    case False
    then show ?thesis using ok0 by (simp add: rreqs_only_def searching_def same_defs) (simp add: next_self_def)
  qed
  then show ?thesis using that by (auto simp: runs_iff)
qed

lemma aodv_find_route_ok:
  assumes ok: "world_ok w" and r: "case ivr of None \<Rightarrow> ir = None | Some p \<Rightarrow> w_routes w p = ir \<and> ir \<noteq> None"
  shows "runs (aodv_find_route E dest ivr tries w) (\<lambda>w'. \<exists>w1. rreqs_only (next_self w) w1 \<and> searching dest tries w w1 \<and>
    after_send (rreq_event (ucast (expanding_ring_search_ttl (rreq_hop_count (own_rreq dest ir (next_self w))) tries)) w
      (own_rreq dest ir (next_self w))) (w1\<lparr>w_num_rreq_sent := w_num_rreq_sent w + 1\<rparr>) w')"
proof -
  obtain w1 where w1: "(if tries = 0 then rreq_fifo_push_owned E (w_rreq_id (next_self w)) dest tries (next_self w)
      else Some (next_self w)) = Some w1" "rreqs_only (next_self w) w1" "searching dest tries w w1"
    using push_own_ok [OF ok] by blast
  have s: "w_routes w1 = w_routes w" "own_rreq dest ir w1 = own_rreq dest ir (next_self w)"
    "rreq_event t w1 q = rreq_event t w q" "w_num_rreq_sent w1 = w_num_rreq_sent w" for t q
    using w1(2) by (simp_all add: rreqs_only_def next_self_def own_rreq_def rreq_event_def same_defs)
  have r1: "case ivr of None \<Rightarrow> ir = None | Some p \<Rightarrow> w_routes w1 p = ir \<and> ir \<noteq> None"
    using r s(1) by (simp split: option.splits)
  have f: "aodv_find_route E dest ivr tries w = broadcast_rreq E dest ivr tries w1"
    using w1(1) by (simp add: aodv_find_route_def next_self_def split: if_splits)
  obtain w' where w': "broadcast_rreq E dest ivr tries w1 = Some w'"
    "after_send (rreq_event (ucast (expanding_ring_search_ttl (rreq_hop_count (own_rreq dest ir w1)) tries)) w1
      (own_rreq dest ir w1)) (w1\<lparr>w_num_rreq_sent := w_num_rreq_sent w1 + 1\<rparr>) w'"
    using broadcast_rreq_ok [OF r1, of E dest tries] by blast
  show ?thesis
    unfolding f w'(1) runs_Some using w'(2) w1(2,3) unfolding s by blast
qed

section \<open>Routes to neighbours\<close>

text \<open>The next hop of the table towards an address, and steps that change it for the addresses \<open>A\<close> alone.\<close>

definition next_hop_to :: "world \<Rightarrow> in_addr \<Rightarrow> in_addr option" where
  "next_hop_to w a = map_option (\<lambda>p. rt_next_hop (the (w_routes w p))) (route_to w a)"

definition hops_but :: "in_addr set \<Rightarrow> world \<Rightarrow> world \<Rightarrow> bool" where
  "hops_but A w w' \<longleftrightarrow> (\<forall>d. d \<notin> A \<longrightarrow> next_hop_to w' d = next_hop_to w d)"

lemma hops_but_trans: "hops_but A u v \<Longrightarrow> hops_but B v w \<Longrightarrow> A \<subseteq> C \<Longrightarrow> B \<subseteq> C \<Longrightarrow> hops_but C u w"
  unfolding hops_but_def by (metis subsetD)

lemma hops_but_same: "w_table w' = w_table w \<Longrightarrow> w_routes w' = w_routes w \<Longrightarrow> hops_but A w w'"
  by (simp add: hops_but_def next_hop_to_def route_to_def route_dst_def)

lemma find_skips: "(\<And>x. x \<in> set ps \<Longrightarrow> \<not> P x) \<Longrightarrow> find P (ps @ xs) = find P xs"
  by (induction ps) auto

lemma hops_butI:
  assumes t: "w_table w' = ps @ w_table w" "\<And>p. p \<in> set ps \<Longrightarrow> route_dst w' p \<in> A"
    and k: "\<And>p. p \<in> set (w_table w) \<Longrightarrow> route_dst w' p = route_dst w p"
      "\<And>p. p \<in> set (w_table w) \<Longrightarrow> route_dst w p \<notin> A \<Longrightarrow> rt_next_hop (the (w_routes w' p)) = rt_next_hop (the (w_routes w p))"
  shows "hops_but A w w'"
  unfolding hops_but_def
proof (intro allI impI)
  fix d assume d: "d \<notin> A"
  have "route_to w' d = find (\<lambda>p. route_dst w' p = d) (w_table w)"
    unfolding route_to_def t(1) by (rule find_skips) (use t(2) d in auto)
  also have "\<dots> = route_to w d" unfolding route_to_def by (rule find_cong [OF refl]) (use k(1) in auto)
  finally have same: "route_to w' d = route_to w d" .
  show "next_hop_to w' d = next_hop_to w d"
  proof (cases "route_to w d")
    case (Some p)
    then obtain i where "i < length (w_table w)" "route_dst w (w_table w ! i) = d" "p = w_table w ! i"
      unfolding route_to_def find_Some_iff by blast
    then have "p \<in> set (w_table w)" "route_dst w p = d" by simp_all
    then show ?thesis using k(2) d same Some by (simp add: next_hop_to_def)
  qed (simp add: next_hop_to_def same)
qed

text \<open>One route to an address in \<open>A\<close> has been changed, or added at the head.\<close>

lemma hops_but_upd:
  assumes t: "w_table w' = ps @ w_table w" "set ps \<subseteq> {p}" and r: "w_routes w' = (w_routes s)(p \<mapsto> r)" "rt_dst_ip r \<in> A"
    and s: "\<And>q. q \<in> set (w_table w) \<Longrightarrow> w_routes s q = w_routes w q"
    and p: "p \<in> set (w_table w) \<Longrightarrow> route_dst w p = rt_dst_ip r"
  shows "hops_but A w w'"
  by (rule hops_butI [OF t(1)]) (use t(2) r s p in \<open>auto simp: route_dst_def\<close>)

lemma hops_but_searched: "world_ok w \<Longrightarrow> hops_but A w (searched a w)"
  by (rule hops_butI [of _ "[]"]) (simp_all add: route_dst_def searched_routes table_not_scratch)

lemma table_distinct_Cons: "world_ok w \<Longrightarrow> w_table w = p # ps \<Longrightarrow> p \<notin> set ps"
  by (auto simp: world_ok_def heap_ok_def)

lemma searched_live:
  "world_ok w \<Longrightarrow> p \<in> dom (w_routes w) \<Longrightarrow> p \<in> dom (w_routes (searched a w))"
  using extends_live quiet_extends searched_quiet by blast

lemma route_to_live: "world_ok w \<Longrightarrow> route_to w a = Some p \<Longrightarrow> p \<in> dom (w_routes w)"
  using route_to_unique table_live by blast

lemma hops_but_renewed:
  assumes ok: "world_ok w" and p: "route_to w a = Some p" and w': "w_table w' = w_table w"
    "w_routes w' = (w_routes (searched b w))(p \<mapsto> renewed (the (w_routes (searched b w) p)))"
  shows "hops_but {a} w w'"
proof -
  have q: "p \<in> set (w_table w)" "route_dst w p = a" using p route_to_unique [OF ok] by simp_all
  then have "rt_dst_ip (renewed (the (w_routes (searched b w) p))) = a"
    using searched_routes [OF table_not_scratch [OF ok q(1)]] by (simp add: route_dst_def)
  then show ?thesis
    using w' q by (intro hops_but_upd [OF _ _ w'(2), of "[]"]) (simp_all add: searched_routes table_not_scratch [OF ok])
qed

lemma hops_but_added:
  assumes ok: "world_ok w" "world_ok w'" and w': "w_table w' = p # w_table w" "w_routes w' = (w_routes (searched b w))(p \<mapsto> r)"
    and r: "rt_dst_ip r \<in> A"
  shows "hops_but A w w'"
  by (rule hops_but_upd [OF _ _ w'(2) r, of "[p]"])
    (use w' table_distinct_Cons [OF ok(2) w'(1)] in \<open>simp_all add: searched_routes table_not_scratch [OF ok(1)]\<close>)

lemma set_lifetime_routed:
  assumes "routed w w1" "p \<in> dom (w_routes w1)" "p \<noteq> w_find_route w1"
  shows "runs (msh_route_set_lifetime E p l w1) (\<lambda>w'. routed w w' \<and> p \<in> dom (w_routes w') \<and>
    w_table w' = w_table w1 \<and> w_routes w' = (w_routes w1)(p \<mapsto> renewed (the (w_routes w1 p))))"
proof -
  obtain r where r: "w_routes w1 p = Some r" using assms(2) by auto
  from msh_route_set_lifetime_ok [OF routed_wf [OF assms(1)] r assms(3), of E l] show ?thesis
    by (rule runs_mono) (use r assms(1) in \<open>auto intro: routed_trans quiet_routed\<close>)
qed

text \<open>Allocating a route and filling it in: the state and the route just before it is added.\<close>

lemma fill_route:
  assumes "world_ok w" "msh_route_alloc w = Some (p, w1)"
    and "p = w_next_ptr w" "quiet w w1" "w_routes w1 = (w_routes w)(p \<mapsto> zero_route)" "w_table w1 = w_table w"
    and "p \<notin> dom (w_routes w)"
    and "rt_updated_cb r = No_cb" "rt_prefix_sz r = 0"
  shows "quiet w (w1\<lparr>w_routes := (w_routes w1)(p \<mapsto> r)\<rparr>)"
proof -
  have ok1: "world_ok w1" using assms(4) by (rule quiet_wf)
  have z: "w_routes w1 p = Some zero_route" using assms(5) by simp
  have "p \<notin> set (w_table w1)" "p \<noteq> w_find_route w1"
    using assms(1,4,6,7) by (auto simp: world_ok_def heap_ok_def quiet_def extends_def)
  then have ok: "world_ok (w1\<lparr>w_routes := (w_routes w1)(p \<mapsto> r)\<rparr>)"
    using assms(8,9) by (intro wf_route_upd [OF ok1 z]) (simp_all add: zero_route_def)
  have "\<exists>r'. ((w_routes w1)(p \<mapsto> r)) q = Some r' \<and> rt_dst_ip r' = rt_dst_ip s"
    if "w_routes w q = Some s" for q s
    using that assms(5,7) by auto
  then show ?thesis
    using ok assms(4,6) by (auto simp: quiet_def extends_def same_defs)
qed

lemma flags_renewed: "rt_flags (renewed r) AND RTFLAG_VALID_DEST_SEQ_NUM = rt_flags r AND RTFLAG_VALID_DEST_SEQ_NUM"
  by (simp add: renewed_def set_flag_other)

lemma flags_installed: "rt_flags (installed E r w) AND RTFLAG_VALID_DEST_SEQ_NUM = rt_flags r AND RTFLAG_VALID_DEST_SEQ_NUM"
  by (simp add: installed_def flags_renewed)

lemma flags_next_hop:
  "rt_flags (with_next_hop E h r) AND RTFLAG_VALID_DEST_SEQ_NUM = rt_flags r AND RTFLAG_VALID_DEST_SEQ_NUM"
  by (simp add: with_next_hop_def set_flag_other)

definition neighbour_route :: "env \<Rightarrow> in_addr \<Rightarrow> msh_route" where
  "neighbour_route E a = with_next_hop E a (zero_route\<lparr>rt_dst_ip := a\<rparr>)"

lemmas fresh_route_defs = msh_route_set_dst_ip_def msh_route_set_dest_seq_num_def msh_route_set_hop_count_def
  msh_route_set_flag_def msh_route_unset_flag_def upd_route_Some msh_route_set_next_hop_eq

lemma zero_route_simps [simp]:
  "rt_updated_cb zero_route = No_cb" "rt_prefix_sz zero_route = 0" "rt_flags zero_route = 0"
  by (simp_all add: zero_route_def)

lemma routed_quiet_trans: "quiet u v \<Longrightarrow> routed v w \<Longrightarrow> routed u w"
  using routed_trans quiet_routed by blast

text \<open>A route made from scratch and added in the state \<open>s\<close>, a quiet step after \<open>w\<close>.\<close>

definition route_added :: "env \<Rightarrow> msh_route \<Rightarrow> world \<Rightarrow> ptr \<Rightarrow> world \<Rightarrow> world \<Rightarrow> bool" where
  "route_added E r w p s w' \<longleftrightarrow> routed w w' \<and> p \<in> dom (w_routes w') \<and> p \<noteq> w_find_route w' \<and>
     (route_to w (rt_dst_ip r) = None \<longrightarrow> takes_routes E \<longrightarrow>
        w_table w' = p # w_table w \<and> no_waiters (rt_dst_ip r) w' \<and>
        (\<exists>w2. w_routes w' = (w_routes s)(p \<mapsto> installed E r w2)))"

lemma add_fresh_after:
  assumes ok: "world_ok w" and s: "quiet w s" "w_table s = w_table w"
    and q: "quiet s w2" "w_table w2 = w_table s" "p \<notin> dom (w_routes s)" "w_routes w2 = (w_routes s)(p \<mapsto> r)"
  shows "runs (routing_table_add E p w2) (\<lambda>(rc, w'). route_added E r w p s w')"
proof -
  have same: "route_to s a = route_to w a" for a
    by (rule extends_route_to [OF quiet_extends [OF s(1)] ok s(2)])
  have "p \<noteq> w_find_route s" using q(3) quiet_wf [OF s(1)] by (auto simp: world_ok_def heap_ok_def)
  then have "p \<noteq> w_find_route w'" if "routed s w'" for w' using that by (simp add: routed_def extends_def)
  then show ?thesis
    by (intro runs_mono [OF add_fresh [OF quiet_wf [OF s(1)] q]]) (use s same in \<open>auto simp: route_added_def intro: routed_quiet_trans\<close>)
qed

lemma alloc_and_add:
  assumes ok: "world_ok w" and s: "quiet w s" "w_table s = w_table w"
    and r: "rt_updated_cb r = No_cb" "rt_prefix_sz r = 0"
  obtains p w1 where "msh_route_alloc s = Some (p, w1)" "w_routes w1 p = Some zero_route"
    "runs (routing_table_add E p (w1\<lparr>w_routes := (w_routes w1)(p \<mapsto> r)\<rparr>)) (\<lambda>(rc, w'). route_added E r w p s w')"
proof -
  have oks: "world_ok s" by (rule quiet_wf [OF s(1)])
  obtain w1 where al: "msh_route_alloc s = Some (w_next_ptr s, w1)" "quiet s w1"
    "w_routes w1 = (w_routes s)(w_next_ptr s \<mapsto> zero_route)" "w_table w1 = w_table s" "w_next_ptr s \<notin> dom (w_routes s)"
    using msh_route_alloc_ok [OF oks] by metis
  have q2: "quiet s (w1\<lparr>w_routes := (w_routes w1)(w_next_ptr s \<mapsto> r)\<rparr>)"
    using al r by (intro fill_route [OF oks]) simp_all
  have z: "w_routes w1 (w_next_ptr s) = Some zero_route" using al(3) by simp
  show ?thesis
    by (rule that [OF al(1) z], rule add_fresh_after [OF ok s q2]) (use al(3-5) in simp_all)
qed

text \<open>The table after a step that makes sure that there is a route to the neighbour \<open>a\<close>.\<close>

definition neighbour_known :: "in_addr \<Rightarrow> ptr \<Rightarrow> world \<Rightarrow> world \<Rightarrow> bool" where
  "neighbour_known a p w w' \<longleftrightarrow> hops_but {a} w w' \<and> (if route_to w a = None
     then w_table w' = p # w_table w \<and> no_waiters a w' \<and>
       (\<exists>r. w_routes w' p = Some r \<and> rt_dst_ip r = a \<and> rt_flags r AND RTFLAG_VALID_DEST_SEQ_NUM = 0)
     else w_table w' = w_table w)"

lemma rrep_prev_hop_ok:
  assumes ok: "world_ok w"
  shows "runs (rrep_prev_hop E a w) (\<lambda>(p, w'). routed w w' \<and> p \<in> dom (w_routes w') \<and>
    (takes_routes E \<longrightarrow> neighbour_known a p w w'))"
proof (cases "route_to w a")
  case (Some p)
  have "p \<in> dom (w_routes (searched a w))" "p \<noteq> w_find_route (searched a w)"
    using searched_live [OF ok route_to_live [OF ok Some]] route_to_unique [OF ok] Some table_not_scratch [OF ok] by auto
  from set_lifetime_routed [OF quiet_routed [OF searched_quiet [OF ok]] this, of E ACTIVE_ROUTE_TIMEOUT]
  show ?thesis
    by (simp add: rrep_prev_hop_def routing_table_find_by_ip_eq [OF ok] Some neighbour_known_def)
      (auto intro: hops_but_renewed [OF ok Some] elim!: runs_mono)
next
  case None
  define r where "r = (neighbour_route E a)\<lparr>rt_flags := unset_flag (rt_flags (neighbour_route E a)) RTFLAG_VALID_DEST_SEQ_NUM\<rparr>"
  obtain p w1 where al: "msh_route_alloc (searched a w) = Some (p, w1)" "w_routes w1 p = Some zero_route"
    "runs (routing_table_add E p (w1\<lparr>w_routes := (w_routes w1)(p \<mapsto> r)\<rparr>)) (\<lambda>(rc, w'). route_added E r w p (searched a w) w')"
    using alloc_and_add [OF ok searched_quiet [OF ok], of a r] by (auto simp: r_def neighbour_route_def)
  have "rrep_prev_hop E a w =
      do { (_, w) \<leftarrow> routing_table_add E p (w1\<lparr>w_routes := (w_routes w1)(p \<mapsto> r)\<rparr>); Some (p, w) }"
    using al(1,2) by (simp add: rrep_prev_hop_def routing_table_find_by_ip_eq [OF ok] None fresh_route_defs
        r_def neighbour_route_def)
  moreover have "rt_dst_ip r = a" "rt_flags r AND RTFLAG_VALID_DEST_SEQ_NUM = 0"
    by (simp_all add: r_def neighbour_route_def)
  ultimately show ?thesis
    using al(3) None hops_but_added [OF ok routed_wf]
    by (auto simp: route_added_def flags_installed neighbour_known_def elim!: runs_mono)
qed

lemma rreq_prev_hop_ok:
  assumes ok: "world_ok w"
  shows "runs (rreq_prev_hop E a w) (\<lambda>w'. routed w w' \<and> (takes_routes E \<longrightarrow> hops_but {a} w w'))"
proof (cases "route_to w a")
  case (Some p)
  have "p \<in> dom (w_routes (searched a w))" "p \<noteq> w_find_route (searched a w)"
    using searched_live [OF ok route_to_live [OF ok Some]] route_to_unique [OF ok] Some table_not_scratch [OF ok] by auto
  from set_lifetime_routed [OF quiet_routed [OF searched_quiet [OF ok]] this, of E ACTIVE_ROUTE_TIMEOUT]
  show ?thesis
    by (simp add: rreq_prev_hop_def routing_table_find_by_ip_eq [OF ok] Some)
      (auto intro: hops_but_renewed [OF ok Some] elim!: runs_mono)
next
  case None
  let ?r = "neighbour_route E a"
  obtain p w1 where al: "msh_route_alloc (searched a w) = Some (p, w1)" "w_routes w1 p = Some zero_route"
    "runs (routing_table_add E p (w1\<lparr>w_routes := (w_routes w1)(p \<mapsto> ?r)\<rparr>)) (\<lambda>(rc, w'). route_added E ?r w p (searched a w) w')"
    using alloc_and_add [OF ok searched_quiet [OF ok], of a ?r] by (auto simp: neighbour_route_def)
  have "rreq_prev_hop E a w =
      do { (_, w) \<leftarrow> routing_table_add E p (w1\<lparr>w_routes := (w_routes w1)(p \<mapsto> ?r)\<rparr>); Some w }"
    using al(1,2) by (simp add: rreq_prev_hop_def routing_table_find_by_ip_eq [OF ok] None fresh_route_defs
        neighbour_route_def)
  moreover have "rt_dst_ip ?r = a" by (simp add: neighbour_route_def)
  ultimately show ?thesis
    using al(3) None hops_but_added [OF ok routed_wf] by (auto simp: route_added_def elim!: runs_mono)
qed

text \<open>The forward route that a reply makes.\<close>

definition reply_route :: "env \<Rightarrow> aodv_rrep \<Rightarrow> in_addr \<Rightarrow> msh_route" where
  "reply_route E rrep prev_hop = (let r = with_next_hop E prev_hop (zero_route\<lparr>rt_dst_ip := rrep_dest_ip_addr rrep\<rparr>) in
     r\<lparr>rt_dest_seq_num := rrep_dest_seq_num rrep, rt_flags := set_flag (rt_flags r) RTFLAG_VALID_DEST_SEQ_NUM\<rparr>)"

lemma rrep_dest_route_ok:
  assumes ok: "world_ok w"
  shows "runs (rrep_dest_route E rrep a w) (\<lambda>(p, created, w'). routed w w' \<and> p \<in> dom (w_routes w') \<and> p \<noteq> w_find_route w' \<and>
    created = (route_to w (rrep_dest_ip_addr rrep) = None) \<and>
    (\<not> created \<longrightarrow> w' = searched (rrep_dest_ip_addr rrep) w \<and> route_to w (rrep_dest_ip_addr rrep) = Some p) \<and>
    (created \<longrightarrow> route_added E (reply_route E rrep a) w p (searched (rrep_dest_ip_addr rrep) w) w'))"
proof (cases "route_to w (rrep_dest_ip_addr rrep)")
  case (Some p)
  let ?d = "rrep_dest_ip_addr rrep"
  have "p \<in> dom (w_routes (searched ?d w))" "p \<noteq> w_find_route w"
    using searched_live [OF ok route_to_live [OF ok Some]] route_to_unique [OF ok] Some table_not_scratch [OF ok] by auto
  then show ?thesis
    using quiet_routed [OF searched_quiet [OF ok]]
    by (simp add: rrep_dest_route_def routing_table_find_by_ip_eq [OF ok] Some)
next
  case None
  let ?d = "rrep_dest_ip_addr rrep" and ?r = "reply_route E rrep a"
  obtain p w1 where al: "msh_route_alloc (searched ?d w) = Some (p, w1)" "w_routes w1 p = Some zero_route"
    "runs (routing_table_add E p (w1\<lparr>w_routes := (w_routes w1)(p \<mapsto> ?r)\<rparr>)) (\<lambda>(rc, w'). route_added E ?r w p (searched ?d w) w')"
    using alloc_and_add [OF ok searched_quiet [OF ok], of ?d ?r] by (auto simp: reply_route_def Let_def)
  have "rrep_dest_route E rrep a w =
      do { (_, w) \<leftarrow> routing_table_add E p (w1\<lparr>w_routes := (w_routes w1)(p \<mapsto> ?r)\<rparr>); Some (p, True, w) }"
    using al(1,2) by (simp add: rrep_dest_route_def routing_table_find_by_ip_eq [OF ok] None fresh_route_defs
        reply_route_def Let_def)
  then show ?thesis
    using al(3) None by (auto simp: route_added_def elim!: runs_mono)
qed

section \<open>The reverse route\<close>

text \<open>A route to \<open>orig\<close> over \<open>hop\<close>, at \<open>hops\<close> hops, with a sequence number not older than \<open>seq\<close>.\<close>

definition leads :: "in_addr \<Rightarrow> in_addr \<Rightarrow> u8 \<Rightarrow> u32 \<Rightarrow> msh_route \<Rightarrow> bool" where
  "leads dst hop hops seq r \<longleftrightarrow> rt_dst_ip r = dst \<and> rt_next_hop r = hop \<and> rt_hop_count r = hops \<and>
     rt_flags r AND RTFLAG_VALID_DEST_SEQ_NUM \<noteq> 0 \<and> sint seq \<le> sint (rt_dest_seq_num r)"

definition has_route :: "in_addr \<Rightarrow> in_addr \<Rightarrow> u8 \<Rightarrow> u32 \<Rightarrow> world \<Rightarrow> bool" where
  "has_route dst hop hops seq w \<longleftrightarrow> (\<exists>p r. p \<in> set (w_table w) \<and> w_routes w p = Some r \<and> leads dst hop hops seq r)"

lemma leads_renewed [simp]: "leads d h n s (renewed r) = leads d h n s r"
  by (simp add: leads_def flags_renewed)

lemma leads_installed [simp]: "leads d h n s (installed E r w) = leads d h n s r"
  by (simp add: leads_def flags_installed)

definition orig_route :: "env \<Rightarrow> in_addr \<Rightarrow> u8 \<Rightarrow> u32 \<Rightarrow> msh_route \<Rightarrow> msh_route" where
  "orig_route E hop hops seq r =
     (let r1 = (with_next_hop E hop (r\<lparr>rt_flags := set_flag (rt_flags r) RTFLAG_VALID_DEST_SEQ_NUM\<rparr>))\<lparr>rt_hop_count := hops\<rparr>
      in if sint (rt_dest_seq_num r) < sint seq then r1\<lparr>rt_dest_seq_num := seq\<rparr> else r1)"

lemma orig_route_keeps [simp]:
  "rt_dst_ip (orig_route E h n s r) = rt_dst_ip r" "rt_prefix_sz (orig_route E h n s r) = rt_prefix_sz r"
  "rt_updated_cb (orig_route E h n s r) = rt_updated_cb r" "rt_alarm_action (orig_route E h n s r) = rt_alarm_action r"
  by (simp_all add: orig_route_def Let_def)

lemma orig_route_leads: "leads (rt_dst_ip r) h n s (orig_route E h n s r)"
  by (simp add: orig_route_def leads_def Let_def flags_next_hop)

lemma update_orig_route_ok:
  assumes ok: "world_ok w" and r: "w_routes w p = Some r" and nf: "p \<noteq> w_find_route w"
  shows "runs (update_orig_route E p h n s life w) (\<lambda>w'. routed w w' \<and> w_table w' = w_table w \<and>
    (\<exists>r'. w_routes w' = (w_routes w)(p \<mapsto> r') \<and> leads (rt_dst_ip r) h n s r'))"
proof -
  obtain l w1 where l: "msh_route_get_lifetime E p w = Some (l, w1)" "quiet w w1" "w_routes w1 = w_routes w"
    "w_table w1 = w_table w"
    using msh_route_get_lifetime_ok [OF ok, of p E] r by (metis domI)
  let ?r = "orig_route E h n s r"
  define w2 where "w2 = w1\<lparr>w_routes := (w_routes w1)(p \<mapsto> ?r)\<rparr>"
  have q2: "quiet w w2"
    unfolding w2_def using r l(3) by (intro quiet_trans [OF l(2)] quiet_route_upd [OF quiet_wf [OF l(2)]]) simp_all
  have t2: "w_table w2 = w_table w" "w_routes w2 = (w_routes w)(p \<mapsto> ?r)" using l(3,4) by (simp_all add: w2_def)
  then have live2: "p \<in> dom (w_routes w2)" by simp
  have nf2: "p \<noteq> w_find_route w2" using nf q2 by (simp add: quiet_def extends_def)
  have "update_orig_route E p h n s life w = (if life > l then msh_route_set_lifetime E p life w2 else Some w2)"
    using l(1,3) r by (simp add: update_orig_route_def msh_route_get_dest_seq_num_def fresh_route_defs
        orig_route_def w2_def Let_def)
  moreover have "runs (msh_route_set_lifetime E p life w2) (\<lambda>w'. routed w w' \<and> w_table w' = w_table w \<and>
    (\<exists>r'. w_routes w' = (w_routes w)(p \<mapsto> r') \<and> leads (rt_dst_ip r) h n s r'))"
    using set_lifetime_routed [OF quiet_routed [OF q2] live2 nf2, of E life] t2
    by (auto simp: orig_route_leads intro!: exI [of _ "renewed ?r"] elim!: runs_mono)
  ultimately show ?thesis
    using quiet_routed [OF q2] t2 by (auto simp: orig_route_leads)
qed

definition new_orig_route :: "env \<Rightarrow> in_addr \<Rightarrow> in_addr \<Rightarrow> u8 \<Rightarrow> u32 \<Rightarrow> msh_route" where
  "new_orig_route E dst hop hops seq =
     (with_next_hop E hop (zero_route\<lparr>rt_dst_ip := dst, rt_dest_seq_num := seq\<rparr>))\<lparr>rt_hop_count := hops\<rparr>"

lemma create_orig_route_ok:
  assumes ok: "world_ok w" and s: "quiet w v" "w_table v = w_table w" and none: "route_to w a = None"
  shows "runs (create_orig_route E a h n s life v) (\<lambda>(p, w'). routed w w' \<and> p \<in> dom (w_routes w') \<and>
    (takes_routes E \<longrightarrow> w_table w' = p # w_table w \<and> (\<exists>r'. w_routes w' = (w_routes v)(p \<mapsto> r') \<and> leads a h n s r')))"
proof -
  let ?p = "w_next_ptr v" and ?r = "new_orig_route E a h n s"
  define r where "r = renewed ?r"
  define r2 where "r2 = r\<lparr>rt_flags := set_flag (rt_flags r) RTFLAG_VALID_DEST_SEQ_NUM\<rparr>"
  have okv: "world_ok v" by (rule quiet_wf [OF s(1)])
  obtain w1 where al: "msh_route_alloc v = Some (?p, w1)" "quiet v w1"
    "w_routes w1 = (w_routes v)(?p \<mapsto> zero_route)" "w_table w1 = w_table v" "?p \<notin> dom (w_routes v)"
    using msh_route_alloc_ok [OF okv] by metis
  define w2 where "w2 = w1\<lparr>w_routes := (w_routes w1)(?p \<mapsto> ?r)\<rparr>"
  have q2: "quiet v w2"
    unfolding w2_def using al by (intro fill_route [OF okv]) (simp_all add: new_orig_route_def)
  have r2': "w_routes w2 ?p = Some ?r" by (simp add: w2_def)
  have nf2: "?p \<noteq> w_find_route w2"
    using al(5) okv q2 by (auto simp: world_ok_def heap_ok_def quiet_def extends_def)
  obtain w3 where w3: "msh_route_set_lifetime E ?p life w2 = Some w3" "quiet w2 w3" "w_table w3 = w_table w2"
    "w_routes w3 = (w_routes w2)(?p \<mapsto> r)"
    using msh_route_set_lifetime_ok [OF quiet_wf [OF q2] r2' nf2, of E life] by (auto simp: runs_iff r_def)
  define w4 where "w4 = w3\<lparr>w_routes := (w_routes w3)(?p \<mapsto> r2)\<rparr>"
  have r3: "w_routes w3 ?p = Some r" using w3(4) by simp
  have "quiet w3 w4"
    unfolding w4_def using quiet_wf [OF w3(2)] r3 by (intro quiet_route_upd) (simp_all add: r2_def)
  then have q4: "quiet v w4" using q2 w3(2) quiet_trans by blast
  have t4: "w_table w4 = w_table v" "w_routes w4 = (w_routes v)(?p \<mapsto> r2)"
    using w3(3,4) al(3,4) by (simp_all add: w4_def w2_def)
  have "create_orig_route E a h n s life v = do { (_, w) \<leftarrow> routing_table_add E ?p w4; Some (?p, w) }"
    using al(1,3) w3(1) r3
    by (simp add: create_orig_route_def fresh_route_defs w4_def r2_def w2_def new_orig_route_def)
  moreover have "leads a h n s r2"
    by (simp add: r2_def r_def new_orig_route_def leads_def)
  moreover have "rt_dst_ip r2 = a" by (simp add: r2_def r_def new_orig_route_def)
  moreover have "runs (routing_table_add E ?p w4) (\<lambda>(rc, w'). routed w w' \<and> ?p \<in> dom (w_routes w') \<and>
    (takes_routes E \<longrightarrow> w_table w' = ?p # w_table w \<and> (\<exists>r'. w_routes w' = (w_routes v)(?p \<mapsto> r') \<and> leads a h n s r')))"
    if ld: "leads a h n s r2" and dst: "rt_dst_ip r2 = a"
  proof (rule runs_mono [OF add_fresh_after [OF ok s q4 t4(1) al(5) t4(2), of E]], clarify, intro conjI impI)
    fix rc w' assume a: "route_added E r2 w ?p v w'"
    show "routed w w'" "?p \<in> dom (w_routes w')" using a by (simp_all add: route_added_def)
    assume E: "takes_routes E"
    show "w_table w' = ?p # w_table w" using a E none dst by (simp add: route_added_def)
    obtain w5 where "w_routes w' = (w_routes v)(?p \<mapsto> installed E r2 w5)"
      using a E none dst by (auto simp: route_added_def)
    then show "\<exists>r'. w_routes w' = (w_routes v)(?p \<mapsto> r') \<and> leads a h n s r'"
      using leads_installed ld by blast
  qed
  ultimately show ?thesis by (auto elim!: runs_mono)
qed

lemma rreq_orig_route_ok:
  assumes ok: "world_ok w"
  shows "runs (rreq_orig_route E rreq h n w) (\<lambda>(p, w'). routed w w' \<and> p \<in> dom (w_routes w') \<and>
    (takes_routes E \<longrightarrow> hops_but {rreq_orig_ip_addr rreq} w w' \<and> p \<in> set (w_table w') \<and>
      (\<exists>r'. w_routes w' p = Some r' \<and> leads (rreq_orig_ip_addr rreq) h n (rreq_orig_seq_num rreq) r')))"
proof -
  let ?a = "rreq_orig_ip_addr rreq" and ?s = "rreq_orig_seq_num rreq"
  define v where "v = (searched ?a w)\<lparr>w_tick := Suc (w_tick (searched ?a w))\<rparr>"
  define life where "life = minimal_lifetime (clock E (w_tick (searched ?a w))) n"
  have q: "quiet w v" "w_table v = w_table w"
    unfolding v_def using searched_quiet [OF ok] quiet_tick quiet_trans quiet_wf by (blast, simp)
  have def: "rreq_orig_route E rreq h n w = (case route_to w ?a of
       Some p \<Rightarrow> do { w \<leftarrow> update_orig_route E p h n ?s life v; Some (p, w) }
     | None \<Rightarrow> create_orig_route E ?a h n ?s life v)"
    by (simp add: rreq_orig_route_def routing_table_find_by_ip_eq [OF ok] gettimeofday_def Let_def v_def life_def
        split: option.split)
  show ?thesis
  proof (cases "route_to w ?a")
    case None
    from create_orig_route_ok [OF ok q None, of E h n ?s life] show ?thesis unfolding def None option.case
    proof (rule runs_mono)
      fix x
      assume "case x of (p, w') \<Rightarrow> routed w w' \<and> p \<in> dom (w_routes w') \<and> (takes_routes E \<longrightarrow>
        w_table w' = p # w_table w \<and> (\<exists>r'. w_routes w' = (w_routes v)(p \<mapsto> r') \<and> leads ?a h n ?s r'))"
      then obtain p w' where x: "x = (p, w')" and a: "routed w w'" "p \<in> dom (w_routes w')"
        and c: "takes_routes E \<longrightarrow> w_table w' = p # w_table w \<and>
          (\<exists>r'. w_routes w' = (w_routes v)(p \<mapsto> r') \<and> leads ?a h n ?s r')" by (cases x) simp
      have "hops_but {?a} w w' \<and> p \<in> set (w_table w') \<and> (\<exists>r'. w_routes w' p = Some r' \<and> leads ?a h n ?s r')"
        if tr: "takes_routes E"
      proof -
        obtain r where r: "w_table w' = p # w_table w" "w_routes w' = (w_routes v)(p \<mapsto> r)" "leads ?a h n ?s r"
          using c tr by blast
        have "hops_but {?a} w w'"
          by (rule hops_but_added [OF ok routed_wf [OF a(1)] r(1), of ?a r])
            (use r(2,3) in \<open>auto simp: v_def leads_def\<close>)
        then show ?thesis using r by simp
      qed
      then show "case x of (p, w') \<Rightarrow> routed w w' \<and> p \<in> dom (w_routes w') \<and> (takes_routes E \<longrightarrow>
        hops_but {?a} w w' \<and> p \<in> set (w_table w') \<and> (\<exists>r'. w_routes w' p = Some r' \<and> leads ?a h n ?s r'))"
        using a x by blast
    qed
  next
    case (Some p)
    then have p: "p \<in> set (w_table w)" "route_dst w p = ?a" using route_to_unique [OF ok] by auto
    then obtain r where r: "w_routes w p = Some r" using table_live [OF ok] by blast
    then have rv: "w_routes v p = Some r" "rt_dst_ip r = ?a"
      using p table_not_scratch [OF ok p(1)] by (simp_all add: v_def searched_routes route_dst_def)
    have nf: "p \<noteq> w_find_route v" using table_not_scratch [OF ok p(1)] by (simp add: v_def)
    have "runs (update_orig_route E p h n ?s life v) (\<lambda>w'. routed w w' \<and> p \<in> dom (w_routes w') \<and>
      hops_but {?a} w w' \<and> p \<in> set (w_table w') \<and> (\<exists>r'. w_routes w' p = Some r' \<and> leads ?a h n ?s r'))"
    proof (rule runs_mono [OF update_orig_route_ok [OF quiet_wf [OF q(1)] rv(1) nf, of E h n ?s life]], elim conjE exE)
      fix w' r'
      assume a: "routed v w'" "w_table w' = w_table v" "w_routes w' = (w_routes v)(p \<mapsto> r')" "leads (rt_dst_ip r) h n ?s r'"
      have "hops_but {?a} w w'"
        by (rule hops_but_upd [of _ "[]" _ p "searched ?a w" r'])
          (use a q p rv(2) in \<open>simp_all add: v_def leads_def searched_routes table_not_scratch [OF ok]\<close>)
      then show "routed w w' \<and> p \<in> dom (w_routes w') \<and>
        hops_but {?a} w w' \<and> p \<in> set (w_table w') \<and> (\<exists>r'. w_routes w' p = Some r' \<and> leads ?a h n ?s r')"
        using a q p rv(2) routed_quiet_trans [OF q(1) a(1)] by simp
    qed
    then show ?thesis unfolding def Some by (auto elim!: runs_mono)
  qed
qed

section \<open>Steps that keep the routes\<close>

text \<open>The table and its routes are as before, precursors apart.\<close>

definition keeps_routes :: "world \<Rightarrow> world \<Rightarrow> bool" where
  "keeps_routes w w' \<longleftrightarrow> w_table w' = w_table w \<and> (\<forall>p r. p \<in> set (w_table w) \<longrightarrow> w_routes w p = Some r \<longrightarrow>
     (\<exists>ps. w_routes w' p = Some (r\<lparr>rt_precursors := ps\<rparr>)))"

lemma keeps_routes_eq: "w_table w' = w_table w \<Longrightarrow> w_routes w' = w_routes w \<Longrightarrow> keeps_routes w w'"
proof -
  have "\<exists>ps. r = r\<lparr>rt_precursors := ps\<rparr>" for r :: msh_route by (rule exI [of _ "rt_precursors r"]) simp
  then show "w_table w' = w_table w \<Longrightarrow> w_routes w' = w_routes w \<Longrightarrow> keeps_routes w w'"
    by (simp add: keeps_routes_def)
qed

lemma keeps_routes_refl [simp]: "keeps_routes w w"
  by (rule keeps_routes_eq) simp_all

lemma keeps_routes_trans:
  assumes "keeps_routes u v" "keeps_routes v w"
  shows "keeps_routes u w"
  unfolding keeps_routes_def
proof (intro conjI allI impI)
  show "w_table w = w_table u" using assms by (simp add: keeps_routes_def)
  fix p r assume p: "p \<in> set (w_table u)" "w_routes u p = Some r"
  then obtain ps where "w_routes v p = Some (r\<lparr>rt_precursors := ps\<rparr>)"
    using assms(1) unfolding keeps_routes_def by blast
  moreover have "p \<in> set (w_table v)" using assms(1) p(1) by (simp add: keeps_routes_def)
  ultimately obtain qs where "w_routes w p = Some (r\<lparr>rt_precursors := ps, rt_precursors := qs\<rparr>)"
    using assms(2) unfolding keeps_routes_def by blast
  then show "\<exists>ps. w_routes w p = Some (r\<lparr>rt_precursors := ps\<rparr>)" by auto
qed

lemma keeps_routes_searched: "world_ok w \<Longrightarrow> keeps_routes w (searched a w)"
proof -
  assume ok: "world_ok w"
  have "w_routes (searched a w) p = w_routes w p" if "p \<in> set (w_table w)" for p
    using searched_routes table_not_scratch [OF ok that] by simp
  moreover have "r\<lparr>rt_precursors := rt_precursors r\<rparr> = r" for r :: msh_route by simp
  ultimately show ?thesis unfolding keeps_routes_def searched_table by metis
qed

lemma has_route_kept:
  assumes "keeps_routes w w'" "has_route d h n s w"
  shows "has_route d h n s w'"
proof -
  obtain p r where p: "p \<in> set (w_table w)" "w_routes w p = Some r" "leads d h n s r"
    using assms(2) by (auto simp: has_route_def)
  then obtain ps where "w_routes w' p = Some (r\<lparr>rt_precursors := ps\<rparr>)"
    using assms(1) unfolding keeps_routes_def by blast
  then show ?thesis
    using p assms(1) unfolding has_route_def keeps_routes_def leads_def by auto
qed

lemma msh_route_add_precursor_ok:
  assumes ok: "world_ok w" and p: "p \<in> dom (w_routes w)"
  shows "runs (msh_route_add_precursor p a w) (\<lambda>w'. quiet w w' \<and> keeps_routes w w')"
proof -
  obtain r where r: "w_routes w p = Some r" using p by auto
  define r' where "r' = r\<lparr>rt_precursors := a # rt_precursors r\<rparr>"
  have "quiet w (w\<lparr>w_routes := (w_routes w)(p \<mapsto> r')\<rparr>)"
    by (rule quiet_route_upd [OF ok r]) (simp_all add: r'_def)
  moreover have "keeps_routes w (w\<lparr>w_routes := (w_routes w)(p \<mapsto> r')\<rparr>)"
    unfolding keeps_routes_def
  proof (intro conjI allI impI)
    fix q s assume q: "q \<in> set (w_table w)" "w_routes w q = Some s"
    show "\<exists>ps. w_routes (w\<lparr>w_routes := (w_routes w)(p \<mapsto> r')\<rparr>) q = Some (s\<lparr>rt_precursors := ps\<rparr>)"
      by (rule exI [of _ "rt_precursors (if q = p then r' else s)"]) (use q r in \<open>auto simp: r'_def\<close>)
  qed simp
  ultimately show ?thesis
    using ok r by (simp add: msh_route_add_precursor_def upd_route_Some quiet_refl r'_def)
qed

lemma quiet_packet: "quiet (count_pkt w) w' \<Longrightarrow> quiet w (aodv_pkt_destroy pkt w')"
  by (simp add: quiet_def extends_def same_defs count_pkt_def aodv_pkt_destroy_def)

lemma keeps_packet: "keeps_routes (count_pkt w) w' \<Longrightarrow> keeps_routes w (aodv_pkt_destroy pkt w')"
  by (simp add: keeps_routes_def count_pkt_def aodv_pkt_destroy_def)

section \<open>Answers\<close>

definition calm :: "world \<Rightarrow> world \<Rightarrow> bool" where
  "calm w w' \<longleftrightarrow> quiet w w' \<and> keeps_routes w w'"

lemma calm_trans: "calm u v \<Longrightarrow> calm v w \<Longrightarrow> calm u w"
  by (auto simp: calm_def intro: quiet_trans keeps_routes_trans)

lemma calm_wf: "calm w w' \<Longrightarrow> world_ok w'"
  by (auto simp: calm_def intro: quiet_wf)

lemma calm_live: "calm w w' \<Longrightarrow> world_ok w \<Longrightarrow> p \<in> dom (w_routes w) \<Longrightarrow> p \<in> dom (w_routes w')"
  by (metis calm_def extends_live quiet_extends)

lemma calm_searched: "world_ok w \<Longrightarrow> calm w (searched a w)"
  by (simp add: calm_def searched_quiet keeps_routes_searched)

lemma calm_tick: "world_ok w \<Longrightarrow> calm w (w\<lparr>w_tick := t\<rparr>)"
  by (simp add: calm_def quiet_tick keeps_routes_eq)

lemma calm_packet: "calm (count_pkt w) w' \<Longrightarrow> calm w (aodv_pkt_destroy pkt w')"
  by (simp add: calm_def quiet_packet keeps_packet)

lemma count_pkt_ok [simp]: "world_ok (count_pkt w) = world_ok w" "w_routes (count_pkt w) = w_routes w"
  by (simp_all add: count_pkt_def)

lemma get_lifetime_calm:
  assumes "world_ok w" "p \<in> dom (w_routes w)"
  obtains l w' where "msh_route_get_lifetime E p w = Some (l, w')" "calm w w'" "w_routes w' = w_routes w"
proof -
  obtain l w' where l: "msh_route_get_lifetime E p w = Some (l, w')" "quiet w w'"
    "w_routes w' = w_routes w" "w_table w' = w_table w"
    using msh_route_get_lifetime_ok [OF assms] by metis
  then show ?thesis using that by (simp add: calm_def keeps_routes_eq)
qed

text \<open>An intermediate answer changes precursors and nothing else that lasts.\<close>

lemma answer_as_intermediate_ok:
  assumes ok: "world_ok w" and p: "po \<in> dom (w_routes w)" "pd \<in> dom (w_routes w)"
  shows "runs (answer_as_intermediate E rreq h po pd w) (calm w)"
proof -
  obtain w1 where w1: "msh_route_add_precursor pd h w = Some w1" "calm w w1"
    using msh_route_add_precursor_ok [OF ok p(2)] by (auto simp: runs_iff calm_def)
  have p1: "po \<in> dom (w_routes w1)" "pd \<in> dom (w_routes w1)"
    using calm_live [OF w1(2) ok] p by auto
  obtain nh where nh: "msh_route_get_next_hop pd w1 = Some nh"
    using p1(2) by (auto simp: msh_route_get_next_hop_def)
  obtain w2 where w2: "msh_route_add_precursor po nh w1 = Some w2" "calm w1 w2"
    using msh_route_add_precursor_ok [OF calm_wf [OF w1(2)] p1(1)] by (auto simp: runs_iff calm_def)
  have ok2: "world_ok (count_pkt w2)" using calm_wf [OF w2(2)] by simp
  have p2: "po \<in> dom (w_routes (count_pkt w2))" "pd \<in> dom (w_routes (count_pkt w2))"
    using calm_live [OF w2(2) calm_wf [OF w1(2)]] p1 by auto
  define w3 where "w3 = (count_pkt w2)\<lparr>w_tick := Suc (w_tick (count_pkt w2))\<rparr>"
  have c3: "calm (count_pkt w2) w3" unfolding w3_def by (rule calm_tick [OF ok2])
  have p3: "po \<in> dom (w_routes w3)" "pd \<in> dom (w_routes w3)" using p2 by (simp_all add: w3_def)
  obtain l w4 where w4: "msh_route_get_lifetime E pd w3 = Some (l, w4)" "calm w3 w4" "w_routes w4 = w_routes w3"
    using get_lifetime_calm [OF calm_wf [OF c3] p3(2)] by blast
  have c5: "calm w2 (aodv_pkt_destroy pkt w4)" for pkt
    using calm_packet [OF calm_trans [OF c3 w4(2)]] .
  have p5: "po \<in> dom (w_routes (count_pkt (aodv_pkt_destroy pkt w4)))" for pkt
    using p3(1) w4(3) by (simp add: count_pkt_def aodv_pkt_destroy_def)
  have grat: "runs (msh_route_get_lifetime E po (count_pkt (aodv_pkt_destroy pkt w4)))
      (\<lambda>(l, w'). \<forall>pkt'. calm w (aodv_pkt_destroy pkt' w'))" for pkt
  proof -
    have "world_ok (count_pkt (aodv_pkt_destroy pkt w4))" using calm_wf [OF c5] by simp
    from get_lifetime_calm [OF this p5, of E] obtain l' w' where
      "msh_route_get_lifetime E po (count_pkt (aodv_pkt_destroy pkt w4)) = Some (l', w')"
      "calm (count_pkt (aodv_pkt_destroy pkt w4)) w'" by blast
    then show ?thesis
      using calm_trans [OF w1(2) calm_trans [OF w2(2) calm_trans [OF c5 calm_packet]]] by simp
  qed
  obtain n1 n2 where n: "msh_route_get_dest_seq_num pd (count_pkt w2) = Some n1"
    "msh_route_get_hop_count pd (count_pkt w2) = Some n2"
    using p2(2) by (auto simp: msh_route_get_dest_seq_num_def msh_route_get_hop_count_def)
  obtain n3 where n3: "msh_route_get_hop_count po (count_pkt (aodv_pkt_destroy pkt w4)) = Some n3" for pkt
    using p5 by (auto simp: msh_route_get_hop_count_def count_pkt_def aodv_pkt_destroy_def)
  have g: "gettimeofday E (count_pkt w2) = (clock E (w_tick (count_pkt w2)), w3)"
    by (simp add: gettimeofday_def w3_def)
  show ?thesis
    using calm_trans [OF w1(2) calm_trans [OF w2(2) c5]]
    by (auto simp: answer_as_intermediate_def w1(1) nh w2(1) aodv_pkt_alloc_def n g w4(1) n3 Let_def
        intro!: runs_mono [OF grat])
qed

section \<open>The reply of the destination\<close>

definition rrep_event :: "in_addr \<Rightarrow> aodv_rrep \<Rightarrow> event" where
  "rrep_event hop rrep = Sent (htonl hop) (htons AODV_UDP_PORT) DEFAULT_TTL (rrep_bytes (aodv_pkt_prepare_rrep rrep))"

definition own_rrep :: "aodv_rreq \<Rightarrow> world \<Rightarrow> aodv_rrep" where
  "own_rrep rreq w = \<lparr>rrep_type = 2, rrep_reserved2 = 0, rrep_flags = 0, rrep_prefix_sz = 0, rrep_reserved = 0,
     rrep_hop_count = 0, rrep_dest_ip_addr = w_ip_addr w, rrep_dest_seq_num = w_seq_num w,
     rrep_orig_ip_addr = rreq_orig_ip_addr rreq, rrep_lifetime = MY_ROUTE_TIMEOUT\<rparr>"

text \<open>The own sequence number steps on when the request already has it.\<close>

definition stepped_seq :: "aodv_rreq \<Rightarrow> world \<Rightarrow> world" where
  "stepped_seq rreq w = (if rreq_dest_seq_num rreq = w_seq_num w then w\<lparr>w_seq_num := w_seq_num w + 1\<rparr> else w)"

lemma answer_as_destination_after:
  "after_send (rrep_event hop (own_rrep rreq (stepped_seq rreq w))) (stepped_seq rreq w)
     (answer_as_destination E rreq hop w)"
proof -
  let ?w = "stepped_seq rreq (count_pkt w)" and ?q = "own_rrep rreq (stepped_seq rreq w)"
  define pkt where "pkt = \<lparr>pkt_payload = Some (rrep_bytes (aodv_pkt_prepare_rrep ?q)), pkt_payload_len = 20,
      pkt_address = \<lparr>sin_family = AF_INET, sin_port = htons AODV_UDP_PORT, sin_addr = htonl hop\<rparr>,
      pkt_ttl = DEFAULT_TTL\<rparr>"
  obtain pkt' w3 where s: "aodv_pkt_send E pkt ?w = (pkt', w3)" "after_send (rrep_event hop ?q) ?w w3"
    using aodv_pkt_send_after [of E pkt ?w] by (auto simp: rrep_event_def pkt_def pkt_bytes_def)
  have built: "aodv_pkt_build_rrep (aodv_pkt_set_address (zero_pkt\<lparr>pkt_ttl := DEFAULT_TTL, pkt_address :=
       \<lparr>sin_family = AF_INET, sin_port = htons AODV_UDP_PORT, sin_addr = w_broadcast_addr w\<rparr>\<rparr>) hop)
      0 0 0 (w_ip_addr ?w) (w_seq_num ?w) (rreq_orig_ip_addr rreq) MY_ROUTE_TIMEOUT = pkt"
    by (simp add: pkt_def aodv_pkt_set_address_def aodv_pkt_build_rrep_def zero_pkt_def own_rrep_def
        aodv_pkt_prepare_rrep_def stepped_seq_def count_pkt_def)
  have "answer_as_destination E rreq hop w = aodv_pkt_destroy pkt' w3"
    unfolding answer_as_destination_def aodv_pkt_alloc_def
    by (simp add: Let_def built s(1) stepped_seq_def [symmetric])
  then show ?thesis
    using s(2) by (auto simp: after_send_def aodv_pkt_destroy_def stepped_seq_def count_pkt_def upd_stats_def emit_def)
qed

section \<open>Handling a request\<close>

text \<open>Whether an intermediate node takes the request without passing it on.\<close>

definition swallows :: "aodv_rreq \<Rightarrow> world \<Rightarrow> bool" where
  "swallows rreq w \<longleftrightarrow> route_to w (rreq_dest_ip_addr rreq) \<noteq> None \<and>
     sint (w_seq_num w) \<le> sint (rreq_dest_seq_num rreq) \<and> rreq_flags rreq AND RREQ_DEST_ONLY_FLAG = 0"

lemma calm_route_to: "calm w w' \<Longrightarrow> world_ok w \<Longrightarrow> route_to w' a = route_to w a"
  by (rule extends_route_to) (auto simp: calm_def quiet_extends keeps_routes_def)

lemma aodv_answer_to_rreq_ok:
  assumes ok: "world_ok w" and p: "po \<in> dom (w_routes w)"
  shows "runs (aodv_answer_to_rreq E rreq h po w) (\<lambda>(b, w').
    if rreq_dest_ip_addr rreq = w_ip_addr w then b \<and>
      after_send (rrep_event h (own_rrep rreq (stepped_seq rreq w))) (stepped_seq rreq w) w'
    else calm w w' \<and> b = swallows rreq w)"
proof (cases "rreq_dest_ip_addr rreq = w_ip_addr w")
  case True
  then show ?thesis by (simp add: aodv_answer_to_rreq_def answer_as_destination_after)
next
  case False
  let ?s = "searched (rreq_dest_ip_addr rreq) w"
  have cs: "calm w ?s" by (rule calm_searched [OF ok])
  have seq: "w_seq_num ?s = w_seq_num w" by (simp add: searched_def)
  have "runs (answer_as_intermediate E rreq h po pd ?s) (calm w)" if "route_to w (rreq_dest_ip_addr rreq) = Some pd" for pd
  proof -
    have "po \<in> dom (w_routes ?s)" "pd \<in> dom (w_routes ?s)"
      using searched_live [OF ok] p route_to_live [OF ok that] by auto
    from answer_as_intermediate_ok [OF calm_wf [OF cs] this]
    show ?thesis by (rule runs_mono) (rule calm_trans [OF cs])
  qed
  then show ?thesis
    using False cs by (auto simp: aodv_answer_to_rreq_def routing_table_find_by_ip_eq [OF ok] seq swallows_def
        split: option.splits)
qed

lemma high_field_fits: "take_bit (8 - k) (high_field k b) = high_field k b"
  unfolding high_field_def by (rule bit_word_eqI) (auto simp: bit_simps dest: bit_imp_le_length)

lemma rreq_of_fits: "rreq_fits (rreq_of bs) = rreq_of bs"
  using high_field_fits [of 3] by (simp add: rreq_of_def rreq_fits_def low_field_def)

lemma rrep_of_fits: "rrep_fits (rrep_of bs) = rrep_of bs"
  using high_field_fits [of 6] high_field_fits [of 5] by (simp add: rrep_of_def rrep_fits_def low_field_def)

lemma rreq_payload:
  assumes "pkt_ok pkt" "pkt_rreq pkt = Some q"
  obtains bs where "pkt_payload pkt = Some bs" "24 \<le> length bs" "pkt_payload_len pkt = length bs" "q = rreq_of bs"
proof -
  obtain b bs where bs: "pkt_payload pkt = Some (b # bs)" "pkt_payload_len pkt = Suc (length bs)"
    using assms(1) unfolding pkt_ok_def by blast
  then have "24 \<le> length (b # bs)" "q = rreq_of (b # bs)"
    using assms(2) by (auto simp: pkt_rreq_def simp del: length_Cons)
  then show ?thesis using that bs by simp
qed

lemma rrep_payload:
  assumes "pkt_ok pkt" "pkt_rrep pkt = Some q"
  obtains bs where "pkt_payload pkt = Some bs" "20 \<le> length bs" "pkt_payload_len pkt = length bs" "q = rrep_of bs"
proof -
  obtain b bs where bs: "pkt_payload pkt = Some (b # bs)" "pkt_payload_len pkt = Suc (length bs)"
    using assms(1) unfolding pkt_ok_def by blast
  then have "20 \<le> length (b # bs)" "q = rrep_of (b # bs)"
    using assms(2) by (auto simp: pkt_rrep_def simp del: length_Cons)
  then show ?thesis using that bs by simp
qed

text \<open>The datagram that passes a request on.\<close>

definition forwarded_rreq :: "aodv_pkt \<Rightarrow> aodv_rreq \<Rightarrow> world \<Rightarrow> event" where
  "forwarded_rreq pkt rreq w = Sent (htonl (w_broadcast_addr w)) (sin_port (pkt_address pkt)) (pkt_ttl pkt - 1)
     (rreq_bytes (aodv_pkt_prepare_rreq rreq) @ drop 24 (pkt_bytes pkt))"

lemma rreq_unchanged: "rreq\<lparr>rreq_dest_seq_num := rreq_dest_seq_num rreq\<rparr> = rreq"
  by simp

lemma rreq_forward_ok:
  assumes ok: "world_ok w" and pkt: "pkt_ok pkt" and q: "pkt_rreq pkt = Some q"
  shows "runs (rreq_forward E pkt w) (\<lambda>w'. after_send (forwarded_rreq pkt q w)
    ((searched (rreq_dest_ip_addr q) w)\<lparr>w_num_rreq_sent := w_num_rreq_sent w + 1\<rparr>) w')"
proof -
  let ?s = "searched (rreq_dest_ip_addr q) w"
  define w2 where "w2 = ?s\<lparr>w_num_rreq_sent := w_num_rreq_sent w + 1\<rparr>"
  obtain bs where bs: "pkt_payload pkt = Some bs" "24 \<le> length bs" "pkt_payload_len pkt = length bs"
    using rreq_payload [OF pkt q] .
  define pk where "pk = pkt\<lparr>pkt_address := (pkt_address pkt)\<lparr>sin_addr := htonl (w_broadcast_addr w)\<rparr>,
     pkt_ttl := pkt_ttl pkt - 1, pkt_payload := Some (rreq_bytes (aodv_pkt_prepare_rreq q) @ drop 24 bs)\<rparr>"
  have set: "set_pkt_rreq (aodv_pkt_prepare_rreq q) (aodv_pkt_decrease_ttl (aodv_pkt_set_address pkt (w_broadcast_addr w))) = Some pk"
    using bs by (simp add: set_pkt_rreq_def aodv_pkt_decrease_ttl_def aodv_pkt_set_address_def pk_def)
  obtain pkt' w3 where s: "aodv_pkt_send E pk w2 = (pkt', w3)" "after_send (forwarded_rreq pkt q w) w2 w3"
    using aodv_pkt_send_after [of E pk w2] bs by (auto simp: forwarded_rreq_def pk_def pkt_bytes_def)
  define m where "m = (case route_to w (rreq_dest_ip_addr q) of
         Some route_to_dest \<Rightarrow> do {
           flags \<leftarrow> msh_route_get_flags route_to_dest ?s;
           if flags AND RTFLAG_VALID_ENTRY = 0 \<and> flags AND RTFLAG_VALID_DEST_SEQ_NUM \<noteq> 0 then do {
             dest_seq_num_old \<leftarrow> msh_route_get_dest_seq_num route_to_dest ?s;
             let dest_seq_num_new = rreq_dest_seq_num q;
             if dest_seq_num_old < dest_seq_num_new then Some (q\<lparr>rreq_dest_seq_num := dest_seq_num_new\<rparr>)
             else Some q }
           else Some q }
       | None \<Rightarrow> Some q)"
  have m: "m = Some q"
  proof (cases "route_to w (rreq_dest_ip_addr q)")
    case (Some p)
    then obtain r where "w_routes ?s p = Some r" using searched_live [OF ok route_to_live [OF ok Some]] by blast
    then show ?thesis by (simp add: m_def Some msh_route_get_flags_def msh_route_get_dest_seq_num_def Let_def)
  qed (simp add: m_def)
  have n: "w_num_rreq_sent ?s = w_num_rreq_sent w" by (simp add: searched_def)
  have "rreq_forward E pkt w = Some w3"
    unfolding rreq_forward_def q
    by (simp add: routing_table_find_by_ip_eq [OF ok] m_def [symmetric] m set n w2_def [symmetric] s(1))
  then show ?thesis using s(2) by (simp add: w2_def)
qed

text \<open>The request as it is passed on, one hop further.\<close>

definition hopped :: "aodv_rreq \<Rightarrow> aodv_rreq" where
  "hopped q = q\<lparr>rreq_hop_count := rreq_hop_count q + 1\<rparr>"

definition rreq_seen :: "aodv_rreq \<Rightarrow> world \<Rightarrow> bool" where
  "rreq_seen q w \<longleftrightarrow> (\<exists>e \<in> ran (w_rreqs w). rq_rreq_id e = rreq_rreq_id q \<and> rq_dst e = rreq_dest_ip_addr q)"

text \<open>What a new request leads to, once the routes are updated, in the state \<open>w\<close>.\<close>

definition rreq_reaction :: "aodv_pkt \<Rightarrow> aodv_rreq \<Rightarrow> world \<Rightarrow> event list" where
  "rreq_reaction pkt q w =
     (if rreq_dest_ip_addr q = w_ip_addr w then
        [rrep_event (aodv_pkt_get_address pkt) (own_rrep q (stepped_seq q w))]
      else if swallows q w \<or> pkt_ttl pkt \<le> 1 then []
      else [forwarded_rreq pkt (hopped q) w])"

lemma hopped_fits: "rreq_fits q = q \<Longrightarrow> rreq_fits (hopped q) = hopped q"
  by (cases q) (simp add: rreq_fits_def hopped_def)

lemma pkt_ok_rreq_bytes:
  "length bs' + 24 = n \<Longrightarrow> pkt_ok (pkt\<lparr>pkt_payload := Some (rreq_bytes q @ bs'), pkt_payload_len := n\<rparr>)"
  by (simp add: pkt_ok_def rreq_bytes_def store32_def)

lemma set_hopped:
  assumes "pkt_ok pkt" "pkt_rreq pkt = Some q"
  obtains pkt' where "set_pkt_rreq (hopped q) pkt = Some pkt'" "pkt_ok pkt'" "pkt_rreq pkt' = Some (hopped q)"
    "pkt_ttl pkt' = pkt_ttl pkt" "\<And>r w. forwarded_rreq pkt' r w = forwarded_rreq pkt r w"
proof -
  obtain bs where bs: "pkt_payload pkt = Some bs" "24 \<le> length bs" "pkt_payload_len pkt = length bs" "q = rreq_of bs"
    using rreq_payload [OF assms] .
  let ?p = "pkt\<lparr>pkt_payload := Some (rreq_bytes (hopped q) @ drop 24 bs)\<rparr>"
  have set: "set_pkt_rreq (hopped q) pkt = Some ?p" using bs by (simp add: set_pkt_rreq_def)
  have "pkt_rreq ?p = Some (hopped q)"
    using pkt_rreq_set [OF set] hopped_fits [OF rreq_of_fits] bs(4) by simp
  moreover have "pkt_ok ?p"
    using pkt_ok_rreq_bytes [of "drop 24 bs" "length bs"] bs by (simp add: pkt_ok_def)
  moreover have "forwarded_rreq ?p r w = forwarded_rreq pkt r w" for r w
    using bs by (simp add: forwarded_rreq_def pkt_bytes_def)
  ultimately show ?thesis using that set by simp
qed

text \<open>From the state \<open>v\<close>, where the routes are up to date, to the end of the handler.\<close>

definition reacts :: "aodv_pkt \<Rightarrow> aodv_rreq \<Rightarrow> world \<Rightarrow> world \<Rightarrow> bool" where
  "reacts pkt q v w' \<longleftrightarrow> extends v w' \<and> same_rreqs v w' \<and> same_pkts v w' \<and> keeps_routes v w' \<and> accounted v w' \<and>
     w_end w' = w_end v \<and>
     sent w' = rreq_reaction pkt q v @ sent v \<and>
     w_seq_num w' = w_seq_num (if rreq_dest_ip_addr q = w_ip_addr v then stepped_seq q v else v) \<and>
     w_rreq_id w' = w_rreq_id v \<and> w_live_pkts w' = w_live_pkts v \<and>
     w_num_rreq_sent w' = w_num_rreq_sent v +
       (if rreq_dest_ip_addr q = w_ip_addr v \<or> rreq_reaction pkt q v = [] then 0 else 1)"

lemma hopped_same [simp]:
  "swallows (hopped q) w = swallows q w" "own_rrep (hopped q) w = own_rrep q w" "stepped_seq (hopped q) w = stepped_seq q w"
  "rreq_dest_ip_addr (hopped q) = rreq_dest_ip_addr q" "rreq_orig_ip_addr (hopped q) = rreq_orig_ip_addr q"
  "rreq_orig_seq_num (hopped q) = rreq_orig_seq_num q" "rreq_rreq_id (hopped q) = rreq_rreq_id q"
  by (simp_all add: swallows_def own_rrep_def stepped_seq_def hopped_def)

lemma stepped_seq_same [simp]:
  "world_ok (stepped_seq q w) = world_ok w" "w_routes (stepped_seq q w) = w_routes w"
  "w_table (stepped_seq q w) = w_table w" "w_find_route (stepped_seq q w) = w_find_route w"
  "w_rreqs (stepped_seq q w) = w_rreqs w" "w_rreq_queue (stepped_seq q w) = w_rreq_queue w"
  "w_pkts (stepped_seq q w) = w_pkts w" "w_packets_queue (stepped_seq q w) = w_packets_queue w"
  "w_ip_addr (stepped_seq q w) = w_ip_addr w" "w_broadcast_addr (stepped_seq q w) = w_broadcast_addr w"
  "w_rreq_id (stepped_seq q w) = w_rreq_id w" "w_live_pkts (stepped_seq q w) = w_live_pkts w"
  "w_num_rreq_sent (stepped_seq q w) = w_num_rreq_sent w" "w_out (stepped_seq q w) = w_out w"
  "w_end (stepped_seq q w) = w_end w"
  by (simp_all add: stepped_seq_def)

lemma is_sent_events [simp]:
  "is_sent (rrep_event h r)" "is_sent (forwarded_rreq pkt q w)" "is_sent (rreq_event t w q)"
  by (simp_all add: rrep_event_def forwarded_rreq_def rreq_event_def)

text \<open>The last part of the handler: answer, pass on, or stop.\<close>

lemma rreq_reacts:
  assumes ok: "world_ok v" and po: "po \<in> dom (w_routes v)" and pkt: "pkt_ok pkt'" "pkt_rreq pkt' = Some (hopped q)"
    "pkt_ttl pkt' = pkt_ttl pkt" "\<And>r w. forwarded_rreq pkt' r w = forwarded_rreq pkt r w"
  shows "runs (aodv_answer_to_rreq E (hopped q) (aodv_pkt_get_address pkt) po v) (\<lambda>(answered, w).
    runs (if \<not> answered \<and> aodv_pkt_get_ttl pkt' > 1 then rreq_forward E pkt' w else Some w) (reacts pkt q v))"
proof (rule runs_mono [OF aodv_answer_to_rreq_ok [OF ok po]], clarify)
  fix b w
  assume a: "if rreq_dest_ip_addr (hopped q) = w_ip_addr v then b \<and> after_send (rrep_event (aodv_pkt_get_address pkt)
        (own_rrep (hopped q) (stepped_seq (hopped q) v))) (stepped_seq (hopped q) v) w
      else calm v w \<and> b = swallows (hopped q) v"
  show "runs (if \<not> b \<and> aodv_pkt_get_ttl pkt' > 1 then rreq_forward E pkt' w else Some w) (reacts pkt q v)"
  proof (cases "rreq_dest_ip_addr q = w_ip_addr v")
    case True
    then have s: "after_send (rrep_event (aodv_pkt_get_address pkt) (own_rrep q (stepped_seq q v))) (stepped_seq q v) w" and b
      using a by simp_all
    have "world_ok w" using after_send_wf [OF s] ok by simp
    moreover have "extends v w"
      using \<open>world_ok w\<close> after_send_same [OF s] by (auto simp: extends_def)
    ultimately show ?thesis
      using after_send_same [OF s] True \<open>b\<close>
      by (simp add: reacts_def same_defs sent_def rreq_reaction_def keeps_routes_eq accounted_event)
  next
    case False
    then have c: "calm v w" and b: "b = swallows q v" using a by simp_all
    have self: "w_ip_addr w = w_ip_addr v" "w_broadcast_addr w = w_broadcast_addr v" "sent w = sent v"
      "w_seq_num w = w_seq_num v" "w_rreq_id w = w_rreq_id v" "w_live_pkts w = w_live_pkts v"
      "w_num_rreq_sent w = w_num_rreq_sent v" "same_rreqs v w" "same_pkts v w" "w_out w = w_out v" "w_end w = w_end v"
      using c by (auto simp: calm_def quiet_def same_defs extends_def sent_def)
    have e: "forwarded_rreq pkt r w = forwarded_rreq pkt r v" for r using self by (simp add: forwarded_rreq_def)
    show ?thesis
    proof (cases "\<not> b \<and> aodv_pkt_get_ttl pkt' > 1")
      case True
      have "reacts pkt q v w'" if s: "after_send (forwarded_rreq pkt' (hopped q) w)
          ((searched (rreq_dest_ip_addr (hopped q)) w)\<lparr>w_num_rreq_sent := w_num_rreq_sent w + 1\<rparr>) w'" for w'
      proof -
        have "calm v (searched (rreq_dest_ip_addr q) w)" using calm_trans [OF c calm_searched [OF calm_wf [OF c]]] .
        then have k: "keeps_routes v w'" "extends v w'" "same_rreqs v w'" "same_pkts v w'"
          using after_send_same [OF s] after_send_wf [OF s]
          by (auto simp: calm_def quiet_def same_defs extends_def keeps_routes_def)
        have "rreq_reaction pkt q v = [forwarded_rreq pkt (hopped q) v]"
          using True b False pkt(3) by (simp add: rreq_reaction_def aodv_pkt_get_ttl_def not_le)
        then show ?thesis
          using k self e after_send_same [OF s] False pkt(4)
          by (simp add: reacts_def sent_def searched_def accounted_event same_pkts_def)
      qed
      then show ?thesis
        using True rreq_forward_ok [OF calm_wf [OF c] pkt(1,2), of E] by (auto elim!: runs_mono)
    next
      case no: False
      then have "rreq_reaction pkt q v = []"
        using b False pkt(3) by (auto simp: rreq_reaction_def aodv_pkt_get_ttl_def not_le)
      then show ?thesis
        using no self c False by (auto simp: reacts_def calm_def quiet_extends accounted_kept same_pkts_def)
    qed
  qed
qed

text \<open>The state after the routes are up to date.\<close>

definition rreq_recorded :: "env \<Rightarrow> aodv_pkt \<Rightarrow> aodv_rreq \<Rightarrow> world \<Rightarrow> world \<Rightarrow> bool" where
  "rreq_recorded E pkt q w v \<longleftrightarrow> extends w v \<and> same_self w v \<and> sent v = sent w \<and> w_stats v = w_stats w \<and>
     accounted w v \<and>
     (\<exists>p. p \<notin> dom (w_rreqs w) \<and> w_rreqs v = (w_rreqs w)(p \<mapsto>
        \<lparr>rq_rreq_id = rreq_rreq_id q, rq_dst = rreq_dest_ip_addr q, rq_prev_tries = -1\<rparr>)) \<and>
     (takes_routes E \<longrightarrow> hops_but {aodv_pkt_get_address pkt, rreq_orig_ip_addr q} w v \<and>
        has_route (rreq_orig_ip_addr q) (aodv_pkt_get_address pkt) (rreq_hop_count q) (rreq_orig_seq_num q) v)"

lemma aodv_process_rreq_ok:
  assumes ok: "world_ok w" and pkt: "pkt_ok pkt" "pkt_rreq pkt = Some q"
  shows "runs (aodv_process_rreq E pkt w) (\<lambda>w'.
    if rreq_seen q w then routed w w' else (\<exists>v. rreq_recorded E pkt q w v \<and> reacts pkt q v w'))"
proof -
  let ?h = "aodv_pkt_get_address pkt"
  obtain w1 where w1: "rreq_prev_hop E ?h w = Some w1" "routed w w1" "takes_routes E \<longrightarrow> hops_but {?h} w w1"
    using rreq_prev_hop_ok [OF ok] by (auto simp: runs_iff)
  have ok1: "world_ok w1" by (rule routed_wf [OF w1(2)])
  have seen: "rreq_fifo_contains (rreq_rreq_id q) (rreq_dest_ip_addr q) w1 = Some (rreq_seen q w)"
    using routed_rreqs [OF w1(2)] by (simp add: rreq_fifo_contains_eq [OF ok1] rreq_seen_def)
  show ?thesis
  proof (cases "rreq_seen q w")
    case True
    then show ?thesis using w1 pkt seen by (simp add: aodv_process_rreq_def)
  next
    case False
    obtain w2 where w2: "rreq_fifo_push E (rreq_rreq_id q) (rreq_dest_ip_addr q) w1 = Some w2" "rreqs_only w1 w2"
      "w_rreqs w2 = (w_rreqs w1)(w_next_ptr w1 \<mapsto>
        \<lparr>rq_rreq_id = rreq_rreq_id q, rq_dst = rreq_dest_ip_addr q, rq_prev_tries = -1\<rparr>)"
      using push_entry_ok [OF ok1, of "-1" E "rreq_rreq_id q" "rreq_dest_ip_addr q" PATH_DISCOVERY_TIME]
      by (auto simp: rreq_fifo_push_def runs_iff)
    have ok2: "world_ok w2" using w2(2) by (simp add: rreqs_only_def)
    have fresh: "w_next_ptr w1 \<notin> dom (w_rreqs w)"
      using next_ptr_fresh(2) [OF ok1] routed_rreqs [OF w1(2)] by simp
    obtain pkt' where pkt': "set_pkt_rreq (hopped q) pkt = Some pkt'" "pkt_ok pkt'" "pkt_rreq pkt' = Some (hopped q)"
      "pkt_ttl pkt' = pkt_ttl pkt" "\<And>r w. forwarded_rreq pkt' r w = forwarded_rreq pkt r w"
      using set_hopped [OF pkt] by blast
    obtain po v where v: "rreq_orig_route E (hopped q) ?h (rreq_hop_count q) w2 = Some (po, v)" "routed w2 v"
      "po \<in> dom (w_routes v)" "takes_routes E \<longrightarrow> hops_but {rreq_orig_ip_addr q} w2 v \<and>
        has_route (rreq_orig_ip_addr q) ?h (rreq_hop_count q) (rreq_orig_seq_num q) v"
      using rreq_orig_route_ok [OF ok2, of E "hopped q" ?h "rreq_hop_count q"] by (auto simp: runs_iff has_route_def)
    have "accounted w1 w2" using w2(2) by (simp add: rreqs_only_def same_defs accounted_kept)
    moreover have "extends w w1" "accounted w w1" "extends w2 v" "accounted w2 v" using w1(2) v(2) by (simp_all add: routed_def)
    moreover have "extends w1 w2" by (rule rreqs_only_extends [OF ok1 w2(2)])
    ultimately have "accounted w v" using accounted_trans extends_trans by blast
    have "hops_but {} w1 w2" using w2(2) by (simp add: rreqs_only_def hops_but_same)
    then have "takes_routes E \<longrightarrow> hops_but {?h, rreq_orig_ip_addr q} w v"
      using w1(3) v(4) hops_but_trans [of _ w w1 _ w2] hops_but_trans [of _ w w2 _ v] by blast
    with \<open>accounted w v\<close> have rec: "rreq_recorded E pkt q w v"
      using w1(2) w2(2,3) v(2,4) fresh routed_rreqs [OF w1(2)] extends_trans [OF _ rreqs_only_extends [OF ok1 w2(2)]]
      by (auto simp: rreq_recorded_def routed_def rreqs_only_def same_defs sent_def intro: extends_trans)
    have "aodv_process_rreq E pkt w = do { (answered, w) \<leftarrow> aodv_answer_to_rreq E (hopped q) ?h po v;
        if \<not> answered \<and> aodv_pkt_get_ttl pkt' > 1 then rreq_forward E pkt' w else Some w }"
      using w1(1) pkt(2) seen False w2(1) pkt'(1) v(1) by (simp add: aodv_process_rreq_def Let_def hopped_def)
    then show ?thesis
      using rreq_reacts [OF routed_wf [OF v(2)] v(3) pkt'(2-5), of E] rec False
      by (auto elim!: runs_mono)
  qed
qed

section \<open>Handling a reply\<close>

definition fwd_route :: "env \<Rightarrow> aodv_rrep \<Rightarrow> in_addr \<Rightarrow> msh_route \<Rightarrow> msh_route" where
  "fwd_route E rrep h r = (with_next_hop E h (r\<lparr>rt_dest_seq_num := rrep_dest_seq_num rrep,
     rt_flags := set_flag (rt_flags r) RTFLAG_VALID_DEST_SEQ_NUM\<rparr>))\<lparr>rt_hop_count := rrep_hop_count rrep\<rparr>"

lemma fwd_route_keeps [simp]:
  "rt_dst_ip (fwd_route E q h r) = rt_dst_ip r" "rt_prefix_sz (fwd_route E q h r) = rt_prefix_sz r"
  "rt_updated_cb (fwd_route E q h r) = rt_updated_cb r" "rt_alarm_action (fwd_route E q h r) = rt_alarm_action r"
  by (simp_all add: fwd_route_def)

lemma fwd_route_leads: "leads (rt_dst_ip r) h (rrep_hop_count q) (rrep_dest_seq_num q) (fwd_route E q h r)"
  by (simp add: leads_def fwd_route_def flags_next_hop)

lemma rrep_update_dest_ok:
  assumes ok: "world_ok w" and r: "w_routes w p = Some r" and nf: "p \<noteq> w_find_route w"
  shows "runs (rrep_update_dest E q h p w) (\<lambda>(now, w'). routed w w' \<and> w_table w' = w_table w \<and>
    same_pkts w w' \<and> w_out w' = w_out w \<and> w_routes w' = (w_routes w)(p \<mapsto> renewed (fwd_route E q h r)))"
proof -
  define w1 where "w1 = w\<lparr>w_routes := (w_routes w)(p \<mapsto> fwd_route E q h r)\<rparr>"
  define w2 where "w2 = w1\<lparr>w_tick := Suc (w_tick w1)\<rparr>"
  have q1: "quiet w w1" unfolding w1_def by (rule quiet_route_upd [OF ok r]) simp_all
  have q2: "quiet w w2" unfolding w2_def using q1 quiet_tick [OF quiet_wf [OF q1]] by (rule quiet_trans)
  have r2: "w_routes w2 p = Some (fwd_route E q h r)" "p \<noteq> w_find_route w2"
    using nf by (simp_all add: w2_def w1_def)
  have "rrep_update_dest E q h p w = map_option (Pair (clock E (w_tick w1)))
      (msh_route_set_lifetime E p (tv_ms (clock E (w_tick w1)) + rrep_lifetime q) w2)"
    using r by (simp add: rrep_update_dest_def fresh_route_defs gettimeofday_def w2_def w1_def fwd_route_def
        map_option_case split: option.splits bind_splits)
  moreover have "runs (msh_route_set_lifetime E p l w2) (\<lambda>w'. routed w w' \<and> w_table w' = w_table w \<and>
      same_pkts w w' \<and> w_out w' = w_out w \<and> w_routes w' = (w_routes w)(p \<mapsto> renewed (fwd_route E q h r)))" for l
  proof (rule runs_mono [OF msh_route_set_lifetime_ok [OF quiet_wf [OF q2] r2, of E l]])
    fix w' assume w': "quiet w2 w' \<and> w_table w' = w_table w2 \<and> w_next_ptr w' = w_next_ptr w2 \<and>
      w_routes w' = (w_routes w2)(p \<mapsto> renewed (fwd_route E q h r)) \<and>
      (rt_flags (fwd_route E q h r) AND RTFLAG_UNMANAGED = 0 \<longrightarrow> p \<in> waiting (w_alarms w') \<and>
        block_tv (w_alarms w') p = timeradd \<lparr>tv_sec = sint (fst (set_alarm_time l)),
          tv_usec = sint (snd (set_alarm_time l))\<rparr> (clock E (w_tick w2)))"
    then have "quiet w w'" using q2 quiet_trans by blast
    then show "routed w w' \<and> w_table w' = w_table w \<and>
      same_pkts w w' \<and> w_out w' = w_out w \<and> w_routes w' = (w_routes w)(p \<mapsto> renewed (fwd_route E q h r))"
      using w' quiet_routed [OF \<open>quiet w w'\<close>] by (simp add: quiet_def same_out_def w2_def w1_def)
  qed
  ultimately show ?thesis by simp
qed

text \<open>The datagram that passes a reply on.\<close>

definition forwarded_rrep :: "aodv_pkt \<Rightarrow> aodv_rrep \<Rightarrow> in_addr \<Rightarrow> event" where
  "forwarded_rrep pkt rrep hop = Sent (htonl hop) (sin_port (pkt_address pkt)) (pkt_ttl pkt - 1)
     (rrep_bytes (aodv_pkt_prepare_rrep rrep) @ drop 20 (pkt_bytes pkt))"

lemma is_sent_forwarded_rrep [simp]: "is_sent (forwarded_rrep pkt rrep hop)"
  by (simp add: forwarded_rrep_def)

text \<open>
  Steps after which every route of the table leads where it led, at the same distance and with the
  same sequence number.
\<close>

definition keeps_leads :: "world \<Rightarrow> world \<Rightarrow> bool" where
  "keeps_leads w w' \<longleftrightarrow> w_table w' = w_table w \<and> (\<forall>p r. p \<in> set (w_table w) \<longrightarrow> w_routes w p = Some r \<longrightarrow>
     (\<exists>r'. w_routes w' p = Some r' \<and> rt_dst_ip r' = rt_dst_ip r \<and> rt_next_hop r' = rt_next_hop r \<and>
        (\<forall>d h n s. leads d h n s r \<longrightarrow> leads d h n s r')))"

lemma keeps_leads_upd:
  assumes "w_table w' = w_table w" "w_routes w' = (w_routes w)(p \<mapsto> r')"
    and "\<And>r. w_routes w p = Some r \<Longrightarrow> rt_dst_ip r' = rt_dst_ip r \<and> rt_next_hop r' = rt_next_hop r \<and>
      (\<forall>d h n s. leads d h n s r \<longrightarrow> leads d h n s r')"
  shows "keeps_leads w w'"
  using assms unfolding keeps_leads_def by auto

lemma keeps_leads_same:
  assumes "w_table w' = w_table w" "\<And>p. p \<in> set (w_table w) \<Longrightarrow> w_routes w' p = w_routes w p"
  shows "keeps_leads w w'"
  using assms unfolding keeps_leads_def by auto

lemma keeps_leads_trans: "keeps_leads u v \<Longrightarrow> keeps_leads v w \<Longrightarrow> keeps_leads u w"
  unfolding keeps_leads_def by metis

lemma keeps_routes_leads: "keeps_routes w w' \<Longrightarrow> keeps_leads w w'"
  unfolding keeps_routes_def keeps_leads_def leads_def by fastforce

lemma keeps_leads_searched: "world_ok w \<Longrightarrow> keeps_leads w (searched a w)"
  by (rule keeps_leads_same) (simp_all add: searched_routes table_not_scratch)

lemma has_route_led:
  assumes "keeps_leads w w'" "has_route d h n s w"
  shows "has_route d h n s w'"
  using assms unfolding keeps_leads_def has_route_def by metis

lemma keeps_leads_hops: "world_ok w \<Longrightarrow> keeps_leads w w' \<Longrightarrow> hops_but {} w w'"
  by (rule hops_butI [of _ "[]"]) (use table_live in \<open>fastforce simp: keeps_leads_def route_dst_def\<close>)+

text \<open>The part of the forwarding after the datagram is sent.\<close>

lemma quiet_live: "quiet w w' \<Longrightarrow> world_ok w \<Longrightarrow> p \<in> dom (w_routes w) \<Longrightarrow> p \<in> dom (w_routes w')"
  using extends_live quiet_extends by blast

lemma renew_reverse_ok:
  assumes ok: "world_ok w"
  shows "runs (do { (found, w) \<leftarrow> routing_table_find_by_ip hop w;
    case found of
      Some route_to_next_hop \<Rightarrow> do {
        (lifetime, w) \<leftarrow> msh_route_get_lifetime E route_to_next_hop w;
        let timeout = tv_ms now + ACTIVE_ROUTE_TIMEOUT;
        if lifetime < timeout then msh_route_set_lifetime E route_to_next_hop lifetime w else Some w }
    | None \<Rightarrow> Some w }) (\<lambda>w'. quiet w w' \<and> keeps_leads w w')"
proof (cases "route_to w hop")
  case None
  then show ?thesis
    by (simp add: routing_table_find_by_ip_eq [OF ok] searched_quiet [OF ok] keeps_leads_searched [OF ok])
next
  case (Some p)
  let ?s = "searched hop w"
  have s: "quiet w ?s" by (rule searched_quiet [OF ok])
  have p: "p \<in> dom (w_routes ?s)" "p \<noteq> w_find_route w"
    using searched_live [OF ok route_to_live [OF ok Some]] route_to_unique [OF ok] Some table_not_scratch [OF ok] by auto
  obtain l w1 where l: "msh_route_get_lifetime E p ?s = Some (l, w1)" "quiet ?s w1" "w_routes w1 = w_routes ?s"
    "w_table w1 = w_table ?s"
    using msh_route_get_lifetime_ok [OF quiet_wf [OF s] p(1)] by metis
  have q1: "quiet w w1" using s l(2) by (rule quiet_trans)
  have "keeps_leads ?s w1" by (rule keeps_leads_same) (use l(3,4) in simp_all)
  then have k1: "keeps_leads w w1" by (rule keeps_leads_trans [OF keeps_leads_searched [OF ok]])
  obtain r where r: "w_routes w1 p = Some r" using p(1) l(3) by auto
  have "p \<noteq> w_find_route w1" using p(2) q1 by (simp add: quiet_def extends_def)
  from msh_route_set_lifetime_ok [OF quiet_wf [OF q1] r this, of E l]
  have "runs (msh_route_set_lifetime E p l w1) (\<lambda>w'. quiet w w' \<and> keeps_leads w w')"
  proof (rule runs_mono, elim conjE)
    fix w' assume w': "quiet w1 w'" "w_table w' = w_table w1" "w_routes w' = (w_routes w1)(p \<mapsto> renewed r)"
    then have "keeps_leads w1 w'" by (intro keeps_leads_upd [OF w'(2,3)]) (simp add: r)
    then show "quiet w w' \<and> keeps_leads w w'"
      using quiet_trans [OF q1 w'(1)] keeps_leads_trans [OF k1] by blast
  qed
  then show ?thesis
    using q1 k1 by (simp add: routing_table_find_by_ip_eq [OF ok] Some l(1) Let_def)
qed

lemma rrep_forward_ok:
  assumes ok: "world_ok w" and pkt: "pkt_ok pkt" "pkt_rrep pkt = Some q"
    and live: "pd \<in> dom (w_routes w)" "pp \<in> dom (w_routes w)"
  shows "runs (rrep_forward E pkt q now pd pp w) (\<lambda>w'. extends w w' \<and> same_rreqs w w' \<and> same_self w w' \<and>
    same_pkts w w' \<and> keeps_leads w w' \<and> w_out w' = (case next_hop_to w (rrep_orig_ip_addr q) of None \<Rightarrow> []
      | Some hop \<Rightarrow> [forwarded_rrep pkt q hop]) @ w_out w)"
proof -
  let ?o = "rrep_orig_ip_addr q"
  let ?s = "searched ?o w"
  have s: "quiet w ?s" by (rule searched_quiet [OF ok])
  show ?thesis
  proof (cases "route_to w ?o")
    case None
    then show ?thesis
      using s by (simp add: rrep_forward_def routing_table_find_by_ip_eq [OF ok] next_hop_to_def quiet_def same_out_def
          keeps_leads_searched [OF ok])
  next
    case (Some p)
    then have "p \<noteq> w_find_route w" using route_to_unique [OF ok] table_not_scratch [OF ok] by blast
    then have "w_routes ?s p = w_routes w p" by (rule searched_routes)
    then obtain r where r: "w_routes ?s p = Some r" "w_routes w p = Some r" using route_to_live [OF ok Some] by auto
    define hop where "hop = rt_next_hop r"
    obtain bs where bs: "pkt_payload pkt = Some bs" "20 \<le> length bs" "pkt_payload_len pkt = length bs"
      using rrep_payload [OF pkt] .
    define pk where "pk = pkt\<lparr>pkt_address := (pkt_address pkt)\<lparr>sin_addr := htonl hop\<rparr>,
       pkt_ttl := pkt_ttl pkt - 1, pkt_payload := Some (rrep_bytes (aodv_pkt_prepare_rrep q) @ drop 20 bs)\<rparr>"
    have set: "set_pkt_rrep (aodv_pkt_prepare_rrep q) (aodv_pkt_decrease_ttl (aodv_pkt_set_address pkt hop)) = Some pk"
      using bs by (simp add: set_pkt_rrep_def aodv_pkt_decrease_ttl_def aodv_pkt_set_address_def pk_def)
    obtain pkt' w2 where w2: "aodv_pkt_send E pk ?s = (pkt', w2)" "after_send (forwarded_rrep pkt q hop) ?s w2"
      using aodv_pkt_send_after [of E pk ?s] bs by (auto simp: forwarded_rrep_def pk_def pkt_bytes_def)
    have ok2: "world_ok w2" using after_send_wf [OF w2(2)] quiet_wf [OF s] by simp
    have live2: "pd \<in> dom (w_routes w2)" "pp \<in> dom (w_routes w2)"
      using quiet_live [OF s ok] live after_send_same(1) [OF w2(2)] by auto
    obtain w3 where w3: "(if rrep_dest_ip_addr q \<noteq> hop then msh_route_add_precursor pd hop w2 else Some w2) = Some w3"
      "quiet w2 w3" "keeps_leads w2 w3"
      using msh_route_add_precursor_ok [OF ok2 live2(1), of hop] ok2 keeps_routes_leads
      by (cases "rrep_dest_ip_addr q = hop") (auto simp: runs_iff quiet_refl keeps_leads_same)
    have f3: "routing_table_find_by_ip hop w3 = Some (route_to w3 hop, searched hop w3)"
      by (rule routing_table_find_by_ip_eq [OF quiet_wf [OF w3(2)]])
    obtain w4 where w4: "(case route_to w3 hop of
        Some route_to_next_hop \<Rightarrow> do {
          (lifetime, w) \<leftarrow> msh_route_get_lifetime E route_to_next_hop (searched hop w3);
          if lifetime < tv_ms now + ACTIVE_ROUTE_TIMEOUT then msh_route_set_lifetime E route_to_next_hop lifetime w
          else Some w }
      | None \<Rightarrow> Some (searched hop w3)) = Some w4" "quiet w3 w4" "keeps_leads w3 w4"
      using renew_reverse_ok [OF quiet_wf [OF w3(2)], of hop E now] unfolding f3 Let_def by (auto simp: runs_iff)
    have q4: "quiet w2 w4" using w3(2) w4(2) by (rule quiet_trans)
    have "keeps_leads w w2"
      by (rule keeps_leads_trans [OF keeps_leads_searched [OF ok]], rule keeps_leads_same)
        (use after_send_same [OF w2(2)] in simp_all)
    then have k4: "keeps_leads w w4" using keeps_leads_trans w3(3) w4(3) by blast
    have def: "rrep_forward E pkt q now pd pp w = msh_route_add_precursor pp hop w4"
      using w4(1) unfolding rrep_forward_def Let_def
      by (simp add: routing_table_find_by_ip_eq [OF ok] Some msh_route_get_next_hop_def r
          hop_def [symmetric] set w2(1) w3(1) f3)
    have "extends w w2"
      using s after_send_same [OF w2(2)] ok2 unfolding quiet_def extends_def by simp
    then have ext: "extends w w'" if "quiet w2 w'" for w' using that extends_trans quiet_extends by blast
    have "same_rreqs w w2" "same_pkts w w2" "same_self w w2" "w_out w2 = forwarded_rrep pkt q hop # w_out w"
      using s after_send_same [OF w2(2)] by (simp_all add: quiet_def same_defs)
    moreover have "next_hop_to w ?o = Some hop" using Some r by (simp add: next_hop_to_def hop_def)
    moreover have "runs (msh_route_add_precursor pp hop w4) (\<lambda>w'. quiet w2 w' \<and> keeps_leads w w')"
      using msh_route_add_precursor_ok [OF quiet_wf [OF q4] quiet_live [OF q4 ok2 live2(2)], of hop]
      by (rule runs_mono) (use q4 k4 quiet_trans keeps_routes_leads keeps_leads_trans in blast)
    ultimately show ?thesis
      unfolding def using ext by (elim runs_mono) (simp add: quiet_def same_defs)
  qed
qed

text \<open>The reply as it is passed on, one hop further.\<close>

definition rhopped :: "aodv_rrep \<Rightarrow> aodv_rrep" where
  "rhopped q = q\<lparr>rrep_hop_count := rrep_hop_count q + 1\<rparr>"

lemma rhopped_same [simp]:
  "rrep_dest_ip_addr (rhopped q) = rrep_dest_ip_addr q" "rrep_orig_ip_addr (rhopped q) = rrep_orig_ip_addr q"
  "rrep_dest_seq_num (rhopped q) = rrep_dest_seq_num q" "rrep_lifetime (rhopped q) = rrep_lifetime q"
  by (simp_all add: rhopped_def)

lemma rhopped_fits: "rrep_fits q = q \<Longrightarrow> rrep_fits (rhopped q) = rhopped q"
  by (cases q) (simp add: rrep_fits_def rhopped_def)

lemma pkt_ok_rrep_bytes:
  "length bs' + 20 = n \<Longrightarrow> pkt_ok (pkt\<lparr>pkt_payload := Some (rrep_bytes q @ bs'), pkt_payload_len := n\<rparr>)"
  by (simp add: pkt_ok_def rrep_bytes_def store32_def)

lemma set_rhopped:
  assumes "pkt_ok pkt" "pkt_rrep pkt = Some q"
  obtains pkt' where "set_pkt_rrep (rhopped q) pkt = Some pkt'" "pkt_ok pkt'" "pkt_rrep pkt' = Some (rhopped q)"
    "\<And>r h. forwarded_rrep pkt' r h = forwarded_rrep pkt r h"
proof -
  obtain bs where bs: "pkt_payload pkt = Some bs" "20 \<le> length bs" "pkt_payload_len pkt = length bs" "q = rrep_of bs"
    using rrep_payload [OF assms] .
  let ?p = "pkt\<lparr>pkt_payload := Some (rrep_bytes (rhopped q) @ drop 20 bs)\<rparr>"
  have set: "set_pkt_rrep (rhopped q) pkt = Some ?p" using bs by (simp add: set_pkt_rrep_def)
  have "pkt_rrep ?p = Some (rhopped q)"
    using pkt_rrep_set [OF set] rhopped_fits [OF rrep_of_fits] bs(4) by simp
  moreover have "pkt_ok ?p"
    using pkt_ok_rrep_bytes [of "drop 20 bs" "length bs"] bs by (simp add: pkt_ok_def)
  moreover have "forwarded_rrep ?p r h = forwarded_rrep pkt r h" for r h
    using bs by (simp add: forwarded_rrep_def pkt_bytes_def)
  ultimately show ?thesis using that set by simp
qed

text \<open>
  The state \<open>v\<close> is the one after the routes to the neighbour and to the destination are there;
  \<open>pd\<close> is the route to the destination.
\<close>

definition rrep_accepted :: "aodv_rrep \<Rightarrow> bool \<Rightarrow> ptr \<Rightarrow> world \<Rightarrow> bool" where
  "rrep_accepted q created pd v \<longleftrightarrow> (case w_routes v pd of None \<Rightarrow> False
     | Some r \<Rightarrow> rrep_updates (rhopped q) created (rt_flags r) (rt_dest_seq_num r) (rt_hop_count r))"

definition rrep_concludes :: "env \<Rightarrow> aodv_pkt \<Rightarrow> aodv_rrep \<Rightarrow> ptr \<Rightarrow> world \<Rightarrow> world \<Rightarrow> bool" where
  "rrep_concludes E pkt q pd v w' \<longleftrightarrow> extends v w' \<and> same_pkts v w' \<and> same_self v w' \<and>
     (if w_ip_addr v = rrep_orig_ip_addr q then w_out w' = w_out v \<and>
        (case find (\<lambda>p. rq_rreq_id (the (w_rreqs v p)) \<le> w_rreq_id v \<and>
                        rq_dst (the (w_rreqs v p)) = rrep_dest_ip_addr q) (w_rreq_queue v) of
           None \<Rightarrow> w_rreqs w' = w_rreqs v
         | Some p \<Rightarrow> w_rreqs w' = (w_rreqs v)(p := None)) \<and>
        w_table w' = w_table v \<and>
        w_routes w' = (w_routes v)(pd \<mapsto> renewed (fwd_route E (rhopped q) (aodv_pkt_get_address pkt) (the (w_routes v pd))))
      else same_rreqs v w' \<and> (\<exists>u. routed v u \<and> w_table u = w_table v \<and> w_out u = w_out v \<and>
        w_routes u = (w_routes v)(pd \<mapsto> renewed (fwd_route E (rhopped q) (aodv_pkt_get_address pkt) (the (w_routes v pd)))) \<and>
        keeps_leads u w' \<and>
        w_out w' = (case next_hop_to u (rrep_orig_ip_addr q) of None \<Rightarrow> []
          | Some hop \<Rightarrow> [forwarded_rrep pkt (rhopped q) hop]) @ w_out v))"

lemma rrep_conclude_ok:
  assumes ok: "world_ok v" and pd: "w_routes v pd = Some r" "pd \<noteq> w_find_route v" and pp: "pp \<in> dom (w_routes v)"
    and pkt: "pkt_ok pkt'" "pkt_rrep pkt' = Some (rhopped q)" "\<And>r h. forwarded_rrep pkt' r h = forwarded_rrep pkt r h"
  shows "runs (rrep_update_dest E (rhopped q) (aodv_pkt_get_address pkt) pd v) (\<lambda>(now, w).
    runs (if w_ip_addr w = rrep_orig_ip_addr (rhopped q) then rreq_fifo_del (w_rreq_id w) (rrep_dest_ip_addr (rhopped q)) w
      else rrep_forward E pkt' (rhopped q) now pd pp w) (rrep_concludes E pkt q pd v))"
proof (rule runs_mono [OF rrep_update_dest_ok [OF ok pd]], clarify)
  let ?r = "renewed (fwd_route E (rhopped q) (aodv_pkt_get_address pkt) r)"
  fix now w
  assume w: "routed v w" "w_table w = w_table v" "same_pkts v w" "w_out w = w_out v" "w_routes w = (w_routes v)(pd \<mapsto> ?r)"
  have okw: "world_ok w" by (rule routed_wf [OF w(1)])
  have self: "w_ip_addr w = w_ip_addr v" "w_rreq_id w = w_rreq_id v" "same_rreqs v w" "same_self v w" "extends v w"
    using w(1) by (simp_all add: routed_def extends_def same_defs)
  show "runs (if w_ip_addr w = rrep_orig_ip_addr (rhopped q) then rreq_fifo_del (w_rreq_id w) (rrep_dest_ip_addr (rhopped q)) w
      else rrep_forward E pkt' (rhopped q) now pd pp w) (rrep_concludes E pkt q pd v)"
  proof (cases "w_ip_addr v = rrep_orig_ip_addr q")
    case True
    have "rrep_concludes E pkt q pd v w'" if w': "rreqs_only w w'"
      "case find (\<lambda>p. rq_rreq_id (the (w_rreqs w p)) \<le> w_rreq_id v \<and> rq_dst (the (w_rreqs w p)) = rrep_dest_ip_addr q)
          (w_rreq_queue w) of None \<Rightarrow> w' = w
        | Some p \<Rightarrow> w_rreqs w' = (w_rreqs w)(p := None) \<and> w_rreq_queue w' = remove1 p (w_rreq_queue w)" for w'
    proof -
      have "extends v w'" using extends_trans [OF self(5) rreqs_only_extends [OF okw w'(1)]] .
      then show ?thesis
        using True w' w(2-5) self pd(1)
        by (auto simp: rrep_concludes_def rreqs_only_def same_defs split: option.splits)
    qed
    then show ?thesis
      using True self rreq_fifo_del_ok [OF okw, of "w_rreq_id v" "rrep_dest_ip_addr q"] by (auto elim!: runs_mono)
  next
    case False
    have live: "pd \<in> dom (w_routes w)" "pp \<in> dom (w_routes w)" using w(5) pp by auto
    from rrep_forward_ok [OF okw pkt(1,2) live, of E now] False self
    have "runs (rrep_forward E pkt' (rhopped q) now pd pp w) (rrep_concludes E pkt q pd v)"
    proof (elim runs_mono)
      fix w' assume w': "extends w w' \<and> same_rreqs w w' \<and> same_self w w' \<and> same_pkts w w' \<and> keeps_leads w w' \<and>
        w_out w' = (case next_hop_to w (rrep_orig_ip_addr (rhopped q)) of None \<Rightarrow> []
          | Some hop \<Rightarrow> [forwarded_rrep pkt' (rhopped q) hop]) @ w_out w"
      have "extends v w'" using extends_trans [OF self(5)] w' by blast
      moreover have "w_out w' = (case next_hop_to w (rrep_orig_ip_addr q) of None \<Rightarrow> []
          | Some hop \<Rightarrow> [forwarded_rrep pkt (rhopped q) hop]) @ w_out v"
        using w' w(4) pkt(3) by (simp split: option.splits)
      moreover have "same_rreqs v w'" "same_self v w'" "same_pkts v w'" "keeps_leads w w'"
        using w' self w(3) by (simp_all add: same_defs)
      ultimately show "rrep_concludes E pkt q pd v w'"
        unfolding rrep_concludes_def using False w pd(1) by auto
    qed
    then show ?thesis using False self by simp
  qed
qed

lemma aodv_process_rrep_ok:
  assumes ok: "world_ok w" and pkt: "pkt_ok pkt" "pkt_rrep pkt = Some q"
  shows "runs (aodv_process_rrep E pkt w) (\<lambda>w'. \<exists>w1 pp pd created v.
    routed w w1 \<and> (takes_routes E \<longrightarrow> neighbour_known (aodv_pkt_get_address pkt) pp w w1) \<and> created = (route_to w1 (rrep_dest_ip_addr q) = None) \<and> routed w1 v \<and>
    pd \<in> dom (w_routes v) \<and> pd \<noteq> w_find_route v \<and>
    (if created then route_added E (reply_route E (rhopped q) (aodv_pkt_get_address pkt)) w1 pd
        (searched (rrep_dest_ip_addr q) w1) v
     else route_to w1 (rrep_dest_ip_addr q) = Some pd \<and> v = searched (rrep_dest_ip_addr q) w1) \<and>
    (if rrep_accepted q created pd v then rrep_concludes E pkt q pd v w' else w' = v))"
proof -
  let ?h = "aodv_pkt_get_address pkt"
  obtain pp w1 where w1: "rrep_prev_hop E ?h w = Some (pp, w1)" "routed w w1" "pp \<in> dom (w_routes w1)"
    and known: "takes_routes E \<longrightarrow> neighbour_known ?h pp w w1"
    using rrep_prev_hop_ok [OF ok, of E ?h] by (auto simp: runs_iff)
  have ok1: "world_ok w1" by (rule routed_wf [OF w1(2)])
  obtain pkt' where pkt': "set_pkt_rrep (rhopped q) pkt = Some pkt'" "pkt_ok pkt'" "pkt_rrep pkt' = Some (rhopped q)"
    "\<And>r h. forwarded_rrep pkt' r h = forwarded_rrep pkt r h"
    using set_rhopped [OF pkt] by blast
  let ?Q = "\<lambda>p created w'. routed w1 w' \<and> p \<in> dom (w_routes w') \<and> p \<noteq> w_find_route w' \<and>
    created = (route_to w1 (rrep_dest_ip_addr q) = None) \<and>
    (\<not> created \<longrightarrow> w' = searched (rrep_dest_ip_addr q) w1 \<and> route_to w1 (rrep_dest_ip_addr q) = Some p) \<and>
    (created \<longrightarrow> route_added E (reply_route E (rhopped q) ?h) w1 p (searched (rrep_dest_ip_addr q) w1) w')"
  obtain x where x: "rrep_dest_route E (rhopped q) ?h w1 = Some x" "case x of (p, created, w') \<Rightarrow> ?Q p created w'"
    by (rule runsE [OF rrep_dest_route_ok [OF ok1, of E "rhopped q" ?h, unfolded rhopped_same]])
  obtain pd created v where p: "x = (pd, created, v)" by (cases x)
  have v: "rrep_dest_route E (rhopped q) ?h w1 = Some (pd, created, v)" using x(1) p by simp
  have Q: "?Q pd created v" using x(2) unfolding p prod.case .
  then have v2: "routed w1 v" and v3: "pd \<in> dom (w_routes v)" and v4: "pd \<noteq> w_find_route v" by blast+
  obtain r where r: "w_routes v pd = Some r" using v3 by blast
  have pp: "pp \<in> dom (w_routes v)" by (rule routed_live [OF v2 ok1 w1(3)])
  have "runs (aodv_process_rrep E pkt w) (\<lambda>w'. if rrep_accepted q created pd v then rrep_concludes E pkt q pd v w' else w' = v)"
    using w1(1) pkt(2) pkt'(1) v r rrep_conclude_ok [OF routed_wf [OF v2] r v4 pp pkt'(2-4), of E]
    by (auto simp: aodv_process_rrep_def Let_def rhopped_def [symmetric] msh_route_get_dest_seq_num_def
        msh_route_get_hop_count_def msh_route_get_flags_def rrep_accepted_def elim!: runs_mono)
  then show ?thesis
  proof (rule runs_mono)
    fix w' assume fin: "if rrep_accepted q created pd v then rrep_concludes E pkt q pd v w' else w' = v"
    have "if created then route_added E (reply_route E (rhopped q) ?h) w1 pd (searched (rrep_dest_ip_addr q) w1) v
       else route_to w1 (rrep_dest_ip_addr q) = Some pd \<and> v = searched (rrep_dest_ip_addr q) w1"
      using Q by (cases created) simp_all
    with w1(2) known Q v2 v3 v4 fin show "\<exists>w1 pp pd created v.
        routed w w1 \<and> (takes_routes E \<longrightarrow> neighbour_known ?h pp w w1) \<and> created = (route_to w1 (rrep_dest_ip_addr q) = None) \<and> routed w1 v \<and>
        pd \<in> dom (w_routes v) \<and> pd \<noteq> w_find_route v \<and>
        (if created then route_added E (reply_route E (rhopped q) ?h) w1 pd (searched (rrep_dest_ip_addr q) w1) v
         else route_to w1 (rrep_dest_ip_addr q) = Some pd \<and> v = searched (rrep_dest_ip_addr q) w1) \<and>
        (if rrep_accepted q created pd v then rrep_concludes E pkt q pd v w' else w' = v)"
      by blast
  qed
qed

section \<open>Dispatch\<close>

text \<open>What every handler keeps.\<close>

definition handled :: "world \<Rightarrow> world \<Rightarrow> bool" where
  "handled w w' \<longleftrightarrow> extends w w' \<and> accounted w w' \<and> w_end w' = w_end w \<and> w_live_pkts w' = w_live_pkts w"

lemma routed_handled: "routed w w' \<Longrightarrow> handled w w'"
  by (simp add: routed_def handled_def same_defs)

lemma handled_trans: "handled u v \<Longrightarrow> handled v w \<Longrightarrow> handled u w"
  by (auto simp: handled_def intro: extends_trans accounted_trans)

lemma handled_wf: "handled w w' \<Longrightarrow> world_ok w'"
  by (auto simp: handled_def intro: extends_wf)

lemma aodv_process_rreq_handled:
  assumes "world_ok w" "pkt_ok pkt" "pkt_rreq pkt = Some q"
  shows "runs (aodv_process_rreq E pkt w) (handled w)"
proof (rule runs_mono [OF aodv_process_rreq_ok [OF assms]])
  fix w' assume w': "if rreq_seen q w then routed w w' else (\<exists>v. rreq_recorded E pkt q w v \<and> reacts pkt q v w')"
  show "handled w w'"
  proof (cases "rreq_seen q w")
    case True
    then show ?thesis using w' by (simp add: routed_handled)
  next
    case False
    then obtain v where v: "rreq_recorded E pkt q w v" "reacts pkt q v w'" using w' by auto
    then have "handled w v" "handled v w'" by (simp_all add: handled_def rreq_recorded_def reacts_def same_self_def)
    then show ?thesis by (rule handled_trans)
  qed
qed

lemma rrep_concludes_handled: "rrep_concludes E pkt q pd v w' \<Longrightarrow> handled v w'"
  by (cases "w_ip_addr v = rrep_orig_ip_addr q")
    (auto simp: rrep_concludes_def handled_def same_defs intro!: accounted_same)

lemma aodv_process_rrep_handled:
  assumes "world_ok w" "pkt_ok pkt" "pkt_rrep pkt = Some q"
  shows "runs (aodv_process_rrep E pkt w) (handled w)"
proof (rule runs_mono [OF aodv_process_rrep_ok [OF assms]], elim exE conjE)
  fix w' w1 pd created v
  assume a: "routed w w1" "routed w1 v" "if rrep_accepted q created pd v then rrep_concludes E pkt q pd v w' else w' = v"
  then have "handled w v" using routed_handled routed_trans by blast
  then show "handled w w'"
    using a(3) rrep_concludes_handled handled_trans by (cases "rrep_accepted q created pd v") auto
qed

text \<open>A message that the socket really delivered: some bytes, and a hop limit where one is announced.\<close>

definition delivered :: "msghdr \<Rightarrow> int \<Rightarrow> bool" where
  "delivered msg n \<longleftrightarrow> 0 < msg_iovlen msg \<and> 0 < n \<and> nat n \<le> length (msg_iov_base msg) \<and>
     (0 < msg_controllen msg \<longrightarrow> aodv_pkt_receive_ttl msg \<noteq> None)"

definition stats_only :: "world \<Rightarrow> world \<Rightarrow> bool" where
  "stats_only w w' \<longleftrightarrow> (\<exists>f. w' = upd_stats f w)"

lemma stats_only_same:
  assumes "stats_only w w'"
  shows "world_ok w' = world_ok w" "w_ip_addr w' = w_ip_addr w" "world_ok w \<Longrightarrow> handled w w'"
    "w_out w' = w_out w" "w_rreqs w' = w_rreqs w" "w_routes w' = w_routes w" "w_table w' = w_table w"
    "w_live_pkts w' = w_live_pkts w"
proof -
  obtain f where w': "w' = upd_stats f w" using assms by (auto simp: stats_only_def)
  show "world_ok w' = world_ok w" "w_ip_addr w' = w_ip_addr w" "w_out w' = w_out w" "w_rreqs w' = w_rreqs w"
    "w_routes w' = w_routes w" "w_table w' = w_table w" "w_live_pkts w' = w_live_pkts w"
    by (simp_all add: w') (simp_all add: upd_stats_def)
  assume "world_ok w"
  then have "extends w w'" using w' by (auto simp: extends_def upd_stats_def world_ok_def heap_ok_def
        blocks_ok_def table_ok_def rreqs_ok_def)
  then show "handled w w'" by (simp add: handled_def w' accounted_def) (simp add: upd_stats_def)
qed

lemma upd_stats_twice: "upd_stats g (upd_stats h w) = upd_stats (g \<circ> h) w"
  by (simp add: upd_stats_def)

lemma upd_stats_none: "w = upd_stats (\<lambda>s. s) w"
  by (simp add: upd_stats_def)

lemma stats_only_trans: "stats_only u v \<Longrightarrow> stats_only v w \<Longrightarrow> stats_only u w"
  unfolding stats_only_def using upd_stats_twice by blast

lemma aodv_pkt_get_ok:
  assumes "delivered msg n"
  obtains pkt w' where "aodv_pkt_get msg n w = Some (pkt, w')" "pkt_ok pkt" "stats_only (count_pkt w) w'"
    "pkt_payload pkt = Some (take (nat n) (msg_iov_base msg))"
    "0 < msg_namelen msg \<Longrightarrow> pkt_address pkt = msg_name msg"
    "0 < msg_controllen msg \<Longrightarrow> Some (pkt_ttl pkt) = aodv_pkt_receive_ttl msg"
proof -
  obtain b bs where b: "take (nat n) (msg_iov_base msg) = b # bs" "Suc (length bs) = nat n"
    using assms by (cases "take (nat n) (msg_iov_base msg)") (auto simp: delivered_def dest!: arg_cong [of _ _ length])
  have st: "\<exists>f. upd_stats g (upd_stats h (count_pkt w)) = upd_stats f (count_pkt w)"
    "\<exists>f. upd_stats h (count_pkt w) = upd_stats f (count_pkt w)" "\<exists>f. count_pkt w = upd_stats f (count_pkt w)" for g h
    using upd_stats_twice upd_stats_none by blast+
  show ?thesis
    using assms b st
    by (cases "0 < msg_namelen msg"; cases "0 < msg_controllen msg"; cases "aodv_pkt_receive_ttl msg")
      (auto simp: aodv_pkt_get_def delivered_def stats_only_def pkt_ok_def Let_def zero_pkt_def intro!: that)
qed

lemma checked_rreq:
  assumes "checked pkt pkt'" "aodv_pkt_get_type pkt' = Some AODV_RREQ"
  obtains q where "pkt_rreq pkt' = Some q"
  using assms that by (auto simp: checked_def dest: pkt_rreq_set)

lemma checked_rrep:
  assumes "checked pkt pkt'" "aodv_pkt_get_type pkt' = Some AODV_RREP"
  obtains q where "pkt_rrep pkt' = Some q"
  using assms that by (auto simp: checked_def dest: pkt_rrep_set)

lemma dispatch_ok:
  assumes ok: "world_ok w" and c: "checked pkt pkt'" and t: "aodv_pkt_get_type pkt' = Some t"
  shows "runs (if t = AODV_RREQ then aodv_process_rreq E pkt' w
             else if t = AODV_RREP then aodv_process_rrep E pkt' w
             else if t = AODV_RERR then aodv_process_rerr pkt' w
             else if t = AODV_RREP_ACK then aodv_process_rrep_ack pkt' w
             else Some (upd_stats f w)) (handled w)"
proof -
  have p: "pkt_ok pkt'" using c by (simp add: checked_def)
  consider "t = AODV_RREQ" | "t = AODV_RREP" "t \<noteq> AODV_RREQ" | "t \<noteq> AODV_RREP" "t \<noteq> AODV_RREQ" by blast
  then show ?thesis
  proof cases
    case 1
    then obtain q where "pkt_rreq pkt' = Some q" using checked_rreq [OF c] t by blast
    from aodv_process_rreq_handled [OF ok p this] 1 show ?thesis by simp
  next
    case 2
    then obtain q where "pkt_rrep pkt' = Some q" using checked_rrep [OF c] t by blast
    from aodv_process_rrep_handled [OF ok p this] 2 show ?thesis by simp
  next
    case 3
    have "handled w w" using routed_handled [OF routed_refl [OF ok]] .
    moreover have "handled w (upd_stats f w)" by (rule stats_only_same(3)) (use ok in \<open>auto simp: stats_only_def\<close>)
    ultimately show ?thesis using 3 by (simp add: aodv_process_rerr_def aodv_process_rrep_ack_def)
  qed
qed

text \<open>Whether a received packet goes to a handler.\<close>

definition goes_to_handler :: "msghdr \<Rightarrow> int \<Rightarrow> world \<Rightarrow> bool" where
  "goes_to_handler msg n w \<longleftrightarrow> (case aodv_pkt_get msg n w of None \<Rightarrow> False
     | Some (pkt, w1) \<Rightarrow> (case aodv_pkt_check pkt w1 of None \<Rightarrow> False
         | Some (good, pkt', w2) \<Rightarrow> good \<and> aodv_pkt_get_address pkt' \<noteq> w_ip_addr w2))"

lemma aodv_process_packet_ok:
  assumes ok: "world_ok w" and msg: "delivered msg n"
  shows "runs (aodv_process_packet E msg n w) (\<lambda>w'. extends w w' \<and> accounted w w' \<and> w_end w' = w_end w \<and>
    w_live_pkts w' = w_live_pkts w + (if goes_to_handler msg n w then 0 else 1))"
proof -
  obtain pkt w1 where w1: "aodv_pkt_get msg n w = Some (pkt, w1)" "pkt_ok pkt" "stats_only (count_pkt w) w1"
    using aodv_pkt_get_ok [OF msg, of w] by metis
  obtain good pkt' w2 where w2: "aodv_pkt_check pkt w1 = Some (good, pkt', w2)" "stats_only w1 w2"
    "good \<longrightarrow> w2 = w1 \<and> checked pkt pkt'"
    using aodv_pkt_check_ok [OF w1(2), of w1] by (auto simp: runs_iff stats_only_def)
  have st: "stats_only (count_pkt w) w2" by (rule stats_only_trans [OF w1(3) w2(2)])
  have okc: "world_ok (count_pkt w)" "world_ok w2" using ok stats_only_same(1) [OF st] by simp_all
  have h2: "handled (count_pkt w) w2" by (rule stats_only_same(3) [OF st okc(1)])
  have ent: "goes_to_handler msg n w \<longleftrightarrow> good \<and> aodv_pkt_get_address pkt' \<noteq> w_ip_addr w2"
    by (simp add: goes_to_handler_def w1(1) w2(1))
  have frame: "extends w w' \<and> accounted w w' \<and> w_end w' = w_end w \<and> w_live_pkts w' = Suc (w_live_pkts w)"
    if "handled (count_pkt w) w'" for w'
    using that by (simp add: handled_def extends_def accounted_def packet_id_def packet_dest_def count_pkt_def)
  show ?thesis
  proof (cases "goes_to_handler msg n w")
    case False
    then show ?thesis
      using frame [OF h2] ent by (auto simp: aodv_process_packet_def w1(1) w2(1))
  next
    case True
    then have g: "good" "aodv_pkt_get_address pkt' \<noteq> w_ip_addr w2" "checked pkt pkt'" using ent w2(3) by simp_all
    obtain t where t: "aodv_pkt_get_type pkt' = Some t" using g(3) by (auto simp: checked_def pkt_ok_def aodv_pkt_get_type_def)
    have fin: "extends w (aodv_pkt_destroy p w') \<and> accounted w (aodv_pkt_destroy p w') \<and>
        w_end (aodv_pkt_destroy p w') = w_end w \<and> w_live_pkts (aodv_pkt_destroy p w') = w_live_pkts w"
      if "handled w2 w'" for w' p
      using frame [OF handled_trans [OF h2 that]]
      by (simp add: aodv_pkt_destroy_def extends_def accounted_def packet_id_def packet_dest_def)
    let ?f = "\<lambda>s. s\<lparr>aodv_incorrect_type := aodv_incorrect_type s + 1\<rparr>"
    define m where "m = (if t = AODV_RREQ then aodv_process_rreq E pkt' w2
             else if t = AODV_RREP then aodv_process_rrep E pkt' w2
             else if t = AODV_RERR then aodv_process_rerr pkt' w2
             else if t = AODV_RREP_ACK then aodv_process_rrep_ack pkt' w2
             else Some (upd_stats ?f w2))"
    have "runs m (handled w2)" unfolding m_def by (rule dispatch_ok [OF okc(2) g(3) t])
    moreover have "aodv_process_packet E msg n w = do { w \<leftarrow> m; Some (aodv_pkt_destroy pkt' w) }"
      using g by (simp add: aodv_process_packet_def w1(1) w2(1) t m_def cong: if_cong)
    ultimately show ?thesis
      using True fin by (auto elim!: runs_mono)
  qed
qed

section \<open>The alarm of a pending request\<close>

lemma wf_rreq_upd:
  assumes "world_ok w" "w_rreqs w p = Some e" "-1 \<le> sint (rq_prev_tries e')" "sint (rq_prev_tries e') \<le> 2"
  shows "world_ok (w\<lparr>w_rreqs := (w_rreqs w)(p \<mapsto> e')\<rparr>)"
proof (rule wfI)
  let ?w = "w\<lparr>w_rreqs := (w_rreqs w)(p \<mapsto> e')\<rparr>"
  have d: "dom (w_rreqs ?w) = dom (w_rreqs w)" using assms(2) by auto
  show "heap_ok ?w" using wfD(1) [OF assms(1)] d by (simp add: heap_ok_def)
  show "blocks_ok ?w" using wfD(2) [OF assms(1)] d by (simp add: blocks_ok_def)
  show "table_ok ?w" using wfD(3) [OF assms(1)] by (simp add: table_ok_def)
  show "rreqs_ok ?w" using wfD(4) [OF assms(1)] assms(3,4) by (simp add: rreqs_ok_def)
qed

text \<open>The datagrams that an alarm sends: none, or one request of this node.\<close>

definition asks_again :: "world \<Rightarrow> world \<Rightarrow> bool" where
  "asks_again w w' \<longleftrightarrow> sent w' = sent w \<or>
     (\<exists>t q. rreq_type q = 1 \<and> sent w' = rreq_event t w q # sent w)"

lemma asks_again_quiet: "w_out w' = w_out w \<Longrightarrow> asks_again w w'"
  by (simp add: asks_again_def sent_def)

lemma asks_again_once:
  "w_out w' = rreq_event t w (own_rreq d r v) # w_out w \<Longrightarrow> asks_again w w'"
  unfolding asks_again_def by (rule disjI2, rule exI [of _ t], rule exI [of _ "own_rreq d r v"])
    (simp add: sent_def own_rreq_def)

text \<open>What an alarm callback leaves alone: other objects' alarms and other requests.\<close>

definition alarm_ran :: "ptr \<Rightarrow> world \<Rightarrow> world \<Rightarrow> bool" where
  "alarm_ran p w w' \<longleftrightarrow> world_ok w' \<and> waiting (w_alarms w) - {p} \<subseteq> waiting (w_alarms w') \<and>
     (\<forall>q. q \<noteq> p \<longrightarrow> w_rreqs w' q = w_rreqs w q) \<and> same_pkts w w' \<and> w_end w' = w_end w \<and>
     set (w_table w') \<subseteq> set (w_table w) \<and>
     w_ip_addr w' = w_ip_addr w \<and> w_broadcast_addr w' = w_broadcast_addr w \<and> asks_again w w'"

lemma small_tries: "0 \<le> sint (t :: i8) \<Longrightarrow> sint t < 2 \<Longrightarrow> t = 0 \<or> t = 1"
proof -
  assume "0 \<le> sint t" "sint t < 2"
  then have "sint t = sint (0 :: i8) \<or> sint t = sint (1 :: i8)" by auto
  then show ?thesis using signed_word_eqI [of t 0] signed_word_eqI [of t 1] by blast
qed

lemma last_try: "sint (t :: i8) = 2 \<Longrightarrow> t = 2"
  using signed_word_eqI [of t 2] by simp

text \<open>A foreign request is forgotten.\<close>

lemma rreq_alarm_foreign:
  assumes ok: "world_ok w" and e: "w_rreqs w p = Some e" "sint (rq_prev_tries e) < 0"
  shows "runs (rreq_fifo_alarm_cb E a p w) (\<lambda>w'. alarm_ran p w w' \<and> rreqs_only w w' \<and>
    w_rreqs w' = (w_rreqs w)(p := None))"
proof -
  have "rreq_fifo_alarm_cb E a p w = rreq_fifo_entry_delete p w"
    using e by (simp add: rreq_fifo_alarm_cb_def Let_def)
  moreover have "p \<in> dom (w_rreqs w)" using e(1) by blast
  ultimately show ?thesis
    using rreq_fifo_entry_delete_ok [OF ok, of p]
    by (auto simp: alarm_ran_def rreqs_only_def same_defs asks_again_quiet elim!: runs_mono)
qed

text \<open>After the last try the destination is read from the entry that was just freed.\<close>

lemma rreq_alarm_last:
  assumes ok: "world_ok w" and e: "w_rreqs w p = Some e" "sint (rq_prev_tries e) = 2"
  shows "rreq_fifo_alarm_cb E a p w = None"
proof -
  have t: "rq_prev_tries e = 2" by (rule last_try [OF e(2)])
  define w1 where "w1 = w\<lparr>w_rreqs := (w_rreqs w)(p \<mapsto> e\<lparr>rq_prev_tries := 3\<rparr>)\<rparr>"
  have "rreq_fifo_alarm_cb E a p w = do {
      w \<leftarrow> rreq_fifo_entry_delete p w1;
      e \<leftarrow> w_rreqs w p;
      w \<leftarrow> packets_fifo_drop_packets (rq_dst e) w;
      Some (upd_stats (\<lambda>s. s\<lparr>packets_dropped := packets_dropped s + 1\<rparr>) w) }"
    using e(1) by (simp add: rreq_fifo_alarm_cb_def t upd_rreq_def RREQ_RETRIES_def w1_def Let_def)
  moreover have "w_rreqs w2 p = None" if "rreq_fifo_entry_delete p w1 = Some w2" for w2
    using that by (auto simp: rreq_fifo_entry_delete_def free_block_def split: bind_splits)
  ultimately show ?thesis by (auto split: bind_splits)
qed

lemma rreq_alarm_retry:
  assumes ok: "world_ok w" and e: "w_rreqs w p = Some e" "0 \<le> sint (rq_prev_tries e)" "sint (rq_prev_tries e) < 2"
  shows "runs (rreq_fifo_alarm_cb E p p w) (\<lambda>w'. alarm_ran p w w' \<and>
    w_rreqs w' = (w_rreqs w)(p \<mapsto> e\<lparr>rq_prev_tries := rq_prev_tries e + 1, rq_rreq_id := w_rreq_id w + 1\<rparr>) \<and>
    p \<in> waiting (w_alarms w') \<and> w_seq_num w' = w_seq_num w + 1 \<and> w_rreq_id w' = w_rreq_id w + 1 \<and>
    w_out w' = rreq_event (ucast (expanding_ring_search_ttl 0 (rq_prev_tries e + 1))) w
      (own_rreq (rq_dst e) None (next_self w)) # w_out w)"
proof -
  let ?t = "rq_prev_tries e + 1"
  define e1 where "e1 = e\<lparr>rq_prev_tries := ?t\<rparr>"
  have t: "?t = 1 \<or> ?t = 2" using small_tries [OF e(2,3)] by auto
  then have t': "?t \<noteq> 0" "\<not> scast ?t > RREQ_RETRIES" "-1 \<le> sint ?t" "sint ?t \<le> 2"
    by (auto simp: RREQ_RETRIES_def)
  define w1 where "w1 = w\<lparr>w_rreqs := (w_rreqs w)(p \<mapsto> e1)\<rparr>"
  have ok1: "world_ok w1" unfolding w1_def by (rule wf_rreq_upd [OF ok e(1)]) (use t' in \<open>auto simp: e1_def\<close>)
  obtain b w2 where w2: "routing_table_update_route E (rq_dst e) 0 w1 = Some (b, w2)" "extends w1 w2"
    "same_rreqs w1 w2" "same_pkts w1 w2" "same_self w1 w2" "w_out w2 = w_out w1"
    "waiting (w_alarms w1) \<subseteq> waiting (w_alarms w2)" "w_table w2 = w_table w1"
    using routing_table_update_route_ok [OF ok1, of E "rq_dst e" 0] by (auto simp: runs_iff)
  have ok2: "world_ok w2" by (rule extends_wf [OF w2(2)])
  obtain ms where ms: "binary_exponential_backoff_time ?t = Some ms"
    using t by (auto simp: binary_exponential_backoff_time_def)
  obtain sc usc where sc: "set_alarm_time ms = (sc, usc)" by (cases "set_alarm_time ms")
  have "w_rreqs w2 p = Some e1" using w2(3) by (simp add: same_defs w1_def)
  then have nf: "p \<noteq> w_find_route w2" using wfD(1) [OF ok2] unfolding heap_ok_def by blast
  have "p \<in> dom (al_blocks (w_alarms w2))" using wf_dom_blocks [OF ok2] w2(3) by (auto simp: same_defs w1_def)
  then obtain A where A: "w_add_alarm E p sc usc w2 = Some (w2\<lparr>w_tick := Suc (w_tick w2), w_alarms := A\<rparr>)"
    "world_ok (w2\<lparr>w_tick := Suc (w_tick w2), w_alarms := A\<rparr>)" "waiting A = insert p (waiting (w_alarms w2))"
    using w_add_alarm_ok [OF ok2 _ nf] by metis
  define w3 where "w3 = w2\<lparr>w_tick := Suc (w_tick w2), w_alarms := A\<rparr>"
  have s3: "w_rreqs w3 = (w_rreqs w)(p \<mapsto> e1)" "same_pkts w w3" "w_seq_num w3 = w_seq_num w" "w_rreq_id w3 = w_rreq_id w"
    "w_ip_addr w3 = w_ip_addr w" "w_broadcast_addr w3 = w_broadcast_addr w" "w_out w3 = w_out w" "w_end w3 = w_end w" "w_table w3 = w_table w"
    using w2(2-6,8) by (simp_all add: w3_def same_defs w1_def extends_def)
  obtain w4 w5 where w4: "aodv_find_route E (rq_dst e) None ?t w3 = Some w5" "rreqs_only (next_self w3) w4"
    "searching (rq_dst e) ?t w3 w4"
    "after_send (rreq_event (ucast (expanding_ring_search_ttl (rreq_hop_count (own_rreq (rq_dst e) None (next_self w3))) ?t)) w3
      (own_rreq (rq_dst e) None (next_self w3))) (w4\<lparr>w_num_rreq_sent := w_num_rreq_sent w3 + 1\<rparr>) w5"
    using aodv_find_route_ok [OF A(2) [folded w3_def], of None None E "rq_dst e" ?t] by (auto simp: runs_iff)
  have ok4: "world_ok w4" using w4(2) by (simp add: rreqs_only_def)
  have s5: "w_rreqs w5 = (w_rreqs w)(p \<mapsto> e1)" "same_pkts w w5" "w_seq_num w5 = w_seq_num w + 1"
    "w_ip_addr w5 = w_ip_addr w" "w_broadcast_addr w5 = w_broadcast_addr w"
    "w_rreq_id w5 = w_rreq_id w + 1" "w_end w5 = w_end w" "waiting (w_alarms w5) = insert p (waiting (w_alarms w2))"
    "w_table w5 = w_table w"
    using after_send_same [OF w4(4)] w4(2,3) t'(1) s3 A(3)
    by (simp_all add: rreqs_only_def searching_def same_defs next_self_def w3_def)
  have out5: "w_out w5 = rreq_event (ucast (expanding_ring_search_ttl 0 ?t)) w (own_rreq (rq_dst e) None (next_self w)) # w_out w"
    using after_send_same [OF w4(4)] w4(2) s3
    by (simp add: rreqs_only_def same_defs next_self_def own_rreq_def rreq_event_def)
  define e2 where "e2 = e1\<lparr>rq_rreq_id := w_rreq_id w + 1\<rparr>"
  define w6 where "w6 = w5\<lparr>w_rreqs := (w_rreqs w5)(p \<mapsto> e2)\<rparr>"
  have "world_ok w5" using after_send_wf [OF w4(4)] ok4 by simp
  then have ok6: "world_ok w6"
    unfolding w6_def using s5(1) t' by (intro wf_rreq_upd [of w5 p e1]) (auto simp: e2_def e1_def)
  have "rreq_fifo_alarm_cb E p p w = Some w6"
    using e w2(1) ms sc A(1) w4(1) t' s5(1,6)
    by (simp add: rreq_fifo_alarm_cb_def Let_def upd_rreq_def w1_def e1_def w3_def w6_def e2_def)
  moreover have "alarm_ran p w w6"
    using ok6 s5 w2(7) asks_again_once [of w6] out5 by (auto simp: alarm_ran_def w6_def same_defs w1_def)
  ultimately show ?thesis
    using s5 out5 by (simp add: w6_def e2_def e1_def)
qed

end
