(* ===== verification/Nfqueue.thy ===== *)
theory Nfqueue
  imports Nfq Logic
begin

unbundle bit_operations_syntax

text \<open>
  Capturing data packets, \<open>meshias_daemon/nfqueue.c\<close>: the callback \<open>manage_packet\<close> that the
  netfilter queue library calls for each captured packet. It lets the packet go, or keeps it
  waiting in the queue of \<open>packets_fifo.c\<close> and starts a route search.

  The return values of the callbacks go to \<open>nfnl_handle_packet\<close> of libnfnetlink, which splits
  the received buffer into messages; the model takes the messages that arrive and assumes that
  sending a verdict succeeds. An address that the C code leaves uninitialised is undefined.
\<close>

section \<open>Setting up the queue\<close>

definition ERR_INIT :: int where "ERR_INIT = -1"

text \<open>
  What libnfnetlink answers: whether \<open>nfnl_open\<close> and \<open>nfnl_subsys_open\<close> succeed, and the result
  of \<open>nfnl_callback_register\<close>.
\<close>

record nfnl_env =
  nfnl_open :: bool
  nfnl_subsys_open :: bool
  nfnl_callback_register :: int

definition nfq_open_nfnl :: "nfnl_env \<Rightarrow> nfq_state \<Rightarrow> ptr \<times> nfq_state" where
  "nfq_open_nfnl N S =
     (let h = ns_next S;
          S1 = S\<lparr>ns_next := Suc h, ns_handles := (ns_handles S)(h \<mapsto> \<lparr>h_qh_list = 0\<rparr>)\<rparr>;
          freed = S1\<lparr>ns_handles := (ns_handles S1)(h := None)\<rparr> in
      if \<not> nfnl_subsys_open N then (0, freed)
      else if nfnl_callback_register N < 0 then (0, freed)
      else (h, S1))"

definition nfq_open :: "nfnl_env \<Rightarrow> nfq_state \<Rightarrow> ptr \<times> nfq_state" where
  "nfq_open N S = (if \<not> nfnl_open N then (0, S) else nfq_open_nfnl N S)"

definition NFQNL_COPY_PACKET :: u8 where "NFQNL_COPY_PACKET = 2"

text \<open>The result is the return value with \<open>data.handle\<close> and \<open>data.queue\<close> (\<open>AF_INET\<close> is 2).\<close>

definition nfqueue_init :: "nfnl_env \<Rightarrow> (nfq_msg \<Rightarrow> int) \<Rightarrow> nfq_state \<Rightarrow> (int \<times> ptr \<times> ptr \<times> nfq_state) option" where
  "nfqueue_init N talk S = (case nfq_open N S of (handle, S) \<Rightarrow>
     if handle = 0 then Some (ERR_INIT, 0, 0, S)
     else (case nfq_unbind_pf talk 2 S of (r, S) \<Rightarrow>
       if r < 0 then Some (ERR_INIT, handle, 0, S)
       else (case nfq_bind_pf talk 2 S of (r, S) \<Rightarrow>
         if r < 0 then Some (ERR_INIT, handle, 0, S)
         else do {
           (queue, S) \<leftarrow> nfq_create_queue talk handle 0 True S;
           if queue = 0 then Some (ERR_INIT, handle, queue, S)
           else do {
             (r, S) \<leftarrow> nfq_set_mode talk queue NFQNL_COPY_PACKET 0xffff S;
             if r < 0 then Some (ERR_INIT, handle, queue, S)
             else Some (0, handle, queue, S) } })))"

text \<open>Closing the connection to the kernel frees the handle when \<open>nfnl_close\<close> returns 0.\<close>

definition nfq_close :: "int \<Rightarrow> ptr \<Rightarrow> nfq_state \<Rightarrow> (int \<times> nfq_state) option" where
  "nfq_close nfnl_close h S = do {
     ns_handles S h;
     Some (nfnl_close, if nfnl_close = 0 then S\<lparr>ns_handles := (ns_handles S)(h := None)\<rparr> else S) }"

definition nfqueue_shutdown :: "(nfq_msg \<Rightarrow> int) \<Rightarrow> int \<Rightarrow> ptr \<Rightarrow> ptr \<Rightarrow> nfq_state \<Rightarrow> nfq_state option" where
  "nfqueue_shutdown talk nfnl_close handle queue S = do {
     S \<leftarrow> (if queue \<noteq> 0 then map_option snd (nfq_destroy_queue talk queue S) else Some S);
     if handle \<noteq> 0 then map_option snd (nfq_close nfnl_close handle S) else Some S }"

section \<open>Looking at a packet\<close>

definition nfqueue_packet_get_id :: "nfq_data \<Rightarrow> u32 option" where
  "nfqueue_packet_get_id packet = (case nfq_get_msg_packet_hdr packet of
       Some packetHeader \<Rightarrow> map_option ntohl (packet_hdr_packet_id packetHeader)
     | None \<Rightarrow> Some (-1))"

definition nfqueue_packet_get_hook :: "nfq_data \<Rightarrow> u32 option" where
  "nfqueue_packet_get_hook packet = (case nfq_get_msg_packet_hdr packet of
       Some packetHeader \<Rightarrow> map_option ucast (packet_hdr_hook packetHeader)
     | None \<Rightarrow> Some (-1))"

definition nfqueue_packet_get_dest :: "nfq_data \<Rightarrow> in_addr option" where
  "nfqueue_packet_get_dest packet = (case nfq_get_iphdr packet of
       Some ip_header \<Rightarrow> nfq_get_ip_daddr ip_header
     | None \<Rightarrow> None)"

definition nfqueue_packet_get_orig :: "nfq_data \<Rightarrow> in_addr option" where
  "nfqueue_packet_get_orig packet = (case nfq_get_iphdr packet of
       Some ip_header \<Rightarrow> nfq_get_ip_saddr ip_header
     | None \<Rightarrow> None)"

definition IPPROTO_UDP :: u8 where "IPPROTO_UDP = 17"

definition nfqueue_packet_is_aodv :: "nfq_data \<Rightarrow> bool option" where
  "nfqueue_packet_is_aodv packet = (case nfq_get_iphdr packet of
       None \<Rightarrow> Some False
     | Some ip_header \<Rightarrow> do {
         protocol \<leftarrow> nfq_get_ip_protocol ip_header;
         if protocol \<noteq> IPPROTO_UDP then Some False
         else (case nfq_get_udphdr packet of
             None \<Rightarrow> Some False
           | Some udp_header \<Rightarrow> do {
               dest \<leftarrow> nfq_get_udp_dest udp_header;
               Some (dest = AODV_UDP_PORT) }) })"

section \<open>Handling a packet\<close>

definition NF_IP_LOCAL_IN :: u32 where "NF_IP_LOCAL_IN = 1"
definition NF_IP_FORWARD :: u32 where "NF_IP_FORWARD = 2"
definition NF_IP_LOCAL_OUT :: u32 where "NF_IP_LOCAL_OUT = 3"

lemmas hook_defs = NF_IP_LOCAL_IN_def NF_IP_FORWARD_def NF_IP_LOCAL_OUT_def

text \<open>\<open>invalid_route\<close> stays null, since \<open>routing_table_update_route\<close> cannot assign it.\<close>

definition manage_output_packet :: "env \<Rightarrow> nfq_data \<Rightarrow> world \<Rightarrow> world option" where
  "manage_output_packet E nfa w = do {
     dest \<leftarrow> nfqueue_packet_get_dest nfa;
     pid \<leftarrow> nfqueue_packet_get_id nfa;
     if dest = w_broadcast_addr w then Some (nfq_set_verdict pid NF_ACCEPT w)
     else do {
       (found, w) \<leftarrow> routing_table_update_route E dest 0 w;
       if found then Some (nfq_set_verdict pid NF_ACCEPT w)
       else do {
         let w = packets_fifo_push pid dest w;
         searching \<leftarrow> rreq_fifo_waiting_response_for dest w;
         if \<not> searching then aodv_find_route E dest None 0 w else Some w } } }"

definition manage_input_packet :: "env \<Rightarrow> nfq_data \<Rightarrow> world \<Rightarrow> world option" where
  "manage_input_packet E nfa w = do {
     dest \<leftarrow> nfqueue_packet_get_dest nfa;
     pid \<leftarrow> nfqueue_packet_get_id nfa;
     if dest = w_broadcast_addr w then Some (nfq_set_verdict pid NF_ACCEPT w)
     else do {
       orig \<leftarrow> nfqueue_packet_get_orig nfa;
       (found, w) \<leftarrow> routing_table_update_route E dest orig w;
       if found then Some (nfq_set_verdict pid NF_ACCEPT w) else Some w } }"

definition manage_forward_packet :: "env \<Rightarrow> nfq_data \<Rightarrow> world \<Rightarrow> world option" where
  "manage_forward_packet E nfa w = do {
     dest \<leftarrow> nfqueue_packet_get_dest nfa;
     pid \<leftarrow> nfqueue_packet_get_id nfa;
     if dest = w_broadcast_addr w then Some (nfq_set_verdict pid NF_ACCEPT w)
     else do {
       orig \<leftarrow> nfqueue_packet_get_orig nfa;
       (found, w) \<leftarrow> routing_table_update_route E dest orig w;
       if found then Some (nfq_set_verdict pid NF_ACCEPT w)
       else Some (nfq_set_verdict pid NF_ACCEPT w) } }"

definition manage_packet :: "env \<Rightarrow> nfq_data \<Rightarrow> world \<Rightarrow> world option" where
  "manage_packet E nfa w = do {
     hook \<leftarrow> nfqueue_packet_get_hook nfa;
     pid \<leftarrow> nfqueue_packet_get_id nfa;
     aodv \<leftarrow> nfqueue_packet_is_aodv nfa;
     if aodv then Some (nfq_set_verdict pid NF_ACCEPT w)
     else if hook = NF_IP_LOCAL_IN then manage_input_packet E nfa w
     else if hook = NF_IP_FORWARD then manage_forward_packet E nfa w
     else if hook = NF_IP_LOCAL_OUT then manage_output_packet E nfa w
     else Some (nfq_set_verdict pid NF_ACCEPT w) }"

text \<open>
  \<open>nfqueue_receive_packet\<close>: what \<open>recv\<close> returns, and the packet messages that
  \<open>nfnl_handle_packet\<close> finds in the buffer.
\<close>

definition nfqueue_receive_packet :: "env \<Rightarrow> int \<Rightarrow> nfq_data list \<Rightarrow> world \<Rightarrow> world option" where
  "nfqueue_receive_packet E received msgs w =
     (if received = -1 then Some (upd_stats (\<lambda>s. s\<lparr>error_nfq_recv := error_nfq_recv s + 1\<rparr>) w)
      else fold_steps (manage_packet E) msgs w)"

section \<open>Captured packets\<close>

text \<open>A packet as the kernel captures it: its header is complete, and so is the start of a UDP header.\<close>

definition captured :: "nfq_data \<Rightarrow> bool" where
  "captured nfa \<longleftrightarrow> (\<exists>hdr ip. nfa NFQA_PACKET_HDR = Some hdr \<and> 7 \<le> length hdr \<and>
     nfa NFQA_PAYLOAD = Some ip \<and> 20 \<le> length ip \<and> (ip ! 9 = IPPROTO_UDP \<longrightarrow> 24 \<le> length ip))"

definition cap_id :: "nfq_data \<Rightarrow> u32" where
  "cap_id nfa = ntohl (load32 (the (nfa NFQA_PACKET_HDR)) 0)"

definition cap_hook :: "nfq_data \<Rightarrow> u32" where
  "cap_hook nfa = ucast (the (nfa NFQA_PACKET_HDR) ! 6)"

definition cap_dest :: "nfq_data \<Rightarrow> in_addr" where
  "cap_dest nfa = ntohl (load32 (the (nfa NFQA_PAYLOAD)) 16)"

definition cap_orig :: "nfq_data \<Rightarrow> in_addr" where
  "cap_orig nfa = ntohl (load32 (the (nfa NFQA_PAYLOAD)) 12)"

definition cap_aodv :: "nfq_data \<Rightarrow> bool" where
  "cap_aodv nfa \<longleftrightarrow> the (nfa NFQA_PAYLOAD) ! 9 = IPPROTO_UDP \<and>
     ntohs (load16 (drop 20 (the (nfa NFQA_PAYLOAD))) 2) = AODV_UDP_PORT"

lemma captured_fields:
  assumes "captured nfa"
  shows "nfqueue_packet_get_id nfa = Some (cap_id nfa)" "nfqueue_packet_get_hook nfa = Some (cap_hook nfa)"
    "nfqueue_packet_get_dest nfa = Some (cap_dest nfa)" "nfqueue_packet_get_orig nfa = Some (cap_orig nfa)"
    "nfqueue_packet_is_aodv nfa = Some (cap_aodv nfa)"
  using assms
  by (auto simp: captured_def nfqueue_packet_get_id_def nfqueue_packet_get_hook_def nfqueue_packet_get_dest_def
      nfqueue_packet_get_orig_def nfqueue_packet_is_aodv_def nfq_get_msg_packet_hdr_def nfq_get_iphdr_def
      nfq_get_payload_def nfq_get_udphdr_def packet_hdr_packet_id_def packet_hdr_hook_def nfq_get_ip_daddr_def
      nfq_get_ip_saddr_def nfq_get_ip_protocol_def nfq_get_udp_dest_def read8_def read16_def read32_def
      cap_id_def cap_hook_def cap_dest_def cap_orig_def cap_aodv_def sizeof_iphdr_def defined_if_def)

section \<open>What becomes of a captured packet\<close>

definition passes :: "world \<Rightarrow> in_addr \<Rightarrow> bool" where
  "passes w dest \<longleftrightarrow> dest = w_broadcast_addr w \<or> dest = w_ip_addr w \<or> active_route w dest"

text \<open>What stays as it is while a packet is handled, the packets and requests apart.\<close>

definition data_step :: "world \<Rightarrow> world \<Rightarrow> bool" where
  "data_step w w' \<longleftrightarrow> world_ok w' \<and> w_table w' = w_table w \<and> w_ip_addr w' = w_ip_addr w \<and>
     w_broadcast_addr w' = w_broadcast_addr w \<and> w_end w' = w_end w \<and> w_live_pkts w' = w_live_pkts w \<and>
     (\<exists>es. w_out w' = es @ w_out w) \<and> w_pkts w \<subseteq>\<^sub>m w_pkts w' \<and> (\<forall>a. route_to w' a = route_to w a)"

lemma route_to_same: "w_table w' = w_table w \<Longrightarrow> w_routes w' = w_routes w \<Longrightarrow> route_to w' a = route_to w a"
  by (simp add: route_to_def route_dst_def)

lemma route_to_harmless [simp]: "route_to (emit e w) a = route_to w a" "route_to (upd_stats f w) a = route_to w a"
  by (simp_all add: route_to_def route_dst_def emit_def upd_stats_def)

definition accepted :: "nfq_data \<Rightarrow> world \<Rightarrow> world \<Rightarrow> bool" where
  "accepted nfa w w' \<longleftrightarrow> data_step w w' \<and> same_pkts w w' \<and> same_rreqs w w' \<and>
     w_out w' = Verdict (cap_id nfa) NF_ACCEPT # w_out w"

definition others_kept :: "in_addr \<Rightarrow> world \<Rightarrow> world \<Rightarrow> bool" where
  "others_kept d w w' \<longleftrightarrow> (\<forall>e. rq_dst e \<noteq> d \<longrightarrow> (e \<in> ran (w_rreqs w')) = (e \<in> ran (w_rreqs w)))"

definition kept_waiting :: "nfq_data \<Rightarrow> world \<Rightarrow> world \<Rightarrow> bool" where
  "kept_waiting nfa w w' \<longleftrightarrow> data_step w w' \<and>
     (\<exists>p. p \<notin> dom (w_pkts w) \<and> w_packets_queue w' = p # w_packets_queue w \<and>
        w_pkts w' = (w_pkts w)(p \<mapsto> \<lparr>pf_id = cap_id nfa, pf_dest = cap_dest nfa\<rparr>)) \<and>
     rreq_fifo_waiting_response_for (cap_dest nfa) w' = Some True \<and> others_kept (cap_dest nfa) w w' \<and>
     (if rreq_fifo_waiting_response_for (cap_dest nfa) w = Some True then w_out w' = w_out w
      else w_out w' = rreq_event (ucast (expanding_ring_search_ttl 0 0)) w (own_rreq (cap_dest nfa) None (next_self w)) # w_out w)"

lemma verdict_accepts:
  "world_ok w \<Longrightarrow> accepted nfa w (nfq_set_verdict (cap_id nfa) NF_ACCEPT w)"
  by (auto simp: accepted_def data_step_def nfq_set_verdict_def same_defs) (auto simp: emit_def)

lemma update_then_verdict:
  assumes "world_ok w" "extends w w1" "w_table w1 = w_table w" "same_rreqs w w1" "same_pkts w w1" "same_self w w1" "w_out w1 = w_out w"
  shows "accepted nfa w (nfq_set_verdict (cap_id nfa) NF_ACCEPT w1)" "data_step w w1"
  using assms extends_wf [OF assms(2)] extends_route_to [OF assms(2,1,3)]
  by (auto simp: accepted_def data_step_def nfq_set_verdict_def same_defs extends_def) (auto simp: emit_def)

text \<open>The decision that the three hooks share.\<close>

lemma update_route_decision:
  assumes ok: "world_ok w" and d: "d \<noteq> w_broadcast_addr w"
  obtains w1 where "routing_table_update_route E d o' w = Some (passes w d, w1)" "extends w w1" "w_table w1 = w_table w"
    "same_rreqs w w1" "same_pkts w w1" "same_self w w1" "w_out w1 = w_out w"
proof -
  obtain x where x: "routing_table_update_route E d o' w = Some x" "case x of (b, w') \<Rightarrow> extends w w' \<and> w_table w' = w_table w \<and>
    same_rreqs w w' \<and> same_pkts w w' \<and> same_self w w' \<and> w_out w' = w_out w \<and>
    waiting (w_alarms w) \<subseteq> waiting (w_alarms w') \<and> b = (d = w_ip_addr w \<or> active_route w d)"
    by (rule runsE [OF routing_table_update_route_ok [OF ok]])
  obtain b w1 where b: "x = (b, w1)" by (cases x)
  have "b = passes w d" using x(2) b d by (simp add: passes_def)
  then show ?thesis using that [of w1] x b by auto
qed

lemma manage_input_packet_ok:
  assumes ok: "world_ok w" and c: "captured nfa"
  shows "runs (manage_input_packet E nfa w) (\<lambda>w'.
    if passes w (cap_dest nfa) then accepted nfa w w'
    else data_step w w' \<and> same_pkts w w' \<and> same_rreqs w w' \<and> w_out w' = w_out w)"
proof (cases "cap_dest nfa = w_broadcast_addr w")
  case True
  then show ?thesis
    using verdict_accepts [OF ok] by (simp add: manage_input_packet_def captured_fields [OF c] passes_def)
next
  case False
  from update_route_decision [OF ok this, of E "cap_orig nfa"]
  obtain w1 where w1: "routing_table_update_route E (cap_dest nfa) (cap_orig nfa) w = Some (passes w (cap_dest nfa), w1)"
    "extends w w1" "w_table w1 = w_table w" "same_rreqs w w1" "same_pkts w w1" "same_self w w1" "w_out w1 = w_out w" .
  then show ?thesis
    using update_then_verdict [OF ok w1(2-7)] False by (simp add: manage_input_packet_def captured_fields [OF c])
qed

lemma manage_forward_packet_ok:
  assumes ok: "world_ok w" and c: "captured nfa"
  shows "runs (manage_forward_packet E nfa w) (accepted nfa w)"
proof (cases "cap_dest nfa = w_broadcast_addr w")
  case True
  then show ?thesis
    using verdict_accepts [OF ok] by (simp add: manage_forward_packet_def captured_fields [OF c])
next
  case False
  from update_route_decision [OF ok this, of E "cap_orig nfa"]
  obtain w1 where w1: "routing_table_update_route E (cap_dest nfa) (cap_orig nfa) w = Some (passes w (cap_dest nfa), w1)"
    "extends w w1" "w_table w1 = w_table w" "same_rreqs w w1" "same_pkts w w1" "same_self w w1" "w_out w1 = w_out w" .
  then show ?thesis
    using update_then_verdict [OF ok w1(2-7)] False by (simp add: manage_forward_packet_def captured_fields [OF c])
qed

lemma own_rreq_cong:
  "w_rreq_id v = w_rreq_id w \<Longrightarrow> w_seq_num v = w_seq_num w \<Longrightarrow> w_ip_addr v = w_ip_addr w \<Longrightarrow>
    own_rreq d None (next_self v) = own_rreq d None (next_self w)"
  by (simp add: own_rreq_def next_self_def)

text \<open>The packet is queued in the state \<open>v\<close>, and a search starts unless one is under way.\<close>

lemma queue_and_search:
  assumes ok: "world_ok v"
  shows "runs (do { searching \<leftarrow> rreq_fifo_waiting_response_for d v;
      if \<not> searching then aodv_find_route E d None 0 v else Some v }) (\<lambda>w'. data_step v w' \<and> same_pkts v w' \<and>
    rreq_fifo_waiting_response_for d w' = Some True \<and> others_kept d v w' \<and>
    (if rreq_fifo_waiting_response_for d v = Some True then w_out w' = w_out v
     else w_out w' = rreq_event (ucast (expanding_ring_search_ttl 0 0)) v (own_rreq d None (next_self v)) # w_out v))"
proof -
  let ?b = "\<exists>e \<in> ran (w_rreqs v). 0 \<le> sint (rq_prev_tries e) \<and> rq_dst e = d"
  have b: "rreq_fifo_waiting_response_for d v = Some ?b" by (rule rreq_fifo_waiting_eq [OF ok])
  show ?thesis
  proof (cases ?b)
    case True
    then show ?thesis using ok b by (simp add: data_step_def same_pkts_def others_kept_def)
  next
    case False
    have r: "case None of None \<Rightarrow> (None :: msh_route option) = None | Some p \<Rightarrow> w_routes v p = None \<and> None \<noteq> None" by simp
    have hop: "rreq_hop_count (own_rreq d None (next_self v)) = 0" by (simp add: own_rreq_def)
    show ?thesis
    proof -
      have "runs (aodv_find_route E d None 0 v) (\<lambda>w'. data_step v w' \<and> same_pkts v w' \<and>
          rreq_fifo_waiting_response_for d w' = Some True \<and> others_kept d v w' \<and>
          w_out w' = rreq_event (ucast (expanding_ring_search_ttl 0 0)) v (own_rreq d None (next_self v)) # w_out v)"
      proof (rule runs_mono [OF aodv_find_route_ok [OF ok r, of E d 0, unfolded hop]], elim exE conjE)
        fix w' w1
        assume a: "rreqs_only (next_self v) w1" "searching d 0 v w1"
          "after_send (rreq_event (ucast (expanding_ring_search_ttl 0 0)) v (own_rreq d None (next_self v)))
             (w1\<lparr>w_num_rreq_sent := w_num_rreq_sent v + 1\<rparr>) w'"
        have ok': "world_ok w'" using after_send_wf [OF a(3)] a(1) by (simp add: rreqs_only_def)
        have "\<exists>e \<in> ran (w_rreqs w'). 0 \<le> sint (rq_prev_tries e) \<and> rq_dst e = d"
          using a(2) after_send_same(4) [OF a(3)] by (auto simp: searching_def ran_def)
        moreover have "w_rreqs v (w_next_ptr v) = None" using next_ptr_fresh(2) [OF ok] by auto
        then have "others_kept d v w'"
          using a(2) after_send_same(4) [OF a(3)] by (auto simp: others_kept_def searching_def ran_map_upd)
        ultimately show "data_step v w' \<and> same_pkts v w' \<and> rreq_fifo_waiting_response_for d w' = Some True \<and>
          others_kept d v w' \<and>
          w_out w' = rreq_event (ucast (expanding_ring_search_ttl 0 0)) v (own_rreq d None (next_self v)) # w_out v"
          using ok' a(1) after_send_same [OF a(3)]
          by (auto simp: rreq_fifo_waiting_eq data_step_def rreqs_only_def same_defs next_self_def intro!: route_to_same)
      qed
      then show ?thesis using b False by simp
    qed
  qed
qed

lemma manage_output_packet_ok:
  assumes ok: "world_ok w" and c: "captured nfa"
  shows "runs (manage_output_packet E nfa w) (\<lambda>w'.
    if passes w (cap_dest nfa) then accepted nfa w w' else kept_waiting nfa w w')"
proof (cases "cap_dest nfa = w_broadcast_addr w")
  case True
  then show ?thesis
    using verdict_accepts [OF ok] by (simp add: manage_output_packet_def captured_fields [OF c] passes_def)
next
  case nb: False
  let ?d = "cap_dest nfa"
  from update_route_decision [OF ok nb, of E 0]
  obtain w1 where w1: "routing_table_update_route E ?d 0 w = Some (passes w ?d, w1)"
    "extends w w1" "w_table w1 = w_table w" "same_rreqs w w1" "same_pkts w w1" "same_self w w1" "w_out w1 = w_out w" .
  show ?thesis
  proof (cases "passes w ?d")
    case True
    then show ?thesis
      using update_then_verdict [OF ok w1(2-7)] w1(1) nb by (simp add: manage_output_packet_def captured_fields [OF c])
  next
    case False
    let ?v = "packets_fifo_push (cap_id nfa) ?d w1"
    have ok1: "world_ok w1" by (rule extends_wf [OF w1(2)])
    have okv: "world_ok ?v" by (rule packets_fifo_push_wf [OF ok1])
    have fresh: "w_next_ptr w1 \<notin> dom (w_pkts w)" using next_ptr_fresh(3) [OF ok1] w1(5) by (simp add: same_pkts_def)
    have mono: "w_pkts w \<subseteq>\<^sub>m (w_pkts w)(w_next_ptr w1 \<mapsto> x)" for x
      using fresh by (auto simp: map_le_def)
    have v: "w_packets_queue ?v = w_next_ptr w1 # w_packets_queue w"
      "w_pkts ?v = (w_pkts w)(w_next_ptr w1 \<mapsto> \<lparr>pf_id = cap_id nfa, pf_dest = ?d\<rparr>)" "w_rreqs ?v = w_rreqs w"
      "w_out ?v = w_out w" "w_broadcast_addr ?v = w_broadcast_addr w" "w_ip_addr ?v = w_ip_addr w"
      "w_seq_num ?v = w_seq_num w" "w_rreq_id ?v = w_rreq_id w" "data_step w ?v"
      using w1(2-7) okv mono extends_route_to [OF w1(2) ok w1(3)] route_to_same [of ?v w1]
      by (auto simp: packets_fifo_push_def Let_def same_defs extends_def data_step_def)
    have same: "rreq_fifo_waiting_response_for ?d ?v = rreq_fifo_waiting_response_for ?d w"
      by (simp add: rreq_fifo_waiting_eq okv ok v(3))
    have ev: "rreq_event t ?v (own_rreq ?d None (next_self ?v)) = rreq_event t w (own_rreq ?d None (next_self w))" for t
      using own_rreq_cong [OF v(8,7,6)] v(5) by (simp add: rreq_event_def)
    have "manage_output_packet E nfa w = do { searching \<leftarrow> rreq_fifo_waiting_response_for ?d ?v;
        if \<not> searching then aodv_find_route E ?d None 0 ?v else Some ?v }"
      using nb False w1(1) by (simp add: manage_output_packet_def captured_fields [OF c] Let_def)
    then show ?thesis
    proof (simp only: False if_False, intro runs_mono [OF queue_and_search [OF okv]])
      fix w' assume "data_step ?v w' \<and> same_pkts ?v w' \<and> rreq_fifo_waiting_response_for ?d w' = Some True \<and> others_kept ?d ?v w' \<and>
        (if rreq_fifo_waiting_response_for ?d ?v = Some True then w_out w' = w_out ?v
         else w_out w' = rreq_event (ucast (expanding_ring_search_ttl 0 0)) ?v (own_rreq ?d None (next_self ?v)) # w_out ?v)"
      then show "kept_waiting nfa w w'"
        using fresh v mono unfolding kept_waiting_def same ev by (auto simp: data_step_def same_pkts_def others_kept_def)
    qed
  qed
qed

text \<open>The fate of a captured packet: it is let go, it waits, or nothing is done about it.\<close>

definition stuck :: "nfq_data \<Rightarrow> world \<Rightarrow> bool" where
  "stuck nfa w \<longleftrightarrow> \<not> cap_aodv nfa \<and> cap_hook nfa = NF_IP_LOCAL_IN \<and> \<not> passes w (cap_dest nfa)"

definition waits :: "nfq_data \<Rightarrow> world \<Rightarrow> bool" where
  "waits nfa w \<longleftrightarrow> \<not> cap_aodv nfa \<and> cap_hook nfa = NF_IP_LOCAL_OUT \<and> \<not> passes w (cap_dest nfa)"

lemma manage_packet_ok:
  assumes ok: "world_ok w" and c: "captured nfa"
  shows "runs (manage_packet E nfa w) (\<lambda>w'.
    if stuck nfa w then data_step w w' \<and> same_pkts w w' \<and> same_rreqs w w' \<and> w_out w' = w_out w
    else if waits nfa w then kept_waiting nfa w w' else accepted nfa w w')"
proof -
  have d: "manage_packet E nfa w = (if cap_aodv nfa then Some (nfq_set_verdict (cap_id nfa) NF_ACCEPT w)
     else if cap_hook nfa = NF_IP_LOCAL_IN then manage_input_packet E nfa w
     else if cap_hook nfa = NF_IP_FORWARD then manage_forward_packet E nfa w
     else if cap_hook nfa = NF_IP_LOCAL_OUT then manage_output_packet E nfa w
     else Some (nfq_set_verdict (cap_id nfa) NF_ACCEPT w))"
    by (simp add: manage_packet_def captured_fields [OF c])
  have h: "NF_IP_LOCAL_IN \<noteq> NF_IP_FORWARD" "NF_IP_LOCAL_IN \<noteq> NF_IP_LOCAL_OUT" "NF_IP_FORWARD \<noteq> NF_IP_LOCAL_OUT"
    by (simp_all add: hook_defs)
  consider "cap_aodv nfa" | "\<not> cap_aodv nfa" "cap_hook nfa = NF_IP_LOCAL_IN"
    | "\<not> cap_aodv nfa" "cap_hook nfa = NF_IP_FORWARD" | "\<not> cap_aodv nfa" "cap_hook nfa = NF_IP_LOCAL_OUT"
    | "\<not> cap_aodv nfa" "cap_hook nfa \<notin> {NF_IP_LOCAL_IN, NF_IP_FORWARD, NF_IP_LOCAL_OUT}" by blast
  then show ?thesis
  proof cases
    case 1
    then show ?thesis using verdict_accepts [OF ok, of nfa] by (simp add: d stuck_def waits_def)
  next
    case 2
    then show ?thesis using manage_input_packet_ok [OF ok c, of E] h by (auto simp: d stuck_def waits_def elim!: runs_mono)
  next
    case 3
    then show ?thesis using manage_forward_packet_ok [OF ok c, of E] h by (simp add: d stuck_def waits_def)
  next
    case 4
    then show ?thesis using manage_output_packet_ok [OF ok c, of E] h by (auto simp: d stuck_def waits_def elim!: runs_mono)
  next
    case 5
    then show ?thesis using verdict_accepts [OF ok, of nfa] by (simp add: d stuck_def waits_def)
  qed
qed

text \<open>Many packets in a row.\<close>

lemma data_step_trans: "data_step u v \<Longrightarrow> data_step v w \<Longrightarrow> data_step u w"
  unfolding data_step_def by (auto intro: map_le_trans)

lemma manage_packets_ok:
  assumes "world_ok w" "\<forall>nfa \<in> set msgs. captured nfa"
  shows "runs (fold_steps (manage_packet E) msgs w) (data_step w)"
  using assms
proof (induction msgs arbitrary: w)
  case Nil
  then show ?case by (simp add: data_step_def)
next
  case (Cons nfa msgs)
  have "runs (manage_packet E nfa w) (data_step w)"
    by (rule runs_mono [OF manage_packet_ok [OF Cons.prems(1)]])
      (use Cons.prems in \<open>auto simp: accepted_def kept_waiting_def split: if_splits\<close>)
  then obtain w1 where w1: "manage_packet E nfa w = Some w1" "data_step w w1" by (auto simp: runs_iff)
  have "runs (fold_steps (manage_packet E) msgs w1) (data_step w1)"
    using w1(2) Cons.prems(2) by (intro Cons.IH) (auto simp: data_step_def)
  then show ?case using w1 by (auto intro: data_step_trans elim!: runs_mono)
qed

lemma nfqueue_receive_packet_ok:
  assumes "world_ok w" "\<forall>nfa \<in> set msgs. captured nfa"
  shows "runs (nfqueue_receive_packet E received msgs w) (data_step w)"
proof -
  have "data_step w (upd_stats f w)" for f using assms(1) by (simp add: data_step_def) (simp add: upd_stats_def)
  then show ?thesis using manage_packets_ok [OF assms] by (simp add: nfqueue_receive_packet_def)
qed

section \<open>Properties of the capture\<close>

definition sample_capture :: "u8 \<Rightarrow> in_addr \<Rightarrow> nfq_data" where
  "sample_capture hook dest = [NFQA_PACKET_HDR \<mapsto> store32 (htonl 51) @ [8, 0, hook],
     NFQA_PAYLOAD \<mapsto> [0x45, 0, 0, 20, 0, 0, 0, 0, 64, 6, 0, 0] @ store32 (htonl 0x0A000001) @ store32 (htonl dest)]"

lemma sample_captured:
  "captured (sample_capture hook dest)" "cap_id (sample_capture hook dest) = 51" "\<not> cap_aodv (sample_capture hook dest)"
  "cap_hook (sample_capture hook dest) = ucast hook" "cap_dest (sample_capture hook dest) = dest"
proof -
  have l: "load32 (store32 (htonl 51) @ [8, 0, hook]) 0 = htonl 51"
    using load32_store32 [of "[]" "htonl 51" "[8, 0, hook]"] by simp
  have m: "load32 ([0x45, 0, 0, 20, 0, 0, 0, 0, 64, 6, 0, 0] @ store32 (htonl 0x0A000001) @ store32 (htonl dest)) 16 = htonl dest"
    by (simp add: load32_def store32_def htonl_def [of dest])
  show "captured (sample_capture hook dest)" "\<not> cap_aodv (sample_capture hook dest)"
    by (auto simp: captured_def cap_aodv_def sample_capture_def nfqa_defs IPPROTO_UDP_def)
  show "cap_id (sample_capture hook dest) = 51" using l by (simp add: cap_id_def sample_capture_def nfqa_defs)
  show "cap_hook (sample_capture hook dest) = ucast hook"
    by (simp add: cap_hook_def sample_capture_def nfqa_defs store32_def)
  show "cap_dest (sample_capture hook dest) = dest" using m by (simp add: cap_dest_def sample_capture_def nfqa_defs)
qed

text \<open>
  C15: a packet that this node sends to a destination without an active route (neither the broadcast
  address nor its own) is not let go: it waits in the queue under its number, the node waits for
  a response for that destination, and a route request is sent exactly if no search for it was
  under way.
\<close>
theorem packet_without_route_waits_for_search:
  assumes "world_ok w" "captured nfa" "\<not> cap_aodv nfa" "cap_hook nfa = NF_IP_LOCAL_OUT" "\<not> passes w (cap_dest nfa)"
  shows "runs (manage_packet E nfa w) (\<lambda>w'. world_ok w' \<and>
    (\<exists>p. p \<notin> dom (w_pkts w) \<and> w_packets_queue w' = p # w_packets_queue w \<and>
       w_pkts w' = (w_pkts w)(p \<mapsto> \<lparr>pf_id = cap_id nfa, pf_dest = cap_dest nfa\<rparr>)) \<and>
    rreq_fifo_waiting_response_for (cap_dest nfa) w' = Some True \<and>
    length (sent w') = length (sent w) + (if rreq_fifo_waiting_response_for (cap_dest nfa) w = Some True then 0 else 1))"
proof -
  have "waits nfa w" "\<not> stuck nfa w" using assms(3-5) by (auto simp: waits_def stuck_def hook_defs)
  then show ?thesis
    by (intro runs_mono [OF manage_packet_ok [OF assms(1,2)]])
      (auto simp: kept_waiting_def data_step_def sent_def split: if_splits)
qed

lemma sample_no_pass: "\<not> passes sample_world 0x0A000003"
  by (simp add: passes_def active_route_def sample_route_to sample_parts)

theorem packet_without_route_waits_for_search_witness:
  "\<exists>w'. manage_packet sample_env (sample_capture 3 0x0A000003) sample_world = Some w' \<and>
    rreq_fifo_waiting_response_for 0x0A000003 w' = Some True \<and> length (w_packets_queue w') = 3"
  using packet_without_route_waits_for_search [OF sample_world_ok sample_captured(1,3), of 3 "0x0A000003" sample_env]
    sample_no_pass by (auto simp: runs_iff sample_captured hook_defs sample_parts)

text \<open>
  C20: every other captured packet is let go with exactly one verdict, without disturbing the queue
  of waiting packets or the pending requests, except that a packet from the hook \<open>INPUT\<close> that is
  neither broadcast nor for this node nor covered by an active route gets no verdict and is not
  queued either, so the kernel keeps it for ever.
\<close>
theorem captured_packet_is_let_go:
  assumes "world_ok w" "captured nfa" "\<not> waits nfa w"
  shows "runs (manage_packet E nfa w) (\<lambda>w'. world_ok w' \<and> w_pkts w' = w_pkts w \<and> w_rreqs w' = w_rreqs w \<and>
    w_table w' = w_table w \<and>
    w_out w' = (if \<not> cap_aodv nfa \<and> cap_hook nfa = NF_IP_LOCAL_IN \<and> \<not> passes w (cap_dest nfa) then []
      else [Verdict (cap_id nfa) NF_ACCEPT]) @ w_out w)"
  by (rule runs_mono [OF manage_packet_ok [OF assms(1,2)]])
    (use assms(3) in \<open>auto simp: accepted_def data_step_def stuck_def same_defs split: if_splits\<close>)

theorem captured_packet_is_let_go_witness:
  "\<exists>w'. manage_packet sample_env (sample_capture 2 0x0A000003) sample_world = Some w' \<and> w_out w' = [Verdict 51 NF_ACCEPT]"
proof -
  have "\<not> waits (sample_capture 2 0x0A000003) sample_world" by (simp add: waits_def sample_captured hook_defs)
  then show ?thesis
    using captured_packet_is_let_go [OF sample_world_ok sample_captured(1), of 2 "0x0A000003" sample_env]
    by (auto simp: runs_iff sample_captured hook_defs sample_parts)
qed

end
