(* ===== verification/Ipq.thy ===== *)
theory Ipq
  imports Nfqueue
begin

text \<open>
  The compatibility layer \<open>libnetfilter_queue/libipq_compat.c\<close>, which offers the interface of the
  older \<open>libipq\<close> on top of the queue library of \<^theory_text>\<open>Nfq\<close>. Its state is the error of the last
  operation, the handles it has given out and the state of the library below. A failing \<open>malloc\<close>
  is tested for by this code, so whether it succeeds is a parameter here. The parameters
  \<open>N\<close>, \<open>talk\<close> and \<open>nfnl_close\<close> are the answers of libnfnetlink, as in \<^theory_text>\<open>Nfqueue\<close>.
\<close>

section \<open>Errors\<close>

datatype ipq_err =
    IPQ_ERR_NONE
  | IPQ_ERR_IMPL
  | IPQ_ERR_HANDLE
  | IPQ_ERR_SOCKET
  | IPQ_ERR_BIND
  | IPQ_ERR_BUFFER
  | IPQ_ERR_RECV
  | IPQ_ERR_NLEOF
  | IPQ_ERR_ADDRLEN
  | IPQ_ERR_STRUNC
  | IPQ_ERR_RTRUNC
  | IPQ_ERR_NLRECV
  | IPQ_ERR_SEND
  | IPQ_ERR_SUPP
  | IPQ_ERR_RECVBUF
  | IPQ_ERR_TIMEOUT
  | IPQ_ERR_PROTOCOL

fun ipq_errcode :: "ipq_err \<Rightarrow> int" where
  "ipq_errcode IPQ_ERR_NONE = 0"
| "ipq_errcode IPQ_ERR_IMPL = 1"
| "ipq_errcode IPQ_ERR_HANDLE = 2"
| "ipq_errcode IPQ_ERR_SOCKET = 3"
| "ipq_errcode IPQ_ERR_BIND = 4"
| "ipq_errcode IPQ_ERR_BUFFER = 5"
| "ipq_errcode IPQ_ERR_RECV = 6"
| "ipq_errcode IPQ_ERR_NLEOF = 7"
| "ipq_errcode IPQ_ERR_ADDRLEN = 8"
| "ipq_errcode IPQ_ERR_STRUNC = 9"
| "ipq_errcode IPQ_ERR_RTRUNC = 10"
| "ipq_errcode IPQ_ERR_NLRECV = 11"
| "ipq_errcode IPQ_ERR_SEND = 12"
| "ipq_errcode IPQ_ERR_SUPP = 13"
| "ipq_errcode IPQ_ERR_RECVBUF = 14"
| "ipq_errcode IPQ_ERR_TIMEOUT = 15"
| "ipq_errcode IPQ_ERR_PROTOCOL = 16"

definition IPQ_MAXERR :: int where
  "IPQ_MAXERR = ipq_errcode IPQ_ERR_PROTOCOL"

definition ipq_errmap :: "(ipq_err \<times> string) list" where
  "ipq_errmap = [
    (IPQ_ERR_NONE, ''Unknown error''),
    (IPQ_ERR_IMPL, ''Implementation error''),
    (IPQ_ERR_HANDLE, ''Unable to create netlink handle''),
    (IPQ_ERR_SOCKET, ''Unable to create netlink socket''),
    (IPQ_ERR_BIND, ''Unable to bind netlink socket''),
    (IPQ_ERR_BUFFER, ''Unable to allocate buffer''),
    (IPQ_ERR_RECV, ''Failed to receive netlink message''),
    (IPQ_ERR_NLEOF, ''Received EOF on netlink socket''),
    (IPQ_ERR_ADDRLEN, ''Invalid peer address length''),
    (IPQ_ERR_STRUNC, ''Sent message truncated''),
    (IPQ_ERR_RTRUNC, ''Received message truncated''),
    (IPQ_ERR_NLRECV, ''Received error from netlink''),
    (IPQ_ERR_SEND, ''Failed to send netlink message''),
    (IPQ_ERR_SUPP, ''Operation not supported''),
    (IPQ_ERR_RECVBUF, ''Receive buffer size invalid''),
    (IPQ_ERR_TIMEOUT, ''Timeout''),
    (IPQ_ERR_PROTOCOL, ''Invalid protocol specified'')]"

definition ipq_strerror :: "int \<Rightarrow> string option" where
  "ipq_strerror errcode =
     (let errcode = (if errcode < 0 \<or> errcode > IPQ_MAXERR then ipq_errcode IPQ_ERR_IMPL else errcode);
          i = nat errcode in
      defined_if (i < length ipq_errmap) (Some (snd (ipq_errmap ! i))))"

section \<open>Handles\<close>

record ipq_handle =
  ih_nfqnlh :: ptr
  ih_qh :: ptr
  ih_family :: u8

record ipq_state =
  iq_errno :: ipq_err
  iq_handles :: "ptr \<rightharpoonup> ipq_handle"
  iq_next :: ptr
  iq_nfq :: nfq_state

definition PF_INET :: u32 where "PF_INET = 2"
definition PF_INET6 :: u32 where "PF_INET6 = 10"

text \<open>The ends of the error paths: \<open>err_free\<close> and \<open>err_close\<close>.\<close>

definition ipq_err_free :: "ptr \<Rightarrow> ipq_state \<Rightarrow> ptr \<times> ipq_state" where
  "ipq_err_free h I = (0, I\<lparr>iq_handles := (iq_handles I)(h := None)\<rparr>)"

definition ipq_err_close :: "int \<Rightarrow> ptr \<Rightarrow> ptr \<Rightarrow> ipq_state \<Rightarrow> (ptr \<times> ipq_state) option" where
  "ipq_err_close nfnl_close nfqnlh h I = do {
     (_, S) \<leftarrow> nfq_close nfnl_close nfqnlh (iq_nfq I);
     Some (ipq_err_free h (I\<lparr>iq_nfq := S\<rparr>)) }"

definition ipq_create_handle ::
  "bool \<Rightarrow> nfnl_env \<Rightarrow> (nfq_msg \<Rightarrow> int) \<Rightarrow> int \<Rightarrow> u32 \<Rightarrow> u32 \<Rightarrow> ipq_state \<Rightarrow> (ptr \<times> ipq_state) option" where
  "ipq_create_handle malloc_ok N talk nfnl_close flags protocol I =
     (if \<not> malloc_ok then Some (0, I\<lparr>iq_errno := IPQ_ERR_HANDLE\<rparr>)
      else
       let h = iq_next I;
           I = I\<lparr>iq_next := Suc h, iq_handles := (iq_handles I)(h \<mapsto> \<lparr>ih_nfqnlh = 0, ih_qh = 0, ih_family = 0\<rparr>)\<rparr>;
           (nfqnlh, S) = nfq_open N (iq_nfq I);
           I = I\<lparr>iq_nfq := S, iq_handles := (iq_handles I)(h \<mapsto> \<lparr>ih_nfqnlh = nfqnlh, ih_qh = 0, ih_family = 0\<rparr>)\<rparr> in
       if nfqnlh = 0 then Some (ipq_err_free h (I\<lparr>iq_errno := IPQ_ERR_SOCKET\<rparr>))
       else if protocol \<noteq> PF_INET \<and> protocol \<noteq> PF_INET6
       then ipq_err_close nfnl_close nfqnlh h (I\<lparr>iq_errno := IPQ_ERR_PROTOCOL\<rparr>)
       else
        let (status, S) = nfq_bind_pf talk (ucast protocol) (iq_nfq I);
            I = I\<lparr>iq_nfq := S, iq_handles := (iq_handles I)(h \<mapsto>
                   \<lparr>ih_nfqnlh = nfqnlh, ih_qh = 0, ih_family = ucast protocol\<rparr>)\<rparr> in
        if status < 0 then ipq_err_close nfnl_close nfqnlh h (I\<lparr>iq_errno := IPQ_ERR_BIND\<rparr>)
        else do {
          (qh, S) \<leftarrow> nfq_create_queue talk nfqnlh 0 False (iq_nfq I);
          let I = I\<lparr>iq_nfq := S, iq_handles := (iq_handles I)(h \<mapsto>
                   \<lparr>ih_nfqnlh = nfqnlh, ih_qh = qh, ih_family = ucast protocol\<rparr>)\<rparr>;
          if qh = 0 then ipq_err_close nfnl_close nfqnlh h (I\<lparr>iq_errno := IPQ_ERR_BIND\<rparr>)
          else Some (h, I) })"

definition ipq_destroy_handle :: "int \<Rightarrow> ptr \<Rightarrow> ipq_state \<Rightarrow> (int \<times> ipq_state) option" where
  "ipq_destroy_handle nfnl_close h I =
     (if h = 0 then Some (0, I)
      else do {
        x \<leftarrow> iq_handles I h;
        (_, S) \<leftarrow> nfq_close nfnl_close (ih_nfqnlh x) (iq_nfq I);
        Some (0, I\<lparr>iq_nfq := S, iq_handles := (iq_handles I)(h := None)\<rparr>) })"

section \<open>Operations on a handle\<close>

text \<open>
  Lengths are \<open>size_t\<close> and packet identifiers \<open>unsigned long\<close> here, both of 64 bits; the library
  below takes 32 bits of them.
\<close>

definition ipq_set_mode ::
  "(nfq_msg \<Rightarrow> int) \<Rightarrow> ptr \<Rightarrow> u8 \<Rightarrow> u64 \<Rightarrow> ipq_state \<Rightarrow> (int \<times> ipq_state) option" where
  "ipq_set_mode talk h mode rng I = do {
     x \<leftarrow> iq_handles I h;
     (ret, S) \<leftarrow> nfq_set_mode talk (ih_qh x) mode (ucast rng) (iq_nfq I);
     Some (ret, I\<lparr>iq_nfq := S\<rparr>) }"

text \<open>
  \<open>nfnl_parse_hdr\<close> yields the family of the message and the rest of the buffer, where the
  attributes start, or nothing; \<open>nfnl_parse_attr\<close> reads attributes from there on, as far as the
  given length, and may leave the buffer.
\<close>

definition ipq_read ::
  "(u8 list \<Rightarrow> (u8 \<times> u8 list) option) \<Rightarrow> (u8 list \<Rightarrow> nat \<Rightarrow> unit option) \<Rightarrow> ptr \<Rightarrow> u8 list \<Rightarrow> ipq_state
     \<Rightarrow> (int \<times> u8 list) option" where
  "ipq_read nfnl_parse_hdr nfnl_parse_attr h buf I = do {
     x \<leftarrow> iq_handles I h;
     ns_handles (iq_nfq I) (ih_nfqnlh x);
     case nfnl_parse_hdr buf of
       None \<Rightarrow> Some (0, buf)
     | Some (family, nfa) \<Rightarrow>
         if family \<noteq> ih_family x then Some (0, buf)
         else do { nfnl_parse_attr nfa 0xffff; Some (0, buf) } }"

text \<open>
  The fields of a netlink message: the type at offset 4 of the header, and behind the header, at
  16, the error code.
\<close>

definition ipq_message_type :: "u8 list \<Rightarrow> int option" where
  "ipq_message_type buf = map_option uint (read16 buf 4)"

definition NLMSG_HDRLEN :: nat where "NLMSG_HDRLEN = 16"

definition ipq_get_msgerr :: "u8 list \<Rightarrow> int option" where
  "ipq_get_msgerr buf = do {
     error \<leftarrow> read32 buf NLMSG_HDRLEN;
     defined_if (sint error \<noteq> - (2 ^ 31)) (Some (- sint error)) }"

definition ipq_get_packet :: "u8 list \<Rightarrow> u8 list" where
  "ipq_get_packet buf = drop NLMSG_HDRLEN buf"

definition ipq_set_verdict ::
  "(nfq_msg \<Rightarrow> int) \<Rightarrow> ptr \<Rightarrow> u64 \<Rightarrow> u32 \<Rightarrow> u64 \<Rightarrow> u8 list \<Rightarrow> ipq_state \<Rightarrow> (int \<times> ipq_state) option" where
  "ipq_set_verdict sendiov h pid verdict data_len buf I = do {
     x \<leftarrow> iq_handles I h;
     let len = unat (ucast data_len :: u32);
     (ret, S) \<leftarrow> defined_if (len \<le> length buf)
       (nfq_set_verdict_plain sendiov (ih_qh x) (ucast pid) verdict (take len buf) (iq_nfq I));
     Some (ret, I\<lparr>iq_nfq := S\<rparr>) }"

definition ipq_ctl :: "ptr \<Rightarrow> int \<Rightarrow> int" where
  "ipq_ctl h request = 1"

definition ipq_errstr :: "ipq_state \<Rightarrow> string option" where
  "ipq_errstr I = ipq_strerror (ipq_errcode (iq_errno I))"

text \<open>What is written to the standard error output; \<open>strerror\<close> is the C library's.\<close>

definition ipq_perror :: "(int \<Rightarrow> string) \<Rightarrow> int \<Rightarrow> string option \<Rightarrow> ipq_state \<Rightarrow> string option" where
  "ipq_perror strerror errno s I = do {
     let out = (case s of Some s \<Rightarrow> s | None \<Rightarrow> ''ERROR'');
     out \<leftarrow> (if iq_errno I \<noteq> IPQ_ERR_NONE
             then map_option (\<lambda>m. out @ '': '' @ m) (ipq_errstr I) else Some out);
     let out = (if errno \<noteq> 0 then out @ '': '' @ strerror errno else out);
     Some (out @ [CHR 0x0A]) }"

section \<open>Error messages\<close>

text \<open>Each error has the message of its line of the table, and every other number is covered.\<close>

lemma ipq_errcode_range: "0 \<le> ipq_errcode e \<and> ipq_errcode e \<le> IPQ_MAXERR"
  by (cases e) (simp_all add: IPQ_MAXERR_def)

lemma ipq_strerror_err: "ipq_strerror (ipq_errcode e) = map_of ipq_errmap e"
  by (cases e) (simp_all add: ipq_strerror_def IPQ_MAXERR_def ipq_errmap_def)

lemma ipq_strerror_defined: "ipq_strerror n \<noteq> None"
proof -
  have "nat n < 17" if "0 \<le> n" "n \<le> 16" using that by simp
  then show ?thesis by (auto simp: ipq_strerror_def IPQ_MAXERR_def ipq_errmap_def Let_def defined_if_def)
qed

lemma ipq_errstr_defined: "\<exists>m. ipq_errstr I = Some m"
  using ipq_strerror_defined by (auto simp: ipq_errstr_def)


section \<open>Creating a handle\<close>

text \<open>The addresses that the library will hand out next are not in use.\<close>

definition ipq_ok :: "ipq_state \<Rightarrow> bool" where
  "ipq_ok I \<longleftrightarrow> 0 < iq_next I \<and> dom (iq_handles I) \<subseteq> {0<..<iq_next I} \<and>
     0 < ns_next (iq_nfq I) \<and> dom (ns_handles (iq_nfq I)) \<subseteq> {0<..<ns_next (iq_nfq I)} \<and>
     dom (ns_queues (iq_nfq I)) \<subseteq> {0<..<ns_next (iq_nfq I)}"

text \<open>What the creation of a handle comes to: the first step that fails, or the family.\<close>

definition ipq_outcome :: "bool \<Rightarrow> nfnl_env \<Rightarrow> (nfq_msg \<Rightarrow> int) \<Rightarrow> u32 \<Rightarrow> ipq_err + u8" where
  "ipq_outcome malloc_ok N talk protocol =
     (if \<not> malloc_ok then Inl IPQ_ERR_HANDLE
      else if \<not> nfnl_open N \<or> \<not> nfnl_subsys_open N \<or> nfnl_callback_register N < 0 then Inl IPQ_ERR_SOCKET
      else if protocol \<noteq> PF_INET \<and> protocol \<noteq> PF_INET6 then Inl IPQ_ERR_PROTOCOL
      else if talk (Config_cmd 0 NFQNL_CFG_CMD_PF_BIND (htons (ucast protocol))) < 0 then Inl IPQ_ERR_BIND
      else if talk (Config_cmd 0 NFQNL_CFG_CMD_BIND (htons 0)) < 0 then Inl IPQ_ERR_BIND
      else Inr (ucast protocol))"

text \<open>A new connection to the kernel has a handle with an empty list of queues.\<close>

lemma nfq_open_cases:
  assumes "ipq_ok I"
  shows "nfq_open N (iq_nfq I) = (let S = iq_nfq I; h = ns_next S in
    if \<not> nfnl_open N then (0, S)
    else if \<not> nfnl_subsys_open N \<or> nfnl_callback_register N < 0 then (0, S\<lparr>ns_next := Suc h\<rparr>)
    else (h, S\<lparr>ns_next := Suc h, ns_handles := (ns_handles S)(h \<mapsto> \<lparr>h_qh_list = 0\<rparr>)\<rparr>))"
proof -
  have "ns_handles (iq_nfq I) (ns_next (iq_nfq I)) = None" using assms by (auto simp: ipq_ok_def)
  then have "(ns_handles (iq_nfq I))(ns_next (iq_nfq I) := None) = ns_handles (iq_nfq I)" by (rule fun_upd_idem)
  then show ?thesis by (simp add: nfq_open_def nfq_open_nfnl_def Let_def)
qed

text \<open>A first queue on a handle without queues is refused exactly if the kernel refuses it.\<close>

lemma nfq_create_first_queue:
  assumes "ns_handles S h = Some \<lparr>h_qh_list = 0\<rparr>" "ns_queues S (ns_next S) = None"
  shows "nfq_create_queue talk h 0 cb S = (let qh = ns_next S; m = Config_cmd 0 NFQNL_CFG_CMD_BIND (htons 0) in
    if talk m < 0 then Some (0, S\<lparr>ns_next := Suc qh, ns_msgs := m # ns_msgs S\<rparr>)
    else Some (qh, S\<lparr>ns_next := Suc qh, ns_msgs := m # ns_msgs S,
      ns_queues := (ns_queues S)(qh \<mapsto> \<lparr>qh_next = 0, qh_h = h, qh_id = 0, qh_cb = cb\<rparr>),
      ns_handles := (ns_handles S)(h \<mapsto> \<lparr>h_qh_list = qh\<rparr>)\<rparr>))"
proof -
  have "(ns_queues S)(ns_next S := None) = ns_queues S" using assms(2) by (rule fun_upd_idem)
  then show ?thesis
    using assms by (simp add: nfq_create_queue_def find_qh_def find_qh_from.simps build_send_cfg_msg_def
        nfnl_talk_def add_qh_def upd_queue_def upd_handle_def Let_def)
qed

text \<open>
  Creating a handle of the compatibility layer is always defined. When a step fails, the result is
  \<open>NULL\<close>, the error names that step, no handle of the layer and no queue is left over, and when the
  connection to the kernel can be closed no handle of the library below is either. Otherwise the
  result is a new handle of the given family, on a new queue with the number 0.
\<close>
theorem ipq_create_handle_outcome:
  assumes "ipq_ok I"
  shows "runs (ipq_create_handle malloc_ok N talk nfnl_close flags protocol I) (\<lambda>(h, I').
    case ipq_outcome malloc_ok N talk protocol of
      Inl e \<Rightarrow> h = 0 \<and> iq_errno I' = e \<and> iq_handles I' = iq_handles I \<and>
        ns_queues (iq_nfq I') = ns_queues (iq_nfq I) \<and>
        (nfnl_close = 0 \<longrightarrow> ns_handles (iq_nfq I') = ns_handles (iq_nfq I))
    | Inr family \<Rightarrow> h = iq_next I \<and> iq_errno I' = iq_errno I \<and>
        (let nh = ns_next (iq_nfq I); qh = Suc nh in
          iq_handles I' = (iq_handles I)(h \<mapsto> \<lparr>ih_nfqnlh = nh, ih_qh = qh, ih_family = family\<rparr>) \<and>
          queue_list (iq_nfq I') nh [qh] \<and> queue_num (iq_nfq I') qh = 0))"
proof -
  let ?S = "iq_nfq I"
  have f: "iq_next I \<notin> dom (iq_handles I)" "ns_next ?S \<notin> dom (ns_handles ?S)" "ns_next ?S \<noteq> 0"
    "ns_next ?S \<notin> dom (ns_queues ?S)" "Suc (ns_next ?S) \<notin> dom (ns_queues ?S)" "iq_next I \<noteq> 0"
    using assms by (auto simp: ipq_ok_def)
  have d: "dom (ns_queues ?S) \<subseteq> {0<..<Suc (Suc (ns_next ?S))}"
    using assms by (fastforce simp: ipq_ok_def)
  have u: "(iq_handles I)(iq_next I := None) = iq_handles I" "(ns_handles ?S)(ns_next ?S := None) = ns_handles ?S"
    using f by (auto intro!: fun_upd_idem simp: domIff)
  note open_cases = nfq_open_cases [OF assms, of N]
  note defs = ipq_create_handle_def ipq_outcome_def ipq_err_free_def ipq_err_close_def nfq_close_def
    nfq_bind_pf_def build_send_cfg_msg_def nfnl_talk_def Let_def
  consider (early) "\<not> malloc_ok \<or> \<not> nfnl_open N \<or> \<not> nfnl_subsys_open N \<or> nfnl_callback_register N < 0"
    | (opened) "malloc_ok" "nfnl_open N" "nfnl_subsys_open N" "\<not> nfnl_callback_register N < 0"
    by blast
  then show ?thesis
  proof cases
    case early
    then show ?thesis using f u open_cases by (auto simp: defs)
  next
    case opened
    let ?S1 = "?S\<lparr>ns_next := Suc (ns_next ?S), ns_handles := (ns_handles ?S)(ns_next ?S \<mapsto> \<lparr>h_qh_list = 0\<rparr>)\<rparr>"
    let ?m = "Config_cmd 0 NFQNL_CFG_CMD_PF_BIND (htons (ucast protocol))"
    have o: "nfq_open N ?S = (ns_next ?S, ?S1)" using open_cases opened by (simp add: Let_def)
    note q = nfq_create_first_queue [of "?S1\<lparr>ns_msgs := ?m # ns_msgs ?S\<rparr>" "ns_next ?S" talk False]
    show ?thesis
      using f d u o q opened by (auto simp: defs queue_list_def queue_num_def domIff)
  qed
qed


definition sample_ipq :: ipq_state where
  "sample_ipq = \<lparr>iq_errno = IPQ_ERR_NONE, iq_handles = Map.empty, iq_next = 1,
     iq_nfq = \<lparr>ns_handles = Map.empty, ns_queues = Map.empty, ns_next = 1, ns_msgs = []\<rparr>\<rparr>"

definition sample_nfnl :: nfnl_env where
  "sample_nfnl = \<lparr>nfnl_open = True, nfnl_subsys_open = True, nfnl_callback_register = 0\<rparr>"

lemma sample_ipq_ok: "ipq_ok sample_ipq"
  by (simp add: ipq_ok_def sample_ipq_def)

theorem ipq_create_handle_outcome_witness:
  "\<exists>I'. ipq_create_handle True sample_nfnl (\<lambda>m. 0) 0 0 7 sample_ipq = Some (0, I') \<and>
     iq_errno I' = IPQ_ERR_PROTOCOL"
proof -
  have "ipq_outcome True sample_nfnl (\<lambda>m. 0) 7 = Inl IPQ_ERR_PROTOCOL"
    by (simp add: ipq_outcome_def sample_nfnl_def PF_INET_def PF_INET6_def)
  then show ?thesis
    using ipq_create_handle_outcome [OF sample_ipq_ok, of True sample_nfnl "\<lambda>m. 0" 0 0 7]
    by (auto simp: runs_iff)
qed

section \<open>Operations on a handle that was created\<close>

text \<open>
  Destroying a handle closes the connection but leaves the handle of the queue allocated, with a
  pointer to the freed handle.
\<close>

lemma ipq_destroy_handle_keeps_queue:
  assumes "iq_handles I h = Some x" "h \<noteq> 0" "ns_handles (iq_nfq I) (ih_nfqnlh x) = Some n"
  shows "runs (ipq_destroy_handle 0 h I) (\<lambda>(r, I'). r = 0 \<and> iq_handles I' = (iq_handles I)(h := None) \<and>
    ns_handles (iq_nfq I') (ih_nfqnlh x) = None \<and> ns_queues (iq_nfq I') = ns_queues (iq_nfq I))"
  using assms by (simp add: ipq_destroy_handle_def nfq_close_def)

text \<open>
  A verdict is for the packet with the lower half of the identifier, on the queue of the handle,
  and carries as much of the data as the lower half of the length says.
\<close>

lemma ipq_set_verdict_sends:
  assumes "iq_handles I h = Some x" "ns_queues (iq_nfq I) (ih_qh x) = Some q"
    and "unat (ucast len :: u32) \<le> length buf"
  shows "runs (ipq_set_verdict sendiov h pid verdict len buf I) (\<lambda>(r, I').
    ns_msgs (iq_nfq I') = Verdict_msg (qh_id q) (htonl verdict) (htonl (ucast pid)) None
      (take (unat (ucast len :: u32)) buf) # ns_msgs (iq_nfq I))"
  using assms by (simp add: ipq_set_verdict_def nfq_set_verdict_plain_def set_verdict_def nfnl_talk_def Let_def)

text \<open>
  No packet ever comes through the layer: a reading returns 0 and leaves the buffer as it was, and
  the queue of a handle has no callback, so that the library below refuses its packets.
\<close>

lemma ipq_read_returns_nothing:
  "ipq_read parse_hdr parse_attr h buf I = Some (n, buf') \<Longrightarrow> n = 0 \<and> buf' = buf"
  by (auto simp: ipq_read_def bind_eq_Some_conv split: option.splits prod.splits if_splits)

lemma ipq_queue_refuses_packets:
  assumes "queue_list S h [qh]" "queue_num S qh = 0" "\<not> qh_cb (the (ns_queues S qh))"
  shows "nfq_rcv_pkt h (htons 0) S = Some (Inl (- ENODEV))"
  using assms by (simp add: nfq_rcv_pkt_eq queue_for_def)

text \<open>The error code of a message is negated; the least one has no negation in 32 bits.\<close>

lemma ipq_get_msgerr_defined:
  assumes "20 \<le> length buf"
  shows "ipq_get_msgerr buf \<noteq> None \<longleftrightarrow> load32 buf 16 \<noteq> 0x80000000"
proof -
  have "sint e = - (2 ^ 31) \<longleftrightarrow> e = 0x80000000" for e :: u32
  proof -
    have "sint (0x80000000 :: u32) = - (2 ^ 31)" by simp
    then show ?thesis by (metis signed_word_eqI)
  qed
  then show ?thesis
    using assms by (simp add: ipq_get_msgerr_def read32_def NLMSG_HDRLEN_def defined_if_def)
qed

end
