(* ===== verification/Comm.thy ===== *)
theory Comm
  imports Routing_Table "HOL-Library.Sublist"
begin

text \<open>
  The control interface: the command server of \<open>meshias_daemon/communication_interface.c\<close> and
  the connections of \<open>libmeshias/libmeshias.c\<close>. The client is in \<^theory_text>\<open>Client\<close>.

  A C string is the list of its characters before the terminator. A comparison
  \<open>strncmp(s, t, strlen(t)) == 0\<close> says that \<open>t\<close> is a prefix of \<open>s\<close>. Writing past the end of a
  buffer is undefined. What lies in memory behind a buffer that is read too far is unknown: a
  byte that is sent is either a byte of the buffer or a byte from behind it.
\<close>

section \<open>Commands\<close>

definition MSG_HELP :: string where "MSG_HELP = ''help''"
definition MSG_QUIT :: string where "MSG_QUIT = ''quit''"
definition MSG_KILL :: string where "MSG_KILL = ''kill''"
definition MSG_RESTART :: string where "MSG_RESTART = ''restart''"
definition MSG_SHOW_ROUTES :: string where "MSG_SHOW_ROUTES = ''showroutes''"
definition MSG_SHOW_STATISTICS :: string where "MSG_SHOW_STATISTICS = ''showstatistics''"
definition MSG_CLEAN_STATISTICS :: string where "MSG_CLEAN_STATISTICS = ''cleanstatistics''"

lemmas msg_defs = MSG_HELP_def MSG_QUIT_def MSG_KILL_def MSG_RESTART_def MSG_SHOW_ROUTES_def
  MSG_SHOW_STATISTICS_def MSG_CLEAN_STATISTICS_def

section \<open>Texts\<close>

text \<open>The conversion \<open>%d\<close> of a signed integer.\<close>

definition int_digits :: "int \<Rightarrow> string" where
  "int_digits i = (if i < 0 then CHR ''-'' # nat_digits (nat (- i)) else nat_digits (nat i))"

fun fields_text :: "int list \<Rightarrow> string" where
  "fields_text [] = [CHR 0x0A]"
| "fields_text [i] = int_digits i @ [CHR 0x0A]"
| "fields_text (i # is) = int_digits i @ CHR ''#'' # fields_text is"

text \<open>\<open>snprintf\<close> keeps at most \<open>bufsize - 1\<close> characters.\<close>

definition stats_size :: nat where "stats_size = 5000"

definition get_statistics :: "nat \<Rightarrow> world \<Rightarrow> string" where
  "get_statistics bufsize w = take (bufsize - 1) (let s = w_stats w in fields_text (map sint
     [packets_dropped s, no_address_received s, no_payload_received s, send_aodv_errors s,
      send_aodv_incomplete s, rreq_incorrect_size s, rrep_incorrect_size s, rerr_incorrect_size s,
      rerr_dest_cont_zero s, rrep_ack_incorrect_size s, aodv_incorrect_type s, no_ttl_received s,
      error_aodv_recv s, error_nfq_recv s, error_unix_recv s, invalid_route s]))"

text \<open>The text of a route; the return value of \<open>snprintf\<close> is its full length.\<close>

definition add_route :: "msh_route \<Rightarrow> string" where
  "add_route r = fields_text [sint (rt_dst_ip r), uint (rt_prefix_sz r), sint (rt_dest_seq_num r),
     uint (rt_flags r), uint (rt_hop_count r), sint (rt_next_hop r), sint (rt_net_iface r)]"

text \<open>
  The callback writes at \<open>buf + number\<close> but tells \<open>snprintf\<close> the size of the whole buffer, so
  the characters and the terminator must lie inside the buffer for the write to be defined.
\<close>

record route_data =
  rd_number :: nat
  rd_size :: nat
  rd_text :: string

definition add_route_cb :: "world \<Rightarrow> ptr \<Rightarrow> route_data \<Rightarrow> route_data option" where
  "add_route_cb w p rd = do {
     r \<leftarrow> w_routes w p;
     let text = take (rd_size rd - 1) (add_route r);
     defined_if (rd_number rd + length text + 1 \<le> rd_size rd)
       (Some (rd\<lparr>rd_number := rd_number rd + length (add_route r), rd_text := rd_text rd @ text\<rparr>)) }"

definition get_routes :: "nat \<Rightarrow> world \<Rightarrow> string option" where
  "get_routes bufsize w = map_option rd_text
     (routing_table_foreach (add_route_cb w) \<lparr>rd_number = 0, rd_size = bufsize, rd_text = []\<rparr> w)"

section \<open>Answering a command\<close>

datatype sent_byte = Own char | Behind nat

text \<open>
  Each call of \<open>send\<close> takes 1024 bytes from the buffer, whatever is left of it; \<open>Behind i\<close> is the
  \<open>i\<close>-th byte behind the end of the array. It is the kernel that reads these bytes: the daemon only
  hands over an address and a length, and does not look at the result, so it goes on in any
  case. That bytes from behind a buffer are sent is counted among the undefined operations in the
  property of the main loop that names their causes.
\<close>

definition byte_at :: "char list \<Rightarrow> nat \<Rightarrow> sent_byte" where
  "byte_at buf i = (if i < length buf then Own (buf ! i) else Behind (i - length buf))"

function send_msg :: "char list \<Rightarrow> nat \<Rightarrow> nat \<Rightarrow> sent_byte list" where
  "send_msg buf sz sended =
     (if sended < sz then map (byte_at buf) [sended ..< sended + 1024] @ send_msg buf sz (sended + 1024) else [])"
  by pat_completeness auto
termination
  by (relation "measure (\<lambda>(buf, sz, sended). sz - sended)") auto

text \<open>An array of the given size that holds a text, filled up with zeros.\<close>

definition array_of :: "nat \<Rightarrow> string \<Rightarrow> char list" where
  "array_of n s = s @ replicate (n - length s) (CHR 0x00)"

definition comm_interface_process_command :: "string \<Rightarrow> world \<Rightarrow> (sent_byte list \<times> world) option" where
  "comm_interface_process_command command w =
     (let ack = array_of 4 ''ACK'' in
      if prefix MSG_KILL command then Some (send_msg ack 4 0, w\<lparr>w_end := True\<rparr>)
      else if prefix MSG_RESTART command then Some (send_msg ack 4 0, w)
      else if prefix MSG_SHOW_ROUTES command then do {
        text \<leftarrow> get_routes stats_size w;
        Some (send_msg (array_of stats_size text) (length text) 0, w) }
      else if prefix MSG_SHOW_STATISTICS command then
        (let text = get_statistics stats_size w in Some (send_msg (array_of stats_size text) (length text) 0, w))
      else if prefix MSG_CLEAN_STATISTICS command then
        (let w = stats_reset w; text = get_statistics stats_size w in
         Some (send_msg (array_of stats_size text) (length text) 0, w))
      else Some ([], w))"

text \<open>
  \<open>comm_interface_receive_packets\<close>: \<open>ret\<close> is what \<open>recv\<close> returns and \<open>received\<close> the bytes it has
  stored. The terminator goes to \<open>buffer[ret]\<close> in a buffer of 128 bytes.
\<close>

definition comm_interface_receive_packets :: "int \<Rightarrow> string \<Rightarrow> world \<Rightarrow> (sent_byte list \<times> world) option" where
  "comm_interface_receive_packets ret received w =
     defined_if (0 \<le> ret \<and> ret < 128)
       (comm_interface_process_command (takeWhile (\<lambda>c. c \<noteq> CHR 0x00) (take (nat ret) received)) w)"

section \<open>Connections of the library\<close>

datatype meshias_connection_t = UNIX_SOCKET | TCP_SOCKET

datatype meshias_connection =
    Unix_connection int string
  | Tcp_connection int u32 u16

definition is_space :: "char \<Rightarrow> bool" where
  "is_space c \<longleftrightarrow> c \<in> {CHR '' '', CHR 0x09, CHR 0x0A, CHR 0x0B, CHR 0x0C, CHR 0x0D}"

text \<open>The conversion \<open>%d\<close>: white space, an optional sign, and at least one digit.\<close>

definition is_digit :: "char \<Rightarrow> bool" where
  "is_digit c \<longleftrightarrow> (of_char c :: nat) \<in> {48..57}"

definition scan_nat :: "string \<Rightarrow> int option" where
  "scan_nat s = (let ds = takeWhile is_digit s in
     if ds = [] then None else Some (foldl (\<lambda>n c. 10 * n + (of_char c - 48)) 0 ds))"

definition scan_int :: "string \<Rightarrow> int option" where
  "scan_int s = (case dropWhile is_space s of
       CHR ''-'' # t \<Rightarrow> map_option uminus (scan_nat t)
     | CHR ''+'' # t \<Rightarrow> scan_nat t
     | t \<Rightarrow> scan_nat t)"

text \<open>
  \<open>sscanf(path, "%s:%d", host, &port)\<close> with a buffer of 255 characters for \<open>host\<close>: the number of
  conversions made, with their results. \<open>%s\<close> takes everything up to the next white space.
\<close>

definition scan_host_port :: "string \<Rightarrow> (int \<times> string \<times> int) option" where
  "scan_host_port path = do {
     let text = dropWhile is_space path;
     let host = takeWhile (\<lambda>c. \<not> is_space c) text;
     let rest = dropWhile (\<lambda>c. \<not> is_space c) text;
     if host = [] then Some (-1, [], 0)
     else defined_if (length host < 255)
       (if rest = [] \<or> hd rest \<noteq> CHR '':'' then Some (1, host, 0)
        else (case scan_int (tl rest) of None \<Rightarrow> Some (1, host, 0) | Some port \<Rightarrow> Some (2, host, port))) }"

text \<open>
  \<open>sun_path\<close> has 108 bytes. A socket is opened, then connected; \<open>fd\<close> and \<open>conn\<close> are the results.
  The path is copied without its terminator.
\<close>

definition meshias_connection_alloc_unix :: "int \<Rightarrow> int \<Rightarrow> string \<Rightarrow> meshias_connection option option" where
  "meshias_connection_alloc_unix fd conn path =
     (if fd = -1 then Some None
      else defined_if (length path < 108)
        (Some (if conn = -1 then None else Some (Unix_connection fd path))))"

definition meshias_connection_alloc_tcp ::
  "int \<Rightarrow> u32 option \<Rightarrow> int \<Rightarrow> string \<Rightarrow> int \<Rightarrow> meshias_connection option" where
  "meshias_connection_alloc_tcp fd host_addr conn host port =
     (if fd = -1 then None
      else (case host_addr of
          None \<Rightarrow> None
        | Some a \<Rightarrow> if conn = -1 then None else Some (Tcp_connection fd a (of_int port))))"

definition meshias_connection_alloc ::
  "int \<Rightarrow> (string \<Rightarrow> u32 option) \<Rightarrow> int \<Rightarrow> meshias_connection_t \<Rightarrow> string \<Rightarrow> meshias_connection option option" where
  "meshias_connection_alloc fd gethostbyname conn type path = (case type of
       UNIX_SOCKET \<Rightarrow> meshias_connection_alloc_unix fd conn path
     | TCP_SOCKET \<Rightarrow> do {
         (n, host, port) \<leftarrow> scan_host_port path;
         if n \<noteq> 2 then Some None
         else Some (meshias_connection_alloc_tcp fd (gethostbyname host) conn host port) })"

section \<open>Lengths of texts\<close>

lemma length_nat_digits: "n < 10 ^ k \<Longrightarrow> 0 < k \<Longrightarrow> length (nat_digits n) \<le> k"
proof (induction n arbitrary: k rule: nat_digits.induct)
  case (1 n)
  show ?case
  proof (cases "n < 10")
    case True
    then show ?thesis using "1.prems" by simp
  next
    case False
    obtain j where k: "k = Suc j" using "1.prems"(2) by (cases k) auto
    moreover have "0 < j" using k False "1.prems"(1) by (cases j) auto
    ultimately have j: "k = Suc j" "0 < j" by auto
    then have "n div 10 < 10 ^ j" using "1.prems" by (simp add: less_mult_imp_div_less mult.commute)
    from "1.IH" [OF False this j(2)] show ?thesis using False j(1) by simp
  qed
qed

lemma length_int_digits: "- (10 ^ 10) < i \<Longrightarrow> i < 10 ^ 10 \<Longrightarrow> length (int_digits i) \<le> 11"
  using length_nat_digits [of "nat i" 10] length_nat_digits [of "nat (- i)" 10]
  by (auto simp: int_digits_def nat_less_iff simp del: nat_digits.simps)

lemma length_fields_text:
  "(\<And>i. i \<in> set is \<Longrightarrow> - (10 ^ 10) < i \<and> i < 10 ^ 10) \<Longrightarrow> length (fields_text is) \<le> 12 * length is + 1"
proof (induction "is" rule: fields_text.induct)
  case (2 i)
  then show ?case using length_int_digits [of i] by simp
next
  case (3 i v va)
  then show ?case using length_int_digits [of i] by simp
qed simp

lemma sint_u32_bounds: "- (10 ^ 10) < sint (x :: u32)" "sint (x :: u32) < 10 ^ 10"
  using sint_greater_eq [of x] sint_less [of x] by simp_all

lemma uint_small_bounds:
  "- (10 ^ 10) < uint (x :: u8)" "uint (x :: u8) < 10 ^ 10" "- (10 ^ 10) < uint (y :: u16)" "uint (y :: u16) < 10 ^ 10"
  using uint_nonnegative [of x] uint_bounded [of x] uint_nonnegative [of y] uint_bounded [of y]
  by (simp_all add: order_less_le_trans [OF _ uint_nonnegative])

lemma length_add_route: "length (add_route r) \<le> 85"
  unfolding add_route_def
  by (rule order_trans [OF length_fields_text]) (auto simp: sint_u32_bounds [simplified] uint_small_bounds [simplified])

section \<open>The list of routes\<close>

lemma add_routes:
  assumes "\<forall>p \<in> set ps. p \<in> dom (w_routes w)" "rd_size rd = stats_size" "length (rd_text rd) = rd_number rd" "rd_number rd < stats_size"
  shows "fold_steps (add_route_cb w) ps rd =
    (let text = concat (map (\<lambda>p. add_route (the (w_routes w p))) ps) in
     if rd_number rd + length text < stats_size
     then Some (rd\<lparr>rd_number := rd_number rd + length text, rd_text := rd_text rd @ text\<rparr>) else None)"
  using assms
proof (induction ps arbitrary: rd)
  case (Cons p ps)
  obtain r where r: "w_routes w p = Some r" using Cons.prems(1) by auto
  have t: "take (rd_size rd - 1) (add_route r) = add_route r"
    using length_add_route [of r] Cons.prems(2) by (simp add: stats_size_def)
  show ?case
  proof (cases "rd_number rd + length (add_route r) < stats_size")
    case True
    let ?rd = "rd\<lparr>rd_number := rd_number rd + length (add_route r), rd_text := rd_text rd @ add_route r\<rparr>"
    have "add_route_cb w p rd = Some ?rd"
      using True r Cons.prems(2) by (simp add: add_route_cb_def t Let_def)
    moreover have "fold_steps (add_route_cb w) ps ?rd =
      (let text = concat (map (\<lambda>p. add_route (the (w_routes w p))) ps) in
       if rd_number ?rd + length text < stats_size
       then Some (?rd\<lparr>rd_number := rd_number ?rd + length text, rd_text := rd_text ?rd @ text\<rparr>) else None)"
      by (rule Cons.IH) (use Cons.prems True in auto)
    ultimately show ?thesis using r by (simp add: Let_def add.assoc)
  next
    case False
    then have "add_route_cb w p rd = None"
      using r Cons.prems(2) t by (simp add: add_route_cb_def Let_def defined_if_def min_def)
    then show ?thesis using r False by (simp add: Let_def)
  qed
qed simp

text \<open>
  C36: the answer to \<open>showroutes\<close> is the text of all routes of the table, in table order, as long as
  it fits into the buffer of 5000 bytes with its terminator; with more text the callback writes
  behind the buffer.
\<close>
theorem show_routes_overflows_iff_too_long:
  assumes "world_ok w"
  shows "get_routes stats_size w =
    (let text = concat (map (\<lambda>p. add_route (the (w_routes w p))) (w_table w)) in
     if length text < stats_size then Some text else None)"
proof -
  have "\<forall>p \<in> set (w_table w). p \<in> dom (w_routes w)" using table_live [OF assms] by blast
  from add_routes [OF this, of "\<lparr>rd_number = 0, rd_size = stats_size, rd_text = []\<rparr>"]
  show ?thesis by (simp add: get_routes_def routing_table_foreach_def Let_def stats_size_def)
qed

theorem show_routes_overflows_iff_too_long_witness:
  "get_routes stats_size sample_world = Some (add_route (sample_route 0x0A000002 Routing_table_cb 8))"
  using show_routes_overflows_iff_too_long [OF sample_world_ok]
    length_add_route [of "sample_route 0x0A000002 Routing_table_cb 8"]
  by (simp add: sample_parts stats_size_def)

section \<open>The server\<close>

text \<open>One call of \<open>send\<close> for a buffer shorter than what it takes.\<close>

lemma send_short:
  assumes "length buf + k = 1024" "0 < sz" "sz \<le> 1024"
  shows "send_msg buf sz 0 = map Own buf @ map Behind [0 ..< k]"
proof -
  have "send_msg buf sz 0 = map (byte_at buf) [0 ..< length buf + k] @ send_msg buf sz 1024"
    using assms(1,2) by (subst send_msg.simps) (simp del: upt_Suc send_msg.simps)
  also have "send_msg buf sz 1024 = []" using assms(3) by (subst send_msg.simps) simp
  also have "map (byte_at buf) [0 ..< length buf + k] @ [] = map Own buf @ map Behind [0 ..< k]"
    by (rule nth_equalityI) (auto simp: byte_at_def nth_append)
  finally show ?thesis .
qed

lemma ack_sent: "send_msg (array_of 4 ''ACK'') 4 0 = map Own (array_of 4 ''ACK'') @ map Behind [0 ..< 1020]"
  by (rule send_short) (simp_all add: array_of_def)

text \<open>
  The answer \<open>ACK\<close> to \<open>kill\<close> and \<open>restart\<close> is an array of four bytes, but 1024 are sent: 1020
  bytes of the stack behind it go to the client. \<open>kill\<close> makes the main loop end; nothing else
  changes.
\<close>
theorem acknowledgement_leaks_memory:
  assumes "prefix MSG_KILL command \<or> prefix MSG_RESTART command"
  shows "comm_interface_process_command command w =
      Some (map Own (array_of 4 ''ACK'') @ map Behind [0 ..< 1020], w\<lparr>w_end := w_end w \<or> prefix MSG_KILL command\<rparr>)"
  unfolding ack_sent [symmetric] using assms
  by (auto simp: comm_interface_process_command_def Let_def simp del: send_msg.simps)

theorem acknowledgement_leaks_memory_witness:
  "comm_interface_process_command ''kill'' sample_world =
    Some (map Own (array_of 4 ''ACK'') @ map Behind [0 ..< 1020],
      sample_world\<lparr>w_end := w_end sample_world \<or> prefix MSG_KILL ''kill''\<rparr>)"
  by (rule acknowledgement_leaks_memory) (simp add: msg_defs)

text \<open>
  Receiving a command writes outside the buffer when nothing could be received or when the
  command fills the buffer, that is, for the results -1 and 128 of \<open>recv\<close>.
\<close>
theorem command_buffer_overflow:
  assumes "ret = -1 \<or> ret = 128"
  shows "comm_interface_receive_packets ret received w = None"
  using assms by (auto simp: comm_interface_receive_packets_def)

theorem command_buffer_overflow_witness: "comm_interface_receive_packets (-1) [] sample_world = None"
  by (rule command_buffer_overflow) simp

text \<open>What a received command changes in the daemon: the end of the loop and the statistics.\<close>

definition command_text :: "int \<Rightarrow> string \<Rightarrow> string" where
  "command_text ret received = takeWhile (\<lambda>c. c \<noteq> CHR 0x00) (take (nat ret) received)"

definition routes_fit :: "world \<Rightarrow> bool" where
  "routes_fit w \<longleftrightarrow> length (concat (map (\<lambda>p. add_route (the (w_routes w p))) (w_table w))) < stats_size"

definition routes_text :: "world \<Rightarrow> string" where
  "routes_text w = concat (map (\<lambda>p. add_route (the (w_routes w p))) (w_table w))"

lemma get_routes_eq:
  assumes "world_ok w"
  shows "get_routes stats_size w = (if routes_fit w then Some (routes_text w) else None)"
proof -
  have "\<forall>p \<in> set (w_table w). p \<in> dom (w_routes w)" using table_live [OF assms] by blast
  from add_routes [OF this, of "\<lparr>rd_number = 0, rd_size = stats_size, rd_text = []\<rparr>"]
  show ?thesis by (simp add: get_routes_def routing_table_foreach_def Let_def routes_fit_def routes_text_def stats_size_def)
qed

text \<open>A text as it is sent: blocks of 1024 bytes, with zeros behind the text up to the end of its buffer.\<close>

definition blocks_of :: "string \<Rightarrow> nat" where
  "blocks_of text = 1024 * ((length text + 1023) div 1024)"

definition padded :: "string \<Rightarrow> sent_byte list" where
  "padded text = map Own (text @ replicate (min (blocks_of text) stats_size - length text) (CHR 0x00)) @
     map Behind [0 ..< blocks_of text - stats_size]"

lemma send_msg_step: "sended < sz \<Longrightarrow>
    send_msg buf sz sended = map (byte_at buf) [sended ..< sended + 1024] @ send_msg buf sz (sended + 1024)"
  by (subst send_msg.simps) simp

lemma send_msg_end: "sz \<le> sended \<Longrightarrow> send_msg buf sz sended = []"
  by (subst send_msg.simps) simp

lemma blocks_step: "0 < k \<Longrightarrow> (k + 1023) div 1024 = Suc ((k - 1024 + 1023) div 1024)" for k :: nat
proof (cases "k < 1024")
  case True
  assume "0 < k"
  then obtain j where j: "k = j + 1" by (metis Suc_eq_plus1 gr0_implies_Suc)
  have "(j + 1024) div 1024 = j div 1024 + 1" by (rule div_add_self2) simp
  moreover have "k + 1023 = j + 1024" "j div 1024 = 0" "k - 1024 = 0" using j True by simp_all
  ultimately show ?thesis by simp
next
  case False
  then obtain j where j: "k = j + 1024" by (metis le_add_diff_inverse2 linorder_not_less)
  have "(j + 1023 + 1024) div 1024 = (j + 1023) div 1024 + 1" by (rule div_add_self2) simp
  moreover have "k + 1023 = j + 1023 + 1024" "k - 1024 = j" using j by simp_all
  ultimately show ?thesis by (simp only: Suc_eq_plus1)
qed

lemma send_msg_from:
  "send_msg buf sz sended = map (byte_at buf) [sended ..< sended + 1024 * ((sz - sended + 1023) div 1024)]"
proof (induction buf sz sended rule: send_msg.induct)
  case (1 buf sz sended)
  show ?case
  proof (cases "sended < sz")
    case True
    define m where "m = (sz - (sended + 1024) + 1023) div 1024"
    have IH: "send_msg buf sz (sended + 1024) = map (byte_at buf) [sended + 1024 ..< sended + 1024 + 1024 * m]"
      unfolding m_def by (rule "1.IH" [OF True])
    have "sz - (sended + 1024) = sz - sended - 1024" by simp
    then have n: "(sz - sended + 1023) div 1024 = Suc m"
      using blocks_step [of "sz - sended"] True by (simp only: m_def zero_less_diff)
    have "[sended ..< sended + 1024 * Suc m] = [sended ..< sended + 1024] @ [sended + 1024 ..< sended + 1024 + 1024 * m]"
      using upt_add_eq_append [of sended "sended + 1024" "1024 * m"] by (simp add: add.assoc del: upt_Suc)
    then show ?thesis unfolding n send_msg_step [OF True] IH by (simp del: upt_Suc)
  qed (simp add: send_msg_end del: send_msg.simps)
qed

lemma answer_sent:
  assumes "length text < stats_size"
  shows "send_msg (array_of stats_size text) (length text) 0 = padded text"
proof -
  have "send_msg (array_of stats_size text) (length text) 0 = map (byte_at (array_of stats_size text)) [0 ..< blocks_of text]"
    using send_msg_from [of "array_of stats_size text" "length text" 0] by (simp only: blocks_of_def add_0 diff_zero)
  also have "\<dots> = padded text"
  proof (rule nth_equalityI)
    have "length text \<le> blocks_of text" by (simp add: blocks_of_def)
    then show "length (map (byte_at (array_of stats_size text)) [0 ..< blocks_of text]) = length (padded text)"
      using assms by (simp add: padded_def)
    fix i assume "i < length (map (byte_at (array_of stats_size text)) [0 ..< blocks_of text])"
    then show "map (byte_at (array_of stats_size text)) [0 ..< blocks_of text] ! i = padded text ! i"
      using assms \<open>length text \<le> blocks_of text\<close>
      by (auto simp: padded_def byte_at_def array_of_def nth_append)
  qed
  finally show ?thesis .
qed

text \<open>What a command is answered with.\<close>

definition answer_to :: "string \<Rightarrow> world \<Rightarrow> sent_byte list" where
  "answer_to c w =
     (if prefix MSG_KILL c \<or> prefix MSG_RESTART c then map Own (array_of 4 ''ACK'') @ map Behind [0 ..< 1020]
      else if prefix MSG_SHOW_ROUTES c then padded (routes_text w)
      else if prefix MSG_SHOW_STATISTICS c then padded (get_statistics stats_size w)
      else if prefix MSG_CLEAN_STATISTICS c then padded (get_statistics stats_size (stats_reset w))
      else [])"

lemma statistics_fit: "length (get_statistics stats_size w) < stats_size"
  by (simp add: get_statistics_def stats_size_def)

lemma commands_differ:
  "prefix MSG_SHOW_ROUTES c \<Longrightarrow> \<not> prefix MSG_KILL c \<and> \<not> prefix MSG_RESTART c \<and> \<not> prefix MSG_CLEAN_STATISTICS c"
  "prefix MSG_SHOW_STATISTICS c \<Longrightarrow> \<not> prefix MSG_KILL c \<and> \<not> prefix MSG_RESTART c \<and> \<not> prefix MSG_CLEAN_STATISTICS c"
  "prefix MSG_CLEAN_STATISTICS c \<Longrightarrow> \<not> prefix MSG_KILL c \<and> \<not> prefix MSG_RESTART c"
  "prefix MSG_RESTART c \<Longrightarrow> \<not> prefix MSG_KILL c"
  by (auto simp: msg_defs prefix_def)

lemma process_command_eq:
  assumes "world_ok w"
  shows "comm_interface_process_command c w = (if prefix MSG_SHOW_ROUTES c \<and> \<not> routes_fit w then None
    else Some (answer_to c w, w\<lparr>w_end := w_end w \<or> prefix MSG_KILL c,
      w_stats := if prefix MSG_CLEAN_STATISTICS c then zero_stats else w_stats w\<rparr>))"
proof -
  have f: "routes_fit w \<Longrightarrow> length (routes_text w) < stats_size" by (simp add: routes_fit_def routes_text_def)
  have r: "send_msg (array_of stats_size (get_statistics stats_size v)) (length (get_statistics stats_size v)) 0 =
      padded (get_statistics stats_size v)" for v
    by (rule answer_sent [OF statistics_fit])
  show ?thesis
    using commands_differ [of c] f answer_sent [of "routes_text w"]
    by (auto simp: comm_interface_process_command_def answer_to_def get_routes_eq [OF assms] Let_def ack_sent
        r stats_reset_def upd_stats_def simp del: send_msg.simps)
qed

text \<open>Exactly two things go wrong with a command: it cannot be stored, or its answer cannot.\<close>

lemma comm_receive_eq:
  assumes "world_ok w"
  shows "comm_interface_receive_packets ret received w =
    (if 0 \<le> ret \<and> ret < 128 \<and> (prefix MSG_SHOW_ROUTES (command_text ret received) \<longrightarrow> routes_fit w)
     then Some (answer_to (command_text ret received) w,
       w\<lparr>w_end := w_end w \<or> prefix MSG_KILL (command_text ret received),
         w_stats := if prefix MSG_CLEAN_STATISTICS (command_text ret received) then zero_stats else w_stats w\<rparr>)
     else None)"
  by (auto simp: comm_interface_receive_packets_def process_command_eq [OF assms] command_text_def defined_if_def)

text \<open>Answers that hold bytes from behind the buffer they are sent from.\<close>

definition leaks :: "sent_byte list \<Rightarrow> bool" where
  "leaks bs \<longleftrightarrow> (\<exists>k. Behind k \<in> set bs)"

lemma padded_leaks: "leaks (padded text) \<longleftrightarrow> 4096 < length text"
proof -
  have "stats_size < blocks_of text \<longleftrightarrow> 4096 < length text"
    using less_eq_div_iff_mult_less_eq [of 1024 5 "length text + 1023"] by (auto simp: blocks_of_def stats_size_def)
  moreover have "leaks (padded text) \<longleftrightarrow> stats_size < blocks_of text"
    by (auto simp: leaks_def padded_def image_iff intro: exI [of _ 0])
  ultimately show ?thesis by simp
qed

lemma statistics_short: "length (get_statistics stats_size w) \<le> 4096"
proof -
  have "length (get_statistics n w) \<le> 12 * 16 + 1" for n
    unfolding get_statistics_def Let_def length_take
    by (rule order_trans [OF min.cobounded1], rule order_trans [OF length_fields_text])
      (auto simp: sint_u32_bounds [simplified])
  then show ?thesis by (rule order_trans) simp
qed

lemma answer_leaks:
  "leaks (answer_to c w) \<longleftrightarrow>
    prefix MSG_KILL c \<or> prefix MSG_RESTART c \<or> prefix MSG_SHOW_ROUTES c \<and> 4096 < length (routes_text w)"
proof -
  have "leaks (map Own (array_of 4 ''ACK'') @ map Behind [0 ..< 1020])"
    unfolding leaks_def by (rule exI [of _ 0]) (simp del: upt_Suc)
  moreover have "\<not> leaks (padded (get_statistics stats_size v))" for v
    using statistics_short [of v] by (simp add: padded_leaks)
  moreover have "\<not> leaks []" by (simp add: leaks_def)
  ultimately show ?thesis using commands_differ(1) [of c] by (auto simp: answer_to_def padded_leaks)
qed

text \<open>
  C37: a command that arrives in full and fits the buffer gets exactly its answer, as long as the
  routes fit their buffer when they are asked for: \<open>kill\<close> and \<open>restart\<close> get \<open>ACK\<close> with its zero,
  followed by 1020 bytes from behind it; \<open>showroutes\<close> the text of the routes of the table,
  \<open>showstatistics\<close> that of the statistics and \<open>cleanstatistics\<close> that of the statistics set to zero,
  filled up to blocks of 1024 bytes (with bytes from behind the buffer only if the text is longer
  than 4096); nothing is sent for any other command, nor for \<open>showroutes\<close> with an empty table.
  Only \<open>kill\<close> ends the daemon, only \<open>cleanstatistics\<close> changes the statistics, and nothing else
  changes.
\<close>
theorem command_is_answered:
  assumes "world_ok w" "0 \<le> ret" "ret < 128"
    and "prefix MSG_SHOW_ROUTES (command_text ret received) \<Longrightarrow> length (routes_text w) < 5000"
  shows "comm_interface_receive_packets ret received w = Some (answer_to (command_text ret received) w,
    w\<lparr>w_end := w_end w \<or> prefix MSG_KILL (command_text ret received),
      w_stats := if prefix MSG_CLEAN_STATISTICS (command_text ret received) then zero_stats else w_stats w\<rparr>)"
  using assms by (simp add: comm_receive_eq routes_fit_def routes_text_def stats_size_def)

lemma sample_routes_fit: "routes_fit sample_world"
  using length_add_route [of "sample_route 0x0A000002 Routing_table_cb 8"]
  by (simp add: routes_fit_def sample_parts stats_size_def)

theorem command_is_answered_witness:
  "\<exists>bytes w'. comm_interface_receive_packets 10 ''showroutes'' sample_world = Some (bytes, w') \<and>
    bytes = padded (add_route (sample_route 0x0A000002 Routing_table_cb 8)) \<and> \<not> w_end w'"
proof -
  have c: "command_text 10 ''showroutes'' = MSG_SHOW_ROUTES" by (simp add: command_text_def msg_defs)
  have t: "routes_text sample_world = add_route (sample_route 0x0A000002 Routing_table_cb 8)"
    by (simp add: routes_text_def sample_parts)
  have "length (routes_text sample_world) < 5000"
    using length_add_route [of "sample_route 0x0A000002 Routing_table_cb 8"] by (simp add: t)
  moreover have "\<not> w_end sample_world" by (simp add: sample_world_def)
  ultimately show ?thesis
    using command_is_answered [OF sample_world_ok, of 10 "''showroutes''"] commands_differ(1) [of MSG_SHOW_ROUTES]
    by (simp add: c answer_to_def t)
qed

section \<open>Client and library\<close>

text \<open>
  A TCP connection can never be made: the conversion \<open>%s\<close> of the host name takes the colon and
  the port with it, so the scan never finds both, for any path whatever.
\<close>
theorem tcp_connection_is_never_made:
  "meshias_connection_alloc fd gethostbyname conn TCP_SOCKET path \<in> {None, Some None}"
proof -
  let ?rest = "dropWhile (\<lambda>c. \<not> is_space c) (dropWhile is_space path)"
  have "hd ?rest \<noteq> CHR '':''" if "?rest \<noteq> []"
    using hd_dropWhile [OF that] by (auto simp: is_space_def)
  then have "n \<noteq> 2" if "scan_host_port path = Some (n, host, port)" for n host port
    using that by (auto simp: scan_host_port_def Let_def split: if_splits option.splits)
  then show ?thesis
    by (cases "scan_host_port path") (auto simp: meshias_connection_alloc_def)
qed

end
