(* ===== verification/Client.thy ===== *)
theory Client
  imports Comm
begin

text \<open>
  The command-line client \<open>meshias_daemon/meshias-tools.c\<close>: it reads commands from its standard
  input, sends them to the daemon over TCP and prints the answers. The standard input is the list
  of the characters that are still to be read; after the last one comes the end of the file. The
  results of the socket calls and the bytes that come back are a parameter, one \<open>dialogue\<close> for
  each command that is sent. What is printed is a result.
\<close>

section \<open>Commands\<close>

abbreviation newline :: char where
  "newline \<equiv> CHR 0x0A"

definition COMMANDS :: "string list" where
  "COMMANDS = [''0'', MSG_HELP, ''1'', MSG_QUIT, ''2'', MSG_KILL, ''3'', MSG_RESTART, ''4'', MSG_SHOW_ROUTES,
     ''5'', MSG_SHOW_STATISTICS, ''6'', MSG_CLEAN_STATISTICS]"

definition command_SIZE :: nat where "command_SIZE = 128"

definition HELP_COMMAND :: string where
  "HELP_COMMAND = ''Usable commands: '' @ [newline] @ ''    0. help'' @ [newline] @ ''    1. quit'' @ [newline] @
     ''    2. kill'' @ [newline] @ ''    3. restart'' @ [newline] @ ''    4. showroutes'' @ [newline] @
     ''    5. showstatistics'' @ [newline] @ ''6. cleanstatistics'' @ [newline, newline]"

definition show_command_help :: "string \<Rightarrow> string" where
  "show_command_help argv0 = ''usage: '' @ argv0 @ '' <server>'' @ [newline, newline] @ ''example:'' @ [newline] @
     [CHR 0x09] @ argv0 @ '' localhost'' @ [newline]"

definition check_command :: "string \<Rightarrow> bool" where
  "check_command command \<longleftrightarrow> (\<exists>c \<in> set COMMANDS. prefix c command)"

definition is_help_command :: "string \<Rightarrow> bool" where
  "is_help_command command \<longleftrightarrow> prefix MSG_HELP command \<or> prefix ''0'' command"

definition is_quit_command :: "string \<Rightarrow> bool" where
  "is_quit_command command \<longleftrightarrow> prefix MSG_QUIT command \<or> prefix ''1'' command"

section \<open>Reading a command\<close>

text \<open>
  \<open>scanf("%s", command)\<close> passes over white space and takes the characters up to the next white
  space. At the end of the input it stores nothing, which leaves the empty string that
  \<open>memset\<close> has put there. The word and its terminator must fit the buffer.
\<close>

definition scan_word :: "string \<Rightarrow> string \<times> string" where
  "scan_word inp = (let t = dropWhile is_space inp in
     (takeWhile (\<lambda>c. \<not> is_space c) t, dropWhile (\<lambda>c. \<not> is_space c) t))"

definition prompt :: string where
  "prompt = [newline] @ ''Write a valid command. If you don't know write help:'' @ [newline] @ ''> ''"

text \<open>
  One character is read before each word. The result is the command as a C string, the input
  that is left and the output; a reading that never comes to an end has no result.
\<close>

partial_function (option) get_command :: "string \<Rightarrow> string \<Rightarrow> (string \<times> string \<times> string) option" where
  "get_command inp out = (case scan_word (tl inp) of (word, inp) \<Rightarrow>
     if length word < command_SIZE then
       let command = takeWhile (\<lambda>c. c \<noteq> CHR 0x00) word in
       if check_command command then Some (command, inp, out @ prompt)
       else get_command inp (out @ prompt @ ''Command no valid.'' @ [newline])
     else None)"

section \<open>Sending a command\<close>

text \<open>The loop that replaces a number by the command it stands for, over pairs of \<open>COMMANDS\<close>.\<close>

fun expand_from :: "string list \<Rightarrow> string \<Rightarrow> string" where
  "expand_from (number # name # rest) command =
     (if prefix number command then take (command_SIZE - 1) name else expand_from rest command)"
| "expand_from _ command = command"

text \<open>
  The results of \<open>socket\<close>, \<open>connect\<close> and \<open>send\<close>, and the bytes of each \<open>recv\<close> up to the one that
  returns nothing.
\<close>

record dialogue =
  dg_sock :: int
  dg_conn :: int
  dg_sent :: int
  dg_answer :: "string list"

text \<open>The terminator goes behind the bytes received, in a buffer of 1024 bytes.\<close>

fun print_answer :: "string list \<Rightarrow> string option" where
  "print_answer [] = Some []"
| "print_answer (chunk # chunks) =
     (if chunk = [] then Some []
      else defined_if (length chunk < 1024)
        (map_option (\<lambda>t. takeWhile (\<lambda>c. c \<noteq> CHR 0x00) chunk @ t) (print_answer chunks)))"

text \<open>
  The command is the format of \<open>snprintf\<close>, so a \<open>%\<close> in it asks for arguments that are not there.
  The result is the return value with the text sent and the text printed.
\<close>

definition send_command :: "dialogue \<Rightarrow> string \<Rightarrow> (int \<times> string option \<times> string) option" where
  "send_command D command = do {
     let command = expand_from COMMANDS command;
     if dg_sock D = -1 then Some (-1, None, ''I can't connect to Meshias daemon'' @ [newline])
     else if dg_conn D = -1 then Some (-1, None, ''Meshias is not running or I can't find it'' @ [newline])
     else defined_if (CHR ''%'' \<notin> set command) (do {
       let buf = take 1023 command;
       if dg_sent D < 0
       then Some (-1, None, ''I can't send that command to Meshias daemon'' @ [newline])
       else do { text \<leftarrow> print_answer (dg_answer D); Some (0, Some buf, text) } }) }"

section \<open>The program\<close>

partial_function (option) tools_loop ::
  "(nat \<Rightarrow> dialogue) \<Rightarrow> nat \<Rightarrow> string \<Rightarrow> string list \<Rightarrow> string \<Rightarrow> (string list \<times> string) option" where
  "tools_loop D n inp sent out =
     Option.bind (get_command inp out) (\<lambda>(command, inp, out).
       if is_help_command command then tools_loop D n inp sent (out @ HELP_COMMAND)
       else if is_quit_command command then Some (sent, out)
       else Option.bind (send_command (D n) command) (\<lambda>(rc, s, text).
         tools_loop D (Suc n) inp (case s of None \<Rightarrow> sent | Some s \<Rightarrow> sent @ [s]) (out @ text)))"

definition tools_main ::
  "string list \<Rightarrow> (string \<Rightarrow> bool) \<Rightarrow> (nat \<Rightarrow> dialogue) \<Rightarrow> string \<Rightarrow> (int \<times> string list \<times> string) option" where
  "tools_main argv gethostbyname D inp =
     (if length argv \<noteq> 2 then Some (-1, [], show_command_help (argv ! 0))
      else if \<not> gethostbyname (argv ! 1) then Some (-1, [], ''gethostbyname() error'' @ [newline])
      else map_option (\<lambda>(sent, out). (0, sent, out)) (tools_loop D 0 inp [] []))"

section \<open>What is read\<close>

text \<open>A command as it is typed: one word that fits the buffer.\<close>

definition one_word :: "string \<Rightarrow> bool" where
  "one_word c \<longleftrightarrow> (\<forall>x \<in> set c. \<not> is_space x \<and> x \<noteq> CHR 0x00) \<and> length c < command_SIZE"

definition typed :: "string list \<Rightarrow> string" where
  "typed cs = concat (map (\<lambda>c. c @ [newline]) cs)"

lemma valid_not_empty: "check_command c \<Longrightarrow> c \<noteq> []"
  by (auto simp: check_command_def COMMANDS_def msg_defs)

lemma scan_word_typed:
  assumes "one_word c" "c \<noteq> []" "is_space x"
  shows "scan_word (c @ x # rest) = (c, x # rest)"
proof -
  have "dropWhile is_space (c @ x # rest) = c @ x # rest"
    using assms by (cases c) (auto simp: one_word_def)
  moreover have "takeWhile (\<lambda>c. \<not> is_space c) (c @ x # rest) = c"
    "dropWhile (\<lambda>c. \<not> is_space c) (c @ x # rest) = x # rest"
    using assms by (auto simp: one_word_def takeWhile_append dropWhile_append)
  ultimately show ?thesis by (simp add: scan_word_def)
qed

text \<open>A valid command is read behind one character, whatever that is.\<close>

lemma get_command_typed:
  assumes "one_word c" "check_command c" "is_space x"
  shows "get_command (y # c @ x # rest) out = Some (c, x # rest, out @ prompt)"
proof -
  have tw: "takeWhile (\<lambda>c. c \<noteq> CHR 0x00) c = c" using assms(1) by (auto simp: one_word_def takeWhile_eq_all_conv)
  show ?thesis
    using scan_word_typed [OF assms(1) valid_not_empty [OF assms(2)] assms(3), of rest] assms
    by (subst get_command.simps) (simp add: tw one_word_def)
qed

text \<open>The first character of the first command is lost.\<close>

lemma first_character_is_lost:
  assumes "one_word c" "check_command c"
  shows "get_command (typed ((y # c) # cs)) out = Some (c, newline # typed cs, out @ prompt)"
  using get_command_typed [OF assms, of newline y "typed cs" out] by (simp add: typed_def is_space_def)

text \<open>At the end of the input the client asks for a command for ever.\<close>

lemma get_command_at_end: "set inp \<subseteq> Collect is_space \<Longrightarrow> get_command inp out = None"
proof -
  have "\<not> set inp \<subseteq> Collect is_space" if got: "get_command inp out = Some y" for y
  proof (rule get_command.raw_induct [where P = "\<lambda>inp out y. \<not> set inp \<subseteq> Collect is_space", OF _ got])
    fix f :: "string \<Rightarrow> string \<Rightarrow> (string \<times> string \<times> string) option" and inp out y
    assume again: "\<And>inp out y. f inp out = Some y \<Longrightarrow> \<not> set inp \<subseteq> Collect is_space"
      and step: "(case scan_word (tl inp) of (word, inp) \<Rightarrow>
         if length word < command_SIZE then
           let command = takeWhile (\<lambda>c. c \<noteq> CHR 0x00) word in
           if check_command command then Some (command, inp, out @ prompt)
           else f inp (out @ prompt @ ''Command no valid.'' @ [newline])
         else None) = Some y"
    show "\<not> set inp \<subseteq> Collect is_space"
    proof
      assume "set inp \<subseteq> Collect is_space"
      then have "set (tl inp) \<subseteq> Collect is_space" by (cases inp) auto
      then have "dropWhile is_space (tl inp) = []" by auto
      then have "scan_word (tl inp) = ([], [])" by (simp only: scan_word_def Let_def) simp
      moreover have "\<not> check_command []" using valid_not_empty by blast
      ultimately have "f [] (out @ prompt @ ''Command no valid.'' @ [newline]) = Some y"
        using step by (simp add: command_SIZE_def)
      from again [OF this] show False by simp
    qed
  qed
  then show "set inp \<subseteq> Collect is_space \<Longrightarrow> get_command inp out = None"
    by (cases "get_command inp out") auto
qed

section \<open>A session\<close>

text \<open>A dialogue in which the daemon is there and answers with chunks that fit the buffer.\<close>

definition answers :: "dialogue \<Rightarrow> bool" where
  "answers D \<longleftrightarrow> dg_sock D \<noteq> -1 \<and> dg_conn D \<noteq> -1 \<and> 0 \<le> dg_sent D \<and>
     (\<forall>chunk \<in> set (dg_answer D). length chunk < 1024)"

lemma print_answer_defined:
  "\<forall>chunk \<in> set chunks. length chunk < 1024 \<Longrightarrow> \<exists>t. print_answer chunks = Some t"
  by (induction chunks) auto

lemma expand_keeps:
  assumes "CHR ''%'' \<notin> set c" "length c < command_SIZE"
  shows "CHR ''%'' \<notin> set (expand_from COMMANDS c) \<and> length (expand_from COMMANDS c) < command_SIZE"
  using assms by (simp add: COMMANDS_def command_SIZE_def msg_defs)

lemma send_command_sends:
  assumes "answers D" "one_word c" "CHR ''%'' \<notin> set c"
  shows "\<exists>text. send_command D c = Some (0, Some (expand_from COMMANDS c), text)"
proof -
  have e: "CHR ''%'' \<notin> set (expand_from COMMANDS c)" "length (expand_from COMMANDS c) < command_SIZE"
    using expand_keeps assms by (auto simp: one_word_def)
  obtain t where "print_answer (dg_answer D) = Some t"
    using print_answer_defined assms(1) by (auto simp: answers_def)
  then show ?thesis
    using e assms(1) by (auto simp: send_command_def answers_def command_SIZE_def Let_def)
qed

text \<open>A line that the session below may have.\<close>

definition usable :: "string \<Rightarrow> bool" where
  "usable c \<longleftrightarrow> one_word c \<and> check_command c \<and> \<not> is_quit_command c \<and> CHR ''%'' \<notin> set c"

lemma help_is_not_quit: "is_help_command c \<Longrightarrow> \<not> is_quit_command c"
  by (auto simp: is_help_command_def is_quit_command_def msg_defs elim!: prefixE)

lemma tools_loop_session:
  assumes "\<And>k. answers (D k)" "one_word q" "is_quit_command q" "check_command q"
  shows "\<forall>c \<in> set cs. usable c \<Longrightarrow> \<exists>out'. tools_loop D n (x # typed (cs @ [q])) sent out =
    Some (sent @ map (expand_from COMMANDS) (filter (\<lambda>c. \<not> is_help_command c) cs), out')"
proof (induction cs arbitrary: n x sent out)
  case Nil
  have "get_command (x # q @ newline # []) out = Some (q, newline # [], out @ prompt)"
    by (rule get_command_typed) (use assms in \<open>auto simp: is_space_def\<close>)
  then show ?case
    using assms(3) help_is_not_quit [of q] by (subst tools_loop.simps) (auto simp: typed_def)
next
  case (Cons c cs)
  have c: "one_word c" "check_command c" "\<not> is_quit_command c" "CHR ''%'' \<notin> set c"
    using Cons.prems by (auto simp: usable_def)
  have g: "get_command (x # typed ((c # cs) @ [q])) out = Some (c, newline # typed (cs @ [q]), out @ prompt)"
    using get_command_typed [OF c(1,2), of newline x "typed (cs @ [q])" out]
    by (simp add: typed_def is_space_def)
  have IH: "\<exists>out'. tools_loop D m (newline # typed (cs @ [q])) s ot =
      Some (s @ map (expand_from COMMANDS) (filter (\<lambda>c. \<not> is_help_command c) cs), out')" for m s ot
    using Cons by simp
  show ?case
  proof (cases "is_help_command c")
    case True
    then show ?thesis using g IH by (subst tools_loop.simps) simp
  next
    case False
    obtain t where "send_command (D n) c = Some (0, Some (expand_from COMMANDS c), t)"
      using send_command_sends [OF assms(1) c(1,4)] by blast
    then show ?thesis using g IH [of "Suc n" "sent @ [expand_from COMMANDS c]"] c(3) False
      by (subst tools_loop.simps) simp
  qed
qed


section \<open>Properties of the client\<close>

lemma expand_none:
  "(\<And>c. c \<in> {''0'', ''1'', ''2'', ''3'', ''4'', ''5'', ''6''} \<Longrightarrow> \<not> prefix c command) \<Longrightarrow>
    expand_from COMMANDS command = command"
  by (simp add: COMMANDS_def)

text \<open>
  Whatever valid command is typed into the client, other than help and quit, the text that
  \<open>send_command\<close> sends begins with one of the five commands of the daemon, be it typed as a
  name or as a number.
\<close>
theorem client_sends_known_commands:
  assumes "check_command command" "\<not> is_help_command command" "\<not> is_quit_command command"
  shows "\<exists>c \<in> {MSG_KILL, MSG_RESTART, MSG_SHOW_ROUTES, MSG_SHOW_STATISTICS, MSG_CLEAN_STATISTICS}.
    prefix c (expand_from COMMANDS command)"
proof -
  have n01: "\<not> prefix ''0'' command" "\<not> prefix ''1'' command" using assms(2,3) by (auto simp: is_help_command_def is_quit_command_def)
  consider "prefix ''2'' command" | "prefix ''3'' command" | "prefix ''4'' command" | "prefix ''5'' command" | "prefix ''6'' command"
    | "\<forall>c \<in> {''0'', ''1'', ''2'', ''3'', ''4'', ''5'', ''6''}. \<not> prefix c command"
    using n01 by auto
  then show ?thesis
  proof cases
    case 6
    then have "\<exists>c \<in> {MSG_KILL, MSG_RESTART, MSG_SHOW_ROUTES, MSG_SHOW_STATISTICS, MSG_CLEAN_STATISTICS}. prefix c command"
      using assms by (auto simp: check_command_def COMMANDS_def is_help_command_def is_quit_command_def)
    moreover have "expand_from COMMANDS command = command" by (rule expand_none) (use 6 in auto)
    ultimately show ?thesis by simp
  qed (cases command; auto simp: COMMANDS_def command_SIZE_def msg_defs)+
qed

theorem client_sends_known_commands_witness:
  "\<exists>c \<in> {MSG_KILL, MSG_RESTART, MSG_SHOW_ROUTES, MSG_SHOW_STATISTICS, MSG_CLEAN_STATISTICS}.
    prefix c (expand_from COMMANDS ''4'')"
  by (rule client_sends_known_commands)
    (simp_all add: check_command_def is_help_command_def is_quit_command_def COMMANDS_def msg_defs)

text \<open>
  When the daemon can be reached and every piece of an answer that \<open>recv\<close> delivers is shorter than
  1024 bytes, a session in which valid commands are typed, one a line behind one character that is
  lost, and the last of them quits, comes to its end with success, and what was sent is exactly
  the commands that do not ask for help, in the order they were typed, numbers replaced by names.
\<close>
theorem session_sends_what_is_typed:
  assumes "\<And>k. answers (D k)" "gethostbyname host"
    and "\<forall>c \<in> set cs. usable c" "one_word q" "check_command q" "is_quit_command q"
  shows "\<exists>out. tools_main [argv0, host] gethostbyname D (x # typed (cs @ [q])) =
    Some (0, map (expand_from COMMANDS) (filter (\<lambda>c. \<not> is_help_command c) cs), out)"
  using tools_loop_session [OF assms(1,4,6,5,3), where n = 0 and x = x and sent = "[]" and out = "[]"] assms(2)
  by (auto simp: tools_main_def)

definition sample_dialogue :: dialogue where
  "sample_dialogue = \<lparr>dg_sock = 3, dg_conn = 0, dg_sent = 4, dg_answer = [''ACK'']\<rparr>"

theorem session_sends_what_is_typed_witness:
  "\<exists>out. tools_main [''meshias-tools'', ''localhost''] (\<lambda>_. True) (\<lambda>_. sample_dialogue)
     (newline # typed ([''4'', ''help'', ''kill''] @ [''quit''])) = Some (0, [''showroutes'', ''kill''], out)"
proof -
  have "\<forall>c \<in> set [''4'', ''help'', ''kill'']. usable c"
    by (simp add: usable_def one_word_def is_space_def check_command_def is_quit_command_def COMMANDS_def
        msg_defs command_SIZE_def)
  then show ?thesis
    using session_sends_what_is_typed [of "\<lambda>_. sample_dialogue" "\<lambda>_. True" "''localhost''"
        "[''4'', ''help'', ''kill'']" "''quit''" "''meshias-tools''" newline]
    by (simp add: answers_def sample_dialogue_def one_word_def is_space_def check_command_def is_quit_command_def
        is_help_command_def COMMANDS_def msg_defs command_SIZE_def)
qed

text \<open>
  What the client sends is received by the daemon as the command it stands for: a number that is
  typed has the effect of the command it names.
\<close>

lemma sent_command_is_received:
  assumes "usable c"
  shows "comm_interface_receive_packets (int (length (expand_from COMMANDS c))) (expand_from COMMANDS c) w =
    comm_interface_process_command (expand_from COMMANDS c) w"
proof -
  have k: "length (expand_from COMMANDS c) < 128"
    using expand_keeps assms by (simp add: usable_def one_word_def command_SIZE_def)
  have "CHR 0x00 \<notin> set c" using assms by (auto simp: usable_def one_word_def)
  then have "CHR 0x00 \<notin> set (expand_from COMMANDS c)"
    by (simp add: COMMANDS_def command_SIZE_def msg_defs)
  then have tw: "takeWhile (\<lambda>x. x \<noteq> CHR 0x00) (expand_from COMMANDS c) = expand_from COMMANDS c"
    unfolding takeWhile_eq_all_conv by blast
  show ?thesis using k by (simp add: comm_interface_receive_packets_def tw)
qed

lemma typed_number_kills:
  "comm_interface_receive_packets 4 (expand_from COMMANDS ''2'') w =
    Some (send_msg (array_of 4 ''ACK'') 4 0, w\<lparr>w_end := True\<rparr>)"
  using sent_command_is_received [of "''2''" w]
  by (simp add: usable_def one_word_def is_space_def check_command_def is_quit_command_def COMMANDS_def
      msg_defs command_SIZE_def comm_interface_process_command_def Let_def del: send_msg.simps)

section \<open>A client of this daemon\<close>

text \<open>
  Characters that the client may get for bytes that the daemon has sent; nothing is known of those
  from behind a buffer.
\<close>

definition arrive_as :: "sent_byte list \<Rightarrow> string \<Rightarrow> bool" where
  "arrive_as bytes text \<longleftrightarrow> list_all2 (\<lambda>b x. case b of Own y \<Rightarrow> x = y | Behind n \<Rightarrow> True) bytes text"

lemma send_msg_block: "send_msg buf sz sended \<noteq> [] \<Longrightarrow> 1024 \<le> length (send_msg buf sz sended)"
  using send_msg_step [of sended sz buf] send_msg_end [of sz sended buf]
  by (cases "sended < sz") (simp_all del: send_msg.simps upt_Suc)

lemma answers_are_blocks:
  assumes "comm_interface_process_command c w = Some (bytes, w')" "bytes \<noteq> []"
  shows "1024 \<le> length bytes"
  using assms send_msg_block unfolding comm_interface_process_command_def Let_def
  by (auto simp del: send_msg.simps split: if_splits bind_splits)

text \<open>
  C38: the daemon and its client do not fit together. Whatever command the user types, if the daemon
  answers it at all and the first block that it sends arrives in one piece, as \<open>recv\<close> is asked for
  it, then the client puts the terminator behind its buffer.
\<close>
theorem answer_of_the_daemon_overflows_client:
  assumes "usable c" "\<not> is_help_command c" "gethostbyname host"
    and "comm_interface_receive_packets (int (length (expand_from COMMANDS c))) (expand_from COMMANDS c) w = Some (bytes, w')"
    and "bytes \<noteq> []" "dg_sock (D 0) \<noteq> -1" "dg_conn (D 0) \<noteq> -1" "0 \<le> dg_sent (D 0)"
    and "dg_answer (D 0) = chunk # chunks" "arrive_as (take 1024 bytes) chunk"
  shows "tools_main [argv0, host] gethostbyname D (x # c @ newline # rest) = None"
proof -
  have c: "one_word c" "check_command c" "\<not> is_quit_command c" "CHR ''%'' \<notin> set c" using assms(1) by (auto simp: usable_def)
  have "length chunk = min (length bytes) 1024" using assms(10) list_all2_lengthD by (fastforce simp: arrive_as_def)
  moreover have "1024 \<le> length bytes"
    using answers_are_blocks assms(4,5) sent_command_is_received [OF assms(1), of w] by metis
  ultimately have "\<not> length chunk < 1024" "chunk \<noteq> []" by auto
  then have "print_answer (dg_answer (D 0)) = None" using assms(9) by (simp add: defined_if_def)
  moreover have "CHR ''%'' \<notin> set (expand_from COMMANDS c)" using expand_keeps c by (auto simp: one_word_def)
  ultimately have "send_command (D 0) c = None" using assms(6-8) by (simp add: send_command_def Let_def defined_if_def)
  moreover have "get_command (x # c @ newline # rest) [] = Some (c, newline # rest, [] @ prompt)"
    by (rule get_command_typed [OF c(1,2)]) (simp add: is_space_def)
  ultimately have "tools_loop D 0 (x # c @ newline # rest) [] [] = None"
    using c(3) assms(2) by (subst tools_loop.simps) simp
  then show ?thesis using assms(3) by (simp add: tools_main_def)
qed

theorem answer_of_the_daemon_overflows_client_witness:
  "tools_main [''meshias-tools'', ''localhost''] (\<lambda>_. True)
    (\<lambda>_. sample_dialogue\<lparr>dg_answer := [''ACK'' @ [CHR 0x00] @ replicate 1020 CHR ''x'']\<rparr>)
    (newline # ''2'' @ newline # ''quit'') = None"
proof -
  have u: "usable ''2''" "\<not> is_help_command ''2''"
    by (simp_all add: usable_def one_word_def is_space_def check_command_def is_quit_command_def is_help_command_def
        COMMANDS_def msg_defs command_SIZE_def)
  have e: "expand_from COMMANDS ''2'' = ''kill''" by (simp add: COMMANDS_def command_SIZE_def msg_defs)
  have k: "comm_interface_receive_packets (int (length (expand_from COMMANDS ''2''))) (expand_from COMMANDS ''2'') sample_world =
      Some (map Own (array_of 4 ''ACK'') @ map Behind [0 ..< 1020], sample_world\<lparr>w_end := True\<rparr>)"
    using typed_number_kills [of sample_world] by (simp add: e ack_sent del: send_msg.simps upt_Suc)
  have "list_all2 (\<lambda>b x. case b of Own y \<Rightarrow> x = y | Behind n \<Rightarrow> True) (map Behind [0 ..< 1020]) (replicate 1020 CHR ''x'')"
    by (simp add: list_all2_conv_all_nth del: upt_Suc)
  then have a: "arrive_as (take 1024 (map Own (array_of 4 ''ACK'') @ map Behind [0 ..< 1020]))
      (''ACK'' @ [CHR 0x00] @ replicate 1020 CHR ''x'')"
    by (simp add: arrive_as_def array_of_def del: upt_Suc)
  show ?thesis
    by (rule answer_of_the_daemon_overflows_client [OF u _ k _ _ _ _ _ a]) (simp_all add: sample_dialogue_def)
qed

end
