(* ===== verification/Headers.thy ===== *)
theory Headers
  imports Nfqueue Comm
begin

unbundle bit_operations_syntax

text \<open>
  The headers of captured packets as structures: \<open>struct nfq_iphdr\<close>, \<open>nfq_tcphdr\<close> and
  \<open>nfq_udphdr\<close> of \<open>libnetfilter_queue_headers.c\<close> as they lie in memory, what the accessors of
  \<^theory_text>\<open>Nfq\<close> read from them, and what the daemon makes of a packet that comes from the network.
  The last section has \<open>nfqueue_packet_print\<close> of \<open>nfqueue.c\<close> and the names of devices.
\<close>

section \<open>The structures\<close>

text \<open>
  The fields hold what is in memory, that is, numbers in network byte order. The bit fields of the
  first byte are put into it from its low end, in the order of their declaration.
\<close>

record nfq_iphdr =
  ip_version :: u8
  ip_ihl :: u8
  ip_tos :: u8
  ip_tot_len :: u16
  ip_id :: u16
  ip_frag_off :: u16
  ip_ttl :: u8
  ip_protocol :: u8
  ip_check :: u16
  ip_saddr :: u32
  ip_daddr :: u32

definition iphdr_bytes :: "nfq_iphdr \<Rightarrow> u8 list" where
  "iphdr_bytes h = [take_bit 4 (ip_version h) OR push_bit 4 (ip_ihl h), ip_tos h] @ store16 (ip_tot_len h) @
     store16 (ip_id h) @ store16 (ip_frag_off h) @ [ip_ttl h, ip_protocol h] @ store16 (ip_check h) @
     store32 (ip_saddr h) @ store32 (ip_daddr h)"

record nfq_tcphdr =
  tcp_source :: u16
  tcp_dest :: u16
  tcp_seq :: u32
  tcp_ack_seq :: u32
  tcp_doff :: u8
  tcp_res1 :: u8
  tcp_bits :: "bool list"
  tcp_window :: u16
  tcp_check :: u16
  tcp_urg_ptr :: u16

text \<open>\<open>tcp_bits\<close> are the eight flags from \<open>cwr\<close> to \<open>fin\<close>.\<close>

definition tcphdr_bytes :: "nfq_tcphdr \<Rightarrow> u8 list" where
  "tcphdr_bytes h = store16 (tcp_source h) @ store16 (tcp_dest h) @ store32 (tcp_seq h) @ store32 (tcp_ack_seq h) @
     [take_bit 4 (tcp_doff h) OR push_bit 4 (tcp_res1 h), horner_sum of_bool 2 (take 8 (tcp_bits h))] @
     store16 (tcp_window h) @ store16 (tcp_check h) @ store16 (tcp_urg_ptr h)"

record nfq_udphdr =
  udp_source :: u16
  udp_dest :: u16
  udp_len :: u16
  udp_check :: u16

definition udphdr_bytes :: "nfq_udphdr \<Rightarrow> u8 list" where
  "udphdr_bytes h = store16 (udp_source h) @ store16 (udp_dest h) @ store16 (udp_len h) @ store16 (udp_check h)"

section \<open>What the accessors read\<close>

lemma length_iphdr_bytes [simp]: "length (iphdr_bytes h) = sizeof_iphdr"
  by (simp add: iphdr_bytes_def sizeof_iphdr_def)

lemma read16_at: "i = length xs \<Longrightarrow> read16 (xs @ store16 v @ ys) i = Some v"
  by (simp add: read16_def)

lemma read32_at: "i = length xs \<Longrightarrow> read32 (xs @ store32 v @ ys) i = Some v"
  by (simp add: read32_def)

lemma read16_store16: "read16 (store16 v @ ys) 0 = Some v"
  using read16_at [of 0 "[]" v ys] by simp

lemma load32_Cons: "load32 (x # xs) (Suc i) = load32 xs i"
  by (simp add: load32_def add.commute [of i])

lemma load16_Cons: "load16 (x # xs) (Suc i) = load16 xs i"
  by (simp add: load16_def)

lemma read_Cons:
  "read16 (x # xs) (Suc i) = read16 xs i" "read32 (x # xs) (Suc i) = read32 xs i"
  by (simp_all add: read16_def read32_def load16_Cons load32_Cons add.commute [of i])

lemma read_append:
  "length xs \<le> i \<Longrightarrow> read16 (xs @ ys) i = read16 ys (i - length xs)"
  "length xs \<le> i \<Longrightarrow> read32 (xs @ ys) i = read32 ys (i - length xs)"
proof (induction xs arbitrary: i)
  case (Cons x xs)
  case 1 then show ?case using Cons(1) [of "i - 1"] by (cases i) (simp_all add: read_Cons)
  case 2 then show ?case using Cons(2) [of "i - 1"] by (cases i) (simp_all add: read_Cons)
qed simp_all

lemma read32_store32: "read32 (store32 v @ ys) 0 = Some v" "read32 (store32 v) 0 = Some v"
  using read32_at [of 0 "[]" v ys] read32_at [of 0 "[]" v "[]"] by simp_all

lemma ip_accessors:
  "nfq_get_ip_tos (iphdr_bytes h @ rest) = Some (ip_tos h)"
  "nfq_get_ip_tot_len (iphdr_bytes h @ rest) = Some (ntohs (ip_tot_len h))"
  "nfq_get_ip_id (iphdr_bytes h @ rest) = Some (ntohs (ip_id h))"
  "nfq_get_ip_fragoff (iphdr_bytes h @ rest) = Some (ntohs (ip_frag_off h))"
  "nfq_get_ip_ttl (iphdr_bytes h @ rest) = Some (ip_ttl h)"
  "nfq_get_ip_protocol (iphdr_bytes h @ rest) = Some (ip_protocol h)"
  "nfq_get_ip_check (iphdr_bytes h @ rest) = Some (ntohs (ip_check h))"
  "nfq_get_ip_saddr (iphdr_bytes h @ rest) = Some (ntohl (ip_saddr h))"
  "nfq_get_ip_daddr (iphdr_bytes h @ rest) = Some (ntohl (ip_daddr h))"
  by (simp_all add: nfq_get_ip_tos_def nfq_get_ip_tot_len_def nfq_get_ip_id_def nfq_get_ip_fragoff_def
      nfq_get_ip_ttl_def nfq_get_ip_protocol_def nfq_get_ip_check_def nfq_get_ip_saddr_def nfq_get_ip_daddr_def
      iphdr_bytes_def read8_def read_Cons read_append read16_store16 read32_store32 nth_append eval_nat_numeral)


lemma tcp_accessors:
  "nfq_get_tcp_source (tcphdr_bytes h @ rest) = Some (ntohs (tcp_source h))"
  "nfq_get_tcp_dest (tcphdr_bytes h @ rest) = Some (ntohs (tcp_dest h))"
  "nfq_get_tcp_seq (tcphdr_bytes h @ rest) = Some (ntohl (tcp_seq h))"
  "nfq_get_tcp_ack_seq (tcphdr_bytes h @ rest) = Some (ntohl (tcp_ack_seq h))"
  "nfq_get_tcp_window (tcphdr_bytes h @ rest) = Some (ntohs (tcp_window h))"
  "nfq_get_tcp_check (tcphdr_bytes h @ rest) = Some (ntohs (tcp_check h))"
  "nfq_get_tcp_urg_ptr (tcphdr_bytes h @ rest) = Some (ntohs (tcp_urg_ptr h))"
  by (simp_all add: nfq_get_tcp_source_def nfq_get_tcp_dest_def nfq_get_tcp_seq_def nfq_get_tcp_ack_seq_def
      nfq_get_tcp_window_def nfq_get_tcp_check_def nfq_get_tcp_urg_ptr_def
      tcphdr_bytes_def read_Cons read_append read16_store16 read32_store32 eval_nat_numeral)


text \<open>
  The flags of a TCP header are not what \<open>nfq_get_tcp_flags\<close> reads.
\<close>

lemma tcp_flags_are_the_source:
  "nfq_get_tcp_flags (tcphdr_bytes h @ rest) = Some (ntohs (tcp_source h))"
  by (simp add: nfq_get_tcp_flags_def tcphdr_bytes_def read16_store16)

section \<open>Packets from the network\<close>

text \<open>
  A header with its numbers as a host has them, and the bytes in which it is sent: the version and
  the length of the header in the two halves of the first byte, the rest in network byte order.
\<close>

definition ip_on_wire :: "nfq_iphdr \<Rightarrow> u8 list" where
  "ip_on_wire h = iphdr_bytes (h\<lparr>ip_version := ip_ihl h, ip_ihl := ip_version h, ip_tot_len := htons (ip_tot_len h),
     ip_id := htons (ip_id h), ip_frag_off := htons (ip_frag_off h), ip_check := htons (ip_check h),
     ip_saddr := htonl (ip_saddr h), ip_daddr := htonl (ip_daddr h)\<rparr>)"

definition udp_on_wire :: "nfq_udphdr \<Rightarrow> u8 list" where
  "udp_on_wire h = udphdr_bytes \<lparr>udp_source = htons (udp_source h), udp_dest = htons (udp_dest h),
     udp_len = htons (udp_len h), udp_check = htons (udp_check h)\<rparr>"

lemma length_ip_on_wire [simp]: "length (ip_on_wire h) = sizeof_iphdr"
  by (simp add: ip_on_wire_def)

lemma ip_on_wire_fields:
  "nfq_get_ip_protocol (ip_on_wire h @ rest) = Some (ip_protocol h)"
  "nfq_get_ip_saddr (ip_on_wire h @ rest) = Some (ip_saddr h)"
  "nfq_get_ip_daddr (ip_on_wire h @ rest) = Some (ip_daddr h)"
  "drop sizeof_iphdr (ip_on_wire h @ rest) = rest"
  by (simp_all add: ip_on_wire_def ip_accessors)



definition sample_ip :: nfq_iphdr where
  "sample_ip = \<lparr>ip_version = 4, ip_ihl = 5, ip_tos = 0, ip_tot_len = 52, ip_id = 1, ip_frag_off = 0, ip_ttl = 64,
     ip_protocol = 17, ip_check = 0, ip_saddr = 0x0A000001, ip_daddr = 0x0A0000FF\<rparr>"

definition sample_udp :: nfq_udphdr where
  "sample_udp = \<lparr>udp_source = 654, udp_dest = 654, udp_len = 32, udp_check = 0\<rparr>"


text \<open>
  With options, which come between the two headers, the port is taken out of the first of them:
  a datagram to the port 654 with four bytes of options counts as foreign traffic unless
  these bytes happen to hold the number of the port.
\<close>
theorem options_hide_the_port:
  assumes "nfa NFQA_PAYLOAD = Some (ip_on_wire ip @ [o1, o2, o3, o4] @ udp_on_wire udp @ rest)"
    and "ip_protocol ip = IPPROTO_UDP"
  shows "nfqueue_packet_is_aodv nfa = Some (ntohs (le16 o3 o4) = AODV_UDP_PORT)"
  using assms
  by (simp add: nfqueue_packet_is_aodv_def nfq_get_iphdr_def nfq_get_udphdr_def nfq_get_payload_def
      ip_on_wire_fields nfq_get_udp_dest_def read16_def load16_def)

theorem options_hide_the_port_witness:
  "nfqueue_packet_is_aodv [NFQA_PAYLOAD \<mapsto> ip_on_wire sample_ip @ [0x94, 4, 0, 0] @ udp_on_wire sample_udp @ []] = Some False"
proof -
  have "ntohs (le16 0 0) \<noteq> AODV_UDP_PORT" by code_simp
  then show ?thesis
    using options_hide_the_port [of "[NFQA_PAYLOAD \<mapsto> ip_on_wire sample_ip @ [0x94, 4, 0, 0] @ udp_on_wire sample_udp @ []]"
        sample_ip "0x94" 4 0 0 sample_udp "[]"]
    by (simp add: sample_ip_def IPPROTO_UDP_def)
qed


section \<open>Printing a packet\<close>

text \<open>The conversions \<open>%x\<close> with four digits and \<open>%u\<close>.\<close>

definition hex_digit :: "u16 \<Rightarrow> char" where
  "hex_digit d = (let n = unat d in if n < 10 then char_of (48 + n) else char_of (87 + n))"

definition hex4 :: "u16 \<Rightarrow> string" where
  "hex4 v = map (\<lambda>i. hex_digit (take_bit 4 (drop_bit (4 * i) v))) [3, 2, 1, 0]"

definition unsigned_digits :: "u32 \<Rightarrow> string" where
  "unsigned_digits v = nat_digits (unat v)"

definition puts :: "string \<Rightarrow> string" where
  "puts s = s @ [CHR 0x0A]"

definition isprint :: "u8 \<Rightarrow> bool" where
  "isprint b \<longleftrightarrow> 32 \<le> unat b \<and> unat b \<le> 126"

definition printed_char :: "u8 \<Rightarrow> char" where
  "printed_char b = (if isprint b then char_of (unat b) else CHR '' '')"

text \<open>
  The parts of the function, each with the text it prints. The ports are read from every packet, as
  if it had a TCP header, so a packet with less than 24 bytes is read behind its end.
\<close>

definition print_packet_hdr :: "nfq_data \<Rightarrow> (u32 \<times> string) option" where
  "print_packet_hdr packet = (case nfq_get_msg_packet_hdr packet of
       None \<Rightarrow> Some (0, [])
     | Some packetHeader \<Rightarrow> do {
         pid \<leftarrow> map_option ntohl (packet_hdr_packet_id packetHeader);
         proto \<leftarrow> packet_hdr_hw_protocol packetHeader;
         hook \<leftarrow> packet_hdr_hook packetHeader;
         Some (pid, puts (''hw_protocol=0x'' @ hex4 (ntohs proto) @ '' hook='' @ nat_digits (unat hook) @
           '' id='' @ unsigned_digits pid)) })"

definition print_hw :: "nfq_data \<Rightarrow> string option" where
  "print_hw packet = (case nfq_get_packet_hw packet of
       None \<Rightarrow> Some (puts ''no MAC adress'')
     | Some macAddress \<Rightarrow>
         map_option (\<lambda>len. puts (''mac len '' @ nat_digits (unat (ntohs len)) @ '' address'')) (read16 macAddress 0))"

definition print_attrs :: "nfq_data \<Rightarrow> string option" where
  "print_attrs packet = do {
     timestamp \<leftarrow> nfq_get_timestamp packet;
     let out = (case timestamp of
         None \<Rightarrow> puts ''no timestamp''
       | Some (sc, usc) \<Rightarrow> ''timestamp '' @ int_digits (sint sc) @ ''.'' @ int_digits (sint usc));
     mark \<leftarrow> nfq_get_nfmark packet;
     let out = out @ puts (if mark \<noteq> 0 then ''mark='' @ unsigned_digits mark else ''no mark'');
     device \<leftarrow> nfq_get_indev packet;
     let out = out @ puts (if device \<noteq> 0 then ''indev='' @ unsigned_digits device else ''no indev'');
     device \<leftarrow> nfq_get_outdev packet;
     let out = out @ puts (if device \<noteq> 0 then ''outdev='' @ unsigned_digits device else ''no outdev'');
     Some out }"

definition print_payload :: "nfq_data \<Rightarrow> string" where
  "print_payload packet = (case nfq_get_payload packet of
       (len, Some pckt_data) \<Rightarrow> ''pckt_data['' @ int_digits len @ '']:{'' @ map printed_char pckt_data
     | (len, None) \<Rightarrow> []) @ puts ''}''"

definition print_iphdr :: "nfq_data \<Rightarrow> string option" where
  "print_iphdr packet = (case nfq_get_iphdr packet of
       None \<Rightarrow> Some []
     | Some ip_header \<Rightarrow> do {
         saddr \<leftarrow> nfq_get_ip_saddr ip_header;
         daddr \<leftarrow> nfq_get_ip_daddr ip_header;
         Some (puts (''source: '' @ int_digits (sint saddr)) @ puts (''dest: '' @ int_digits (sint daddr))) })"

definition print_tcphdr :: "nfq_data \<Rightarrow> string option" where
  "print_tcphdr packet = (case nfq_get_tcphdr packet of
       None \<Rightarrow> Some []
     | Some tcp_header \<Rightarrow> do {
         source \<leftarrow> nfq_get_tcp_source tcp_header;
         dest \<leftarrow> nfq_get_tcp_dest tcp_header;
         Some (puts (''source: '' @ int_digits (uint source)) @ puts (''dest: '' @ int_digits (uint dest))) })"

definition nfqueue_packet_print :: "nfq_data \<Rightarrow> (u32 \<times> string) option" where
  "nfqueue_packet_print packet = do {
     (pid, out1) \<leftarrow> print_packet_hdr packet;
     out2 \<leftarrow> print_hw packet;
     out3 \<leftarrow> print_attrs packet;
     let out4 = print_payload packet;
     out5 \<leftarrow> print_iphdr packet;
     out6 \<leftarrow> print_tcphdr packet;
     Some (pid, out1 @ out2 @ out3 @ out4 @ out5 @ out6) }"

text \<open>The attributes of a message from the kernel, when they are there, are complete.\<close>

definition attributes_complete :: "nfq_data \<Rightarrow> bool" where
  "attributes_complete nfa \<longleftrightarrow>
     (\<forall>bs. nfa NFQA_PACKET_HDR = Some bs \<longrightarrow> 7 \<le> length bs) \<and>
     (\<forall>bs. nfa NFQA_HWADDR = Some bs \<longrightarrow> 2 \<le> length bs) \<and>
     (\<forall>bs. nfa NFQA_TIMESTAMP = Some bs \<longrightarrow> 16 \<le> length bs) \<and>
     (\<forall>a \<in> {NFQA_MARK, NFQA_IFINDEX_INDEV, NFQA_IFINDEX_OUTDEV}. \<forall>bs. nfa a = Some bs \<longrightarrow> 4 \<le> length bs)"

lemma attributes_read:
  assumes "attributes_complete nfa"
  shows "\<exists>t. nfq_get_timestamp nfa = Some t" "\<exists>v. nfq_get_nfmark nfa = Some v"
    "\<exists>v. nfq_get_indev nfa = Some v" "\<exists>v. nfq_get_outdev nfa = Some v"
  using assms
  by (auto simp: attributes_complete_def nfq_get_timestamp_def nfq_get_nfmark_def nfq_get_indev_def nfq_get_outdev_def
      nfnl_get_data32_def read_be64_def read32_def defined_if_def split: option.splits)

text \<open>
  Printing a message from the kernel is defined exactly if it has no payload or one that is long
  enough for the ports of a TCP header.
\<close>

lemma nfqueue_packet_print_defined:
  assumes "attributes_complete nfa"
  shows "nfqueue_packet_print nfa \<noteq> None \<longleftrightarrow> (\<forall>bs. nfa NFQA_PAYLOAD = Some bs \<longrightarrow> 24 \<le> length bs)"
proof -
  have "\<exists>x. print_packet_hdr nfa = Some x" "\<exists>x. print_hw nfa = Some x"
    using assms by (auto simp: attributes_complete_def print_packet_hdr_def print_hw_def nfq_get_msg_packet_hdr_def
        nfq_get_packet_hw_def packet_hdr_packet_id_def packet_hdr_hw_protocol_def packet_hdr_hook_def
        read32_def read16_def read8_def split: option.split)
  moreover have "\<exists>x. print_attrs nfa = Some x"
    using attributes_read [OF assms] by (auto simp: print_attrs_def Let_def)
  moreover have "print_iphdr nfa \<noteq> None \<longleftrightarrow> (\<forall>bs. nfa NFQA_PAYLOAD = Some bs \<longrightarrow> 20 \<le> length bs)"
    "print_tcphdr nfa \<noteq> None \<longleftrightarrow> (\<forall>bs. nfa NFQA_PAYLOAD = Some bs \<longrightarrow> 24 \<le> length bs)"
    by (auto simp: print_iphdr_def print_tcphdr_def nfq_get_iphdr_def nfq_get_tcphdr_def nfq_get_payload_def
        nfq_get_ip_saddr_def nfq_get_ip_daddr_def nfq_get_tcp_source_def nfq_get_tcp_dest_def read32_def read16_def
        sizeof_iphdr_def defined_if_def split: option.split)
  ultimately show ?thesis
    by (fastforce simp: nfqueue_packet_print_def)
qed

section \<open>Names of devices\<close>

text \<open>\<open>nlif_index2name\<close> of libnfnetlink gives the return value and the name.\<close>

definition nfq_get_indev_name :: "(u32 \<Rightarrow> int \<times> string) \<Rightarrow> nfq_data \<Rightarrow> (int \<times> string) option" where
  "nfq_get_indev_name nlif_index2name nfad = map_option nlif_index2name (nfq_get_indev nfad)"

definition nfq_get_physindev_name :: "(u32 \<Rightarrow> int \<times> string) \<Rightarrow> nfq_data \<Rightarrow> (int \<times> string) option" where
  "nfq_get_physindev_name nlif_index2name nfad = map_option nlif_index2name (nfq_get_physindev nfad)"

definition nfq_get_outdev_name :: "(u32 \<Rightarrow> int \<times> string) \<Rightarrow> nfq_data \<Rightarrow> (int \<times> string) option" where
  "nfq_get_outdev_name nlif_index2name nfad = map_option nlif_index2name (nfq_get_outdev nfad)"

definition nfq_get_physoutdev_name :: "(u32 \<Rightarrow> int \<times> string) \<Rightarrow> nfq_data \<Rightarrow> (int \<times> string) option" where
  "nfq_get_physoutdev_name nlif_index2name nfad = map_option nlif_index2name (nfq_get_physoutdev nfad)"

end
