(* ===== verification/Protocol.thy ===== *)
theory Protocol
  imports Logic
begin

unbundle bit_operations_syntax

text \<open>
  What the protocol of \<open>meshias_daemon/aodv/logic.c\<close> does, as properties of its handlers: which
  datagrams a search, a request, a reply and an alarm send, which routes they leave behind,
  and that every received datagram is handled without undefined behaviour.
\<close>

section \<open>Sample messages\<close>

text \<open>Sample messages: a request and a reply from the neighbour 10.0.0.2, with a hop limit of 5.\<close>

definition sample_pkt :: "u8 list \<Rightarrow> aodv_pkt" where
  "sample_pkt bs = zero_pkt\<lparr>pkt_payload := Some bs, pkt_payload_len := length bs, pkt_ttl := 5,
     pkt_address := \<lparr>sin_family = AF_INET, sin_port = htons AODV_UDP_PORT, sin_addr = htonl 0x0A000002\<rparr>\<rparr>"

definition sample_rreq :: "in_addr \<Rightarrow> aodv_rreq" where
  "sample_rreq dest = \<lparr>rreq_type = 1, rreq_reserved2 = 0, rreq_flags = 0, rreq_reserved = 0, rreq_hop_count = 1,
     rreq_rreq_id = 77, rreq_dest_ip_addr = dest, rreq_dest_seq_num = 2, rreq_orig_ip_addr = 0x0A000007,
     rreq_orig_seq_num = 30\<rparr>"

definition sample_rrep :: "in_addr \<Rightarrow> aodv_rrep" where
  "sample_rrep dest = \<lparr>rrep_type = 2, rrep_reserved2 = 0, rrep_flags = 0, rrep_prefix_sz = 0, rrep_reserved = 0,
     rrep_hop_count = 1, rrep_dest_ip_addr = dest, rrep_dest_seq_num = 9, rrep_orig_ip_addr = 0x0A000001,
     rrep_lifetime = 6000\<rparr>"

lemma sample_rreq_pkt:
  "pkt_ok (sample_pkt (rreq_bytes (sample_rreq d)))" "pkt_rreq (sample_pkt (rreq_bytes (sample_rreq d))) = Some (sample_rreq d)"
  using rreq_of_bytes [of "sample_rreq d" "[]"]
  by (simp_all add: sample_pkt_def pkt_ok_def pkt_rreq_def rreq_fits_def sample_rreq_def)
    (simp_all add: rreq_bytes_def store32_def low_field_def)

lemma sample_rrep_pkt:
  "pkt_ok (sample_pkt (rrep_bytes (sample_rrep d)))" "pkt_rrep (sample_pkt (rrep_bytes (sample_rrep d))) = Some (sample_rrep d)"
  using rrep_of_bytes [of "sample_rrep d" "[]"]
  by (simp_all add: sample_pkt_def pkt_ok_def pkt_rrep_def rrep_fits_def sample_rrep_def)
    (simp_all add: rrep_bytes_def store32_def low_field_def)

lemma sample_pkt_address: "aodv_pkt_get_address (sample_pkt bs) = 0x0A000002"
  by (simp add: sample_pkt_def aodv_pkt_get_address_def)

lemma sample_takes_routes: "takes_routes sample_env"
  by (simp add: takes_routes_def)


section \<open>Searching a route\<close>

lemma after_send_stats: "after_send e w w' \<Longrightarrow> sent w' = filter is_sent [e] @ sent w"
  by (simp add: sent_def after_send_same)

text \<open>
  C11: a search for a destination without a known route sends exactly one datagram, the request with
  the next request identifier and the next sequence number, broadcast with the hop limit of the
  expanding ring; a first try also records the request and sets its alarm, so that the node
  waits for the response, and a repeated one leaves the queue of requests alone.
\<close>
theorem find_route_broadcasts_one_request:
  assumes "world_ok w"
  shows "runs (aodv_find_route E dest None tries w) (\<lambda>w'. world_ok w' \<and>
    w_out w' = Sent (htonl (w_broadcast_addr w)) (htons AODV_UDP_PORT) (ucast (expanding_ring_search_ttl 0 tries))
      (rreq_bytes (aodv_pkt_prepare_rreq \<lparr>rreq_type = 1, rreq_reserved2 = 0,
         rreq_flags = RREQ_GRATUITOUS_RREP_FLAG OR RREQ_UNKNOWN_SEQ_NUM_FLAG, rreq_reserved = 0, rreq_hop_count = 0,
         rreq_rreq_id = w_rreq_id w + 1, rreq_dest_ip_addr = dest, rreq_dest_seq_num = 0,
         rreq_orig_ip_addr = w_ip_addr w, rreq_orig_seq_num = w_seq_num w + 1\<rparr>)) # w_out w \<and>
    w_seq_num w' = w_seq_num w + 1 \<and> w_rreq_id w' = w_rreq_id w + 1 \<and>
    w_num_rreq_sent w' = w_num_rreq_sent w + 1 \<and> w_routes w' = w_routes w \<and> w_table w' = w_table w \<and>
    (if tries = 0 then rreq_fifo_contains (w_rreq_id w + 1) dest w' = Some True \<and>
       rreq_fifo_waiting_response_for dest w' = Some True \<and>
       waiting (w_alarms w') = insert (w_next_ptr w) (waiting (w_alarms w))
     else w_rreqs w' = w_rreqs w \<and> w_alarms w' = w_alarms w))"
proof -
  have r: "case None of None \<Rightarrow> (None :: msh_route option) = None | Some p \<Rightarrow> w_routes w p = None \<and> None \<noteq> None" by simp
  show ?thesis
  proof (rule runs_mono [OF aodv_find_route_ok [OF assms r]], elim exE conjE)
    fix w' w1
    assume a: "rreqs_only (next_self w) w1" "searching dest tries w w1"
      "after_send (rreq_event (ucast (expanding_ring_search_ttl (rreq_hop_count (own_rreq dest None (next_self w))) tries)) w
        (own_rreq dest None (next_self w))) (w1\<lparr>w_num_rreq_sent := w_num_rreq_sent w + 1\<rparr>) w'"
    have ok: "world_ok w'" using after_send_wf [OF a(3)] a(1) by (simp add: rreqs_only_def)
    have q: "rreq_fifo_contains (w_rreq_id w + 1) dest w' = Some True \<and> rreq_fifo_waiting_response_for dest w' = Some True"
      if "tries = 0"
      using that a(2) after_send_same(4) [OF a(3)] ok
      by (auto simp: searching_def rreq_fifo_contains_eq rreq_fifo_waiting_eq ran_def)
    show "world_ok w' \<and>
    w_out w' = Sent (htonl (w_broadcast_addr w)) (htons AODV_UDP_PORT) (ucast (expanding_ring_search_ttl 0 tries))
      (rreq_bytes (aodv_pkt_prepare_rreq \<lparr>rreq_type = 1, rreq_reserved2 = 0,
         rreq_flags = RREQ_GRATUITOUS_RREP_FLAG OR RREQ_UNKNOWN_SEQ_NUM_FLAG, rreq_reserved = 0, rreq_hop_count = 0,
         rreq_rreq_id = w_rreq_id w + 1, rreq_dest_ip_addr = dest, rreq_dest_seq_num = 0,
         rreq_orig_ip_addr = w_ip_addr w, rreq_orig_seq_num = w_seq_num w + 1\<rparr>)) # w_out w \<and>
    w_seq_num w' = w_seq_num w + 1 \<and> w_rreq_id w' = w_rreq_id w + 1 \<and>
    w_num_rreq_sent w' = w_num_rreq_sent w + 1 \<and> w_routes w' = w_routes w \<and> w_table w' = w_table w \<and>
    (if tries = 0 then rreq_fifo_contains (w_rreq_id w + 1) dest w' = Some True \<and>
       rreq_fifo_waiting_response_for dest w' = Some True \<and>
       waiting (w_alarms w') = insert (w_next_ptr w) (waiting (w_alarms w))
     else w_rreqs w' = w_rreqs w \<and> w_alarms w' = w_alarms w)"
      using a(1,2) after_send_same [OF a(3)] ok q
      by (auto simp: rreqs_only_def same_defs next_self_def searching_def rreq_event_def own_rreq_def)
  qed
qed

theorem find_route_broadcasts_one_request_witness:
  "\<exists>w'. aodv_find_route sample_env 0x0A000008 None 0 sample_world = Some w' \<and> w_rreq_id w' = 3 \<and> w_seq_num w' = 5 \<and>
    rreq_fifo_waiting_response_for 0x0A000008 w' = Some True"
  using find_route_broadcasts_one_request [OF sample_world_ok, of sample_env "0x0A000008" 0]
  by (auto simp: runs_iff sample_parts)

section \<open>Receiving a request\<close>

lemma rreq_seenI:
  "w_rreqs w p = Some e \<Longrightarrow> rq_rreq_id e = rreq_rreq_id q \<Longrightarrow> rq_dst e = rreq_dest_ip_addr q \<Longrightarrow> rreq_seen q w"
  unfolding rreq_seen_def using ranI by fast

lemma rreq_processed_seen:
  assumes "world_ok w" "pkt_ok pkt" "pkt_rreq pkt = Some q"
  shows "runs (aodv_process_rreq E pkt w) (\<lambda>w'. world_ok w' \<and> rreq_seen q w')"
proof (rule runs_mono [OF aodv_process_rreq_ok [OF assms]])
  fix w' assume a: "if rreq_seen q w then routed w w' else (\<exists>v. rreq_recorded E pkt q w v \<and> reacts pkt q v w')"
  show "world_ok w' \<and> rreq_seen q w'"
  proof (cases "rreq_seen q w")
    case True
    then show ?thesis using a by (auto simp: rreq_seen_def routed_rreqs intro: routed_wf)
  next
    case False
    then obtain v where v: "rreq_recorded E pkt q w v" "reacts pkt q v w'" using a by auto
    then have "w_rreqs w' = w_rreqs v" "world_ok w'" by (auto simp: reacts_def same_defs intro: extends_wf)
    moreover obtain p where "w_rreqs v p = Some \<lparr>rq_rreq_id = rreq_rreq_id q, rq_dst = rreq_dest_ip_addr q,
        rq_prev_tries = -1\<rparr>"
      using v(1) unfolding rreq_recorded_def by (metis fun_upd_same)
    ultimately show ?thesis by (auto intro: rreq_seenI)
  qed
qed

text \<open>
  C14: a node reacts to a request at most once: after a request has been processed, any further
  copy of it (the same identifier and destination, from whatever neighbour, with whatever hop
  count) sends no datagram, records nothing and leaves the node's own numbers alone.
\<close>
theorem duplicate_request_is_ignored:
  assumes "world_ok w" "pkt_ok pkt" "pkt_rreq pkt = Some q"
    and "pkt_ok pkt2" "pkt_rreq pkt2 = Some q2"
    and "rreq_rreq_id q2 = rreq_rreq_id q" "rreq_dest_ip_addr q2 = rreq_dest_ip_addr q"
  shows "runs (aodv_process_rreq E pkt w) (\<lambda>w1. runs (aodv_process_rreq E2 pkt2 w1) (\<lambda>w2.
    world_ok w2 \<and> sent w2 = sent w1 \<and> w_rreqs w2 = w_rreqs w1 \<and> w_seq_num w2 = w_seq_num w1 \<and>
    w_rreq_id w2 = w_rreq_id w1))"
proof (rule runs_mono [OF rreq_processed_seen [OF assms(1-3)]])
  fix w1 assume w1: "world_ok w1 \<and> rreq_seen q w1"
  then have "rreq_seen q2 w1" using assms(6,7) by (simp add: rreq_seen_def)
  then show "runs (aodv_process_rreq E2 pkt2 w1) (\<lambda>w2. world_ok w2 \<and> sent w2 = sent w1 \<and>
      w_rreqs w2 = w_rreqs w1 \<and> w_seq_num w2 = w_seq_num w1 \<and> w_rreq_id w2 = w_rreq_id w1)"
    using aodv_process_rreq_ok [of w1 pkt2 q2 E2] w1 assms(4,5)
    by (auto simp: routed_def same_defs intro: extends_wf elim!: runs_mono)
qed

theorem duplicate_request_is_ignored_witness:
  "runs (aodv_process_rreq sample_env (sample_pkt (rreq_bytes (sample_rreq 0x0A000008))) sample_world) (\<lambda>w1.
    runs (aodv_process_rreq sample_env (sample_pkt (rreq_bytes (sample_rreq 0x0A000008))) w1) (\<lambda>w2. sent w2 = sent w1))"
  by (rule runs_mono [OF duplicate_request_is_ignored [OF sample_world_ok sample_rreq_pkt sample_rreq_pkt refl refl]])
    (auto elim!: runs_mono)

text \<open>A new request from the state before it arrives to the state after it is handled.\<close>

lemma new_request:
  assumes "world_ok w" "pkt_ok pkt" "pkt_rreq pkt = Some q" "\<not> rreq_seen q w"
  shows "runs (aodv_process_rreq E pkt w) (\<lambda>w'. \<exists>v. rreq_recorded E pkt q w v \<and> reacts pkt q v w' \<and>
    world_ok w' \<and> w_ip_addr v = w_ip_addr w \<and> w_seq_num v = w_seq_num w \<and> w_broadcast_addr v = w_broadcast_addr w \<and>
    sent v = sent w)"
proof (rule runs_mono [OF aodv_process_rreq_ok [OF assms(1-3)]])
  fix w' assume "if rreq_seen q w then routed w w' else (\<exists>v. rreq_recorded E pkt q w v \<and> reacts pkt q v w')"
  then obtain v where v: "rreq_recorded E pkt q w v" "reacts pkt q v w'" using assms(4) by auto
  have "w_ip_addr v = w_ip_addr w" "w_seq_num v = w_seq_num w" "w_broadcast_addr v = w_broadcast_addr w" "sent v = sent w"
    using v(1) by (simp_all add: rreq_recorded_def extends_def same_defs)
  moreover have "world_ok w'" using v(2) by (auto simp: reacts_def intro: extends_wf)
  ultimately show "\<exists>v. rreq_recorded E pkt q w v \<and> reacts pkt q v w' \<and>
    world_ok w' \<and> w_ip_addr v = w_ip_addr w \<and> w_seq_num v = w_seq_num w \<and> w_broadcast_addr v = w_broadcast_addr w \<and>
    sent v = sent w" using v by blast
qed

text \<open>
  C12: a new request for this node is answered with exactly one datagram, a route reply to the
  neighbour that delivered it, with this node as destination at hop count 0; the sequence
  number in it is the node's own, stepped on first if the request carries that same number. (The
  comment in the code, after the RFC, steps it on only if the request carries the next one.)
\<close>
theorem destination_answers_request:
  assumes "world_ok w" "pkt_ok pkt" "pkt_rreq pkt = Some q" "\<not> rreq_seen q w"
    and "rreq_dest_ip_addr q = w_ip_addr w"
  shows "runs (aodv_process_rreq E pkt w) (\<lambda>w'. world_ok w' \<and>
    w_seq_num w' = (if rreq_dest_seq_num q = w_seq_num w then w_seq_num w + 1 else w_seq_num w) \<and>
    sent w' = Sent (htonl (aodv_pkt_get_address pkt)) (htons AODV_UDP_PORT) DEFAULT_TTL
      (rrep_bytes (aodv_pkt_prepare_rrep \<lparr>rrep_type = 2, rrep_reserved2 = 0, rrep_flags = 0, rrep_prefix_sz = 0,
         rrep_reserved = 0, rrep_hop_count = 0, rrep_dest_ip_addr = w_ip_addr w, rrep_dest_seq_num = w_seq_num w',
         rrep_orig_ip_addr = rreq_orig_ip_addr q, rrep_lifetime = MY_ROUTE_TIMEOUT\<rparr>)) # sent w)"
proof (rule runs_mono [OF new_request [OF assms(1-4)]], elim exE conjE)
  fix w' v
  assume v: "reacts pkt q v w'" "world_ok w'" "w_ip_addr v = w_ip_addr w" "w_seq_num v = w_seq_num w" "sent v = sent w"
  have s: "w_seq_num w' = w_seq_num (stepped_seq q v)"
    "sent w' = rrep_event (aodv_pkt_get_address pkt) (own_rrep q (stepped_seq q v)) # sent w"
    using v(1,3,5) assms(5) by (simp_all add: reacts_def rreq_reaction_def)
  moreover have "w_ip_addr (stepped_seq q v) = w_ip_addr w" using v(3) by simp
  moreover have "w_seq_num (stepped_seq q v) = (if rreq_dest_seq_num q = w_seq_num w then w_seq_num w + 1 else w_seq_num w)"
    using v(4) by (simp add: stepped_seq_def)
  ultimately show "world_ok w' \<and>
    w_seq_num w' = (if rreq_dest_seq_num q = w_seq_num w then w_seq_num w + 1 else w_seq_num w) \<and>
    sent w' = Sent (htonl (aodv_pkt_get_address pkt)) (htons AODV_UDP_PORT) DEFAULT_TTL
      (rrep_bytes (aodv_pkt_prepare_rrep \<lparr>rrep_type = 2, rrep_reserved2 = 0, rrep_flags = 0, rrep_prefix_sz = 0,
         rrep_reserved = 0, rrep_hop_count = 0, rrep_dest_ip_addr = w_ip_addr w, rrep_dest_seq_num = w_seq_num w',
         rrep_orig_ip_addr = rreq_orig_ip_addr q, rrep_lifetime = MY_ROUTE_TIMEOUT\<rparr>)) # sent w"
    using v(2) by (simp add: rrep_event_def own_rrep_def)
qed

lemma sample_not_seen: "\<not> rreq_seen (sample_rreq d) sample_world"
  by (auto simp: rreq_seen_def sample_rreq_def sample_parts ran_def split: if_splits)

lemma sample_rreq_dest [simp]: "rreq_dest_ip_addr (sample_rreq d) = d" "rreq_dest_seq_num (sample_rreq d) = 2"
  "rreq_orig_ip_addr (sample_rreq d) = 0x0A000007" "rreq_hop_count (sample_rreq d) = 1" "rreq_orig_seq_num (sample_rreq d) = 30"
  "rreq_flags (sample_rreq d) = 0"
  by (simp_all add: sample_rreq_def)

theorem destination_answers_request_witness:
  "\<exists>w'. aodv_process_rreq sample_env (sample_pkt (rreq_bytes (sample_rreq 0x0A000001))) sample_world = Some w' \<and>
    w_seq_num w' = 4 \<and> length (sent w') = Suc (length (sent sample_world))"
  using destination_answers_request [OF sample_world_ok sample_rreq_pkt sample_not_seen, of "0x0A000001" sample_env]
  by (auto simp: runs_iff sample_parts)

lemma next_hop_None: "next_hop_to w d = None \<longleftrightarrow> route_to w d = None"
  by (simp add: next_hop_to_def)

text \<open>
  C13: a new request for another node that a node does not answer is broadcast again exactly once,
  with the hop count one higher and the hop limit one lower, if the hop limit allows it; otherwise
  nothing is sent. A node does not answer when only the destination may (flag D), when the wanted
  sequence number is older than the node's own, or when it has no route to the destination,
  which is neither the neighbour that delivered the request nor its originator, and the kernel takes
  the routes to these. All other fields of the request go on unchanged, the wanted sequence
  number among them.
\<close>
theorem request_is_forwarded_once:
  assumes "world_ok w" "pkt_ok pkt" "pkt_rreq pkt = Some q" "\<not> rreq_seen q w"
    and "rreq_dest_ip_addr q \<noteq> w_ip_addr w"
    and "rreq_flags q AND RREQ_DEST_ONLY_FLAG \<noteq> 0 \<or> sint (rreq_dest_seq_num q) < sint (w_seq_num w) \<or>
      route_to w (rreq_dest_ip_addr q) = None \<and> takes_routes E \<and>
        rreq_dest_ip_addr q \<notin> {aodv_pkt_get_address pkt, rreq_orig_ip_addr q}"
  shows "runs (aodv_process_rreq E pkt w) (\<lambda>w'. world_ok w' \<and> w_seq_num w' = w_seq_num w \<and>
    sent w' = (if pkt_ttl pkt \<le> 1 then []
      else [Sent (htonl (w_broadcast_addr w)) (sin_port (pkt_address pkt)) (pkt_ttl pkt - 1)
        (rreq_bytes (aodv_pkt_prepare_rreq (q\<lparr>rreq_hop_count := rreq_hop_count q + 1\<rparr>)) @ drop 24 (pkt_bytes pkt))]) @ sent w)"
proof (rule runs_mono [OF new_request [OF assms(1-4)]], elim exE conjE)
  fix w' v
  assume v: "reacts pkt q v w'" "world_ok w'" "w_ip_addr v = w_ip_addr w" "w_seq_num v = w_seq_num w"
    "w_broadcast_addr v = w_broadcast_addr w" "sent v = sent w" and rec: "rreq_recorded E pkt q w v"
  have "route_to v (rreq_dest_ip_addr q) = None"
    if "route_to w (rreq_dest_ip_addr q) = None" "takes_routes E"
      "rreq_dest_ip_addr q \<notin> {aodv_pkt_get_address pkt, rreq_orig_ip_addr q}"
    using that rec by (simp add: rreq_recorded_def hops_but_def next_hop_None [symmetric])
  then have "\<not> swallows q v" using assms(6) v(4) by (auto simp: swallows_def)
  then show "world_ok w' \<and> w_seq_num w' = w_seq_num w \<and>
    sent w' = (if pkt_ttl pkt \<le> 1 then []
      else [Sent (htonl (w_broadcast_addr w)) (sin_port (pkt_address pkt)) (pkt_ttl pkt - 1)
        (rreq_bytes (aodv_pkt_prepare_rreq (q\<lparr>rreq_hop_count := rreq_hop_count q + 1\<rparr>)) @ drop 24 (pkt_bytes pkt))]) @ sent w"
    using v assms(5) by (simp add: reacts_def rreq_reaction_def forwarded_rreq_def hopped_def)
qed

theorem request_is_forwarded_once_witness:
  "\<exists>w'. aodv_process_rreq sample_env (sample_pkt (rreq_bytes (sample_rreq 0x0A000008))) sample_world = Some w' \<and>
    length (sent w') = Suc (length (sent sample_world))"
proof -
  have "\<not> pkt_ttl (sample_pkt bs) \<le> 1" for bs by (simp add: sample_pkt_def word_le_nat_alt)
  then show ?thesis
    using request_is_forwarded_once [OF sample_world_ok sample_rreq_pkt sample_not_seen, of "0x0A000008" sample_env]
    by (auto simp: runs_iff sample_parts)
qed

text \<open>
  A node that has a route to the wanted destination, when it may answer and the wanted
  sequence number is not older than its own, sends nothing at all: the replies of an intermediate
  node are built and thrown away, and the request is not passed on either.
\<close>
theorem intermediate_node_stays_silent:
  assumes "world_ok w" "pkt_ok pkt" "pkt_rreq pkt = Some q" "\<not> rreq_seen q w"
    and "rreq_dest_ip_addr q \<noteq> w_ip_addr w" "route_to w (rreq_dest_ip_addr q) \<noteq> None"
    and "rreq_flags q AND RREQ_DEST_ONLY_FLAG = 0" "sint (w_seq_num w) \<le> sint (rreq_dest_seq_num q)"
  shows "runs (aodv_process_rreq E pkt w) (\<lambda>w'. world_ok w' \<and> sent w' = sent w)"
proof (rule runs_mono [OF new_request [OF assms(1-4)]], elim exE conjE)
  fix w' v
  assume v: "rreq_recorded E pkt q w v" "reacts pkt q v w'" "world_ok w'" "w_ip_addr v = w_ip_addr w"
    "w_seq_num v = w_seq_num w" "sent v = sent w"
  obtain p where p: "p \<in> set (w_table w)" "route_dst w p = rreq_dest_ip_addr q"
    using assms(6) by (auto simp: route_to_None)
  have e: "extends w v" using v(1) by (simp add: rreq_recorded_def)
  have "p \<noteq> w_find_route w" "p \<in> dom (w_routes w)"
    using table_not_scratch [OF assms(1) p(1)] table_live [OF assms(1) p(1)] by auto
  then have "route_dst v p = route_dst w p" using e unfolding extends_def route_dst_def by fastforce
  then have "route_to v (rreq_dest_ip_addr q) \<noteq> None"
    using extends_table [OF e p(1)] p(2) by (auto simp: route_to_None)
  then show "world_ok w' \<and> sent w' = sent w"
    using v assms(5,7,8) by (simp add: reacts_def rreq_reaction_def swallows_def)
qed

theorem intermediate_node_stays_silent_witness:
  "\<exists>w'. aodv_process_rreq sample_env (sample_pkt (rreq_bytes ((sample_rreq 0x0A000002)\<lparr>rreq_dest_seq_num := 4\<rparr>))) sample_world
      = Some w' \<and> sent w' = []"
proof -
  let ?q = "(sample_rreq 0x0A000002)\<lparr>rreq_dest_seq_num := 4\<rparr>"
  have "pkt_ok (sample_pkt (rreq_bytes ?q))" "pkt_rreq (sample_pkt (rreq_bytes ?q)) = Some ?q"
    using rreq_of_bytes [of ?q "[]"]
    by (simp_all add: sample_pkt_def pkt_ok_def pkt_rreq_def rreq_fits_def sample_rreq_def)
      (simp_all add: rreq_bytes_def store32_def low_field_def)
  moreover have "\<not> rreq_seen ?q sample_world"
    using sample_not_seen [of "0x0A000002"] by (simp add: rreq_seen_def)
  ultimately show ?thesis
    using intermediate_node_stays_silent [OF sample_world_ok, of "sample_pkt (rreq_bytes ?q)" ?q sample_env] sample_route_to(2)
    by (auto simp: runs_iff sample_parts sent_def)
qed

text \<open>
  C19: every new request teaches the node the way back: if the kernel takes the routes, the table
  has afterwards a route to the originator over the neighbour that delivered the request, with
  the request's hop count, a valid sequence number and one not older than the request's.
\<close>
theorem reverse_route_is_learned:
  assumes "world_ok w" "pkt_ok pkt" "pkt_rreq pkt = Some q" "\<not> rreq_seen q w" "takes_routes E"
  shows "runs (aodv_process_rreq E pkt w) (\<lambda>w'. \<exists>p r. p \<in> set (w_table w') \<and> w_routes w' p = Some r \<and>
    rt_dst_ip r = rreq_orig_ip_addr q \<and> rt_next_hop r = aodv_pkt_get_address pkt \<and>
    rt_hop_count r = rreq_hop_count q \<and> rt_flags r AND RTFLAG_VALID_DEST_SEQ_NUM \<noteq> 0 \<and>
    sint (rreq_orig_seq_num q) \<le> sint (rt_dest_seq_num r))"
proof (rule runs_mono [OF new_request [OF assms(1-4)]], elim exE conjE)
  fix w' v assume "rreq_recorded E pkt q w v" "reacts pkt q v w'"
  then have "has_route (rreq_orig_ip_addr q) (aodv_pkt_get_address pkt) (rreq_hop_count q) (rreq_orig_seq_num q) w'"
    using assms(5) by (auto simp: rreq_recorded_def reacts_def intro: has_route_kept)
  then show "\<exists>p r. p \<in> set (w_table w') \<and> w_routes w' p = Some r \<and>
    rt_dst_ip r = rreq_orig_ip_addr q \<and> rt_next_hop r = aodv_pkt_get_address pkt \<and>
    rt_hop_count r = rreq_hop_count q \<and> rt_flags r AND RTFLAG_VALID_DEST_SEQ_NUM \<noteq> 0 \<and>
    sint (rreq_orig_seq_num q) \<le> sint (rt_dest_seq_num r)"
    unfolding has_route_def leads_def by blast
qed

theorem reverse_route_is_learned_witness:
  "\<exists>w' p r. aodv_process_rreq sample_env (sample_pkt (rreq_bytes (sample_rreq 0x0A000008))) sample_world = Some w' \<and>
    p \<in> set (w_table w') \<and> w_routes w' p = Some r \<and> rt_dst_ip r = 0x0A000007 \<and> rt_next_hop r = 0x0A000002"
  using reverse_route_is_learned [OF sample_world_ok sample_rreq_pkt sample_not_seen sample_takes_routes, of "0x0A000008"]
  by (auto simp: runs_iff sample_pkt_address)


section \<open>Receiving a reply\<close>

lemma unknown_after_neighbour:
  assumes ok: "world_ok w" "routed w w1" and k: "neighbour_known a p w w1"
    and none: "route_to w d = None"
  shows "if d = a then route_to w1 d = Some p else route_to w1 d = None"
proof -
  have kept: "route_dst w1 q = route_dst w q" if q: "q \<in> set (w_table w)" for q
  proof -
    have "q \<noteq> w_find_route w" "q \<in> dom (w_routes w)"
      using table_not_scratch [OF ok(1) q] table_live [OF ok(1) q] by auto
    then show ?thesis using ok(2) unfolding routed_def extends_def route_dst_def by fastforce
  qed
  show ?thesis
  proof (cases "route_to w a")
    case None
    then obtain r where "w_table w1 = p # w_table w" "w_routes w1 p = Some r" "rt_dst_ip r = a"
      using k by (auto simp: neighbour_known_def)
    then have p: "p \<in> set (w_table w1)" "route_dst w1 p = a" "\<And>q. q \<in> set (w_table w1) \<Longrightarrow> q = p \<or> q \<in> set (w_table w)"
      by (auto simp: route_dst_def)
    show ?thesis
    proof (cases "d = a")
      case True
      then show ?thesis using p(1,2) route_to_unique [OF routed_wf [OF ok(2)], of d p] by simp
    next
      case False
      then show ?thesis using p none kept unfolding route_to_None by fastforce
    qed
  next
    case (Some x)
    then have "w_table w1 = w_table w" "d \<noteq> a" using k none by (auto simp: neighbour_known_def)
    then show ?thesis using none kept by (auto simp: route_to_None)
  qed
qed

text \<open>The route to the destination of a reply to a search, before the reply is applied.\<close>

lemma reply_to_search:
  assumes ok: "world_ok w" and none: "route_to w (rrep_dest_ip_addr q) = None" and E: "takes_routes E"
    and w1: "routed w w1" "neighbour_known h pp w w1" and v: "routed w1 v"
    and pd: "if created then route_added E (reply_route E (rhopped q) h) w1 pd (searched (rrep_dest_ip_addr q) w1) v
      else route_to w1 (rrep_dest_ip_addr q) = Some pd \<and> v = searched (rrep_dest_ip_addr q) w1"
    and c: "created = (route_to w1 (rrep_dest_ip_addr q) = None)"
  shows "pd \<in> set (w_table v) \<and> (\<exists>r. w_routes v pd = Some r \<and> rt_dst_ip r = rrep_dest_ip_addr q) \<and>
    rrep_accepted q created pd v \<and> no_waiters (rrep_dest_ip_addr q) v"
proof (cases created)
  case True
  then have "route_added E (reply_route E (rhopped q) h) w1 pd (searched (rrep_dest_ip_addr q) w1) v" using pd by simp
  moreover have "rt_dst_ip (reply_route E (rhopped q) h) = rrep_dest_ip_addr q" by (simp add: reply_route_def Let_def)
  moreover have "route_to w1 (rrep_dest_ip_addr q) = None" using True c by simp
  ultimately obtain w2 where a: "w_table v = pd # w_table w1" "no_waiters (rrep_dest_ip_addr q) v"
    "w_routes v pd = Some (installed E (reply_route E (rhopped q) h) w2)"
    "rt_dst_ip (reply_route E (rhopped q) h) = rrep_dest_ip_addr q"
    using E by (auto simp: route_added_def)
  moreover have "rrep_accepted q created pd v" using True a(3) by (simp add: rrep_accepted_def rrep_updates_def)
  ultimately show ?thesis by simp
next
  case False
  then have known: "route_to w1 (rrep_dest_ip_addr q) = Some pd" "v = searched (rrep_dest_ip_addr q) w1" using pd by auto
  have ok1: "world_ok w1" by (rule routed_wf [OF w1(1)])
  have "rrep_dest_ip_addr q = h" "pd = pp"
    using unknown_after_neighbour [OF ok w1 none] known(1) by (auto split: if_splits)
  then obtain r where r: "no_waiters (rrep_dest_ip_addr q) w1" "w_routes w1 pd = Some r" "rt_dst_ip r = rrep_dest_ip_addr q"
    "rt_flags r AND RTFLAG_VALID_DEST_SEQ_NUM = 0" "pd \<in> set (w_table w1)"
    using w1(2) none by (auto simp: neighbour_known_def)
  moreover have "w_routes v pd = Some r"
    using r(2) known(2) searched_routes table_not_scratch [OF ok1 r(5)] by simp
  moreover have "no_waiters (rrep_dest_ip_addr q) v" by (rule no_waiters_routed [OF r(1) v])
  ultimately show ?thesis
    using known(2) by (simp add: rrep_accepted_def rrep_updates_def)
qed

text \<open>
  A reply for a destination without a route is always accepted: from the state \<open>v\<close> on, which has
  a route to the destination and no packet waiting for it, only the last part of the handler runs.
\<close>

lemma reply_accepted:
  assumes ok: "world_ok w" and pkt: "pkt_ok pkt" "pkt_rrep pkt = Some q" and E: "takes_routes E"
    and none: "route_to w (rrep_dest_ip_addr q) = None"
  shows "runs (aodv_process_rrep E pkt w) (\<lambda>w'. \<exists>v pd r. routed w v \<and>
    hops_but {aodv_pkt_get_address pkt, rrep_dest_ip_addr q} w v \<and> pd \<in> set (w_table v) \<and> w_routes v pd = Some r \<and>
    rt_dst_ip r = rrep_dest_ip_addr q \<and> no_waiters (rrep_dest_ip_addr q) v \<and> rrep_concludes E pkt q pd v w')"
proof (rule runs_mono [OF aodv_process_rrep_ok [OF ok pkt]], elim exE conjE)
  let ?d = "rrep_dest_ip_addr q" and ?h = "aodv_pkt_get_address pkt"
  fix w' w1 pp pd created v
  assume w1: "routed w w1" "takes_routes E \<longrightarrow> neighbour_known ?h pp w w1"
    and c: "created = (route_to w1 ?d = None)" and v: "routed w1 v"
    and pd: "if created then route_added E (reply_route E (rhopped q) ?h) w1 pd (searched ?d w1) v
      else route_to w1 ?d = Some pd \<and> v = searched ?d w1"
    and fin: "if rrep_accepted q created pd v then rrep_concludes E pkt q pd v w' else w' = v"
  have k: "neighbour_known ?h pp w w1" using w1(2) E by simp
  have ok1: "world_ok w1" by (rule routed_wf [OF w1(1)])
  have "hops_but {?d} w1 v"
  proof (cases created)
    case True
    moreover have "rt_dst_ip (reply_route E (rhopped q) ?h) = ?d" by (simp add: reply_route_def Let_def)
    ultimately obtain w2 where "w_table v = pd # w_table w1"
      "w_routes v = (w_routes (searched ?d w1))(pd \<mapsto> installed E (reply_route E (rhopped q) ?h) w2)"
      using pd c E by (auto simp: route_added_def)
    then show ?thesis by (rule hops_but_added [OF ok1 routed_wf [OF v]]) (simp add: reply_route_def Let_def)
  qed (use pd hops_but_searched [OF ok1] in simp)
  then have "hops_but {?h, ?d} w v" using k hops_but_trans [of "{?h}" w w1 "{?d}" v] by (simp add: neighbour_known_def)
  with reply_to_search [OF ok none E w1(1) k v pd c] fin routed_trans [OF w1(1) v]
  show "\<exists>v pd r. routed w v \<and> hops_but {?h, ?d} w v \<and> pd \<in> set (w_table v) \<and> w_routes v pd = Some r \<and>
    rt_dst_ip r = ?d \<and> no_waiters ?d v \<and> rrep_concludes E pkt q pd v w'" by auto
qed

text \<open>Packets that no longer wait have been accepted.\<close>

lemma waiters_gone:
  assumes wv: "routed w v" and n: "no_waiters d v" and p: "p \<in> dom (w_pkts w)" "packet_dest w p = d"
  shows "p \<notin> dom (w_pkts v) \<and> Verdict (packet_id w p) NF_ACCEPT \<in> set (w_out v)"
proof -
  have "p \<notin> dom (w_pkts v)"
  proof
    assume in_v: "p \<in> dom (w_pkts v)"
    then have "w_pkts v p = w_pkts w p" using wv accounted_pkts [of w v] by (auto simp: routed_def map_le_def)
    then have "packet_dest v p = d" using p(2) by (simp add: packet_dest_def)
    then show False using in_v n by (simp add: no_waiters_def)
  qed
  moreover have "accounted w v" using wv by (simp add: routed_def)
  ultimately show ?thesis using accounted_gone [of w v p] p(1) by (metis DiffI Un_iff set_append)
qed

text \<open>Removing the only entry for a destination ends the search.\<close>

lemma search_over:
  assumes ok: "world_ok v" "world_ok w'"
    and del: "case find (\<lambda>p. rq_rreq_id (the (w_rreqs v p)) \<le> rid \<and> rq_dst (the (w_rreqs v p)) = d) (w_rreq_queue v) of
      None \<Rightarrow> w_rreqs w' = w_rreqs v | Some p \<Rightarrow> w_rreqs w' = (w_rreqs v)(p := None)"
    and u: "\<exists>!p. \<exists>e. w_rreqs v p = Some e \<and> rq_dst e = d"
    and le: "\<forall>e \<in> ran (w_rreqs v). rq_dst e = d \<longrightarrow> rq_rreq_id e \<le> rid"
  shows "rreq_fifo_waiting_response_for d w' = Some False"
proof -
  obtain p e where p: "w_rreqs v p = Some e" "rq_dst e = d" using u by blast
  have only: "x = p" if "w_rreqs v x = Some y" "rq_dst y = d" for x y using u p that by blast
  have "rq_rreq_id e \<le> rid" using p le by (auto simp: ran_def)
  then have "\<exists>e \<in> ran (w_rreqs v). rq_rreq_id e \<le> rid \<and> rq_dst e = d" using p by (auto simp: ran_def)
  then obtain x where x: "find (\<lambda>p. rq_rreq_id (the (w_rreqs v p)) \<le> rid \<and> rq_dst (the (w_rreqs v p)) = d) (w_rreq_queue v) = Some x"
    using find_iff_ran [OF ok(1), of "\<lambda>e. rq_rreq_id e \<le> rid \<and> rq_dst e = d"] by blast
  have "x \<in> dom (w_rreqs v)" "rq_dst (the (w_rreqs v x)) = d"
    using first_match [OF x] wf_rreqs(1) [OF ok(1)] by auto
  then have "x = p" using only by auto
  then have "w_rreqs w' = (w_rreqs v)(p := None)" using del x by simp
  then show ?thesis
    using only ok(2) by (auto simp: rreq_fifo_waiting_eq ran_def split: if_splits)
qed

text \<open>
  C9: a reply to this node's search for a destination without any route in the table, not even an
  expired one, brings what it was for, provided that the kernel takes routes: the table has
  afterwards a route to the destination over the neighbour that delivered the reply, one hop longer
  than the reply says and with the reply's sequence number; every packet that waited for the
  destination has been accepted and has left the queue; no datagram is sent; and if the search is
  the only request for the destination on record, with an identifier not greater than the node's
  last, it is over.
\<close>
theorem reply_completes_search:
  assumes "world_ok w" "pkt_ok pkt" "pkt_rrep pkt = Some q" "takes_routes E"
    and "rrep_orig_ip_addr q = w_ip_addr w" "route_to w (rrep_dest_ip_addr q) = None"
  shows "runs (aodv_process_rrep E pkt w) (\<lambda>w'. world_ok w' \<and> sent w' = sent w \<and>
    has_route (rrep_dest_ip_addr q) (aodv_pkt_get_address pkt) (rrep_hop_count q + 1) (rrep_dest_seq_num q) w' \<and>
    (\<forall>p \<in> dom (w_pkts w). packet_dest w p = rrep_dest_ip_addr q \<longrightarrow>
       p \<notin> dom (w_pkts w') \<and> Verdict (packet_id w p) NF_ACCEPT \<in> set (w_out w')) \<and>
    ((\<exists>!p. \<exists>e. w_rreqs w p = Some e \<and> rq_dst e = rrep_dest_ip_addr q) \<longrightarrow>
     (\<forall>e \<in> ran (w_rreqs w). rq_dst e = rrep_dest_ip_addr q \<longrightarrow> rq_rreq_id e \<le> w_rreq_id w) \<longrightarrow>
     rreq_fifo_waiting_response_for (rrep_dest_ip_addr q) w' = Some False))"
proof (rule runs_mono [OF reply_accepted [OF assms(1-4,6)]], elim exE conjE)
  let ?d = "rrep_dest_ip_addr q" and ?h = "aodv_pkt_get_address pkt"
  fix w' v pd r
  assume wv: "routed w v"
    and r: "pd \<in> set (w_table v)" "w_routes v pd = Some r" "rt_dst_ip r = ?d" "rrep_concludes E pkt q pd v w'"
      "no_waiters ?d v"
  have self: "w_ip_addr v = rrep_orig_ip_addr q" "w_rreq_id v = w_rreq_id w" "w_rreqs v = w_rreqs w"
    using wv assms(5) by (simp_all add: routed_def extends_def same_defs)
  have fw: "w_out w' = w_out v" "w_table w' = w_table v" "w_pkts w' = w_pkts v" "world_ok w'"
    "w_routes w' = (w_routes v)(pd \<mapsto> renewed (fwd_route E (rhopped q) ?h (the (w_routes v pd))))"
    using r(4) self(1) by (auto simp: rrep_concludes_def same_pkts_def intro: extends_wf)
  have del: "case find (\<lambda>p. rq_rreq_id (the (w_rreqs v p)) \<le> w_rreq_id v \<and> rq_dst (the (w_rreqs v p)) = ?d) (w_rreq_queue v) of
      None \<Rightarrow> w_rreqs w' = w_rreqs v | Some p \<Rightarrow> w_rreqs w' = (w_rreqs v)(p := None)"
    using r(4) self(1) by (simp add: rrep_concludes_def)
  show "world_ok w' \<and> sent w' = sent w \<and> has_route ?d ?h (rrep_hop_count q + 1) (rrep_dest_seq_num q) w' \<and>
    (\<forall>p \<in> dom (w_pkts w). packet_dest w p = ?d \<longrightarrow>
       p \<notin> dom (w_pkts w') \<and> Verdict (packet_id w p) NF_ACCEPT \<in> set (w_out w')) \<and>
    ((\<exists>!p. \<exists>e. w_rreqs w p = Some e \<and> rq_dst e = ?d) \<longrightarrow>
     (\<forall>e \<in> ran (w_rreqs w). rq_dst e = ?d \<longrightarrow> rq_rreq_id e \<le> w_rreq_id w) \<longrightarrow>
     rreq_fifo_waiting_response_for ?d w' = Some False)"
  proof (intro conjI ballI impI)
    show "world_ok w'" by (rule fw(4))
    show "sent w' = sent w" using wv fw(1) by (simp add: routed_def sent_def)
    have "leads ?d ?h (rrep_hop_count q + 1) (rrep_dest_seq_num q) (renewed (fwd_route E (rhopped q) ?h r))"
      using fwd_route_leads [of r ?h "rhopped q" E] r(3) by (simp add: rhopped_def)
    then show "has_route ?d ?h (rrep_hop_count q + 1) (rrep_dest_seq_num q) w'"
      using fw(2,5) r(1,2) unfolding has_route_def by force
  next
    fix p assume "p \<in> dom (w_pkts w)" "packet_dest w p = ?d"
    from waiters_gone [OF wv r(5) this]
    show "p \<notin> dom (w_pkts w')" "Verdict (packet_id w p) NF_ACCEPT \<in> set (w_out w')"
      using fw(1,3) by auto
  next
    assume u: "\<exists>!p. \<exists>e. w_rreqs w p = Some e \<and> rq_dst e = ?d"
      and le: "\<forall>e \<in> ran (w_rreqs w). rq_dst e = ?d \<longrightarrow> rq_rreq_id e \<le> w_rreq_id w"
    show "rreq_fifo_waiting_response_for ?d w' = Some False"
      using search_over [OF routed_wf [OF wv] fw(4) del] u le self(2,3) by simp
  qed
qed

theorem reply_completes_search_witness:
  "\<exists>w'. aodv_process_rrep sample_env (sample_pkt (rrep_bytes (sample_rrep 0x0A000003))) sample_world = Some w' \<and>
    has_route 0x0A000003 0x0A000002 2 9 w' \<and> 8 \<notin> dom (w_pkts w') \<and> Verdict 41 NF_ACCEPT \<in> set (w_out w')"
proof -
  have q: "rrep_orig_ip_addr (sample_rrep d) = w_ip_addr sample_world" "rrep_dest_ip_addr (sample_rrep d) = d"
    "rrep_hop_count (sample_rrep d) + 1 = 2" "rrep_dest_seq_num (sample_rrep d) = 9" for d
    by (simp_all add: sample_rrep_def sample_parts)
  have p: "8 \<in> dom (w_pkts sample_world)" "packet_dest sample_world 8 = 0x0A000003" "packet_id sample_world 8 = 41"
    by (simp_all add: sample_parts packet_dest_def packet_id_def)
  show ?thesis
    using reply_completes_search [OF sample_world_ok sample_rrep_pkt sample_takes_routes, of "0x0A000003"]
      sample_route_to(1) p
    unfolding q sample_pkt_address by (fastforce simp: runs_iff)
qed

text \<open>
  Without that condition a reply need not help: when the table still has a route to the destination,
  an expired one for instance, no packet that waits for the destination is released, whatever the
  reply says. Only \<open>routing_table_add\<close> releases packets, and it is not called for a known route.
\<close>
theorem reply_over_known_route_releases_nothing:
  assumes "world_ok w" "pkt_ok pkt" "pkt_rrep pkt = Some q" "route_to w (rrep_dest_ip_addr q) \<noteq> None"
  shows "runs (aodv_process_rrep E pkt w) (\<lambda>w'. \<forall>p e. w_pkts w p = Some e \<longrightarrow>
    pf_dest e = rrep_dest_ip_addr q \<longrightarrow> w_pkts w' p = Some e)"
proof (rule runs_mono [OF aodv_process_rrep_handled [OF assms(1-3)]], intro allI impI)
  fix w' p e assume h: "handled w w'" and p: "w_pkts w p = Some e" "pf_dest e = rrep_dest_ip_addr q"
  have a: "accounted w w'" using h by (simp add: handled_def)
  have k: "knows w (packet_dest w p)" using assms(4) p by (simp add: knows_iff [OF assms(1)] packet_dest_def)
  have "p \<in> dom (w_pkts w')"
  proof (rule ccontr)
    assume "p \<notin> dom (w_pkts w')"
    then have "p \<in> dom (w_pkts w) - dom (w_pkts w')" using p(1) by auto
    then show False using accounted_gone [OF a] k by metis
  qed
  then show "w_pkts w' p = Some e" using accounted_pkts [OF a] p(1) by (auto simp: map_le_def)
qed

text \<open>The sample state with an expired route to a destination that it searches.\<close>

definition expired_world :: world where
  "expired_world = sample_world\<lparr>w_routes := (w_routes sample_world)(3 \<mapsto>
     (sample_route 0x0A000003 Routing_table_cb 8)\<lparr>rt_flags := 0\<rparr>)\<rparr>"

lemma expired_world_ok: "world_ok expired_world"
proof -
  have "w_routes sample_world 3 = Some (sample_route 0x0A000002 Routing_table_cb 8)" by (simp add: sample_parts)
  then show ?thesis
    using sample_world_ok unfolding expired_world_def world_ok_def heap_ok_def blocks_ok_def table_ok_def rreqs_ok_def
    by (auto simp: sample_parts sample_route_def)
qed

theorem reply_over_known_route_releases_nothing_witness:
  "\<exists>w'. aodv_process_rrep sample_env (sample_pkt (rrep_bytes (sample_rrep 0x0A000003))) expired_world = Some w' \<and>
    w_pkts w' 8 = Some \<lparr>pf_id = 41, pf_dest = 0x0A000003\<rparr>"
proof -
  have q: "rrep_dest_ip_addr (sample_rrep d) = d" for d by (simp add: sample_rrep_def)
  have "route_to expired_world 0x0A000003 \<noteq> None"
    by (simp add: expired_world_def route_to_def route_dst_def sample_parts sample_route_def)
  then show ?thesis
    using reply_over_known_route_releases_nothing [OF expired_world_ok sample_rrep_pkt, of "0x0A000003" sample_env] q
    by (auto simp: runs_iff expired_world_def sample_parts)
qed

text \<open>
  C10: a reply may leave its search pending. Requests of other nodes are recorded in the same queue as
  this node's searches, and only the latest record for the destination is removed: when that is
  the record of a request that this node relayed, its own search goes on although the route is
  there.
\<close>
theorem reply_may_leave_search_pending:
  assumes "world_ok w" "pkt_ok pkt" "pkt_rrep pkt = Some q" "takes_routes E"
    and "rrep_orig_ip_addr q = w_ip_addr w" "route_to w (rrep_dest_ip_addr q) = None"
    and first: "find (\<lambda>p. rq_rreq_id (the (w_rreqs w p)) \<le> w_rreq_id w \<and> rq_dst (the (w_rreqs w p)) = rrep_dest_ip_addr q)
      (w_rreq_queue w) = Some p"
    and own: "w_rreqs w x = Some e" "rq_dst e = rrep_dest_ip_addr q" "0 \<le> sint (rq_prev_tries e)" "x \<noteq> p"
  shows "runs (aodv_process_rrep E pkt w) (\<lambda>w'. (\<exists>h n s. has_route (rrep_dest_ip_addr q) h n s w') \<and>
    rreq_fifo_waiting_response_for (rrep_dest_ip_addr q) w' = Some True)"
proof (rule runs_mono [OF reply_accepted [OF assms(1-4,6)]], elim exE conjE)
  let ?d = "rrep_dest_ip_addr q" and ?h = "aodv_pkt_get_address pkt"
  fix w' v pd r
  assume wv: "routed w v" and r: "pd \<in> set (w_table v)" "w_routes v pd = Some r" "rt_dst_ip r = ?d" "rrep_concludes E pkt q pd v w'"
  have self: "w_ip_addr v = rrep_orig_ip_addr q" "w_rreq_id v = w_rreq_id w" "w_rreqs v = w_rreqs w"
    "w_rreq_queue v = w_rreq_queue w"
    using wv assms(5) by (simp_all add: routed_def extends_def same_defs)
  have fw: "w_table w' = w_table v" "world_ok w'"
    "w_routes w' = (w_routes v)(pd \<mapsto> renewed (fwd_route E (rhopped q) ?h (the (w_routes v pd))))"
    using r(4) self(1) by (auto simp: rrep_concludes_def intro: extends_wf)
  have "w_rreqs w' = (w_rreqs w)(p := None)" using r(4) self first by (simp add: rrep_concludes_def)
  then have "e \<in> ran (w_rreqs w')" using own(1,4) by (auto simp: ran_def)
  then have "rreq_fifo_waiting_response_for ?d w' = Some True" using own(2,3) by (auto simp: rreq_fifo_waiting_eq [OF fw(2)])
  moreover have "leads ?d ?h (rrep_hop_count q + 1) (rrep_dest_seq_num q) (renewed (fwd_route E (rhopped q) ?h r))"
    using fwd_route_leads [of r ?h "rhopped q" E] r(3) by (simp add: rhopped_def)
  then have "has_route ?d ?h (rrep_hop_count q + 1) (rrep_dest_seq_num q) w'"
    using fw(1,3) r(1,2) unfolding has_route_def by force
  ultimately show "(\<exists>h n s. has_route ?d h n s w') \<and> rreq_fifo_waiting_response_for ?d w' = Some True" by blast
qed

text \<open>The sample state after it has relayed a request for a destination that it searches itself.\<close>

definition relayed_world :: world where
  "relayed_world = sample_world\<lparr>w_rreqs := (w_rreqs sample_world)(7 \<mapsto>
     \<lparr>rq_rreq_id = 1, rq_dst = 0x0A000003, rq_prev_tries = -1\<rparr>)\<rparr>"

lemma relayed_world_ok: "world_ok relayed_world"
  unfolding relayed_world_def by (rule wf_rreq_upd [OF sample_world_ok]) (simp_all add: sample_parts)

theorem reply_may_leave_search_pending_witness:
  "runs (aodv_process_rrep sample_env (sample_pkt (rrep_bytes (sample_rrep 0x0A000003))) relayed_world)
    (\<lambda>w'. rreq_fifo_waiting_response_for 0x0A000003 w' = Some True)"
proof -
  have q: "rrep_orig_ip_addr (sample_rrep d) = w_ip_addr relayed_world" "rrep_dest_ip_addr (sample_rrep d) = d" for d
    by (simp_all add: sample_rrep_def relayed_world_def sample_parts)
  have f: "find (\<lambda>p. rq_rreq_id (the (w_rreqs relayed_world p)) \<le> w_rreq_id relayed_world \<and>
      rq_dst (the (w_rreqs relayed_world p)) = 0x0A000003) (w_rreq_queue relayed_world) = Some 7"
    "w_rreqs relayed_world 5 = Some \<lparr>rq_rreq_id = 1, rq_dst = 0x0A000003, rq_prev_tries = 0\<rparr>"
    by (simp_all add: relayed_world_def sample_parts)
  have n: "route_to relayed_world 0x0A000003 = None"
    using sample_route_to(1) by (simp add: relayed_world_def route_to_def route_dst_def)
  show ?thesis
    by (rule runs_mono [OF reply_may_leave_search_pending [OF relayed_world_ok sample_rrep_pkt sample_takes_routes,
          of "0x0A000003" 7 5, unfolded q, OF refl n f]]) (simp_all add: q)
qed

text \<open>
  C22: a reply never multiplies. At the originator of the search no datagram is sent; elsewhere
  at most one, the reply with its hop count one higher and its hop limit one lower, to one
  neighbour.
\<close>
theorem reply_is_forwarded_at_most_once:
  assumes "world_ok w" "pkt_ok pkt" "pkt_rrep pkt = Some q"
  shows "runs (aodv_process_rrep E pkt w) (\<lambda>w'. world_ok w' \<and> (sent w' = sent w \<or>
    w_ip_addr w \<noteq> rrep_orig_ip_addr q \<and>
    (\<exists>hop. sent w' = Sent (htonl hop) (sin_port (pkt_address pkt)) (pkt_ttl pkt - 1)
       (rrep_bytes (aodv_pkt_prepare_rrep (q\<lparr>rrep_hop_count := rrep_hop_count q + 1\<rparr>)) @ drop 20 (pkt_bytes pkt)) # sent w)))"
proof (rule runs_mono [OF aodv_process_rrep_ok [OF assms]], elim exE conjE)
  fix w' w1 pp pd created v
  assume "routed w w1" "routed w1 v" and fin: "if rrep_accepted q created pd v then rrep_concludes E pkt q pd v w' else w' = v"
  then have wv: "routed w v" by (blast intro: routed_trans)
  then have v: "sent v = sent w" "world_ok v" "w_ip_addr v = w_ip_addr w"
    by (auto simp: routed_def extends_def)
  show "world_ok w' \<and> (sent w' = sent w \<or> w_ip_addr w \<noteq> rrep_orig_ip_addr q \<and>
    (\<exists>hop. sent w' = Sent (htonl hop) (sin_port (pkt_address pkt)) (pkt_ttl pkt - 1)
       (rrep_bytes (aodv_pkt_prepare_rrep (q\<lparr>rrep_hop_count := rrep_hop_count q + 1\<rparr>)) @ drop 20 (pkt_bytes pkt)) # sent w))"
  proof (cases "rrep_accepted q created pd v")
    case True
    then have "rrep_concludes E pkt q pd v w'" using fin by simp
    then show ?thesis
      using v by (auto simp: rrep_concludes_def sent_def forwarded_rrep_def rhopped_def intro: extends_wf
          split: if_splits option.splits)
  qed (use fin v in simp)
qed

theorem reply_is_forwarded_at_most_once_witness:
  "\<exists>w'. aodv_process_rrep sample_env (sample_pkt (rrep_bytes (sample_rrep 0x0A000003))) sample_world = Some w' \<and> sent w' = []"
  using reply_is_forwarded_at_most_once [OF sample_world_ok sample_rrep_pkt, of sample_env "0x0A000003"]
  by (auto simp: runs_iff sample_parts sample_rrep_def sent_def)


section \<open>Receiving a datagram\<close>

text \<open>A message as the socket delivers it, from 10.0.0.2 and without control data.\<close>

definition sample_msg :: "u8 list \<Rightarrow> msghdr" where
  "sample_msg bs = \<lparr>msg_namelen = 16,
     msg_name = \<lparr>sin_family = AF_INET, sin_port = htons AODV_UDP_PORT, sin_addr = htonl 0x0A000002\<rparr>,
     msg_iovlen = 1, msg_iov_base = bs, msg_controllen = 0, msg_control = []\<rparr>"

lemma sample_msg_delivered: "bs \<noteq> [] \<Longrightarrow> delivered (sample_msg bs) (int (length bs))"
  by (simp add: delivered_def sample_msg_def)

text \<open>
  A message as \<open>recvmsg\<close> hands it over when it does not fail: as many bytes as reported, possibly
  none, and the hop limit among the control data if there are any.
\<close>

definition arrives :: "msghdr \<Rightarrow> int \<Rightarrow> bool" where
  "arrives msg n \<longleftrightarrow> 0 < msg_iovlen msg \<and> 0 \<le> n \<and> nat n \<le> length (msg_iov_base msg) \<and>
     (0 < msg_controllen msg \<longrightarrow> aodv_pkt_receive_ttl msg \<noteq> None)"

lemma empty_datagram_undefined:
  assumes "arrives msg 0"
  shows "aodv_process_packet E msg 0 w = None"
  using assms
  by (auto simp: arrives_def aodv_process_packet_def aodv_pkt_get_def aodv_pkt_check_def aodv_pkt_get_type_def
      Let_def split: bind_splits prod.splits if_splits)

text \<open>A packet that still waits, or for which an accepting verdict has been given since.\<close>

lemma accounted_packet:
  assumes "accounted w w'" "w_pkts w p = Some e"
  shows "w_pkts w' p = Some e \<or> (\<exists>es. w_out w' = es @ w_out w \<and> Verdict (pf_id e) NF_ACCEPT \<in> set es)"
proof (cases "p \<in> dom (w_pkts w')")
  case True
  then show ?thesis using accounted_pkts [OF assms(1)] assms(2) by (auto simp: map_le_def)
next
  case False
  then have "p \<in> dom (w_pkts w) - dom (w_pkts w')" using assms(2) by auto
  moreover have "packet_id w p = pf_id e" using assms(2) by (simp add: packet_id_def)
  ultimately show ?thesis using accounted_gone [OF assms(1)] by metis
qed

text \<open>
  C4: a datagram of whatever bytes from whatever address is handled without undefined behaviour,
  unless it is empty: an empty one is always undefined, since its type is read from a buffer of no
  bytes. Handling keeps the state well-formed, no route leaves the table, the address and the
  end flag stay, and every captured packet that leaves the queue is accepted.
\<close>
theorem any_datagram_is_handled_safely:
  assumes "world_ok w" "arrives msg n"
  shows "case aodv_process_packet E msg n w of None \<Rightarrow> n = 0
    | Some w' \<Rightarrow> n \<noteq> 0 \<and> world_ok w' \<and> set (w_table w) \<subseteq> set (w_table w') \<and>
        w_ip_addr w' = w_ip_addr w \<and> w_end w' = w_end w \<and>
        (\<forall>p e. w_pkts w p = Some e \<longrightarrow> w_pkts w' p = Some e \<or>
           (\<exists>es. w_out w' = es @ w_out w \<and> Verdict (pf_id e) NF_ACCEPT \<in> set es))"
proof (cases "n = 0")
  case True
  then show ?thesis using empty_datagram_undefined [of msg E w] assms(2) by simp
next
  case False
  then have "delivered msg n" using assms(2) by (simp add: arrives_def delivered_def)
  from aodv_process_packet_ok [OF assms(1) this, of E]
  obtain w' where w': "aodv_process_packet E msg n w = Some w'" "extends w w'" "accounted w w'" "w_end w' = w_end w"
    by (auto simp: runs_iff)
  then show ?thesis
    using False extends_table [OF w'(2)] accounted_packet [OF w'(3)] by (auto simp: extends_def)
qed

theorem any_datagram_is_handled_safely_witness:
  "\<exists>w'. aodv_process_packet sample_env (sample_msg [1, 0, 0, 7]) 4 sample_world = Some w' \<and> world_ok w' \<and> 3 \<in> set (w_table w')"
proof -
  have "arrives (sample_msg [1, 0, 0, 7]) 4" by (simp add: arrives_def sample_msg_def)
  from any_datagram_is_handled_safely [OF sample_world_ok this, of sample_env]
  show ?thesis by (auto simp: sample_parts split: option.splits)
qed

text \<open>
  A datagram that goes to a handler gives its packet object back; one that fails the checks or
  comes from the node's own address leaks it.
\<close>
theorem rejected_datagram_leaks_its_packet:
  assumes "world_ok w" "delivered msg n"
  shows "runs (aodv_process_packet E msg n w) (\<lambda>w'.
    w_live_pkts w' = w_live_pkts w + (if goes_to_handler msg n w then 0 else 1))"
  by (rule runs_mono [OF aodv_process_packet_ok [OF assms]]) simp

theorem rejected_datagram_leaks_its_packet_witness:
  "runs (aodv_process_packet sample_env (sample_msg [1, 0, 0, 7]) 4 sample_world) (\<lambda>w'. w_live_pkts w' = 1)"
proof -
  have "\<not> goes_to_handler (sample_msg [1, 0, 0, 7]) 4 sample_world"
    by (simp add: goes_to_handler_def sample_msg_def aodv_pkt_get_def aodv_pkt_alloc_def Let_def aodv_pkt_check_def
        aodv_pkt_get_type_def aodv_types aodv_pkt_get_payload_len_def count_bad_def split: option.split)
  moreover have "w_live_pkts sample_world = 0" by (simp add: sample_world_def)
  ultimately show ?thesis
    using rejected_datagram_leaks_its_packet [OF sample_world_ok sample_msg_delivered, of "[1, 0, 0, 7]" sample_env] by simp
qed

section \<open>The alarm of a request\<close>

text \<open>
  C23: when the alarm of a pending search rings with tries left, the search is repeated: one try
  more on record under a new identifier, the alarm set again, and exactly one request sent, with
  the next sequence number and a hop limit widened by the number of tries; every other request
  and every other alarm stays, and no packet leaves the queue.
\<close>
theorem pending_search_is_repeated:
  assumes "world_ok w" "w_rreqs w p = Some e" "0 \<le> sint (rq_prev_tries e)" "sint (rq_prev_tries e) < 2"
  shows "runs (rreq_fifo_alarm_cb E p p w) (\<lambda>w'. world_ok w' \<and>
    w_rreqs w' = (w_rreqs w)(p \<mapsto> e\<lparr>rq_prev_tries := rq_prev_tries e + 1, rq_rreq_id := w_rreq_id w + 1\<rparr>) \<and>
    p \<in> waiting (w_alarms w') \<and> waiting (w_alarms w) - {p} \<subseteq> waiting (w_alarms w') \<and> w_pkts w' = w_pkts w \<and>
    w_out w' = rreq_event (ucast (expanding_ring_search_ttl 0 (rq_prev_tries e + 1))) w
      (own_rreq (rq_dst e) None (next_self w)) # w_out w)"
  by (rule runs_mono [OF rreq_alarm_retry [OF assms]]) (simp add: alarm_ran_def same_defs)

theorem pending_search_is_repeated_witness:
  "\<exists>w' e. rreq_fifo_alarm_cb sample_env 5 5 sample_world = Some w' \<and> w_rreqs w' 5 = Some e \<and> rq_prev_tries e = 1 \<and>
    rq_rreq_id e = 3 \<and> length (w_out w') = 1"
  using pending_search_is_repeated [OF sample_world_ok, of 5 "\<lparr>rq_rreq_id = 1, rq_dst = 0x0A000003, rq_prev_tries = 0\<rparr>" sample_env]
  by (auto simp: runs_iff sample_parts)

text \<open>
  When the alarm of a pending search rings after the last try, the callback frees the entry
  and then reads the destination out of it: the behaviour is undefined, so the packets that wait
  for the destination are not dropped by a defined execution.
\<close>
theorem failed_search_reads_freed_entry:
  assumes "world_ok w" "w_rreqs w p = Some e" "sint (rq_prev_tries e) = 2"
  shows "rreq_fifo_alarm_cb E p p w = None"
  using assms by (rule rreq_alarm_last)

theorem failed_search_reads_freed_entry_witness:
  "rreq_fifo_alarm_cb sample_env 6 6 sample_world = None"
  by (rule failed_search_reads_freed_entry [OF sample_world_ok, of 6 "\<lparr>rq_rreq_id = 2, rq_dst = 0x0A000009, rq_prev_tries = 2\<rparr>"])
    (simp_all add: sample_parts)

text \<open>
  The alarm of a request of another node forgets it: the entry is gone, so the same request is
  handled as a new one again, and nothing else of the daemon changes.
\<close>
theorem foreign_request_is_forgotten:
  assumes "world_ok w" "w_rreqs w p = Some e" "sint (rq_prev_tries e) < 0"
  shows "runs (rreq_fifo_alarm_cb E p p w) (\<lambda>w'. world_ok w' \<and> w_rreqs w' = (w_rreqs w)(p := None) \<and>
    p \<notin> waiting (w_alarms w') \<and> w_routes w' = w_routes w \<and> w_table w' = w_table w \<and> w_pkts w' = w_pkts w \<and> w_out w' = w_out w)"
proof (rule runs_mono [OF rreq_alarm_foreign [OF assms]])
  fix w' assume a: "alarm_ran p w w' \<and> rreqs_only w w' \<and> w_rreqs w' = (w_rreqs w)(p := None)"
  then have ok: "world_ok w'" by (simp add: rreqs_only_def)
  have "p \<notin> dom (w_routes w)" "p \<noteq> FLUSH_ALARM" using assms(1,2) by (auto simp: world_ok_def heap_ok_def)
  then have "p \<notin> dom (al_blocks (w_alarms w'))" using wf_dom_blocks [OF ok] a by (simp add: rreqs_only_def)
  then have "p \<notin> waiting (w_alarms w')" using alarms_ok_dom [OF wf_alarms_ok [OF ok]] by blast
  then show "world_ok w' \<and> w_rreqs w' = (w_rreqs w)(p := None) \<and>
    p \<notin> waiting (w_alarms w') \<and> w_routes w' = w_routes w \<and> w_table w' = w_table w \<and> w_pkts w' = w_pkts w \<and> w_out w' = w_out w"
    using a by (simp add: rreqs_only_def same_defs)
qed

theorem foreign_request_is_forgotten_witness:
  "\<exists>w'. rreq_fifo_alarm_cb sample_env 7 7 sample_world = Some w' \<and> 7 \<notin> dom (w_rreqs w') \<and> w_out w' = []"
  using foreign_request_is_forgotten [OF sample_world_ok, of 7 "\<lparr>rq_rreq_id = 9, rq_dst = 0x0A000007, rq_prev_tries = -1\<rparr>" sample_env]
  by (auto simp: runs_iff sample_parts)

end
