(* ===== verification/Daemon.thy ===== *)
theory Daemon
  imports Nfqueue Protocol Comm
begin

unbundle bit_operations_syntax

text \<open>
  The daemon as a whole: running the due alarms (\<open>libmeshias/alarm/alarm.c\<close>), receiving from
  the AODV socket (\<open>sockets/aodv_socket.c\<close>), the descriptor set (\<open>sockets/fds.c\<close>), start and end
  (\<open>msh_data.c\<close>) and the main loop of \<open>meshias.c\<close>, as a step relation over its program points.

  What arrives on the three sockets is the input of a step. The variable \<open>next\<close> of \<open>main\<close> is not
  initialised: its first value is arbitrary.
\<close>

section \<open>Running the alarms\<close>

definition msh_data_process_wait_queue_cb :: "env \<Rightarrow> ptr \<Rightarrow> world \<Rightarrow> world option" where
  "msh_data_process_wait_queue_cb E alarm w = w_add_alarm E alarm 1 0 (w\<lparr>w_num_rreq_sent := 0\<rparr>)"

text \<open>\<open>this->function(this, this->data)\<close>; the function of a block is never null once it is set.\<close>

definition call_alarm :: "env \<Rightarrow> ptr \<Rightarrow> world \<Rightarrow> world option" where
  "call_alarm E p w = do {
     b \<leftarrow> al_blocks (w_alarms w) p;
     case al_function b of
       No_alarm_fn \<Rightarrow> None
     | Route_alarm_fn \<Rightarrow> msh_route_alarm_cb E p (al_data b) w
     | Rreq_alarm_fn \<Rightarrow> rreq_fifo_alarm_cb E p (al_data b) w
     | Flush_alarm_fn \<Rightarrow> msh_data_process_wait_queue_cb E p w }"

definition run_alarm :: "env \<Rightarrow> ptr \<Rightarrow> world \<Rightarrow> world option" where
  "run_alarm E p w = do {
     w \<leftarrow> on_alarms (unlink_due p) w;
     call_alarm E p w }"

text \<open>\<open>get_next_alarm_run\<close> with the clock read in it; \<open>None\<close> inside is the null pointer.\<close>

definition next_alarm_run :: "env \<Rightarrow> world \<Rightarrow> (timeval option \<times> world) option" where
  "next_alarm_run E w = (case gettimeofday E w of (now, w) \<Rightarrow> do {
     r \<leftarrow> get_next_alarm_run now (w_alarms w);
     Some (r, w) })"

definition do_alarm_run :: "env \<Rightarrow> world \<Rightarrow> (timeval option \<times> world) option" where
  "do_alarm_run E w = (case gettimeofday E w of (tv, w) \<Rightarrow> do {
     queue \<leftarrow> alarm_run_queue tv (w_alarms w);
     w \<leftarrow> fold_steps (run_alarm E) queue w;
     next_alarm_run E w })"

text \<open>The pointer that \<open>main\<close> passes is never null. The returned pointer is not used.\<close>

definition process_alarms :: "env \<Rightarrow> timeval \<Rightarrow> world \<Rightarrow> (timeval option \<times> world) option" where
  "process_alarms E next w = (if \<not> timerisset next then do_alarm_run E w else Some (None, w))"

section \<open>Sockets\<close>

text \<open>\<open>struct fds\<close>: the descriptors waited for, and the greatest of them.\<close>

record fds =
  readfds :: "int set"
  maxfd :: int

definition create_fds :: fds where
  "create_fds = \<lparr>readfds = {}, maxfd = 0\<rparr>"

definition register_fd :: "int \<Rightarrow> fds \<Rightarrow> fds" where
  "register_fd fd f = (let f = f\<lparr>readfds := insert fd (readfds f)\<rparr> in
     if fd > maxfd f then f\<lparr>maxfd := fd\<rparr> else f)"

text \<open>\<open>numbytes\<close> is what \<open>recvmsg\<close> returns, \<open>msg\<close> the message it fills in.\<close>

definition aodv_socket_receive_packet :: "env \<Rightarrow> int \<Rightarrow> msghdr \<Rightarrow> world \<Rightarrow> world option" where
  "aodv_socket_receive_packet E numbytes msg w =
     (if numbytes = -1 then Some (upd_stats (\<lambda>s. s\<lparr>error_aodv_recv := error_aodv_recv s + 1\<rparr>) w)
      else aodv_process_packet E msg numbytes w)"

section \<open>Alarm callbacks\<close>

lemma unlink_wf:
  assumes ok: "world_ok w" and p: "p \<in> waiting (w_alarms w)"
  obtains A where "unlink_due p (w_alarms w) = Some A" "world_ok (w\<lparr>w_alarms := A\<rparr>)"
    "waiting A = waiting (w_alarms w) - {p}"
    "al_blocks A = (al_blocks (w_alarms w))(p \<mapsto> (the (al_blocks (w_alarms w) p))\<lparr>al_linked := False\<rparr>)"
proof -
  have d: "p \<in> dom (al_blocks (w_alarms w))" using p alarms_ok_dom [OF wf_alarms_ok [OF ok]] by blast
  obtain A where A: "unlink_due p (w_alarms w) = Some A" "alarms_ok A" "waiting A = waiting (w_alarms w) - {p}"
    "al_blocks A = (al_blocks (w_alarms w))(p \<mapsto> (the (al_blocks (w_alarms w) p))\<lparr>al_linked := False\<rparr>)"
    using unlink_due_ok [OF wf_alarms_ok [OF ok] p] by (auto simp: runs_iff)
  have "world_ok (w\<lparr>w_alarms := A\<rparr>)"
    by (rule wf_alarms [OF ok A(2)]) (use A(4) d in \<open>auto split: if_splits\<close>)
  then show ?thesis using that A(1,3,4) by blast
qed

text \<open>
  The contract of an alarm callback: called on a live object that it owns, in a well-formed
  state in which the alarm has been taken off the queue, it is defined, keeps the state
  well-formed and calls off no alarm but its own.
\<close>

locale alarm_callback =
  fixes owns :: "ptr \<Rightarrow> world \<Rightarrow> bool"
    and callback :: "env \<Rightarrow> ptr \<Rightarrow> world \<Rightarrow> world option"
  assumes callback_ok: "world_ok w \<Longrightarrow> owns p w \<Longrightarrow> runs (callback E p w) (alarm_ran p w)"
    and owns_cong: "owns p w \<Longrightarrow> w_routes w' = w_routes w \<Longrightarrow> w_rreqs w' = w_rreqs w \<Longrightarrow> owns p w'"
begin

lemma fires:
  assumes ok: "world_ok w" and p: "p \<in> waiting (w_alarms w)" "owns p w"
  shows "runs (do { w \<leftarrow> on_alarms (unlink_due p) w; callback E p w }) (alarm_ran p w)"
proof -
  obtain A where A: "unlink_due p (w_alarms w) = Some A" "world_ok (w\<lparr>w_alarms := A\<rparr>)"
    "waiting A = waiting (w_alarms w) - {p}"
    using unlink_wf [OF ok p(1)] by metis
  let ?w = "w\<lparr>w_alarms := A\<rparr>"
  have "runs (callback E p ?w) (alarm_ran p ?w)"
    by (rule callback_ok [OF A(2) owns_cong [OF p(2)]]) simp_all
  moreover have "alarm_ran p w w'" if "alarm_ran p ?w w'" for w'
    using that A(3) by (simp add: alarm_ran_def same_pkts_def asks_again_def sent_def rreq_event_def)
  ultimately show ?thesis
    using A(1) runs_mono [of "callback E p ?w" "alarm_ran p ?w" "alarm_ran p w"] by (simp add: on_alarms_def)
qed

end

text \<open>The three callbacks of the daemon keep the contract: of a route, of a request, of the flush.\<close>

definition owns_route :: "ptr \<Rightarrow> world \<Rightarrow> bool" where
  "owns_route p w \<longleftrightarrow> p \<in> dom (w_routes w)"

definition owns_rreq :: "ptr \<Rightarrow> world \<Rightarrow> bool" where
  "owns_rreq p w \<longleftrightarrow> (\<exists>e. w_rreqs w p = Some e \<and> sint (rq_prev_tries e) \<noteq> 2)"

definition owns_flush :: "ptr \<Rightarrow> world \<Rightarrow> bool" where
  "owns_flush p w \<longleftrightarrow> p = FLUSH_ALARM"

lemma route_aged_table: "route_aged E p r w w' \<Longrightarrow> q \<in> set (w_table w') \<Longrightarrow> q \<in> set (w_table w)"
  by (auto simp: route_aged_def split: if_splits dest: subsetD [OF set_remove1_subset])

lemma route_aged_silent: "route_aged E p r w w' \<Longrightarrow> asks_again w w'"
  by (auto simp: route_aged_def asks_again_def sent_def del_events_def split: if_splits option.splits)

interpretation route_cb: alarm_callback owns_route "\<lambda>E p. msh_route_alarm_cb E p p"
proof
  fix w p E
  assume ok: "world_ok w" and o: "owns_route p w"
  then obtain r where "w_routes w p = Some r" by (auto simp: owns_route_def)
  from msh_route_alarm_cb_ok [OF ok this]
  show "runs (msh_route_alarm_cb E p p w) (alarm_ran p w)"
    by (rule runs_mono) (auto simp: alarm_ran_def same_defs dest: route_aged_table intro: route_aged_silent)
qed (simp add: owns_route_def)

interpretation rreq_cb: alarm_callback owns_rreq "\<lambda>E p. rreq_fifo_alarm_cb E p p"
proof
  fix w p E
  assume ok: "world_ok w" and o: "owns_rreq p w"
  then obtain e where e: "w_rreqs w p = Some e" "sint (rq_prev_tries e) \<noteq> 2" by (auto simp: owns_rreq_def)
  have b: "-1 \<le> sint (rq_prev_tries e)" "sint (rq_prev_tries e) \<le> 2"
    using ok e(1) by (auto simp: world_ok_def rreqs_ok_def)
  show "runs (rreq_fifo_alarm_cb E p p w) (alarm_ran p w)"
  proof (cases "sint (rq_prev_tries e) < 0")
    case True
    from rreq_alarm_foreign [OF ok e(1) True] show ?thesis by (rule runs_mono) simp
  next
    case False
    then have "0 \<le> sint (rq_prev_tries e)" "sint (rq_prev_tries e) < 2" using b e(2) by auto
    from rreq_alarm_retry [OF ok e(1) this] show ?thesis by (rule runs_mono) simp
  qed
qed (simp add: owns_rreq_def)

interpretation flush_cb: alarm_callback owns_flush msh_data_process_wait_queue_cb
proof
  fix w p E
  assume ok: "world_ok w" and o: "owns_flush p w"
  let ?w = "w\<lparr>w_num_rreq_sent := 0\<rparr>"
  have nf: "p \<noteq> w_find_route ?w" using o wfD(1) [OF ok] unfolding heap_ok_def owns_flush_def by auto
  have "p \<in> dom (al_blocks (w_alarms ?w))" using o wf_dom_blocks [OF ok] by (simp add: owns_flush_def)
  then obtain A where "w_add_alarm E p 1 0 ?w = Some (?w\<lparr>w_tick := Suc (w_tick ?w), w_alarms := A\<rparr>)"
    "world_ok (?w\<lparr>w_tick := Suc (w_tick ?w), w_alarms := A\<rparr>)" "waiting A = insert p (waiting (w_alarms ?w))"
    using w_add_alarm_ok [OF _ _ nf, of E 1 0] ok by (metis wf_harmless(6))
  then show "runs (msh_data_process_wait_queue_cb E p w) (alarm_ran p w)"
    by (auto simp: msh_data_process_wait_queue_cb_def alarm_ran_def same_pkts_def asks_again_quiet)
qed (simp add: owns_flush_def)

section \<open>One run of the alarms\<close>

text \<open>No pending search of this node is in its last try among the given alarms.\<close>

definition no_last_try :: "ptr set \<Rightarrow> world \<Rightarrow> bool" where
  "no_last_try ps w \<longleftrightarrow> (\<forall>p \<in> ps. \<forall>e. w_rreqs w p = Some e \<longrightarrow> sint (rq_prev_tries e) \<noteq> 2)"

lemma run_alarm_dispatch:
  assumes ok: "world_ok w" and p: "p \<in> waiting (w_alarms w)"
  shows "p \<in> dom (w_routes w) \<and> run_alarm E p w = do { w \<leftarrow> on_alarms (unlink_due p) w; msh_route_alarm_cb E p p w } \<or>
    p \<in> dom (w_rreqs w) \<and> run_alarm E p w = do { w \<leftarrow> on_alarms (unlink_due p) w; rreq_fifo_alarm_cb E p p w } \<or>
    p = FLUSH_ALARM \<and> run_alarm E p w = do { w \<leftarrow> on_alarms (unlink_due p) w; msh_data_process_wait_queue_cb E p w }"
proof -
  have d: "p \<in> dom (al_blocks (w_alarms w))" using p alarms_ok_dom [OF wf_alarms_ok [OF ok]] by blast
  then obtain b where b: "al_blocks (w_alarms w) p = Some b" by auto
  obtain A where A: "unlink_due p (w_alarms w) = Some A"
    "al_blocks A = (al_blocks (w_alarms w))(p \<mapsto> (the (al_blocks (w_alarms w) p))\<lparr>al_linked := False\<rparr>)"
    using unlink_wf [OF ok p] by metis
  have bl: "al_blocks A p = Some (b\<lparr>al_linked := False\<rparr>)" using A(2) b by simp
  have "p = FLUSH_ALARM \<or> p \<in> dom (w_routes w) \<or> p \<in> dom (w_rreqs w)" using d wf_dom_blocks [OF ok] by blast
  moreover have "(p \<in> dom (w_routes w) \<longrightarrow> al_data b = p \<and> al_function b = Route_alarm_fn) \<and>
      (p \<in> dom (w_rreqs w) \<longrightarrow> al_data b = p \<and> al_function b = Rreq_alarm_fn) \<and>
      (p = FLUSH_ALARM \<longrightarrow> al_function b = Flush_alarm_fn)"
    using ok b unfolding world_ok_def blocks_ok_def by blast
  ultimately show ?thesis
    using A(1) bl by (auto simp: run_alarm_def call_alarm_def on_alarms_def)
qed

lemma run_alarm_ok:
  assumes ok: "world_ok w" and p: "p \<in> waiting (w_alarms w)" and n: "no_last_try {p} w"
  shows "runs (run_alarm E p w) (alarm_ran p w)"
  using run_alarm_dispatch [OF ok p, of E]
proof (elim disjE conjE)
  assume a: "p \<in> dom (w_routes w)"
    and r: "run_alarm E p w = do { w \<leftarrow> on_alarms (unlink_due p) w; msh_route_alarm_cb E p p w }"
  show ?thesis unfolding r by (rule route_cb.fires [OF ok p]) (simp add: owns_route_def a)
next
  assume a: "p \<in> dom (w_rreqs w)"
    and r: "run_alarm E p w = do { w \<leftarrow> on_alarms (unlink_due p) w; rreq_fifo_alarm_cb E p p w }"
  show ?thesis unfolding r
    by (rule rreq_cb.fires [OF ok p]) (use a n in \<open>auto simp: owns_rreq_def no_last_try_def\<close>)
next
  assume a: "p = FLUSH_ALARM"
    and r: "run_alarm E p w = do { w \<leftarrow> on_alarms (unlink_due p) w; msh_data_process_wait_queue_cb E p w }"
  show ?thesis unfolding r by (rule flush_cb.fires [OF ok p]) (simp add: owns_flush_def a)
qed

text \<open>What a run of several alarms keeps.\<close>

definition alarms_ran :: "world \<Rightarrow> world \<Rightarrow> bool" where
  "alarms_ran w w' \<longleftrightarrow> world_ok w' \<and> same_pkts w w' \<and> w_end w' = w_end w \<and>
     set (w_table w') \<subseteq> set (w_table w)"

lemma alarm_ran_ran: "alarm_ran p w w' \<Longrightarrow> alarms_ran w w'"
  by (simp add: alarm_ran_def alarms_ran_def)

lemma alarms_ran_trans: "alarms_ran u v \<Longrightarrow> alarms_ran v w \<Longrightarrow> alarms_ran u w"
  by (auto simp: alarms_ran_def same_pkts_def)

lemma alarm_ran_others:
  assumes "alarm_ran p w w'" "set (p # ps) \<subseteq> waiting (w_alarms w)" "distinct (p # ps)"
  shows "world_ok w'" "set ps \<subseteq> waiting (w_alarms w')" "\<forall>q \<in> set ps. w_rreqs w' q = w_rreqs w q"
  using assms by (auto simp: alarm_ran_def)

lemma run_alarms_ok:
  assumes "world_ok w" "set ps \<subseteq> waiting (w_alarms w)" "distinct ps" "no_last_try (set ps) w"
  shows "runs (fold_steps (run_alarm E) ps w) (alarms_ran w)"
  using assms
proof (induction ps arbitrary: w)
  case Nil
  then show ?case by (simp add: alarms_ran_def same_pkts_def)
next
  case (Cons p ps)
  obtain w1 where w1: "run_alarm E p w = Some w1" "alarm_ran p w w1"
    using run_alarm_ok [of w p E] Cons.prems by (auto simp: runs_iff no_last_try_def)
  note keep = alarm_ran_others [OF w1(2) Cons.prems(2,3)]
  have "no_last_try (set ps) w1" using Cons.prems(4) keep(3) by (simp add: no_last_try_def)
  then have "runs (fold_steps (run_alarm E) ps w1) (alarms_ran w1)"
    using keep(1,2) Cons.prems(3) by (intro Cons.IH) simp_all
  then show ?case
    using w1 alarm_ran_ran [OF w1(2)] by (auto intro: alarms_ran_trans elim!: runs_mono)
qed

lemma next_alarm_run_ok:
  assumes "world_ok w"
  obtains r where "next_alarm_run E w = Some (r, w\<lparr>w_tick := Suc (w_tick w)\<rparr>)"
  using get_next_alarm_run_defined [OF wf_alarms_ok [OF assms], of "clock E (w_tick w)"] that
  by (auto simp: next_alarm_run_def gettimeofday_def)

text \<open>The alarms that a run finds due, with the clock that it reads.\<close>

definition due_alarms :: "env \<Rightarrow> world \<Rightarrow> ptr set" where
  "due_alarms E w = {p \<in> waiting (w_alarms w). \<not> timer_less (clock E (w_tick w)) (block_tv (w_alarms w) p)}"

definition overdue_last_try :: "env \<Rightarrow> world \<Rightarrow> bool" where
  "overdue_last_try E w \<longleftrightarrow> (\<exists>p \<in> due_alarms E w. \<exists>e. w_rreqs w p = Some e \<and> sint (rq_prev_tries e) = 2)"

lemma alarms_ran_tick: "alarms_ran (w\<lparr>w_tick := t\<rparr>) w' \<Longrightarrow> alarms_ran w w'"
  "alarms_ran w w' \<Longrightarrow> alarms_ran w (w'\<lparr>w_tick := t\<rparr>)" "world_ok w \<Longrightarrow> alarms_ran w w"
  by (simp_all add: alarms_ran_def same_pkts_def)

text \<open>With such a request among the due alarms, the run reads freed memory.\<close>

lemma run_alarm_last:
  assumes ok: "world_ok w" and p: "p \<in> waiting (w_alarms w)" and e: "w_rreqs w p = Some e" "sint (rq_prev_tries e) = 2"
  shows "run_alarm E p w = None"
proof -
  have rq: "p \<in> dom (w_rreqs w)" using e(1) by blast
  have "p \<notin> dom (w_routes w)" "p \<noteq> FLUSH_ALARM" using rq ok unfolding world_ok_def heap_ok_def by auto
  then have r: "run_alarm E p w = do { w \<leftarrow> on_alarms (unlink_due p) w; rreq_fifo_alarm_cb E p p w }"
    using run_alarm_dispatch [OF ok p, of E] by auto
  obtain A where A: "unlink_due p (w_alarms w) = Some A" "world_ok (w\<lparr>w_alarms := A\<rparr>)"
    using unlink_wf [OF ok p] by metis
  then show ?thesis
    using rreq_alarm_last [OF A(2), of p e E p] e by (simp add: r on_alarms_def)
qed

lemma run_alarms_last:
  assumes "world_ok w" "set ps \<subseteq> waiting (w_alarms w)" "distinct ps" "\<not> no_last_try (set ps) w"
  shows "fold_steps (run_alarm E) ps w = None"
  using assms
proof (induction ps arbitrary: w)
  case Nil
  then show ?case by (simp add: no_last_try_def)
next
  case (Cons p ps)
  have p: "p \<in> waiting (w_alarms w)" using Cons.prems(2) by simp
  show ?case
  proof (cases "no_last_try {p} w")
    case False
    then obtain e where "w_rreqs w p = Some e" "sint (rq_prev_tries e) = 2" by (auto simp: no_last_try_def)
    from run_alarm_last [OF Cons.prems(1) p this] show ?thesis by simp
  next
    case True
    then obtain w1 where w1: "run_alarm E p w = Some w1" "alarm_ran p w w1"
      using run_alarm_ok [OF Cons.prems(1) p True, of E] by (auto simp: runs_iff)
    note keep = alarm_ran_others [OF w1(2) Cons.prems(2,3)]
    have "\<not> no_last_try (set ps) w1" using True Cons.prems(4) keep(3) by (auto simp: no_last_try_def)
    then have "fold_steps (run_alarm E) ps w1 = None"
      using keep(1,2) Cons.prems(3) by (intro Cons.IH) simp_all
    then show ?thesis using w1(1) by simp
  qed
qed

lemma do_alarm_run_queue:
  assumes ok: "world_ok w"
  obtains q where "set q = due_alarms E w" "distinct q"
    "do_alarm_run E w = do { w \<leftarrow> fold_steps (run_alarm E) q (w\<lparr>w_tick := Suc (w_tick w)\<rparr>); next_alarm_run E w }"
proof -
  define q where "q = rev (filter (due (clock E (w_tick w)) (w_alarms w)) (inorder (alarm_root (w_alarms w))))"
  have "set q = due_alarms E w" by (auto simp: q_def due_alarms_def due_def waiting_def)
  moreover have "distinct q" using wf_alarms_ok [OF ok] by (simp add: q_def alarms_ok_def)
  moreover have "alarm_run_queue (clock E (w_tick w)) (w_alarms w) = Some q"
    using alarm_run_queue_due [OF wf_alarms_ok [OF ok]] by (simp add: q_def)
  ultimately show ?thesis using that by (simp add: do_alarm_run_def gettimeofday_def)
qed

lemma do_alarm_run_cases:
  assumes ok: "world_ok w"
  shows "case do_alarm_run E w of None \<Rightarrow> overdue_last_try E w
    | Some (r, w') \<Rightarrow> \<not> overdue_last_try E w \<and> alarms_ran w w'"
proof -
  let ?w = "w\<lparr>w_tick := Suc (w_tick w)\<rparr>"
  obtain q where q: "set q = due_alarms E w" "distinct q"
    "do_alarm_run E w = do { w \<leftarrow> fold_steps (run_alarm E) q ?w; next_alarm_run E w }"
    using do_alarm_run_queue [OF ok] by blast
  have s: "set q \<subseteq> waiting (w_alarms ?w)" using q(1) by (auto simp: due_alarms_def)
  have l: "no_last_try (set q) ?w = (\<not> overdue_last_try E w)"
    by (auto simp: q(1) no_last_try_def overdue_last_try_def)
  show ?thesis
  proof (cases "overdue_last_try E w")
    case True
    then show ?thesis using run_alarms_last [OF _ s q(2), of E] ok l by (simp add: q(3))
  next
    case False
    then obtain w1 where w1: "fold_steps (run_alarm E) q ?w = Some w1" "alarms_ran ?w w1"
      using run_alarms_ok [OF _ s q(2), of E] ok l by (auto simp: runs_iff)
    then obtain r where "next_alarm_run E w1 = Some (r, w1\<lparr>w_tick := Suc (w_tick w1)\<rparr>)"
      using next_alarm_run_ok [of w1 E] by (auto simp: alarms_ran_def)
    then show ?thesis
      using False w1 alarms_ran_tick(1) [OF w1(2)] by (simp add: q(3) alarms_ran_tick(2))
  qed
qed

lemma process_alarms_cases:
  assumes "world_ok w"
  shows "case process_alarms E t w of None \<Rightarrow> overdue_last_try E w | Some (r, w') \<Rightarrow> alarms_ran w w'"
  using do_alarm_run_cases [OF assms, of E] alarms_ran_tick(3) [OF assms]
  by (auto simp: process_alarms_def split: option.splits)

section \<open>Properties of an alarm run\<close>

text \<open>
  C17: a run of the alarms ends, and it is defined exactly if no due alarm belongs to a search of this
  node in its last try; then the state is well-formed again, the waiting packets are as before
  and no route has been added.
\<close>
theorem alarm_run_fails_iff_last_try_due:
  assumes "world_ok w"
  shows "case do_alarm_run E w of None \<Rightarrow> overdue_last_try E w
    | Some (r, w') \<Rightarrow> \<not> overdue_last_try E w \<and> world_ok w' \<and> w_pkts w' = w_pkts w \<and>
        set (w_table w') \<subseteq> set (w_table w)"
  using do_alarm_run_cases [OF assms, of E] by (auto simp: alarms_ran_def same_pkts_def split: option.splits)

lemma sample_due: "due_alarms (sample_env\<lparr>clock := \<lambda>_. \<lparr>tv_sec = 7, tv_usec = 0\<rparr>\<rparr>) sample_world = {5}"
  by (auto simp: due_alarms_def sample_world_def waiting_def timer_less_def block_tv_def sample_block_def)

theorem alarm_run_fails_iff_last_try_due_witness:
  "\<exists>r w'. do_alarm_run (sample_env\<lparr>clock := \<lambda>_. \<lparr>tv_sec = 7, tv_usec = 0\<rparr>\<rparr>) sample_world = Some (r, w') \<and> world_ok w'"
proof -
  let ?E = "sample_env\<lparr>clock := \<lambda>_. \<lparr>tv_sec = 7, tv_usec = 0\<rparr>\<rparr>"
  have "\<not> overdue_last_try ?E sample_world" by (simp add: overdue_last_try_def sample_due sample_parts)
  then show ?thesis
    using alarm_run_fails_iff_last_try_due [OF sample_world_ok, of ?E] by (auto split: option.splits)
qed

end
