(* ===== verification/Network.thy ===== *)
theory Network
  imports Daemon "HOL-Library.Multiset"
begin

unbundle bit_operations_syntax

text \<open>
  Several daemons in one mesh. Each node is a \<open>world\<close> of its own; the datagrams that it gives to
  \<open>sendto\<close> travel to the nodes that can hear it, in any order, and may be lost. A node steps by
  receiving a datagram, by taking a captured packet out of its queue, or by one of its alarms. The
  links and the answers of each node's kernel are parameters.
\<close>

section \<open>What one datagram leads to\<close>

text \<open>
  A message that every receiver accepts: sent to the port of the protocol, a request or a reply
  by its first byte, and long enough for the structure laid over it.
\<close>

fun message :: "event \<Rightarrow> bool" where
  "message (Sent a p t bs) \<longleftrightarrow> p = htons AODV_UDP_PORT \<and>
     (case bs of [] \<Rightarrow> False | b # _ \<Rightarrow> b = 1 \<and> 24 \<le> length bs \<or> b = 2 \<and> 20 \<le> length bs)"
| "message _ \<longleftrightarrow> False"

text \<open>
  Handling a message with the hop limit \<open>h\<close> may send the message \<open>e\<close>: a request is passed on
  with a smaller hop limit, or answered; a reply is passed on with the hop limit one lower.
\<close>

fun follows :: "u8 list \<Rightarrow> u8 \<Rightarrow> event \<Rightarrow> bool" where
  "follows bs h (Sent a p t bs') \<longleftrightarrow> message (Sent a p t bs') \<and>
     (hd bs = 1 \<and> (hd bs' = 1 \<and> 1 < h \<and> t = h - 1 \<or> hd bs' = 2 \<and> t = DEFAULT_TTL) \<or>
      hd bs = 2 \<and> hd bs' = 2 \<and> t = h - 1)"
| "follows bs h _ \<longleftrightarrow> False"

text \<open>At most one datagram, of the kind \<open>P\<close>, has been sent between two states.\<close>

definition sends :: "(event \<Rightarrow> bool) \<Rightarrow> world \<Rightarrow> world \<Rightarrow> bool" where
  "sends P w w' \<longleftrightarrow> world_ok w' \<and> w_ip_addr w' = w_ip_addr w \<and> w_broadcast_addr w' = w_broadcast_addr w \<and>
     (sent w' = sent w \<or> (\<exists>e. P e \<and> sent w' = e # sent w))"

lemma rreq_bytes_Cons: "rreq_bytes q = rreq_type q # tl (rreq_bytes q)"
  by (simp add: rreq_bytes_def)

lemma rrep_bytes_Cons: "rrep_bytes q = rrep_type q # tl (rrep_bytes q)"
  by (simp add: rrep_bytes_def)

lemma hd_bytes [simp]: "hd (rreq_bytes q @ bs) = rreq_type q" "hd (rrep_bytes r @ bs) = rrep_type r"
  "hd (rreq_bytes q) = rreq_type q" "hd (rrep_bytes r) = rrep_type r"
  by (simp_all add: rreq_bytes_def rrep_bytes_def)

lemma message_rreq: "rreq_type q = 1 \<Longrightarrow> message (Sent a (htons AODV_UDP_PORT) t (rreq_bytes q @ bs))"
  by (subst rreq_bytes_Cons) (simp add: rreq_bytes_def)

lemma message_rrep: "rrep_type r = 2 \<Longrightarrow> message (Sent a (htons AODV_UDP_PORT) t (rrep_bytes r @ bs))"
  by (subst rrep_bytes_Cons) (simp add: rrep_bytes_def)

lemma prepare_type [simp]:
  "rreq_type (aodv_pkt_prepare_rreq q) = rreq_type q" "rrep_type (aodv_pkt_prepare_rrep r) = rrep_type r"
  "rreq_type (hopped q) = rreq_type q" "rrep_type (rhopped r) = rrep_type r"
  "rreq_type (own_rreq d i w) = 1" "rrep_type (own_rrep q w) = 2"
  by (simp_all add: aodv_pkt_prepare_rreq_def aodv_pkt_prepare_rrep_def hopped_def rhopped_def own_rreq_def own_rrep_def)

text \<open>The three kinds of datagrams that a received message leads to.\<close>

lemma follows_forwarded_rreq:
  assumes "sin_port (pkt_address pkt) = htons AODV_UDP_PORT" "rreq_type q = 1" "1 < pkt_ttl pkt" "hd bs = 1"
  shows "follows bs (pkt_ttl pkt) (forwarded_rreq pkt q w)"
  using assms by (simp add: forwarded_rreq_def message_rreq del: message.simps)

lemma follows_own_rrep: "hd bs = 1 \<Longrightarrow> follows bs h (rrep_event a (own_rrep q w))"
  using message_rrep [of "aodv_pkt_prepare_rrep (own_rrep q w)" _ _ "[]"]
  by (simp add: rrep_event_def del: message.simps)

lemma follows_forwarded_rrep:
  assumes "sin_port (pkt_address pkt) = htons AODV_UDP_PORT" "rrep_type q = 2" "hd bs = 2"
  shows "follows bs (pkt_ttl pkt) (forwarded_rrep pkt q hop)"
  using assms by (simp add: forwarded_rrep_def message_rrep del: message.simps)

lemma rreq_sends:
  assumes ok: "world_ok w" and pkt: "pkt_ok pkt" "pkt_rreq pkt = Some q"
    and m: "sin_port (pkt_address pkt) = htons AODV_UDP_PORT" "rreq_type q = 1" "hd bs = 1"
  shows "runs (aodv_process_rreq E pkt w) (sends (follows bs (pkt_ttl pkt)) w)"
proof (rule runs_mono [OF aodv_process_rreq_ok [OF ok pkt]])
  fix w' assume w': "if rreq_seen q w then routed w w' else (\<exists>v. rreq_recorded E pkt q w v \<and> reacts pkt q v w')"
  show "sends (follows bs (pkt_ttl pkt)) w w'"
  proof (cases "rreq_seen q w")
    case True
    then show ?thesis using w' by (simp add: sends_def routed_def extends_def)
  next
    case False
    then obtain v where v: "rreq_recorded E pkt q w v" "reacts pkt q v w'" using w' by auto
    then have s: "sent w' = rreq_reaction pkt q v @ sent w" "world_ok w'"
      "w_ip_addr w' = w_ip_addr w" "w_broadcast_addr w' = w_broadcast_addr w"
      by (auto simp: rreq_recorded_def reacts_def extends_def)
    have "follows bs (pkt_ttl pkt) (rrep_event (aodv_pkt_get_address pkt) (own_rrep q (stepped_seq q v)))"
      using m(3) by (rule follows_own_rrep)
    moreover have "follows bs (pkt_ttl pkt) (forwarded_rreq pkt (hopped q) v)" if "1 < pkt_ttl pkt"
      using m that by (simp add: follows_forwarded_rreq)
    ultimately show ?thesis
      using s unfolding sends_def rreq_reaction_def by (simp add: not_le)
  qed
qed

lemma rrep_sends:
  assumes ok: "world_ok w" and pkt: "pkt_ok pkt" "pkt_rrep pkt = Some q"
    and m: "sin_port (pkt_address pkt) = htons AODV_UDP_PORT" "rrep_type q = 2" "hd bs = 2"
  shows "runs (aodv_process_rrep E pkt w) (sends (follows bs (pkt_ttl pkt)) w)"
proof (rule runs_mono [OF aodv_process_rrep_ok [OF ok pkt]], elim exE conjE)
  fix w' w1 pp pd created v
  assume "routed w w1" "routed w1 v" and fin: "if rrep_accepted q created pd v then rrep_concludes E pkt q pd v w' else w' = v"
  then have wv: "routed w v" by (blast intro: routed_trans)
  have f: "follows bs (pkt_ttl pkt) (forwarded_rrep pkt (rhopped q) hop)" for hop
    using m by (simp add: follows_forwarded_rrep)
  show "sends (follows bs (pkt_ttl pkt)) w w'"
  proof (cases "rrep_accepted q created pd v")
    case False
    then show ?thesis using fin wv by (simp add: sends_def routed_def extends_def)
  next
    case True
    then have c: "rrep_concludes E pkt q pd v w'" using fin by simp
    then have "world_ok w'" "w_ip_addr w' = w_ip_addr w" "w_broadcast_addr w' = w_broadcast_addr w"
      using wv by (auto simp: rrep_concludes_def routed_def extends_def)
    moreover have "sent w' = sent v \<or> (\<exists>hop. sent w' = forwarded_rrep pkt (rhopped q) hop # sent v)"
      using c by (auto simp: rrep_concludes_def sent_def split: if_splits option.splits)
    moreover have "sent v = sent w" using wv by (simp add: routed_def)
    ultimately show ?thesis unfolding sends_def using f by auto
  qed
qed

section \<open>Receiving from a neighbour\<close>

text \<open>
  The message that \<open>recvmsg\<close> hands over when a datagram from the address \<open>ip\<close> arrives with the
  hop limit \<open>h\<close>: the sender's socket is bound to the port of the protocol, and the hop limit comes
  as control data.
\<close>

definition datagram :: "in_addr \<Rightarrow> u8 list \<Rightarrow> u8 \<Rightarrow> msghdr" where
  "datagram ip bs h = \<lparr>msg_namelen = 16,
     msg_name = \<lparr>sin_family = AF_INET, sin_port = htons AODV_UDP_PORT, sin_addr = htonl ip\<rparr>,
     msg_iovlen = 1, msg_iov_base = bs, msg_controllen = 24,
     msg_control = [\<lparr>cmsg_level = SOL_IP, cmsg_type = IP_TTL, cmsg_data = [h]\<rparr>]\<rparr>"

lemma datagram_delivered: "bs \<noteq> [] \<Longrightarrow> delivered (datagram ip bs h) (int (length bs))"
  by (simp add: delivered_def datagram_def aodv_pkt_receive_ttl_def)

lemma datagram_got:
  assumes "bs \<noteq> []"
  obtains pkt w' where "aodv_pkt_get (datagram ip bs h) (int (length bs)) w = Some (pkt, w')" "pkt_ok pkt"
    "stats_only (count_pkt w) w'" "pkt_payload pkt = Some bs" "pkt_ttl pkt = h"
    "sin_port (pkt_address pkt) = htons AODV_UDP_PORT" "aodv_pkt_get_address pkt = ip"
proof (rule aodv_pkt_get_ok [OF datagram_delivered [OF assms, of ip h], of w])
  fix pkt w'
  assume a: "aodv_pkt_get (datagram ip bs h) (int (length bs)) w = Some (pkt, w')" "pkt_ok pkt"
    "stats_only (count_pkt w) w'"
    "pkt_payload pkt = Some (take (nat (int (length bs))) (msg_iov_base (datagram ip bs h)))"
    and n: "0 < msg_namelen (datagram ip bs h) \<Longrightarrow> pkt_address pkt = msg_name (datagram ip bs h)"
    and c: "0 < msg_controllen (datagram ip bs h) \<Longrightarrow> Some (pkt_ttl pkt) = aodv_pkt_receive_ttl (datagram ip bs h)"
  show thesis
    by (rule that [OF a(1-3)]) (use a(4) n c in \<open>simp_all add: datagram_def aodv_pkt_receive_ttl_def aodv_pkt_get_address_def\<close>)
qed

text \<open>
  A node that checks a message of a neighbour accepts it, and then handles it as what its first
  byte says, in host byte order.
\<close>

lemma checked_type:
  assumes "pkt_ok pkt" "pkt_payload pkt = Some bs"
  shows "aodv_pkt_get_type pkt = Some (sint (hd bs))"
  using assms by (auto simp: pkt_ok_def aodv_pkt_get_type_def)

lemma message_accepted:
  assumes m: "message (Sent a p t bs)" and pkt: "pkt_ok pkt" "pkt_payload pkt = Some bs"
  obtains pkt' where "aodv_pkt_check pkt w = Some (True, pkt', w)" "pkt_ok pkt'" "pkt_ttl pkt' = pkt_ttl pkt"
    "pkt_address pkt' = pkt_address pkt" "aodv_pkt_get_type pkt' = Some (sint (hd bs))"
    "hd bs = 1 \<Longrightarrow> pkt_rreq pkt' = Some (rreq_swap (rreq_of bs)) \<and> rreq_type (rreq_of bs) = 1"
    "hd bs = 2 \<Longrightarrow> pkt_rrep pkt' = Some (rrep_swap (rrep_of bs)) \<and> rrep_type (rrep_of bs) = 2"
    "hd bs \<in> {1, 2}" "length (pkt_bytes pkt') = length bs"
proof -
  obtain b bs' where bs: "bs = b # bs'" using m by (cases bs) simp_all
  have len: "pkt_payload_len pkt = length bs" using pkt by (auto simp: pkt_ok_def)
  have ty: "aodv_pkt_get_type pkt = Some (sint b)" using checked_type [OF pkt] bs by simp
  consider "b = 1" "24 \<le> length bs" | "b = 2" "20 \<le> length bs" using m bs by auto
  then show ?thesis
  proof cases
    case 1
    obtain r pkt' where r: "pkt_rreq pkt = Some r" "set_pkt_rreq (rreq_swap r) pkt = Some pkt'" "pkt_ok pkt'"
      "aodv_pkt_get_type pkt' = aodv_pkt_get_type pkt" "pkt_address pkt' = pkt_address pkt" "pkt_ttl pkt' = pkt_ttl pkt"
      using pkt_ok_set_rreq [OF pkt(1)] 1 len by metis
    have "r = rreq_of bs" using r(1) pkt(2) by (auto simp: pkt_rreq_def)
    moreover have "aodv_pkt_check pkt w = Some (True, pkt', w)"
      using 1 r ty len by (simp add: aodv_pkt_check_def aodv_pkt_get_payload_len_def AODV_RREQ_def)
    moreover have "pkt_rreq pkt' = Some (rreq_swap r)"
      using pkt_rreq_set [OF r(2)] \<open>r = rreq_of bs\<close> rreq_of_fits [of bs] by (metis rreq_swap_fits)
    moreover have "rreq_type (rreq_of bs) = 1" using 1 bs by (simp add: rreq_of_def)
    moreover have "length (pkt_bytes pkt') = length bs"
      using r(2) pkt(2) len 1 by (auto simp: set_pkt_rreq_def pkt_bytes_def)
    ultimately show ?thesis using that r ty 1 bs by simp
  next
    case 2
    obtain r pkt' where r: "pkt_rrep pkt = Some r" "set_pkt_rrep (rrep_swap r) pkt = Some pkt'" "pkt_ok pkt'"
      "aodv_pkt_get_type pkt' = aodv_pkt_get_type pkt" "pkt_address pkt' = pkt_address pkt" "pkt_ttl pkt' = pkt_ttl pkt"
      using pkt_ok_set_rrep [OF pkt(1)] 2 len by metis
    have "r = rrep_of bs" using r(1) pkt(2) by (auto simp: pkt_rrep_def)
    moreover have "aodv_pkt_check pkt w = Some (True, pkt', w)"
      using 2 r ty len by (simp add: aodv_pkt_check_def aodv_pkt_get_payload_len_def AODV_RREQ_def AODV_RREP_def)
    moreover have "pkt_rrep pkt' = Some (rrep_swap r)"
      using pkt_rrep_set [OF r(2)] \<open>r = rrep_of bs\<close> rrep_of_fits [of bs] by (metis rrep_swap_fits)
    moreover have "rrep_type (rrep_of bs) = 2" using 2 bs by (simp add: rrep_of_def)
    moreover have "length (pkt_bytes pkt') = length bs"
      using r(2) pkt(2) len 2 by (auto simp: set_pkt_rrep_def pkt_bytes_def)
    ultimately show ?thesis using that r ty 2 bs by simp
  qed
qed

text \<open>The whole handling of a neighbour's message, as one equation.\<close>

lemma receive_message:
  assumes m: "message (Sent a p t bs)"
  obtains pkt v where "stats_only (count_pkt w) v" "pkt_ok pkt" "pkt_ttl pkt = h"
    "sin_port (pkt_address pkt) = htons AODV_UDP_PORT" "aodv_pkt_get_address pkt = ip"
    "hd bs = 1 \<Longrightarrow> pkt_rreq pkt = Some (rreq_swap (rreq_of bs)) \<and> rreq_type (rreq_of bs) = 1"
    "hd bs = 2 \<Longrightarrow> pkt_rrep pkt = Some (rrep_swap (rrep_of bs)) \<and> rrep_type (rrep_of bs) = 2"
    "hd bs \<in> {1, 2}" "length (pkt_bytes pkt) = length bs"
    "aodv_socket_receive_packet E (int (length bs)) (datagram ip bs h) w =
      (if ip = w_ip_addr w then Some v
       else if hd bs = 1 then do { w' \<leftarrow> aodv_process_rreq E pkt v; Some (aodv_pkt_destroy pkt w') }
       else do { w' \<leftarrow> aodv_process_rrep E pkt v; Some (aodv_pkt_destroy pkt w') })"
proof -
  have ne: "bs \<noteq> []" using m by auto
  obtain pkt0 v where g: "aodv_pkt_get (datagram ip bs h) (int (length bs)) w = Some (pkt0, v)" "pkt_ok pkt0"
    "stats_only (count_pkt w) v" "pkt_payload pkt0 = Some bs" "pkt_ttl pkt0 = h"
    "sin_port (pkt_address pkt0) = htons AODV_UDP_PORT" "aodv_pkt_get_address pkt0 = ip"
    using datagram_got [OF ne] by blast
  obtain pkt where c: "aodv_pkt_check pkt0 v = Some (True, pkt, v)" "pkt_ok pkt" "pkt_ttl pkt = pkt_ttl pkt0"
    "pkt_address pkt = pkt_address pkt0" "aodv_pkt_get_type pkt = Some (sint (hd bs))"
    "hd bs = 1 \<Longrightarrow> pkt_rreq pkt = Some (rreq_swap (rreq_of bs)) \<and> rreq_type (rreq_of bs) = 1"
    "hd bs = 2 \<Longrightarrow> pkt_rrep pkt = Some (rrep_swap (rrep_of bs)) \<and> rrep_type (rrep_of bs) = 2"
    "hd bs \<in> {1, 2}" "length (pkt_bytes pkt) = length bs"
    using message_accepted [OF m g(2,4)] by blast
  have a: "aodv_pkt_get_address pkt = ip" using c(4) g(7) by (simp add: aodv_pkt_get_address_def)
  have i: "w_ip_addr v = w_ip_addr w" using stats_only_same(2) [OF g(3)] by (simp add: count_pkt_def)
  have "aodv_socket_receive_packet E (int (length bs)) (datagram ip bs h) w =
      (if ip = w_ip_addr w then Some v
       else if hd bs = 1 then do { w' \<leftarrow> aodv_process_rreq E pkt v; Some (aodv_pkt_destroy pkt w') }
       else do { w' \<leftarrow> aodv_process_rrep E pkt v; Some (aodv_pkt_destroy pkt w') })"
    using c(8) by (auto simp: aodv_socket_receive_packet_def aodv_process_packet_def g(1) c(1,5) a i aodv_types)
  then show ?thesis using that c g a by simp
qed

lemma sends_after:
  assumes "stats_only (count_pkt w) v" "sends P v w'"
  shows "sends P w (aodv_pkt_destroy pkt w')"
proof -
  have "w_ip_addr v = w_ip_addr w" "w_broadcast_addr v = w_broadcast_addr w" "sent v = sent w"
    using assms(1) by (auto simp: stats_only_def count_pkt_def upd_stats_def sent_def)
  then show ?thesis using assms(2) by (auto simp: sends_def aodv_pkt_destroy_def sent_def)
qed

lemma receive_sends:
  assumes ok: "world_ok w" and m: "message (Sent a p t bs)"
  shows "runs (aodv_socket_receive_packet E (int (length bs)) (datagram ip bs h) w) (sends (follows bs h) w)"
proof -
  obtain pkt v where r: "stats_only (count_pkt w) v" "pkt_ok pkt" "pkt_ttl pkt = h"
    "sin_port (pkt_address pkt) = htons AODV_UDP_PORT" "aodv_pkt_get_address pkt = ip"
    "hd bs = 1 \<Longrightarrow> pkt_rreq pkt = Some (rreq_swap (rreq_of bs)) \<and> rreq_type (rreq_of bs) = 1"
    "hd bs = 2 \<Longrightarrow> pkt_rrep pkt = Some (rrep_swap (rrep_of bs)) \<and> rrep_type (rrep_of bs) = 2"
    "hd bs \<in> {1, 2}" "length (pkt_bytes pkt) = length bs"
    "aodv_socket_receive_packet E (int (length bs)) (datagram ip bs h) w =
      (if ip = w_ip_addr w then Some v
       else if hd bs = 1 then do { w' \<leftarrow> aodv_process_rreq E pkt v; Some (aodv_pkt_destroy pkt w') }
       else do { w' \<leftarrow> aodv_process_rrep E pkt v; Some (aodv_pkt_destroy pkt w') })"
    using receive_message [OF m] by blast
  have okv: "world_ok v" using ok stats_only_same(1) [OF r(1)] by simp
  have "sends (follows bs h) v v" using okv by (simp add: sends_def)
  then have z: "sends (follows bs h) w v"
    using r(1) by (auto simp: sends_def stats_only_def count_pkt_def upd_stats_def sent_def)
  show ?thesis
  proof (cases "hd bs = 1")
    case True
    then have q: "pkt_rreq pkt = Some (rreq_swap (rreq_of bs))" "rreq_type (rreq_swap (rreq_of bs)) = 1"
      using r(6) by (simp_all add: rreq_swap_def)
    from rreq_sends [OF okv r(2) q(1) r(4) q(2) True, of E, unfolded r(3)] r(1) z True show ?thesis
      unfolding r(10) by (auto intro: sends_after elim!: runs_mono)
  next
    case False
    then have h: "hd bs = 2" using r(8) by simp
    then have q: "pkt_rrep pkt = Some (rrep_swap (rrep_of bs))" "rrep_type (rrep_swap (rrep_of bs)) = 2"
      using r(7) by (simp_all add: rrep_swap_def)
    from rrep_sends [OF okv r(2) q(1) r(4) q(2) h, of E, unfolded r(3)] r(1) z False show ?thesis
      unfolding r(10) by (auto intro: sends_after elim!: runs_mono)
  qed
qed

section \<open>The mesh\<close>

text \<open>
  Which nodes there are, who can hear whom, and what the kernel of each node answers. A link need
  not be symmetric, and a node may hear itself.
\<close>

record mesh =
  mesh_nodes :: "nat list"
  mesh_link :: "nat \<Rightarrow> nat \<Rightarrow> bool"
  mesh_env :: "nat \<Rightarrow> env"

text \<open>The nodes, and the copies of datagrams under way: sender, receiver, datagram.\<close>

record net =
  net_world :: "nat \<Rightarrow> world"
  net_air :: "(nat \<times> nat \<times> event) multiset"

text \<open>A socket takes the datagrams for its port that are addressed to the node or broadcast.\<close>

fun hears :: "world \<Rightarrow> event \<Rightarrow> bool" where
  "hears w (Sent a p t bs) \<longleftrightarrow> p = htons AODV_UDP_PORT \<and>
     (a = htonl (w_ip_addr w) \<or> a = htonl (w_broadcast_addr w))"
| "hears w _ \<longleftrightarrow> False"

definition copies :: "mesh \<Rightarrow> net \<Rightarrow> nat \<Rightarrow> event \<Rightarrow> (nat \<times> nat \<times> event) multiset" where
  "copies M N i e = mset (map (\<lambda>j. (i, j, e))
     (filter (\<lambda>j. mesh_link M i j \<and> hears (net_world N j) e) (mesh_nodes M)))"

text \<open>The datagrams sent between two states, and a step of the node \<open>i\<close> to the state \<open>w'\<close>.\<close>

definition posted :: "world \<Rightarrow> world \<Rightarrow> event list" where
  "posted w w' = take (length (sent w') - length (sent w)) (sent w')"

definition node_acts :: "mesh \<Rightarrow> nat \<Rightarrow> world \<Rightarrow> net \<Rightarrow> net" where
  "node_acts M i w' N = N\<lparr>net_world := (net_world N)(i := w'),
     net_air := net_air N + sum_list (map (copies M N i) (posted (net_world N i) w'))\<rparr>"

definition landed :: "nat \<times> nat \<times> event \<Rightarrow> net \<Rightarrow> net" where
  "landed c N = N\<lparr>net_air := net_air N - {#c#}\<rparr>"

datatype net_label =
    Delivered nat nat event
  | Lost nat nat event
  | Captured nat nfq_data
  | Rang nat ptr

text \<open>
  A datagram arrives over one link with the hop limit it was sent with. Linux refuses the hop limit
  0, the daemon does not look at the answer, and the datagram leaves with the limit that the
  socket had before: so a datagram sent with 0 may arrive with any hop limit \<open>h\<close>.
\<close>

inductive net_step :: "mesh \<Rightarrow> net_label \<Rightarrow> net \<Rightarrow> net \<Rightarrow> bool" for M :: mesh where
  deliver: "(i, j, Sent a p t bs) \<in># net_air N \<Longrightarrow> t \<noteq> 0 \<longrightarrow> h = t \<Longrightarrow>
    aodv_socket_receive_packet (mesh_env M j) (int (length bs)) (datagram (w_ip_addr (net_world N i)) bs h)
      (net_world N j) = Some w' \<Longrightarrow>
    net_step M (Delivered i j (Sent a p t bs)) N (node_acts M j w' (landed (i, j, Sent a p t bs) N))"
| lose: "(i, j, e) \<in># net_air N \<Longrightarrow> net_step M (Lost i j e) N (landed (i, j, e) N)"
| capture: "i \<in> set (mesh_nodes M) \<Longrightarrow> captured nfa \<Longrightarrow> manage_packet (mesh_env M i) nfa (net_world N i) = Some w' \<Longrightarrow>
    net_step M (Captured i nfa) N (node_acts M i w' N)"
| ring: "i \<in> set (mesh_nodes M) \<Longrightarrow> p \<in> waiting (w_alarms (net_world N i)) \<Longrightarrow>
    run_alarm (mesh_env M i) p (net_world N i) = Some w' \<Longrightarrow> net_step M (Rang i p) N (node_acts M i w' N)"

inductive_cases net_stepE: "net_step M l N N'"

text \<open>The states that a mesh reaches from well-formed nodes with nothing under way.\<close>

definition net_start :: "net \<Rightarrow> bool" where
  "net_start N \<longleftrightarrow> (\<forall>i. world_ok (net_world N i)) \<and> net_air N = {#}"

inductive net_reachable :: "mesh \<Rightarrow> net \<Rightarrow> bool" for M :: mesh where
  start: "net_start N \<Longrightarrow> net_reachable M N"
| step: "net_reachable M N \<Longrightarrow> net_step M l N N' \<Longrightarrow> net_reachable M N'"

section \<open>What every step of a node sends\<close>

text \<open>A step that sends nothing, or one datagram, keeps what is on record.\<close>

lemma posted_same: "sent w' = sent w \<Longrightarrow> posted w w' = []" "sent w' = e # sent w \<Longrightarrow> posted w w' = [e]"
  by (simp_all add: posted_def)

lemma node_acts_parts:
  "net_world (node_acts M i w' N) = (net_world N)(i := w')"
  "sent w' = sent (net_world N i) \<Longrightarrow> net_air (node_acts M i w' N) = net_air N"
  "sent w' = e # sent (net_world N i) \<Longrightarrow> net_air (node_acts M i w' N) = net_air N + copies M N i e"
  by (simp_all add: node_acts_def posted_same)

lemma landed_parts [simp]:
  "net_world (landed c N) = net_world N" "net_air (landed c N) = net_air N - {#c#}"
  by (simp_all add: landed_def)

lemma in_copies: "(k, j, e') \<in># copies M N i e \<longleftrightarrow>
  k = i \<and> e' = e \<and> j \<in> set (mesh_nodes M) \<and> mesh_link M i j \<and> hears (net_world N j) e"
  by (auto simp: copies_def)

lemma message_rreq_event: "rreq_type q = 1 \<Longrightarrow> message (rreq_event t w q)"
  using message_rreq [of "aodv_pkt_prepare_rreq q" _ _ "[]"] by (simp add: rreq_event_def del: message.simps)

lemma sends_nothing:
  assumes "world_ok w'" "w_ip_addr w' = w_ip_addr w" "w_broadcast_addr w' = w_broadcast_addr w" "sent w' = sent w"
  shows "sends P w w'"
  using assms by (simp add: sends_def)

lemma capture_sends:
  assumes ok: "world_ok w" and c: "captured nfa"
  shows "runs (manage_packet E nfa w) (sends message w)"
proof (rule runs_mono [OF manage_packet_ok [OF ok c]])
  fix w' assume a: "if stuck nfa w then data_step w w' \<and> same_pkts w w' \<and> same_rreqs w w' \<and> w_out w' = w_out w
    else if waits nfa w then kept_waiting nfa w w' else accepted nfa w w'"
  then have d: "data_step w w'" by (auto simp: kept_waiting_def accepted_def split: if_splits)
  have "sent w' = sent w \<or> (\<exists>t q. rreq_type q = 1 \<and> sent w' = rreq_event t w q # sent w)"
  proof (cases "waits nfa w \<and> \<not> stuck nfa w")
    case True
    then have "kept_waiting nfa w w'" using a by simp
    then show ?thesis
      using asks_again_quiet asks_again_once unfolding kept_waiting_def asks_again_def by (simp split: if_splits)
  next
    case False
    then have "w_out w' = w_out w \<or> w_out w' = Verdict (cap_id nfa) NF_ACCEPT # w_out w"
      using a by (auto simp: accepted_def split: if_splits)
    then show ?thesis by (auto simp: sent_def)
  qed
  then show "sends message w w'"
    using d message_rreq_event unfolding sends_def data_step_def by blast
qed

lemma alarm_sends:
  assumes ok: "world_ok w" and p: "p \<in> waiting (w_alarms w)" and r: "run_alarm E p w = Some w'"
  shows "sends message w w'"
proof -
  have "no_last_try {p} w"
    using run_alarm_last [OF ok p, of _ E] r by (auto simp: no_last_try_def)
  then have "alarm_ran p w w'" using run_alarm_ok [OF ok p, of E] r by simp
  then show ?thesis
    using message_rreq_event unfolding sends_def alarm_ran_def asks_again_def by blast
qed

section \<open>The mesh stays well-formed\<close>

definition net_ok :: "mesh \<Rightarrow> net \<Rightarrow> bool" where
  "net_ok M N \<longleftrightarrow> (\<forall>i. world_ok (net_world N i)) \<and>
     (\<forall>i j e. (i, j, e) \<in># net_air N \<longrightarrow> message e \<and> j \<in> set (mesh_nodes M) \<and> mesh_link M i j)"

lemma net_ok_landed: "net_ok M N \<Longrightarrow> net_ok M (landed c N)"
  by (auto simp: net_ok_def dest: in_diffD)

lemma net_ok_acts:
  assumes N: "net_ok M N" and s: "sends P (net_world N i) w'" and P: "\<And>e. P e \<Longrightarrow> message e"
  shows "net_ok M (node_acts M i w' N)"
proof -
  have w: "world_ok w'" using s by (simp add: sends_def)
  consider "sent w' = sent (net_world N i)" | e where "message e" "sent w' = e # sent (net_world N i)"
    using s P by (auto simp: sends_def)
  then show ?thesis
  proof cases
    case 1
    then show ?thesis using N w by (simp add: net_ok_def node_acts_parts)
  next
    case 2
    then show ?thesis using N w by (auto simp: net_ok_def node_acts_parts in_copies)
  qed
qed

lemma follows_message: "follows bs h e \<Longrightarrow> message e"
  by (cases e) (simp_all del: message.simps)

lemma net_step_ok:
  assumes "net_step M l N N'" "net_ok M N"
  shows "net_ok M N'"
  using assms
proof cases
  case (deliver i j a p t bs h w')
  have m: "message (Sent a p t bs)" and ok: "world_ok (net_world N j)"
    using assms(2) deliver(3) unfolding net_ok_def by blast+
  from receive_sends [OF ok m, of "mesh_env M j" "w_ip_addr (net_world N i)" h] deliver(5)
  have "sends (follows bs h) (net_world (landed (i, j, Sent a p t bs) N) j) w'" by simp
  from net_ok_acts [OF net_ok_landed [OF assms(2)] this follows_message] show ?thesis
    using deliver(2) by simp
next
  case (lose i j e)
  then show ?thesis using net_ok_landed [OF assms(2)] by simp
next
  case (capture i nfa w')
  have "world_ok (net_world N i)" using assms(2) by (simp add: net_ok_def)
  from capture_sends [OF this capture(4), of "mesh_env M i"] capture(5)
  have "sends message (net_world N i) w'" by simp
  from net_ok_acts [OF assms(2) this] show ?thesis using capture(2) by simp
next
  case (ring i p w')
  have "world_ok (net_world N i)" using assms(2) by (simp add: net_ok_def)
  from alarm_sends [OF this ring(4,5)] have "sends message (net_world N i) w'" .
  from net_ok_acts [OF assms(2) this] show ?thesis using ring(2) by simp
qed

lemma net_reachable_ok: "net_reachable M N \<Longrightarrow> net_ok M N"
proof (induction rule: net_reachable.induct)
  case (start N)
  then show ?case by (simp add: net_ok_def net_start_def)
next
  case (step N l N')
  then show ?case using net_step_ok by blast
qed

section \<open>A sample mesh\<close>

text \<open>Two nodes that hear each other, and the first of them searching for an unknown node.\<close>

definition sample_mesh :: mesh where
  "sample_mesh = \<lparr>mesh_nodes = [0, 1], mesh_link = (\<lambda>i j. i \<noteq> j), mesh_env = (\<lambda>_. sample_env)\<rparr>"

definition sample_net :: net where
  "sample_net = \<lparr>net_world = (\<lambda>i. if i = 0 then sample_world else sample_world\<lparr>w_ip_addr := 0x0A000002\<rparr>), net_air = {#}\<rparr>"

lemma sample_net_start: "net_start sample_net"
  using sample_world_ok by (simp add: net_start_def sample_net_def)

lemma sample_unknown: "\<not> passes sample_world 0x0A000008" "rreq_fifo_waiting_response_for 0x0A000008 sample_world = Some False"
  using rreq_fifo_waiting_eq [OF sample_world_ok, of "0x0A000008"]
  by (auto simp: passes_def active_route_def route_to_def route_dst_def sample_parts sample_route_def ran_def)

lemma sample_search:
  obtains w' where "manage_packet sample_env (sample_capture 3 0x0A000008) sample_world = Some w'"
    "sent w' = rreq_event 3 sample_world (own_rreq 0x0A000008 None (next_self sample_world)) # sent sample_world"
proof -
  let ?c = "sample_capture 3 0x0A000008"
  have "waits ?c sample_world" "\<not> stuck ?c sample_world"
    using sample_unknown(1) by (simp_all add: waits_def stuck_def sample_captured hook_defs)
  then obtain w' where w': "manage_packet sample_env ?c sample_world = Some w'" "kept_waiting ?c sample_world w'"
    using manage_packet_ok [OF sample_world_ok sample_captured(1), of sample_env 3 "0x0A000008"] by (auto simp: runs_iff)
  have "w_out w' = rreq_event (ucast (expanding_ring_search_ttl 0 0)) sample_world
      (own_rreq 0x0A000008 None (next_self sample_world)) # w_out sample_world"
    using w'(2) sample_unknown(2) by (simp add: kept_waiting_def sample_captured)
  moreover have "ucast (expanding_ring_search_ttl 0 0) = (3 :: u8)" by (simp add: expanding_ring_search_ttl_def TTL_START_def)
  ultimately show ?thesis using that w'(1) by (simp add: sent_def)
qed

lemma sample_under_way:
  obtains N e where "net_reachable sample_mesh N" "(0, 1, e) \<in># net_air N"
proof -
  obtain w' where w': "manage_packet sample_env (sample_capture 3 0x0A000008) sample_world = Some w'"
    "sent w' = rreq_event 3 sample_world (own_rreq 0x0A000008 None (next_self sample_world)) # sent sample_world"
    using sample_search by blast
  let ?N = "node_acts sample_mesh 0 w' sample_net"
    and ?e = "rreq_event 3 sample_world (own_rreq 0x0A000008 None (next_self sample_world))"
  have "net_step sample_mesh (Captured 0 (sample_capture 3 0x0A000008)) sample_net ?N"
    by (rule capture) (use w'(1) in \<open>simp_all add: sample_mesh_def sample_net_def sample_captured\<close>)
  then have "net_reachable sample_mesh ?N" using start [OF sample_net_start] step by blast
  moreover have "sent w' = ?e # sent (net_world sample_net 0)" using w'(2) by (simp add: sample_net_def)
  then have "(0, 1, ?e) \<in># net_air ?N"
    using node_acts_parts(3) [of w' ?e sample_net 0 sample_mesh]
    by (simp add: in_copies sample_mesh_def sample_net_def rreq_event_def)
  ultimately show ?thesis using that by blast
qed

section \<open>Properties of the mesh\<close>

lemma message_handled:
  assumes "message (Sent a p t bs)"
  shows "goes_to_handler (datagram ip bs h) (int (length bs)) w \<longleftrightarrow> ip \<noteq> w_ip_addr w"
proof -
  have ne: "bs \<noteq> []" using assms by auto
  obtain pkt0 v where g: "aodv_pkt_get (datagram ip bs h) (int (length bs)) w = Some (pkt0, v)" "pkt_ok pkt0"
    "stats_only (count_pkt w) v" "pkt_payload pkt0 = Some bs" "aodv_pkt_get_address pkt0 = ip"
    using datagram_got [OF ne] by blast
  obtain pkt where c: "aodv_pkt_check pkt0 v = Some (True, pkt, v)" "pkt_address pkt = pkt_address pkt0"
    using message_accepted [OF assms g(2,4)] by blast
  have "aodv_pkt_get_address pkt = ip" "w_ip_addr v = w_ip_addr w"
    using c(2) g(5) stats_only_same(2) [OF g(3)] by (simp_all add: aodv_pkt_get_address_def count_pkt_def)
  then show ?thesis by (simp add: goes_to_handler_def g(1) c(1))
qed

text \<open>
  C6: the daemons of a mesh understand each other. However datagrams are ordered and lost, packets
  captured and alarms run, every datagram under way passes the checks of the node it comes to
  and goes to a handler there (unless it carries the node's own address), the handling is free of
  undefined behaviour, and every node stays well-formed.
\<close>
theorem daemons_understand_each_other:
  assumes "net_reachable M N" "(i, j, e) \<in># net_air N"
  shows "\<exists>a p t bs. e = Sent a p t bs \<and> (\<forall>h.
    goes_to_handler (datagram (w_ip_addr (net_world N i)) bs h) (int (length bs)) (net_world N j) =
      (w_ip_addr (net_world N i) \<noteq> w_ip_addr (net_world N j)) \<and>
    runs (aodv_socket_receive_packet (mesh_env M j) (int (length bs)) (datagram (w_ip_addr (net_world N i)) bs h)
      (net_world N j)) world_ok)"
proof -
  have ok: "world_ok (net_world N j)" and m: "message e"
    using net_reachable_ok [OF assms(1)] assms(2) unfolding net_ok_def by blast+
  then obtain a p t bs where e: "e = Sent a p t bs" by (cases e) simp_all
  have m': "message (Sent a p t bs)" using m e by simp
  have "runs (aodv_socket_receive_packet (mesh_env M j) (int (length bs)) (datagram (w_ip_addr (net_world N i)) bs h)
      (net_world N j)) world_ok" for h
    by (rule runs_mono [OF receive_sends [OF ok m']]) (simp add: sends_def)
  then show ?thesis using e message_handled [OF m'] by blast
qed

theorem daemons_understand_each_other_witness:
  "\<exists>N e. net_reachable sample_mesh N \<and> (0, 1, e) \<in># net_air N \<and> (\<exists>a p t bs. e = Sent a p t bs \<and> bs \<noteq> [])"
proof -
  obtain N e where N: "net_reachable sample_mesh N" "(0, 1, e) \<in># net_air N" using sample_under_way by blast
  from daemons_understand_each_other [OF N] obtain a p t bs where e: "e = Sent a p t bs" by blast
  moreover have "bs \<noteq> []" using net_reachable_ok [OF N(1)] N(2) unfolding net_ok_def e by fastforce
  ultimately show ?thesis using N by blast
qed

text \<open>
  The weight of a datagram bounds what can come of it in a mesh of \<open>n\<close> nodes: every node that hears
  it may send at most one, which is lighter by a factor of more than \<open>n\<close>.
\<close>

fun hop_limit :: "event \<Rightarrow> u8" where
  "hop_limit (Sent a p t bs) = t"
| "hop_limit _ = 0"

fun event_weight :: "nat \<Rightarrow> event \<Rightarrow> nat" where
  "event_weight n (Sent a p t bs) = Suc n ^ ((if hd bs = 1 then 65 else 0) + unat t)"
| "event_weight n _ = 0"

definition air_weight :: "mesh \<Rightarrow> net \<Rightarrow> nat" where
  "air_weight M N = sum_mset (image_mset (\<lambda>(i, j, e). event_weight (length (mesh_nodes M)) e) (net_air N))"

text \<open>Only datagrams under way are taken out of the air, none of them with the hop limit 0.\<close>

inductive settles :: "mesh \<Rightarrow> net \<Rightarrow> net \<Rightarrow> bool" for M :: mesh where
  arrives: "net_step M (Delivered i j e) N N' \<Longrightarrow> hop_limit e \<noteq> 0 \<Longrightarrow> settles M N N'"
| fades: "net_step M (Lost i j e) N N' \<Longrightarrow> settles M N N'"

lemma event_weight_pos: "message e \<Longrightarrow> 0 < event_weight n e"
  by (cases e) simp_all

lemma unat_less_one: "h \<noteq> 0 \<Longrightarrow> unat (h - 1) + 1 = unat (h :: u8)"
  using unat_minus_one [of h] unat_eq_zero [of h] by simp

lemma event_weight_less:
  assumes "follows bs h e" "h \<noteq> 0"
  shows "n * event_weight n e < event_weight n (Sent a p h bs)"
proof -
  obtain a' p' t bs' where e: "e = Sent a' p' t bs'" using assms(1) by (cases e) simp_all
  let ?x = "(if hd bs' = 1 then 65 else 0) + unat t" and ?y = "(if hd bs = 1 then 65 else 0) + unat h"
  have "?x + 1 \<le> ?y"
    using assms unat_less_one [OF assms(2)] unfolding e
    by (auto simp: DEFAULT_TTL_def simp del: message.simps)
  then have "Suc n ^ (?x + 1) \<le> Suc n ^ ?y" by (intro power_increasing) simp_all
  moreover have "n * Suc n ^ ?x < Suc n ^ (?x + 1)" by simp
  ultimately have "n * Suc n ^ ?x < Suc n ^ ?y" by linarith
  then show ?thesis unfolding e event_weight.simps .
qed

lemma air_weight_copies:
  "sum_mset (image_mset (\<lambda>(i, j, e). event_weight n e) (copies M N i e)) \<le> length (mesh_nodes M) * event_weight n e"
proof -
  have "sum_mset (image_mset (\<lambda>(i, j, e). event_weight n e) (mset (map (\<lambda>j. (i, j, e)) js))) = length js * event_weight n e" for js
    by (induction js) simp_all
  then have "sum_mset (image_mset (\<lambda>(i, j, e). event_weight n e) (copies M N i e)) =
      length (filter (\<lambda>j. mesh_link M i j \<and> hears (net_world N j) e) (mesh_nodes M)) * event_weight n e"
    unfolding copies_def by blast
  then show ?thesis by simp
qed

lemma air_weight_landed:
  assumes "(i, j, e) \<in># net_air N"
  shows "air_weight M (landed (i, j, e) N) + event_weight (length (mesh_nodes M)) e = air_weight M N"
proof -
  obtain A where "net_air N = add_mset (i, j, e) A" using assms by (metis multi_member_split)
  then show ?thesis by (simp add: air_weight_def)
qed

lemma settles_decreases:
  assumes "settles M N N'" "net_ok M N"
  shows "air_weight M N' < air_weight M N"
  using assms(1)
proof cases
  case (fades i j e)
  then show ?thesis
  proof cases
    case lose
    moreover have "0 < event_weight (length (mesh_nodes M)) e"
      using assms(2) lose(2) event_weight_pos unfolding net_ok_def by blast
    ultimately show ?thesis using air_weight_landed [of i j e N M] by simp
  qed
next
  case (arrives i j e)
  from arrives(1) show ?thesis
  proof cases
    case (deliver a p t bs h w')
    let ?n = "length (mesh_nodes M)" and ?L = "landed (i, j, Sent a p t bs) N"
    have t: "t \<noteq> 0" "h = t" using arrives(2) deliver(1,4) by auto
    have m: "message (Sent a p t bs)" and ok: "world_ok (net_world N j)"
      using assms(2) deliver(3) unfolding net_ok_def by blast+
    from receive_sends [OF ok m, of "mesh_env M j" "w_ip_addr (net_world N i)" h] deliver(5)
    have s: "sends (follows bs t) (net_world ?L j) w'" using t by simp
    have "air_weight M (node_acts M j w' ?L) < air_weight M ?L + event_weight ?n (Sent a p t bs)"
    proof (cases "sent w' = sent (net_world ?L j)")
      case True
      have "air_weight M (node_acts M j w' ?L) = air_weight M ?L"
        using node_acts_parts(2) [OF True] by (simp add: air_weight_def)
      then show ?thesis using event_weight_pos [OF m, of ?n] by simp
    next
      case False
      then obtain e' where e': "follows bs t e'" "sent w' = e' # sent (net_world ?L j)"
        using s by (auto simp: sends_def)
      have "air_weight M (node_acts M j w' ?L) \<le> air_weight M ?L + ?n * event_weight ?n e'"
        using node_acts_parts(3) [OF e'(2)] air_weight_copies [of ?n M ?L j e'] by (simp add: air_weight_def)
      then show ?thesis using event_weight_less [OF e'(1) t(1), of ?n a p] by simp
    qed
    then show ?thesis using deliver(2) air_weight_landed [OF deliver(3)] by simp
  qed
qed

lemma settles_ok: "settles M N N' \<Longrightarrow> net_ok M N \<Longrightarrow> net_ok M N'"
  by (auto elim!: settles.cases intro: net_step_ok)

lemma settles_bound: "(settles M ^^ k) N N' \<Longrightarrow> net_ok M N \<Longrightarrow> k + air_weight M N' \<le> air_weight M N \<and> net_ok M N'"
proof (induction k arbitrary: N')
  case (Suc k)
  then obtain L where L: "(settles M ^^ k) N L" "settles M L N'" by auto
  with Suc.IH [OF L(1)] Suc.prems(2) have "k + air_weight M L \<le> air_weight M N" "net_ok M L" by simp_all
  with settles_decreases [OF L(2)] settles_ok [OF L(2)] show ?case by simp
qed simp

text \<open>
  C7: floods die out as long as no new packet is captured, no alarm runs and no datagram that was sent
  with the hop limit 0 is delivered: the number of datagrams that are still going to be delivered or lost in the
  whole mesh is bounded by the weight of those under way; a request with hop limit \<open>t\<close> in a mesh of
  \<open>n\<close> nodes weighs \<open>(n + 1) ^ (65 + t)\<close> and a reply \<open>(n + 1) ^ t\<close>. Only a reply is ever sent with the
  limit 0, by a node that forwards it without a test of its limit; the kernel refuses to set it, the
  reply leaves with another limit, and nothing is claimed about it.
\<close>
theorem floods_die_out:
  assumes "net_reachable M N" "(settles M ^^ k) N N'"
  shows "k + air_weight M N' \<le> air_weight M N"
  using settles_bound [OF assms(2) net_reachable_ok [OF assms(1)]] by blast

theorem floods_die_out_witness:
  "\<exists>N N'. net_reachable sample_mesh N \<and> settles sample_mesh N N' \<and> 1 + air_weight sample_mesh N' \<le> air_weight sample_mesh N"
proof -
  obtain N e where N: "net_reachable sample_mesh N" "(0, 1, e) \<in># net_air N" using sample_under_way by blast
  have s: "settles sample_mesh N (landed (0, 1, e) N)" by (rule fades, rule lose, rule N(2))
  then have "(settles sample_mesh ^^ 1) N (landed (0, 1, e) N)" by (simp only: relpowp_1)
  from floods_die_out [OF N(1) this] s N(1) show ?thesis by blast
qed

end
