(* ===== verification/Examples.thy ===== *)
theory Examples
  imports Linux_List Headers Network
begin

unbundle bit_operations_syntax

text \<open>
  Small programs that use the parts of the library on their own: \<open>examples/linuxlists.c\<close> (the
  intrusive lists), \<open>libnetfilter_queue/nfqnl_test.c\<close> and \<open>examples/nfqueue2.c\<close> (a capture queue),
  and \<open>examples/broadcaster.c\<close> (a reply sent to the daemons). What a program prints is a result,
  and so is its exit status.
\<close>

section \<open>A list: \<open>linuxlists.c\<close>\<close>

text \<open>
  The entries by the address of their links: the links, the values, and the text printed so far.
  \<open>myList\<close> lies on the stack at 10; the two entries of \<open>calloc\<close> are at 20 and 30, filled with zeros.
\<close>

type_synonym cool_state = "lstore \<times> (ptr \<rightharpoonup> int) \<times> string"

definition print_entry :: "string \<Rightarrow> (ptr \<rightharpoonup> int) \<Rightarrow> ptr \<Rightarrow> string \<Rightarrow> string option" where
  "print_entry label vals p out = do { v \<leftarrow> vals p; Some (out @ puts (label @ int_digits v)) }"

definition go_across :: "string \<Rightarrow> cool_state \<Rightarrow> cool_state option" where
  "go_across heading = (\<lambda>(h, vals, out). do {
     out \<leftarrow> list_for_each_entry h 10 (print_entry ''entry value: '' vals) (out @ puts heading);
     Some (h, vals, out) })"

definition add_entry :: "ptr \<Rightarrow> int \<Rightarrow> cool_state \<Rightarrow> cool_state option" where
  "add_entry p v = (\<lambda>(h, vals, out). do {
     let h = h(p \<mapsto> \<lparr>lh_next = 0, lh_prev = 0\<rparr>);
     h \<leftarrow> list_add p 10 h;
     Some (h, vals(p \<mapsto> v), out) })"

definition free_entry :: "ptr \<Rightarrow> cool_state \<Rightarrow> cool_state option" where
  "free_entry p = (\<lambda>(h, vals, out). do {
     out \<leftarrow> print_entry ''free entry with value: '' vals p out;
     h \<leftarrow> list_del p h;
     Some (h(p := None), vals(p := None), out) })"

definition linuxlists_main :: "list_head \<Rightarrow> (int \<times> cool_state) option" where
  "linuxlists_main garbage = do {
     h \<leftarrow> INIT_LIST_HEAD 10 [10 \<mapsto> garbage];
     s \<leftarrow> go_across ''go across the just initialized list (should be empty):'' (h, Map.empty, []);
     s \<leftarrow> (case s of (h, vals, out) \<Rightarrow> add_entry 20 666 (h, vals, out @ puts ''add some entries''));
     s \<leftarrow> add_entry 30 111 s;
     s \<leftarrow> go_across ''go across the list (should show the added entries):'' s;
     s \<leftarrow> (case s of (h, vals, out) \<Rightarrow> list_for_each_entry_safe 10 free_entry (h, vals, out @ puts ''free the mallocs:''));
     s \<leftarrow> go_across ''go across the list (should be empty):'' s;
     Some (0, s) }"

lemma go_across_list:
  assumes "dll h 10 ps" "set ps \<subseteq> dom vals"
  shows "go_across heading (h, vals, out) =
    Some (h, vals, out @ puts heading @ concat (map (\<lambda>p. puts (''entry value: '' @ int_digits (the (vals p)))) ps))"
proof -
  have "fold_steps (print_entry ''entry value: '' vals) ps s =
      Some (s @ concat (map (\<lambda>p. puts (''entry value: '' @ int_digits (the (vals p)))) ps))" for s
    using assms(2) by (induction ps arbitrary: s) (auto simp: print_entry_def)
  then show ?thesis by (simp add: go_across_def list_for_each_entry_dll [OF assms(1)])
qed

lemma add_entry_list:
  assumes "dll h 10 ps" "p \<notin> set (10 # ps)" "p \<notin> dom h"
  obtains h' where "add_entry p v (h, vals, out) = Some (h', vals(p \<mapsto> v), out)" "dll h' 10 (p # ps)" "dom h' = insert p (dom h)"
proof -
  let ?h = "h(p \<mapsto> \<lparr>lh_next = 0, lh_prev = 0\<rparr>)"
  have d: "dll ?h 10 ps" by (rule dll_frame [OF assms(1)]) (use assms in auto)
  from list_add_dll [OF d assms(2)] obtain h' where "list_add p 10 ?h = Some h'" "dll h' 10 (p # ps)" "dom h' = dom ?h"
    by (auto simp: runs_iff same_outside_def)
  then show ?thesis using that [of h'] by (simp add: add_entry_def)
qed

text \<open>Freeing an entry leaves the other entries, its value and its memory go.\<close>

lemma free_entry_unlinks:
  assumes "dll h 10 (ys @ x # zs)" "vals x = Some v"
  obtains h' where "free_entry x (h, vals, out) =
      Some (h', vals(x := None), out @ puts (''free entry with value: '' @ int_digits v))" "dll h' 10 (ys @ zs)"
    "dom h' = dom h - {x}"
proof -
  have r: "remove1 x (ys @ x # zs) = ys @ zs" using assms(1) by (intro remove1_split) (simp add: dll_def)
  from list_del_dll [OF assms(1), of x] r obtain h' where h': "list_del x h = Some h'" "dll h' 10 (ys @ zs)" "dom h' = dom h"
    by (auto simp: runs_iff same_outside_def)
  have "x \<notin> set (10 # ys @ zs)" using assms(1) by (auto simp: dll_def)
  then have "dll (h'(x := None)) 10 (ys @ zs)" by (intro dll_frame [OF h'(2)]) auto
  then show ?thesis using that [of "h'(x := None)"] h' assms(2) by (simp add: free_entry_def print_entry_def)
qed

text \<open>
  The program ends with success; it finds the list empty at first, then finds the two entries,
  the latest first, and empty again after it has freed them; nothing stays allocated.
\<close>
theorem linuxlists_frees_everything:
  "\<exists>links. linuxlists_main garbage = Some (0, [10 \<mapsto> links], Map.empty,
     puts ''go across the just initialized list (should be empty):'' @ puts ''add some entries'' @
     puts ''go across the list (should show the added entries):'' @ puts ''entry value: 111'' @ puts ''entry value: 666'' @
     puts ''free the mallocs:'' @ puts ''free entry with value: 111'' @ puts ''free entry with value: 666'' @
     puts ''go across the list (should be empty):'')"
proof -
  let ?m1 = "puts ''go across the just initialized list (should be empty):''" and ?m2 = "puts ''add some entries''"
    and ?m3 = "puts ''go across the list (should show the added entries):''" and ?m4 = "puts ''free the mallocs:''"
    and ?e = "\<lambda>v. puts (''entry value: '' @ int_digits v)" and ?f = "\<lambda>v. puts (''free entry with value: '' @ int_digits v)"
  obtain h0 where h0: "INIT_LIST_HEAD 10 [10 \<mapsto> garbage] = Some h0" "dll h0 10 []" "dom h0 = {10}"
    using INIT_LIST_HEAD_dll [of 10 "[10 \<mapsto> garbage]"] by (auto simp: runs_iff same_outside_def)
  obtain h1 where h1: "add_entry 20 666 (h0, Map.empty, ?m1 @ ?m2) = Some (h1, [20 \<mapsto> 666], ?m1 @ ?m2)" "dll h1 10 [20]"
    "dom h1 = {20, 10}"
    using add_entry_list [OF h0(2), of 20 666 Map.empty "?m1 @ ?m2"] h0(3) by auto
  obtain h2 where h2: "add_entry 30 111 (h1, [20 \<mapsto> 666], ?m1 @ ?m2) = Some (h2, [20 \<mapsto> 666, 30 \<mapsto> 111], ?m1 @ ?m2)"
    "dll h2 10 [30, 20]" "dom h2 = {30, 20, 10}"
    using add_entry_list [OF h1(2), of 30 111 "[20 \<mapsto> 666]" "?m1 @ ?m2"] h1(3) by auto
  let ?o2 = "?m1 @ ?m2 @ ?m3 @ ?e 111 @ ?e 666 @ ?m4"
  obtain h3 where h3: "free_entry 30 (h2, [20 \<mapsto> 666, 30 \<mapsto> 111], ?o2) = Some (h3, [20 \<mapsto> 666], ?o2 @ ?f 111)"
    "dll h3 10 [20]" "dom h3 = {20, 10}"
    using free_entry_unlinks [of h2 "[]" 30 "[20]" "[20 \<mapsto> 666, 30 \<mapsto> 111]" 111 ?o2] h2(2,3) by auto
  obtain h4 where h4: "free_entry 20 (h3, [20 \<mapsto> 666], ?o2 @ ?f 111) = Some (h4, Map.empty, ?o2 @ ?f 111 @ ?f 666)"
    "dll h4 10 []" "dom h4 = {10}"
    using free_entry_unlinks [of h3 "[]" 20 "[]" "[20 \<mapsto> 666]" 666 "?o2 @ ?f 111"] h3(2,3) by auto
  have n: "get_next 10 h2 = Some 30" "get_next 30 h2 = Some 20" "get_next 20 h3 = Some 10" "get_next 10 h4 = Some 10"
    using h2(2) h3(2) h4(2) by (simp_all add: dll_def links_def)
  have "list_for_each_entry_safe 10 free_entry (h2, [20 \<mapsto> 666, 30 \<mapsto> 111], ?o2) =
      Some (h4, Map.empty, ?o2 @ ?f 111 @ ?f 666)"
    using n h3(1) h4(1) by (simp add: list_for_each_entry_safe_def list_for_each_safe_from.simps)
  moreover obtain links where "h4 = [10 \<mapsto> links]" using h4(3) by (metis dom_eq_singleton_conv)
  moreover have "go_across heading (h0, Map.empty, []) = Some (h0, Map.empty, puts heading)"
    "go_across heading (h2, [20 \<mapsto> 666, 30 \<mapsto> 111], out) =
      Some (h2, [20 \<mapsto> 666, 30 \<mapsto> 111], out @ puts heading @ ?e 111 @ ?e 666)"
    "go_across heading (h4, Map.empty, out) = Some (h4, Map.empty, out @ puts heading)" for heading out
    using go_across_list [OF h0(2)] go_across_list [OF h2(2)] go_across_list [OF h4(2)] by simp_all
  moreover have "int_digits 111 = ''111''" "int_digits 666 = ''666''" by code_simp+
  ultimately show ?thesis
    using h0(1) h1(1) h2(1) by (simp add: linuxlists_main_def del: fun_upd_apply) blast
qed

section \<open>A capture queue: \<open>nfqnl_test.c\<close>\<close>

text \<open>
  As in the daemon, \<open>nfnl_handle_packet\<close> of libnfnetlink finds the packet messages in a received
  buffer; each of them, with its queue number in network byte order, is passed to the library.
\<close>

definition print_pkt :: "nfq_data \<Rightarrow> (u32 \<times> string) option" where
  "print_pkt tb = do {
     (pid, out) \<leftarrow> (case nfq_get_msg_packet_hdr tb of
         None \<Rightarrow> Some (0, [])
       | Some ph \<Rightarrow> do {
           pid \<leftarrow> map_option ntohl (packet_hdr_packet_id ph);
           proto \<leftarrow> packet_hdr_hw_protocol ph;
           hook \<leftarrow> packet_hdr_hook ph;
           Some (pid, ''hw_protocol=0x'' @ hex4 (ntohs proto) @ '' hook='' @ nat_digits (unat hook) @
             '' id='' @ unsigned_digits pid @ '' '') });
     mark \<leftarrow> nfq_get_nfmark tb;
     let out = out @ (if mark \<noteq> 0 then ''mark='' @ unsigned_digits mark @ '' '' else []);
     ifi \<leftarrow> nfq_get_indev tb;
     let out = out @ (if ifi \<noteq> 0 then ''indev='' @ unsigned_digits ifi @ '' '' else []);
     ifi \<leftarrow> nfq_get_outdev tb;
     let out = out @ (if ifi \<noteq> 0 then ''outdev='' @ unsigned_digits ifi @ '' '' else []);
     let ret = fst (nfq_get_payload tb);
     let out = out @ (if ret \<ge> 0 then ''payload_len='' @ int_digits ret @ '' '' else []);
     Some (pid, puts out) }"

definition NF_ACCEPT_code :: u32 where "NF_ACCEPT_code = 1"
definition NF_STOLEN_code :: u32 where "NF_STOLEN_code = 2"

type_synonym nfq_run = "nfq_state \<times> string"

definition test_cb :: "(nfq_msg \<Rightarrow> int) \<Rightarrow> ptr \<Rightarrow> nfq_data \<Rightarrow> nfq_run \<Rightarrow> nfq_run option" where
  "test_cb talk qh nfa = (\<lambda>(S, out). do {
     (pid, line) \<leftarrow> print_pkt nfa;
     (_, S) \<leftarrow> nfq_set_verdict_plain talk qh pid NF_ACCEPT_code [] S;
     Some (S, out @ line @ puts ''entering callback'') })"

text \<open>\<open>nfq_handle_packet\<close> with the callback of the queues; a message for no queue is refused.\<close>

definition pass_message ::
  "(ptr \<Rightarrow> nfq_data \<Rightarrow> nfq_run \<Rightarrow> nfq_run option) \<Rightarrow> ptr \<Rightarrow> u16 \<times> nfq_data \<Rightarrow> nfq_run \<Rightarrow> nfq_run option" where
  "pass_message cb h = (\<lambda>(res_id, nfa) (S, out). do {
     r \<leftarrow> nfq_rcv_pkt h res_id S;
     case r of Inl _ \<Rightarrow> Some (S, out) | Inr qh \<Rightarrow> cb qh nfa (S, out) })"

definition test_received :: "(nfq_msg \<Rightarrow> int) \<Rightarrow> ptr \<Rightarrow> (u16 \<times> nfq_data) list \<Rightarrow> nfq_run \<Rightarrow> nfq_run option" where
  "test_received talk h msgs = (\<lambda>(S, out). fold_steps (pass_message (test_cb talk) h) msgs (S, out @ puts ''pkt received''))"

text \<open>
  The program. \<open>inputs\<close> holds the messages of each \<open>recv\<close> up to the one that returns no positive
  number, with which the loop ends. The result is the exit status, the library and the output;
  what goes to \<open>stderr\<close> is part of the output.
\<close>

definition nfqnl_test_main ::
  "nfnl_env \<Rightarrow> (nfq_msg \<Rightarrow> int) \<Rightarrow> int \<Rightarrow> (u16 \<times> nfq_data) list list \<Rightarrow> nfq_state \<Rightarrow> (int \<times> nfq_state \<times> string) option" where
  "nfqnl_test_main N talk nfnl_close inputs S = (
     let out = puts ''opening library handle''; (h, S) = nfq_open N S in
     if h = 0 then Some (1, S, out @ puts ''error during nfq_open()'')
     else let out = out @ puts ''unbinding existing nf_queue handler for AF_INET (if any)''; (r, S) = nfq_unbind_pf talk 2 S in
     if r < 0 then Some (1, S, out @ puts ''error during nfq_unbind_pf()'')
     else let out = out @ puts ''binding nfnetlink_queue as nf_queue handler for AF_INET''; (r, S) = nfq_bind_pf talk 2 S in
     if r < 0 then Some (1, S, out @ puts ''error during nfq_bind_pf()'')
     else do {
       let out = out @ puts (''binding this socket to queue '' @ [CHR 0x27, CHR ''0'', CHR 0x27]);
       (qh, S) \<leftarrow> nfq_create_queue talk h 0 True S;
       if qh = 0 then Some (1, S, out @ puts ''error during nfq_create_queue()'')
       else do {
         let out = out @ puts ''setting copy_packet mode'';
         (r, S) \<leftarrow> nfq_set_mode talk qh NFQNL_COPY_PACKET 0xffff S;
         if r < 0 then Some (1, S, out @ puts ''can't set packet_copy mode'')
         else do {
           (S, out) \<leftarrow> fold_steps (test_received talk h) inputs (S, out);
           let out = out @ puts ''unbinding from queue 0'';
           (_, S) \<leftarrow> nfq_destroy_queue talk qh S;
           let out = out @ puts ''closing library handle'';
           (_, S) \<leftarrow> nfq_close nfnl_close h S;
           Some (0, S, out) } } })"

text \<open>The number that is read from a message, and the verdict on it.\<close>

definition message_id :: "nfq_data \<Rightarrow> u32" where
  "message_id nfa = (case nfa NFQA_PACKET_HDR of None \<Rightarrow> 0 | Some hdr \<Rightarrow> ntohl (load32 hdr 0))"

definition accept_msg :: "nfq_data \<Rightarrow> nfq_msg" where
  "accept_msg nfa = Verdict_msg 0 (htonl NF_ACCEPT_code) (htonl (message_id nfa)) None []"

lemma print_pkt_defined:
  assumes "attributes_complete nfa"
  obtains line where "print_pkt nfa = Some (message_id nfa, line)"
proof -
  obtain hdr where "(case nfq_get_msg_packet_hdr nfa of None \<Rightarrow> Some (0, [])
       | Some ph \<Rightarrow> do {
           pid \<leftarrow> map_option ntohl (packet_hdr_packet_id ph);
           proto \<leftarrow> packet_hdr_hw_protocol ph;
           hook \<leftarrow> packet_hdr_hook ph;
           Some (pid, ''hw_protocol=0x'' @ hex4 (ntohs proto) @ '' hook='' @ nat_digits (unat hook) @
             '' id='' @ unsigned_digits pid @ '' '') }) = Some (message_id nfa, hdr)"
    using assms
    by (cases "nfa NFQA_PACKET_HDR") (auto simp: attributes_complete_def nfq_get_msg_packet_hdr_def message_id_def
        packet_hdr_packet_id_def packet_hdr_hw_protocol_def packet_hdr_hook_def read32_def read16_def read8_def)
  moreover obtain m i p where "nfq_get_nfmark nfa = Some m" "nfq_get_indev nfa = Some i" "nfq_get_outdev nfa = Some p"
    using attributes_read [OF assms] by blast
  ultimately show ?thesis using that by (simp add: print_pkt_def Let_def)
qed

text \<open>The library while the program runs, with the messages \<open>ms\<close> sent since its start.\<close>

definition testing :: "nfq_state \<Rightarrow> nfq_msg list \<Rightarrow> nfq_state" where
  "testing S ms = (let n = ns_next S in
     S\<lparr>ns_handles := (ns_handles S)(n \<mapsto> \<lparr>h_qh_list = Suc n\<rparr>),
       ns_queues := (ns_queues S)(Suc n \<mapsto> \<lparr>qh_next = 0, qh_h = n, qh_id = 0, qh_cb = True\<rparr>),
       ns_next := Suc (Suc n), ns_msgs := ms @ ns_msgs S\<rparr>)"

definition unused :: "nfq_state \<Rightarrow> bool" where
  "unused S \<longleftrightarrow> 0 < ns_next S \<and> ns_handles S (ns_next S) = None \<and> dom (ns_queues S) \<subseteq> {0<..<ns_next S}"

lemma testing_msg: "(testing S ms)\<lparr>ns_msgs := m # ns_msgs (testing S ms)\<rparr> = testing S (m # ms)"
  by (simp add: testing_def Let_def)

lemma testing_list: "unused S \<Longrightarrow> queue_list (testing S ms) (ns_next S) [Suc (ns_next S)]"
  by (auto simp: unused_def queue_list_def testing_def Let_def)

lemma testing_rcv:
  assumes "unused S"
  shows "nfq_rcv_pkt (ns_next S) (htons num) (testing S ms) = Some (if num = 0 then Inr (Suc (ns_next S)) else Inl (- ENODEV))"
  using nfq_rcv_pkt_eq [OF testing_list [OF assms], of num ms]
  by (auto simp: queue_for_def queue_num_def testing_def Let_def)

lemma pass_test_message:
  assumes "unused S" "attributes_complete nfa"
  shows "runs (pass_message (test_cb talk) (ns_next S) (htons num, nfa) (testing S ms, out))
    (\<lambda>(S', out). S' = testing S (if num = 0 then accept_msg nfa # ms else ms))"
proof -
  obtain line where t: "print_pkt nfa = Some (message_id nfa, line)" using print_pkt_defined [OF assms(2)] .
  have q: "ns_queues (testing S ms) (Suc (ns_next S)) = Some \<lparr>qh_next = 0, qh_h = ns_next S, qh_id = 0, qh_cb = True\<rparr>"
    by (simp add: testing_def Let_def)
  have "nfq_set_verdict_plain talk (Suc (ns_next S)) (message_id nfa) NF_ACCEPT_code [] (testing S ms) =
      Some (talk (accept_msg nfa), testing S (accept_msg nfa # ms))"
    by (simp add: testing_msg nfq_set_verdict_plain_def set_verdict_def q nfnl_talk_def accept_msg_def)
  then show ?thesis by (simp add: pass_message_def testing_rcv [OF assms(1)] test_cb_def t)
qed

text \<open>The messages for the queue 0, the latest verdict first.\<close>

definition verdicts_on :: "(u16 \<times> nfq_data) list \<Rightarrow> nfq_msg list" where
  "verdicts_on msgs = rev (map (accept_msg \<circ> snd) (filter (\<lambda>m. fst m = htons 0) msgs))"

lemma pass_test_messages:
  assumes "unused S" "\<forall>m \<in> set msgs. attributes_complete (snd m)"
  shows "runs (fold_steps (pass_message (test_cb talk) (ns_next S)) msgs (testing S ms, out))
    (\<lambda>(S', out). S' = testing S (verdicts_on msgs @ ms))"
  using assms(2)
proof (induction msgs arbitrary: ms out)
  case (Cons m msgs)
  obtain num nfa where m: "m = (htons num, nfa)" by (metis htons_htons prod.collapse)
  have "runs (pass_message (test_cb talk) (ns_next S) m (testing S ms, out))
      (\<lambda>(S', out). S' = testing S (if num = 0 then accept_msg nfa # ms else ms))"
    unfolding m using Cons.prems m by (intro pass_test_message [OF assms(1)]) simp
  then obtain out' where out': "pass_message (test_cb talk) (ns_next S) m (testing S ms, out) =
      Some (testing S (if num = 0 then accept_msg nfa # ms else ms), out')"
    by (auto simp: runs_iff)
  have "verdicts_on (m # msgs) @ ms = verdicts_on msgs @ (if num = 0 then accept_msg nfa # ms else ms)"
    by (simp add: verdicts_on_def m)
  then show ?case using Cons.IH [of "if num = 0 then accept_msg nfa # ms else ms" out'] Cons.prems out' by simp
qed (simp add: verdicts_on_def)

lemma receive_tests:
  assumes "unused S" "\<forall>msgs \<in> set inputs. \<forall>m \<in> set msgs. attributes_complete (snd m)"
  shows "runs (fold_steps (test_received talk (ns_next S)) inputs (testing S ms, out))
    (\<lambda>(S', out). S' = testing S (verdicts_on (concat inputs) @ ms))"
  using assms(2)
proof (induction inputs arbitrary: ms out)
  case (Cons msgs inputs)
  have "runs (test_received talk (ns_next S) msgs (testing S ms, out)) (\<lambda>(S', out). S' = testing S (verdicts_on msgs @ ms))"
    using Cons.prems by (simp add: test_received_def pass_test_messages [OF assms(1)])
  then obtain out' where "test_received talk (ns_next S) msgs (testing S ms, out) = Some (testing S (verdicts_on msgs @ ms), out')"
    by (auto simp: runs_iff)
  moreover have "verdicts_on (concat (msgs # inputs)) = verdicts_on (concat inputs) @ verdicts_on msgs"
    by (simp add: verdicts_on_def)
  ultimately show ?case using Cons.IH [of "verdicts_on msgs @ ms" out'] Cons.prems by simp
qed (simp add: verdicts_on_def)

text \<open>What the program asks the kernel for before and after the loop, the latest first.\<close>

definition setup_msgs :: "nfq_msg list" where
  "setup_msgs = [Config_params 0 (htonl 0xffff) NFQNL_COPY_PACKET, Config_cmd 0 NFQNL_CFG_CMD_BIND (htons 0),
     Config_cmd 0 NFQNL_CFG_CMD_PF_BIND (htons 2), Config_cmd 0 NFQNL_CFG_CMD_PF_UNBIND (htons 2)]"

text \<open>
  When the kernel agrees to everything, the test program of the library accepts every packet of
  queue 0 exactly once, in the order in which they come, under the number that the kernel gave
  it; then it takes its queue and its handle down, and ends with success.
\<close>
theorem test_program_accepts_every_packet:
  assumes "unused S" "nfnl_open N" "nfnl_subsys_open N" "0 \<le> nfnl_callback_register N"
    and "\<forall>m \<in> set setup_msgs. 0 \<le> talk m" "talk (Config_cmd 0 NFQNL_CFG_CMD_UNBIND (htons 0)) = 0"
    and "\<forall>msgs \<in> set inputs. \<forall>m \<in> set msgs. attributes_complete (snd m)"
  shows "runs (nfqnl_test_main N talk 0 inputs S) (\<lambda>(rc, S', out). rc = 0 \<and>
    ns_handles S' = ns_handles S \<and> ns_queues S' = ns_queues S \<and>
    ns_msgs S' = Config_cmd 0 NFQNL_CFG_CMD_UNBIND (htons 0) # verdicts_on (concat inputs) @ setup_msgs @ ns_msgs S)"
proof -
  let ?n = "ns_next S" and ?unbind = "Config_cmd 0 NFQNL_CFG_CMD_UNBIND (htons 0)"
  have n: "?n \<noteq> 0" "ns_queues S ?n = None" "ns_queues S (Suc ?n) = None" "ns_handles S ?n = None"
    using assms(1) by (auto simp: unused_def)
  define S1 where "S1 = S\<lparr>ns_next := Suc ?n, ns_handles := (ns_handles S)(?n \<mapsto> \<lparr>h_qh_list = 0\<rparr>)\<rparr>"
  define S2 where "S2 = S1\<lparr>ns_msgs := [setup_msgs ! 3] @ ns_msgs S\<rparr>"
  define S3 where "S3 = S1\<lparr>ns_msgs := drop 2 setup_msgs @ ns_msgs S\<rparr>"
  have o: "nfq_open N S = (?n, S1)" using assms(2-4) by (simp add: nfq_open_def nfq_open_nfnl_def Let_def S1_def)
  have c: "nfq_create_queue talk ?n 0 True S3 = Some (Suc ?n, testing S (tl setup_msgs))"
    using assms(5) by (simp add: S3_def S1_def nfq_create_queue_def find_qh_def find_qh_from.simps build_send_cfg_msg_def
        nfnl_talk_def add_qh_def upd_queue_def upd_handle_def testing_def Let_def setup_msgs_def)
  have m: "nfq_set_mode talk (Suc ?n) NFQNL_COPY_PACKET 0xffff (testing S (tl setup_msgs)) =
      Some (talk (hd setup_msgs), testing S setup_msgs)"
    by (simp add: nfq_set_mode_def nfnl_talk_def testing_def Let_def setup_msgs_def)
  have d: "nfq_destroy_queue talk (Suc ?n) (testing S ms) = Some (0, S\<lparr>ns_next := Suc (Suc ?n),
      ns_handles := (ns_handles S)(?n \<mapsto> \<lparr>h_qh_list = 0\<rparr>), ns_msgs := ?unbind # ms @ ns_msgs S\<rparr>)" for ms
    using n assms(6) by (simp add: nfq_destroy_queue_def build_send_cfg_msg_def nfnl_talk_def del_qh_def
        del_qh_from.simps upd_handle_def testing_def Let_def fun_upd_idem)
  have u: "nfq_unbind_pf talk 2 S1 = (talk (setup_msgs ! 3), S2)" "nfq_bind_pf talk 2 S2 = (talk (setup_msgs ! 2), S3)"
    by (simp_all add: nfq_unbind_pf_def nfq_bind_pf_def build_send_cfg_msg_def nfnl_talk_def setup_msgs_def S3_def S2_def S1_def)
  have t: "0 \<le> talk (setup_msgs ! 3)" "0 \<le> talk (setup_msgs ! 2)" "0 \<le> talk (hd setup_msgs)"
    using assms(5) by (simp_all add: setup_msgs_def)
  show ?thesis
    by (simp add: nfqnl_test_main_def o u c m n(1) t not_less Let_def, rule runs_mono [OF receive_tests [OF assms(1,7)]],
        use n d in \<open>auto simp: nfq_close_def fun_upd_idem\<close>)
qed

text \<open>A library that has just started, and three messages: two for queue 0, one for queue 5.\<close>

definition idle_nfq :: nfq_state where
  "idle_nfq = \<lparr>ns_handles = Map.empty, ns_queues = Map.empty, ns_next = 1, ns_msgs = []\<rparr>"

definition sample_msg :: "u32 \<Rightarrow> nfq_data" where
  "sample_msg pid = [NFQA_PACKET_HDR \<mapsto> store32 (htonl pid) @ [8, 0, 3], NFQA_PAYLOAD \<mapsto> [0x45, 0]]"

lemma sample_msg_facts: "attributes_complete (sample_msg pid)" "message_id (sample_msg pid) = pid"
  using load32_store32 [of "[]" "htonl pid" "[8, 0, 3]"]
  by (auto simp: attributes_complete_def sample_msg_def nfqa_defs message_id_def)

theorem test_program_accepts_every_packet_witness:
  "\<exists>S' out. nfqnl_test_main \<lparr>nfnl_open = True, nfnl_subsys_open = True, nfnl_callback_register = 0\<rparr> (\<lambda>m. 0) 0
      [[(htons 0, sample_msg 7)], [(htons 5, sample_msg 8), (htons 0, sample_msg 9)]] idle_nfq = Some (0, S', out) \<and>
    ns_handles S' = Map.empty \<and> tl (ns_msgs S') = Verdict_msg 0 (htonl 1) (htonl 9) None [] #
      Verdict_msg 0 (htonl 1) (htonl 7) None [] # setup_msgs"
proof -
  let ?N = "\<lparr>nfnl_open = True, nfnl_subsys_open = True, nfnl_callback_register = 0\<rparr>"
    and ?in = "[[(htons 0, sample_msg 7)], [(htons 5, sample_msg 8), (htons 0, sample_msg 9)]]"
  have S: "unused idle_nfq" by (simp add: unused_def idle_nfq_def)
  have c: "\<forall>msgs \<in> set ?in. \<forall>m \<in> set msgs. attributes_complete (snd m)" by (simp add: sample_msg_facts)
  have "runs (nfqnl_test_main ?N (\<lambda>m. 0) 0 ?in idle_nfq) (\<lambda>(rc, S', out). rc = 0 \<and>
      ns_handles S' = ns_handles idle_nfq \<and> ns_queues S' = ns_queues idle_nfq \<and>
      ns_msgs S' = Config_cmd 0 NFQNL_CFG_CMD_UNBIND (htons 0) # verdicts_on (concat ?in) @ setup_msgs @ ns_msgs idle_nfq)"
    by (rule test_program_accepts_every_packet [OF S _ _ _ _ _ c]) simp_all
  then show ?thesis
    by (auto simp: runs_iff verdicts_on_def accept_msg_def sample_msg_facts idle_nfq_def NF_ACCEPT_code_def)
qed

section \<open>Two verdicts on a packet: \<open>nfqueue2.c\<close>\<close>

text \<open>
  The callback takes what lies behind an Internet and a UDP header for a C string. A message
  without a payload leaves the pointer uninitialised; a string that does not end within the
  payload is read behind it.
\<close>

definition sizeof_udphdr :: nat where "sizeof_udphdr = 8"

definition payload_string :: "nfq_data \<Rightarrow> string option" where
  "payload_string nfa = do {
     payload \<leftarrow> snd (nfq_get_payload nfa);
     let bs = drop (sizeof_iphdr + sizeof_udphdr) payload;
     defined_if (0 \<in> set bs) (Some (map (\<lambda>b. char_of (unat b)) (takeWhile (\<lambda>b. b \<noteq> 0) bs))) }"

definition nfqueue2_manage_packet :: "(nfq_msg \<Rightarrow> int) \<Rightarrow> ptr \<Rightarrow> nfq_data \<Rightarrow> nfq_run \<Rightarrow> nfq_run option" where
  "nfqueue2_manage_packet talk qh nfa = (\<lambda>(S, out). do {
     pid \<leftarrow> (case nfq_get_msg_packet_hdr nfa of
         Some packetHeader \<Rightarrow> map_option ntohl (packet_hdr_packet_id packetHeader)
       | None \<Rightarrow> Some (-1));
     payload \<leftarrow> payload_string nfa;
     let out = out @ puts (''stolen '' @ int_digits (sint pid) @ '': '' @ payload);
     (_, S) \<leftarrow> nfq_set_verdict_plain talk qh pid NF_STOLEN_code [] S;
     let out = out @ puts (''accept '' @ int_digits (sint pid));
     (_, S) \<leftarrow> nfq_set_verdict_plain talk qh pid NF_ACCEPT_code [] S;
     Some (S, out) })"

text \<open>
  The end of \<open>main\<close> behind the label. \<open>queue\<close> has no value before \<open>nfq_create_queue\<close>, so jumping here
  earlier is undefined.
\<close>

definition nfqueue2_end ::
  "(nfq_msg \<Rightarrow> int) \<Rightarrow> int \<Rightarrow> ptr \<Rightarrow> ptr option \<Rightarrow> nfq_run \<Rightarrow> (int option \<times> nfq_run) option" where
  "nfqueue2_end talk nfnl_close handle queue = (\<lambda>(S, out). do {
     qh \<leftarrow> queue;
     S \<leftarrow> (if qh \<noteq> 0 then map_option snd (nfq_destroy_queue talk qh S) else Some S);
     S \<leftarrow> (if handle \<noteq> 0 then map_option snd (nfq_close nfnl_close handle S) else Some S);
     Some (Some 0, S, out) })"

text \<open>
  \<open>inputs\<close> holds the messages of each \<open>recv\<close> up to the one that fails, at which \<open>main\<close> returns without
  a value.
\<close>

definition nfqueue2_main ::
  "nfnl_env \<Rightarrow> (nfq_msg \<Rightarrow> int) \<Rightarrow> int \<Rightarrow> (u16 \<times> nfq_data) list list \<Rightarrow> nfq_state \<Rightarrow> (int option \<times> nfq_run) option" where
  "nfqueue2_main N talk nfnl_close inputs S = (
     let (handle, S) = nfq_open N S in
     if handle = 0 then nfqueue2_end talk nfnl_close handle None (S, [])
     else let (r, S) = nfq_unbind_pf talk 2 S in
     if r < 0 then nfqueue2_end talk nfnl_close handle None (S, [])
     else let (r, S) = nfq_bind_pf talk 2 S in
     if r < 0 then nfqueue2_end talk nfnl_close handle None (S, [])
     else do {
       (queue, S) \<leftarrow> nfq_create_queue talk handle 0 True S;
       if queue = 0 then nfqueue2_end talk nfnl_close handle (Some queue) (S, [])
       else do {
         (r, S) \<leftarrow> nfq_set_mode talk queue NFQNL_COPY_PACKET 0xffff S;
         if r < 0 then nfqueue2_end talk nfnl_close handle (Some queue) (S, [])
         else do {
           run \<leftarrow> fold_steps (\<lambda>msgs. fold_steps (pass_message (nfqueue2_manage_packet talk) handle) msgs) inputs (S, []);
           Some (None, run) } } })"

text \<open>Failing before there is a queue is undefined, and each message gets two verdicts.\<close>

lemma nfqueue2_fails_badly:
  "\<not> nfnl_open N \<Longrightarrow> nfqueue2_main N talk nfnl_close inputs S = None"
  by (simp add: nfqueue2_main_def nfqueue2_end_def nfq_open_def)

lemma nfqueue2_decides_twice:
  assumes "ns_queues S qh = Some q" "packet_hdr_packet_id hdr = Some pid" "nfa NFQA_PACKET_HDR = Some hdr"
    and "nfa NFQA_PAYLOAD = Some payload" "0 \<in> set (drop 28 payload)"
  shows "runs (nfqueue2_manage_packet talk qh nfa (S, out)) (\<lambda>(S', out). ns_msgs S' =
    Verdict_msg (qh_id q) (htonl NF_ACCEPT_code) (htonl (ntohl pid)) None [] #
    Verdict_msg (qh_id q) (htonl NF_STOLEN_code) (htonl (ntohl pid)) None [] # ns_msgs S)"
  using assms by (simp add: nfqueue2_manage_packet_def nfq_get_msg_packet_hdr_def payload_string_def nfq_get_payload_def
      sizeof_iphdr_def sizeof_udphdr_def nfq_set_verdict_plain_def set_verdict_def nfnl_talk_def)

section \<open>A reply from outside: \<open>broadcaster.c\<close>\<close>

text \<open>
  The program sends one datagram of 20 bytes to the host that it is given. The results of the
  system calls are parameters, \<open>gethostbyname\<close> gives the address in network byte order; the result
  of \<open>bind\<close> is not looked at. The messages it prints are left out.
\<close>

definition broadcast_data :: "u8 list" where
  "broadcast_data = [0x02, 0x00, 0x00, 0x00, 0xc0, 0xa8, 0x05, 0x02, 0x00, 0x00, 0x00, 0x01, 0xc0, 0xa8,
     0x05, 0x01, 0x00, 0x00, 0x17, 0x70]"

definition SERVERPORT :: u16 where "SERVERPORT = 654"

record broadcast_calls =
  bc_gethostbyname :: "string \<Rightarrow> in_addr option"
  bc_socket :: int
  bc_set_broadcast :: int
  bc_set_ttl :: int
  bc_sendto :: int

definition broadcaster_main :: "broadcast_calls \<Rightarrow> string list \<Rightarrow> int \<times> event list" where
  "broadcaster_main C argv =
     (if length argv \<noteq> 2 then (1, [])
      else case bc_gethostbyname C (argv ! 1) of
        None \<Rightarrow> (1, [])
      | Some h_addr \<Rightarrow>
         if bc_socket C = -1 then (1, [])
         else if bc_set_broadcast C = -1 then (1, [])
         else if bc_set_ttl C = -1 then (1, [])
         else let e = Sent h_addr (htons SERVERPORT) 64 broadcast_data in
           if bc_sendto C = -1 then (1, [e]) else (0, [e]))"

text \<open>
  What it sends is a reply that every daemon accepts: a route to 192.168.5.2 with the sequence number
  1 and a life time of six seconds, for the search of 192.168.5.1.
\<close>

theorem broadcast_is_a_reply:
  assumes "e \<in> set (snd (broadcaster_main C argv))"
  shows "message e \<and> (\<exists>a. e = Sent a (htons AODV_UDP_PORT) 64 broadcast_data) \<and>
    rrep_swap (rrep_of broadcast_data) = \<lparr>rrep_type = 2, rrep_reserved2 = 0, rrep_flags = 0, rrep_prefix_sz = 0,
      rrep_reserved = 0, rrep_hop_count = 0, rrep_dest_ip_addr = 0xC0A80502, rrep_dest_seq_num = 1,
      rrep_orig_ip_addr = 0xC0A80501, rrep_lifetime = 6000\<rparr>"
proof -
  have "rrep_swap (rrep_of broadcast_data) = \<lparr>rrep_type = 2, rrep_reserved2 = 0, rrep_flags = 0, rrep_prefix_sz = 0,
      rrep_reserved = 0, rrep_hop_count = 0, rrep_dest_ip_addr = 0xC0A80502, rrep_dest_seq_num = 1,
      rrep_orig_ip_addr = 0xC0A80501, rrep_lifetime = 6000\<rparr>" by code_simp
  then show ?thesis
    using assms by (auto simp: broadcaster_main_def Let_def AODV_UDP_PORT_def SERVERPORT_def broadcast_data_def
        split: option.splits if_splits)
qed

theorem broadcast_is_a_reply_witness:
  "message (Sent 0xFF05A8C0 (htons AODV_UDP_PORT) 64 broadcast_data)"
  using broadcast_is_a_reply [of "Sent 0xFF05A8C0 (htons AODV_UDP_PORT) 64 broadcast_data"
      "\<lparr>bc_gethostbyname = (\<lambda>_. Some 0xFF05A8C0), bc_socket = 3, bc_set_broadcast = 0, bc_set_ttl = 0, bc_sendto = 20\<rparr>"
      "[''broadcaster'', ''mesh'']"]
  by (simp add: broadcaster_main_def AODV_UDP_PORT_def SERVERPORT_def)

end
