(* ===== verification/Discovery.thy ===== *)
theory Discovery
  imports Network
begin

unbundle bit_operations_syntax

text \<open>
  Route discovery from end to end: what a relay and the destination do with the request of a
  search, what a relay and the originator do with the reply, and the run of a mesh in which a
  request travels along a path and its reply travels back.
\<close>

section \<open>One message at one node\<close>

text \<open>The parts of a state that neither the statistics nor the packet count are in.\<close>

definition same_core :: "world \<Rightarrow> world \<Rightarrow> bool" where
  "same_core w v \<longleftrightarrow> w_table v = w_table w \<and> w_routes v = w_routes w \<and> w_rreqs v = w_rreqs w \<and> w_pkts v = w_pkts w \<and>
     w_out v = w_out w \<and> w_ip_addr v = w_ip_addr w \<and> w_broadcast_addr v = w_broadcast_addr w \<and>
     w_seq_num v = w_seq_num w \<and> world_ok v = world_ok w"

lemma stats_core: "stats_only (count_pkt w) v \<Longrightarrow> same_core w v"
  using stats_only_same(1) [of "count_pkt w" v] by (auto simp: same_core_def stats_only_def count_pkt_def upd_stats_def)

lemma destroy_core: "same_core w (aodv_pkt_destroy pkt w)"
  by (simp add: same_core_def aodv_pkt_destroy_def)

lemma same_core_facts:
  assumes "same_core w v"
  shows "world_ok v = world_ok w" "next_hop_to v = next_hop_to w" "has_route d h n s v = has_route d h n s w"
    "rreq_seen q v = rreq_seen q w" "sent v = sent w" "w_out v = w_out w" "w_ip_addr v = w_ip_addr w"
    "w_broadcast_addr v = w_broadcast_addr w" "w_pkts v = w_pkts w" "route_to v = route_to w" "w_rreqs v = w_rreqs w"
  using assms by (simp_all add: same_core_def next_hop_to_def [abs_def] route_to_def [abs_def] route_dst_def
      has_route_def rreq_seen_def sent_def)

lemma has_route_next_hop: "world_ok w \<Longrightarrow> has_route d h n s w \<Longrightarrow> next_hop_to w d = Some h"
proof -
  assume ok: "world_ok w" and "has_route d h n s w"
  then obtain p r where p: "p \<in> set (w_table w)" "w_routes w p = Some r" "rt_dst_ip r = d" "rt_next_hop r = h"
    by (auto simp: has_route_def leads_def)
  then have "route_to w d = Some p" using route_to_unique [OF ok] by (simp add: route_dst_def)
  then show ?thesis using p by (simp add: next_hop_to_def)
qed

text \<open>A request and a reply as datagrams, from their values in host byte order.\<close>

definition rreq_datagram :: "aodv_rreq \<Rightarrow> u8 list" where
  "rreq_datagram q = rreq_bytes (aodv_pkt_prepare_rreq q)"

definition rrep_datagram :: "aodv_rrep \<Rightarrow> u8 list" where
  "rrep_datagram r = rrep_bytes (aodv_pkt_prepare_rrep r)"

definition good_rreq :: "aodv_rreq \<Rightarrow> bool" where
  "good_rreq q \<longleftrightarrow> rreq_fits q = q \<and> rreq_type q = 1"

definition good_rrep :: "aodv_rrep \<Rightarrow> bool" where
  "good_rrep r \<longleftrightarrow> rrep_fits r = r \<and> rrep_type r = 2"

lemma good_hopped: "good_rreq q \<Longrightarrow> good_rreq (hopped q)" "good_rrep r \<Longrightarrow> good_rrep (rhopped r)"
  by (simp_all add: good_rreq_def good_rrep_def hopped_fits rhopped_fits)

lemma good_own: "good_rreq (own_rreq d None w)" "good_rrep (own_rrep q w)"
  by (simp_all add: good_rreq_def good_rrep_def rreq_fits_def rrep_fits_def own_rreq_def own_rrep_def low_field_def
      RREQ_GRATUITOUS_RREP_FLAG_def RREQ_UNKNOWN_SEQ_NUM_FLAG_def)

lemma rreq_datagram_parts:
  "good_rreq q \<Longrightarrow> message (Sent a (htons AODV_UDP_PORT) t (rreq_datagram q))" "good_rreq q \<Longrightarrow> hd (rreq_datagram q) = 1"
  "length (rreq_datagram q) = 24" "good_rreq q \<Longrightarrow> rreq_swap (rreq_of (rreq_datagram q)) = q"
  using message_rreq [of "aodv_pkt_prepare_rreq q" a t "[]"] rreq_of_bytes [of "aodv_pkt_prepare_rreq q" "[]"]
  by (simp_all add: rreq_datagram_def good_rreq_def del: message.simps)

lemma rrep_datagram_parts:
  "good_rrep r \<Longrightarrow> message (Sent a (htons AODV_UDP_PORT) t (rrep_datagram r))" "good_rrep r \<Longrightarrow> hd (rrep_datagram r) = 2"
  "length (rrep_datagram r) = 20" "good_rrep r \<Longrightarrow> rrep_swap (rrep_of (rrep_datagram r)) = r"
  using message_rrep [of "aodv_pkt_prepare_rrep r" a t "[]"] rrep_of_bytes [of "aodv_pkt_prepare_rrep r" "[]"]
  by (simp_all add: rrep_datagram_def good_rrep_def del: message.simps)

text \<open>The two messages arrive: the handler runs on the values that were sent.\<close>

lemma receive_rreq:
  assumes q: "good_rreq q" and ip: "ip \<noteq> w_ip_addr w"
  obtains pkt v where "same_core w v" "pkt_ok pkt" "pkt_rreq pkt = Some q" "pkt_ttl pkt = h" "drop 24 (pkt_bytes pkt) = []"
    "sin_port (pkt_address pkt) = htons AODV_UDP_PORT" "aodv_pkt_get_address pkt = ip"
    "aodv_socket_receive_packet E (int (length (rreq_datagram q))) (datagram ip (rreq_datagram q) h) w =
       do { w' \<leftarrow> aodv_process_rreq E pkt v; Some (aodv_pkt_destroy pkt w') }"
proof -
  let ?bs = "rreq_datagram q"
  obtain pkt v where r: "stats_only (count_pkt w) v" "pkt_ok pkt" "pkt_ttl pkt = h"
    "sin_port (pkt_address pkt) = htons AODV_UDP_PORT" "aodv_pkt_get_address pkt = ip"
    "hd ?bs = 1 \<Longrightarrow> pkt_rreq pkt = Some (rreq_swap (rreq_of ?bs)) \<and> rreq_type (rreq_of ?bs) = 1"
    "length (pkt_bytes pkt) = length ?bs"
    "aodv_socket_receive_packet E (int (length ?bs)) (datagram ip ?bs h) w =
      (if ip = w_ip_addr w then Some v
       else if hd ?bs = 1 then do { w' \<leftarrow> aodv_process_rreq E pkt v; Some (aodv_pkt_destroy pkt w') }
       else do { w' \<leftarrow> aodv_process_rrep E pkt v; Some (aodv_pkt_destroy pkt w') })"
    using receive_message [OF rreq_datagram_parts(1) [OF q]] by metis
  have "pkt_rreq pkt = Some q" "drop 24 (pkt_bytes pkt) = []"
    using r(6,7) rreq_datagram_parts(1,2,4) [OF q] rreq_datagram_parts(3) [of q] by simp_all
  moreover have "aodv_socket_receive_packet E (int (length ?bs)) (datagram ip ?bs h) w =
       do { w' \<leftarrow> aodv_process_rreq E pkt v; Some (aodv_pkt_destroy pkt w') }"
    unfolding r(8) using ip rreq_datagram_parts(2) [OF q] by simp
  ultimately show ?thesis using that stats_core [OF r(1)] r(2-5) by simp
qed

lemma receive_rrep:
  assumes q: "good_rrep r" and ip: "ip \<noteq> w_ip_addr w"
  obtains pkt v where "same_core w v" "pkt_ok pkt" "pkt_rrep pkt = Some r" "pkt_ttl pkt = h" "drop 20 (pkt_bytes pkt) = []"
    "sin_port (pkt_address pkt) = htons AODV_UDP_PORT" "aodv_pkt_get_address pkt = ip"
    "aodv_socket_receive_packet E (int (length (rrep_datagram r))) (datagram ip (rrep_datagram r) h) w =
       do { w' \<leftarrow> aodv_process_rrep E pkt v; Some (aodv_pkt_destroy pkt w') }"
proof -
  let ?bs = "rrep_datagram r"
  obtain pkt v where g: "stats_only (count_pkt w) v" "pkt_ok pkt" "pkt_ttl pkt = h"
    "sin_port (pkt_address pkt) = htons AODV_UDP_PORT" "aodv_pkt_get_address pkt = ip"
    "hd ?bs = 2 \<Longrightarrow> pkt_rrep pkt = Some (rrep_swap (rrep_of ?bs)) \<and> rrep_type (rrep_of ?bs) = 2"
    "length (pkt_bytes pkt) = length ?bs"
    "aodv_socket_receive_packet E (int (length ?bs)) (datagram ip ?bs h) w =
      (if ip = w_ip_addr w then Some v
       else if hd ?bs = 1 then do { w' \<leftarrow> aodv_process_rreq E pkt v; Some (aodv_pkt_destroy pkt w') }
       else do { w' \<leftarrow> aodv_process_rrep E pkt v; Some (aodv_pkt_destroy pkt w') })"
    using receive_message [OF rrep_datagram_parts(1) [OF q]] by metis
  have "pkt_rrep pkt = Some r" "drop 20 (pkt_bytes pkt) = []"
    using g(6,7) rrep_datagram_parts(1,2,4) [OF q] rrep_datagram_parts(3) [of r] by simp_all
  moreover have "aodv_socket_receive_packet E (int (length ?bs)) (datagram ip ?bs h) w =
       do { w' \<leftarrow> aodv_process_rrep E pkt v; Some (aodv_pkt_destroy pkt w') }"
    unfolding g(8) using ip rrep_datagram_parts(2) [OF q] by simp
  ultimately show ?thesis using that stats_core [OF g(1)] g(2-5) by simp
qed

text \<open>
  A request at a node that has not seen it: the way back is learned, and no other entry of the table
  changes its next hop. The state \<open>u\<close> is the one after the routes are up to date.
\<close>

lemma fresh_request:
  assumes ok: "world_ok w" and E: "takes_routes E" and q: "good_rreq q" "\<not> rreq_seen q w" and ip: "ip \<noteq> w_ip_addr w"
  obtains pkt u w' where
    "aodv_socket_receive_packet E (int (length (rreq_datagram q))) (datagram ip (rreq_datagram q) h) w = Some w'"
    "world_ok w'" "w_ip_addr w' = w_ip_addr w" "w_broadcast_addr w' = w_broadcast_addr w"
    "has_route (rreq_orig_ip_addr q) ip (rreq_hop_count q) (rreq_orig_seq_num q) w'"
    "hops_but {ip, rreq_orig_ip_addr q} w w'" "hops_but {} u w'"
    "sent w' = rreq_reaction pkt q u @ sent w" "w_ip_addr u = w_ip_addr w" "w_broadcast_addr u = w_broadcast_addr w"
    "aodv_pkt_get_address pkt = ip" "pkt_ttl pkt = h" "drop 24 (pkt_bytes pkt) = []"
    "sin_port (pkt_address pkt) = htons AODV_UDP_PORT"
    "\<forall>q'. rreq_dest_ip_addr q' \<noteq> rreq_dest_ip_addr q \<longrightarrow> rreq_seen q' w' = rreq_seen q' w"
proof -
  obtain pkt v where r: "same_core w v" "pkt_ok pkt" "pkt_rreq pkt = Some q" "pkt_ttl pkt = h" "drop 24 (pkt_bytes pkt) = []"
    "sin_port (pkt_address pkt) = htons AODV_UDP_PORT" "aodv_pkt_get_address pkt = ip"
    "aodv_socket_receive_packet E (int (length (rreq_datagram q))) (datagram ip (rreq_datagram q) h) w =
       do { w' \<leftarrow> aodv_process_rreq E pkt v; Some (aodv_pkt_destroy pkt w') }"
    using receive_rreq [OF q(1) ip] by blast
  note v = same_core_facts [OF r(1)]
  have okv: "world_ok v" and nv: "\<not> rreq_seen q v" using ok q(2) v by simp_all
  obtain x u where x: "aodv_process_rreq E pkt v = Some x" "rreq_recorded E pkt q v u" "reacts pkt q u x" "world_ok x"
    "w_ip_addr u = w_ip_addr v" "w_broadcast_addr u = w_broadcast_addr v" "sent u = sent v"
    using new_request [OF okv r(2,3) nv, of E] by (auto simp: runs_iff)
  note d = same_core_facts [OF destroy_core [of x pkt]]
  have oku: "world_ok u" using x(2) by (auto simp: rreq_recorded_def intro: extends_wf)
  have k: "keeps_routes u x" using x(3) by (simp add: reacts_def)
  have rec: "hops_but {ip, rreq_orig_ip_addr q} v u"
    "has_route (rreq_orig_ip_addr q) ip (rreq_hop_count q) (rreq_orig_seq_num q) u"
    using x(2) E r(7) by (simp_all add: rreq_recorded_def)
  have h: "hops_but {} u x" by (rule keeps_leads_hops [OF oku keeps_routes_leads [OF k]])
  have "hops_but {ip, rreq_orig_ip_addr q} v x" by (rule hops_but_trans [OF rec(1) h]) simp_all
  then have hw: "hops_but {ip, rreq_orig_ip_addr q} w x" using v(2) by (simp add: hops_but_def)
  have ext: "extends u x" "sent x = rreq_reaction pkt q u @ sent u" using x(3) by (simp_all add: reacts_def)
  obtain p where "p \<notin> dom (w_rreqs v)" "w_rreqs x = (w_rreqs v)(p \<mapsto>
      \<lparr>rq_rreq_id = rreq_rreq_id q, rq_dst = rreq_dest_ip_addr q, rq_prev_tries = -1\<rparr>)"
    using x(2,3) by (auto simp: rreq_recorded_def reacts_def same_rreqs_def)
  then have seen: "\<forall>q'. rreq_dest_ip_addr q' \<noteq> rreq_dest_ip_addr q \<longrightarrow> rreq_seen q' x = rreq_seen q' w"
    using v(4) by (auto simp: rreq_seen_def ran_map_upd domIff)
  show ?thesis
  proof (rule that [of "aodv_pkt_destroy pkt x" u pkt])
    show "aodv_socket_receive_packet E (int (length (rreq_datagram q))) (datagram ip (rreq_datagram q) h) w =
        Some (aodv_pkt_destroy pkt x)" by (simp add: r(8) x(1))
    show "hops_but {ip, rreq_orig_ip_addr q} w (aodv_pkt_destroy pkt x)" "hops_but {} u (aodv_pkt_destroy pkt x)"
      using hw h d(2) by (simp_all add: hops_but_def)
    show "has_route (rreq_orig_ip_addr q) ip (rreq_hop_count q) (rreq_orig_seq_num q) (aodv_pkt_destroy pkt x)"
      using has_route_kept [OF k rec(2)] d(3) by simp
    show "\<forall>q'. rreq_dest_ip_addr q' \<noteq> rreq_dest_ip_addr q \<longrightarrow>
        rreq_seen q' (aodv_pkt_destroy pkt x) = rreq_seen q' w" using seen d(4) by simp
  qed (use d v x r ext in \<open>simp_all add: extends_def\<close>)
qed

lemma relay_request:
  assumes ok: "world_ok w" and E: "takes_routes E" and q: "good_rreq q" "\<not> rreq_seen q w" and ip: "ip \<noteq> w_ip_addr w"
    and d: "rreq_dest_ip_addr q \<noteq> w_ip_addr w" "next_hop_to w (rreq_dest_ip_addr q) = None"
      "rreq_dest_ip_addr q \<notin> {ip, rreq_orig_ip_addr q}" and h: "1 < h"
  obtains w' where
    "aodv_socket_receive_packet E (int (length (rreq_datagram q))) (datagram ip (rreq_datagram q) h) w = Some w'"
    "world_ok w'" "w_ip_addr w' = w_ip_addr w" "w_broadcast_addr w' = w_broadcast_addr w"
    "next_hop_to w' (rreq_orig_ip_addr q) = Some ip" "next_hop_to w' (rreq_dest_ip_addr q) = None"
    "sent w' = Sent (htonl (w_broadcast_addr w)) (htons AODV_UDP_PORT) (h - 1) (rreq_datagram (hopped q)) # sent w"
    "\<forall>q'. rreq_dest_ip_addr q' \<noteq> rreq_dest_ip_addr q \<longrightarrow> rreq_seen q' w' = rreq_seen q' w"
proof -
  obtain pkt u w' where r:
    "aodv_socket_receive_packet E (int (length (rreq_datagram q))) (datagram ip (rreq_datagram q) h) w = Some w'"
    "world_ok w'" "w_ip_addr w' = w_ip_addr w" "w_broadcast_addr w' = w_broadcast_addr w"
    "has_route (rreq_orig_ip_addr q) ip (rreq_hop_count q) (rreq_orig_seq_num q) w'"
    "hops_but {ip, rreq_orig_ip_addr q} w w'" "hops_but {} u w'"
    "sent w' = rreq_reaction pkt q u @ sent w" "w_ip_addr u = w_ip_addr w" "w_broadcast_addr u = w_broadcast_addr w"
    "aodv_pkt_get_address pkt = ip" "pkt_ttl pkt = h" "drop 24 (pkt_bytes pkt) = []"
    "sin_port (pkt_address pkt) = htons AODV_UDP_PORT"
    "\<forall>q'. rreq_dest_ip_addr q' \<noteq> rreq_dest_ip_addr q \<longrightarrow> rreq_seen q' w' = rreq_seen q' w"
    using fresh_request [OF ok E q ip] by metis
  have n: "next_hop_to w' (rreq_dest_ip_addr q) = None" using r(6) d(2,3) unfolding hops_but_def by simp
  then have "next_hop_to u (rreq_dest_ip_addr q) = None" using r(7) unfolding hops_but_def by simp
  then have "route_to u (rreq_dest_ip_addr q) = None" by (simp only: next_hop_None)
  then have "rreq_reaction pkt q u = [forwarded_rreq pkt (hopped q) u]"
    using d(1) h r(9,12) by (simp add: rreq_reaction_def swallows_def not_le)
  moreover have "forwarded_rreq pkt (hopped q) u =
      Sent (htonl (w_broadcast_addr w)) (htons AODV_UDP_PORT) (h - 1) (rreq_datagram (hopped q))"
    using r(10,12-14) by (simp add: forwarded_rreq_def rreq_datagram_def)
  ultimately show ?thesis
    using that [OF r(1-4) has_route_next_hop [OF r(2,5)] n _ r(15)] r(8) by simp
qed

lemma answer_request:
  assumes ok: "world_ok w" and E: "takes_routes E" and q: "good_rreq q" "\<not> rreq_seen q w" and ip: "ip \<noteq> w_ip_addr w"
    and d: "rreq_dest_ip_addr q = w_ip_addr w"
  obtains w' r where
    "aodv_socket_receive_packet E (int (length (rreq_datagram q))) (datagram ip (rreq_datagram q) h) w = Some w'"
    "world_ok w'" "w_ip_addr w' = w_ip_addr w" "w_broadcast_addr w' = w_broadcast_addr w"
    "next_hop_to w' (rreq_orig_ip_addr q) = Some ip"
    "sent w' = Sent (htonl ip) (htons AODV_UDP_PORT) DEFAULT_TTL (rrep_datagram r) # sent w"
    "good_rrep r" "rrep_dest_ip_addr r = w_ip_addr w" "rrep_orig_ip_addr r = rreq_orig_ip_addr q" "rrep_hop_count r = 0"
proof -
  obtain pkt u w' where r:
    "aodv_socket_receive_packet E (int (length (rreq_datagram q))) (datagram ip (rreq_datagram q) h) w = Some w'"
    "world_ok w'" "w_ip_addr w' = w_ip_addr w" "w_broadcast_addr w' = w_broadcast_addr w"
    "has_route (rreq_orig_ip_addr q) ip (rreq_hop_count q) (rreq_orig_seq_num q) w'"
    "sent w' = rreq_reaction pkt q u @ sent w" "w_ip_addr u = w_ip_addr w"
    "aodv_pkt_get_address pkt = ip"
    using fresh_request [OF ok E q ip] by metis
  let ?r = "own_rrep q (stepped_seq q u)"
  have "sent w' = Sent (htonl ip) (htons AODV_UDP_PORT) DEFAULT_TTL (rrep_datagram ?r) # sent w"
    using r(6-8) d by (simp add: rreq_reaction_def rrep_event_def rrep_datagram_def)
  then show ?thesis
    by (rule that [OF r(1-4) has_route_next_hop [OF r(2,5)] _ good_own(2)]) (use r(7) in \<open>simp_all add: own_rrep_def\<close>)
qed

text \<open>A reply at a node without a route to its destination, up to the last part of the handler.\<close>

lemma fresh_reply:
  assumes ok: "world_ok w" and E: "takes_routes E" and r: "good_rrep r" and ip: "ip \<noteq> w_ip_addr w"
    and none: "next_hop_to w (rrep_dest_ip_addr r) = None"
  obtains pkt x v w' pd s where "same_core w x" "same_core v w'"
    "aodv_socket_receive_packet E (int (length (rrep_datagram r))) (datagram ip (rrep_datagram r) h) w = Some w'"
    "routed x s" "hops_but {ip, rrep_dest_ip_addr r} x s" "pd \<in> set (w_table s)" "route_dst s pd = rrep_dest_ip_addr r"
    "pd \<in> dom (w_routes s)" "no_waiters (rrep_dest_ip_addr r) s" "rrep_concludes E pkt r pd s v"
    "aodv_pkt_get_address pkt = ip" "pkt_ttl pkt = h" "drop 20 (pkt_bytes pkt) = []"
    "sin_port (pkt_address pkt) = htons AODV_UDP_PORT"
proof -
  obtain pkt x where g: "same_core w x" "pkt_ok pkt" "pkt_rrep pkt = Some r" "pkt_ttl pkt = h" "drop 20 (pkt_bytes pkt) = []"
    "sin_port (pkt_address pkt) = htons AODV_UDP_PORT" "aodv_pkt_get_address pkt = ip"
    "aodv_socket_receive_packet E (int (length (rrep_datagram r))) (datagram ip (rrep_datagram r) h) w =
       do { w' \<leftarrow> aodv_process_rrep E pkt x; Some (aodv_pkt_destroy pkt w') }"
    using receive_rrep [OF r ip] by blast
  have okx: "world_ok x" and nx: "route_to x (rrep_dest_ip_addr r) = None"
    using ok none same_core_facts [OF g(1)] by (simp_all add: next_hop_None [symmetric] del: next_hop_None)
  obtain v s pd t where v: "aodv_process_rrep E pkt x = Some v" "routed x s"
    "hops_but {aodv_pkt_get_address pkt, rrep_dest_ip_addr r} x s" "pd \<in> set (w_table s)" "w_routes s pd = Some t"
    "rt_dst_ip t = rrep_dest_ip_addr r" "no_waiters (rrep_dest_ip_addr r) s" "rrep_concludes E pkt r pd s v"
    using reply_accepted [OF okx g(2,3) E nx] by (auto simp: runs_iff)
  show ?thesis
    by (rule that [OF g(1) destroy_core [of v pkt]]) (use g v in \<open>auto simp: route_dst_def\<close>)
qed

lemma has_route_forwarded:
  assumes "pd \<in> set (w_table u)" "w_routes u = (w_routes s)(pd \<mapsto> renewed (fwd_route E (rhopped r) ip (the (w_routes s pd))))"
    and "route_dst s pd = rrep_dest_ip_addr r"
  shows "has_route (rrep_dest_ip_addr r) ip (rrep_hop_count r + 1) (rrep_dest_seq_num r) u"
proof -
  have "leads (rrep_dest_ip_addr r) ip (rrep_hop_count r + 1) (rrep_dest_seq_num r)
      (renewed (fwd_route E (rhopped r) ip (the (w_routes s pd))))"
    using fwd_route_leads [of "the (w_routes s pd)" ip "rhopped r" E] assms(3) by (simp add: route_dst_def rhopped_def)
  then show ?thesis using assms(1,2) unfolding has_route_def by auto
qed

lemma relay_reply:
  assumes ok: "world_ok w" and E: "takes_routes E" and r: "good_rrep r" and ip: "ip \<noteq> w_ip_addr w"
    and none: "next_hop_to w (rrep_dest_ip_addr r) = None"
    and o: "rrep_orig_ip_addr r \<noteq> w_ip_addr w" "next_hop_to w (rrep_orig_ip_addr r) = Some prev"
      "rrep_orig_ip_addr r \<notin> {ip, rrep_dest_ip_addr r}"
  obtains w' where
    "aodv_socket_receive_packet E (int (length (rrep_datagram r))) (datagram ip (rrep_datagram r) h) w = Some w'"
    "world_ok w'" "w_ip_addr w' = w_ip_addr w" "w_broadcast_addr w' = w_broadcast_addr w"
    "next_hop_to w' (rrep_dest_ip_addr r) = Some ip" "next_hop_to w' (rrep_orig_ip_addr r) = Some prev"
    "sent w' = Sent (htonl prev) (htons AODV_UDP_PORT) (h - 1) (rrep_datagram (rhopped r)) # sent w"
proof -
  obtain pkt x v w' pd s where f: "same_core w x" "same_core v w'"
    "aodv_socket_receive_packet E (int (length (rrep_datagram r))) (datagram ip (rrep_datagram r) h) w = Some w'"
    "routed x s" "hops_but {ip, rrep_dest_ip_addr r} x s" "pd \<in> set (w_table s)" "route_dst s pd = rrep_dest_ip_addr r"
    "pd \<in> dom (w_routes s)" "rrep_concludes E pkt r pd s v"
    "aodv_pkt_get_address pkt = ip" "pkt_ttl pkt = h" "drop 20 (pkt_bytes pkt) = []"
    "sin_port (pkt_address pkt) = htons AODV_UDP_PORT"
    using fresh_reply [OF ok E r ip none] by metis
  note x = same_core_facts [OF f(1)] and w' = same_core_facts [OF f(2)]
  have s: "w_ip_addr s = w_ip_addr w" "w_broadcast_addr s = w_broadcast_addr w" "sent s = sent w"
    using f(4) x by (simp_all add: routed_def extends_def)
  have v: "extends s v" using f(9) by (simp add: rrep_concludes_def)
  have okv: "world_ok v" by (rule extends_wf [OF v])
  obtain u where u: "routed s u" "w_table u = w_table s"
    "w_routes u = (w_routes s)(pd \<mapsto> renewed (fwd_route E (rhopped r) ip (the (w_routes s pd))))" "keeps_leads u v"
    "w_out v = (case next_hop_to u (rrep_orig_ip_addr r) of None \<Rightarrow> []
      | Some hop \<Rightarrow> [forwarded_rrep pkt (rhopped r) hop]) @ w_out s"
    using f(9,10) o(1) s(1) by (auto simp: rrep_concludes_def)
  have dst: "rt_dst_ip (renewed (fwd_route E (rhopped r) ip (the (w_routes s pd)))) = rrep_dest_ip_addr r"
    using f(7) by (simp add: route_dst_def)
  have "has_route (rrep_dest_ip_addr r) ip (rrep_hop_count r + 1) (rrep_dest_seq_num r) u"
    by (rule has_route_forwarded [OF _ u(3) f(7)]) (simp add: f(6) u(2))
  from has_route_next_hop [OF okv has_route_led [OF u(4) this]]
  have d: "next_hop_to v (rrep_dest_ip_addr r) = Some ip" .
  have "hops_but {rrep_dest_ip_addr r} s u"
    by (rule hops_but_upd [OF _ _ u(3), of "[]"]) (use u(2) dst f(7) in simp_all)
  then have us: "next_hop_to u (rrep_orig_ip_addr r) = next_hop_to s (rrep_orig_ip_addr r)"
    using o(3) by (simp add: hops_but_def)
  have sw: "next_hop_to s (rrep_orig_ip_addr r) = Some prev" using f(5) o(2,3) x(2) by (simp add: hops_but_def)
  have vu: "next_hop_to v (rrep_orig_ip_addr r) = Some prev"
    using keeps_leads_hops [OF routed_wf [OF u(1)] u(4)] us sw by (simp add: hops_but_def)
  have "sent v = forwarded_rrep pkt (rhopped r) prev # sent w"
    using u(5) us sw s(3) by (simp add: sent_def)
  moreover have "forwarded_rrep pkt (rhopped r) prev =
      Sent (htonl prev) (htons AODV_UDP_PORT) (h - 1) (rrep_datagram (rhopped r))"
    using f(11-13) by (simp add: forwarded_rrep_def rrep_datagram_def)
  ultimately show ?thesis
    by (intro that [OF f(3)]) (use w' okv v d vu s in \<open>simp_all add: extends_def\<close>)
qed

lemma end_reply:
  assumes ok: "world_ok w" and E: "takes_routes E" and r: "good_rrep r" and ip: "ip \<noteq> w_ip_addr w"
    and none: "next_hop_to w (rrep_dest_ip_addr r) = None" and o: "rrep_orig_ip_addr r = w_ip_addr w"
  obtains w' where
    "aodv_socket_receive_packet E (int (length (rrep_datagram r))) (datagram ip (rrep_datagram r) h) w = Some w'"
    "world_ok w'" "w_ip_addr w' = w_ip_addr w" "w_broadcast_addr w' = w_broadcast_addr w"
    "has_route (rrep_dest_ip_addr r) ip (rrep_hop_count r + 1) (rrep_dest_seq_num r) w'" "sent w' = sent w"
    "\<forall>p \<in> dom (w_pkts w). packet_dest w p = rrep_dest_ip_addr r \<longrightarrow>
       p \<notin> dom (w_pkts w') \<and> Verdict (packet_id w p) NF_ACCEPT \<in> set (w_out w')"
proof -
  obtain pkt x v w' pd s where f: "same_core w x" "same_core v w'"
    "aodv_socket_receive_packet E (int (length (rrep_datagram r))) (datagram ip (rrep_datagram r) h) w = Some w'"
    "routed x s" "hops_but {ip, rrep_dest_ip_addr r} x s" "pd \<in> set (w_table s)" "route_dst s pd = rrep_dest_ip_addr r"
    "pd \<in> dom (w_routes s)" "no_waiters (rrep_dest_ip_addr r) s" "rrep_concludes E pkt r pd s v" "aodv_pkt_get_address pkt = ip"
    using fresh_reply [OF ok E r ip none] by metis
  note x = same_core_facts [OF f(1)] and w' = same_core_facts [OF f(2)]
  have s: "w_ip_addr s = w_ip_addr w" "w_broadcast_addr s = w_broadcast_addr w" "sent s = sent w"
    using f(4) x by (simp_all add: routed_def extends_def)
  have v: "extends s v" "w_out v = w_out s" "w_table v = w_table s" "w_pkts v = w_pkts s"
    "w_routes v = (w_routes s)(pd \<mapsto> renewed (fwd_route E (rhopped r) ip (the (w_routes s pd))))"
    using f(10,11) o s(1) by (simp_all add: rrep_concludes_def same_pkts_def)
  have h: "has_route (rrep_dest_ip_addr r) ip (rrep_hop_count r + 1) (rrep_dest_seq_num r) v"
    by (rule has_route_forwarded [OF _ v(5) f(7)]) (simp add: f(6) v(3))
  have sv: "sent v = sent s" using v(2) by (simp add: sent_def)
  have "p \<notin> dom (w_pkts w') \<and> Verdict (packet_id w p) NF_ACCEPT \<in> set (w_out w')"
    if "p \<in> dom (w_pkts w)" "packet_dest w p = rrep_dest_ip_addr r" for p
    using waiters_gone [OF f(4,9), of p] that x w' v(2,4) by (simp add: packet_dest_def packet_id_def)
  then show ?thesis
    by (intro that [OF f(3)]) (use w' extends_wf [OF v(1)] v(1) s h sv in \<open>simp_all add: extends_def\<close>)
qed

section \<open>A request along a path\<close>

definition addr :: "net \<Rightarrow> nat \<Rightarrow> in_addr" where
  "addr N i = w_ip_addr (net_world N i)"

definition net_runs :: "mesh \<Rightarrow> net \<Rightarrow> net \<Rightarrow> bool" where
  "net_runs M = (\<lambda>N N'. \<exists>l. net_step M l N N')\<^sup>*\<^sup>*"

lemma net_runs_step: "net_step M l N L \<Longrightarrow> net_runs M L N' \<Longrightarrow> net_runs M N N'"
  unfolding net_runs_def by (rule converse_rtranclp_into_rtranclp) auto

lemma net_runs_trans: "net_runs M N L \<Longrightarrow> net_runs M L N' \<Longrightarrow> net_runs M N N'"
  unfolding net_runs_def by (rule rtranclp_trans)

lemma net_runs_refl: "net_runs M N N"
  by (simp add: net_runs_def)

lemma deliver_step:
  assumes "(i, j, Sent a p t bs) \<in># net_air N" "t \<noteq> 0"
    and "aodv_socket_receive_packet (mesh_env M j) (int (length bs)) (datagram (addr N i) bs t) (net_world N j) = Some w'"
  obtains N' where "net_step M (Delivered i j (Sent a p t bs)) N N'" "net_world N' = (net_world N)(j := w')"
    "\<And>e k. sent w' = e # sent (net_world N j) \<Longrightarrow> k \<in> set (mesh_nodes M) \<Longrightarrow> mesh_link M j k \<Longrightarrow>
      hears (net_world N k) e \<Longrightarrow> (j, k, e) \<in># net_air N'"
    "net_air N \<subseteq># add_mset (i, j, Sent a p t bs) (net_air N')"
proof -
  let ?L = "landed (i, j, Sent a p t bs) N"
  have s: "net_step M (Delivered i j (Sent a p t bs)) N (node_acts M j w' ?L)"
    by (rule deliver [OF assms(1)]) (use assms(2,3) in \<open>simp_all add: addr_def\<close>)
  show ?thesis
  proof (rule that [OF s])
    show "net_world (node_acts M j w' ?L) = (net_world N)(j := w')" by (simp add: node_acts_parts)
    show "net_air N \<subseteq># add_mset (i, j, Sent a p t bs) (net_air (node_acts M j w' ?L))"
      using assms(1) by (simp add: node_acts_def insert_subset_eq_iff [symmetric] subset_eq_diff_conv)
    fix e k
    assume "sent w' = e # sent (net_world N j)" and k: "k \<in> set (mesh_nodes M)" "mesh_link M j k" "hears (net_world N k) e"
    then have "sent w' = e # sent (net_world ?L j)" by simp
    from node_acts_parts(3) [OF this, of M] k show "(j, k, e) \<in># net_air (node_acts M j w' ?L)"
      by (simp add: in_copies)
  qed
qed

text \<open>
  A path from the node \<open>i\<close> over \<open>js\<close> along which the request \<open>q\<close> can go to its destination, the last
  node: links in both directions, fresh nodes whose kernels take routes, none of them with a
  route to the destination.
\<close>

fun path_ready :: "mesh \<Rightarrow> net \<Rightarrow> aodv_rreq \<Rightarrow> nat \<Rightarrow> nat list \<Rightarrow> bool" where
  "path_ready M N q i [] \<longleftrightarrow> addr N i = rreq_dest_ip_addr q"
| "path_ready M N q i (j # js) \<longleftrightarrow> j \<in> set (mesh_nodes M) \<and> mesh_link M i j \<and> mesh_link M j i \<and>
     takes_routes (mesh_env M j) \<and> world_ok (net_world N j) \<and> \<not> rreq_seen q (net_world N j) \<and>
     w_broadcast_addr (net_world N j) = w_broadcast_addr (net_world N i) \<and>
     addr N i \<noteq> rreq_dest_ip_addr q \<and> addr N j \<noteq> addr N i \<and> addr N j \<noteq> rreq_orig_ip_addr q \<and>
     (js \<noteq> [] \<longrightarrow> next_hop_to (net_world N j) (rreq_dest_ip_addr q) = None) \<and> path_ready M N q j js"

text \<open>Afterwards: every node of the path has the next hops towards both ends.\<close>

fun leads_along :: "net \<Rightarrow> in_addr \<Rightarrow> in_addr \<Rightarrow> nat \<Rightarrow> nat list \<Rightarrow> bool" where
  "leads_along N orig dest i [] \<longleftrightarrow> True"
| "leads_along N orig dest i (j # js) \<longleftrightarrow> next_hop_to (net_world N j) orig = Some (addr N i) \<and>
     (js \<noteq> [] \<longrightarrow> next_hop_to (net_world N j) dest = Some (addr N (hd js))) \<and> leads_along N orig dest j js"

text \<open>Both depend on the nodes of the path and the addresses at its start alone.\<close>

lemma path_ready_cong:
  assumes "\<And>k. k \<in> set js \<Longrightarrow> net_world N' k = net_world N k" "addr N' i = addr N i"
    "w_broadcast_addr (net_world N' i) = w_broadcast_addr (net_world N i)"
  shows "path_ready M N' q i js = path_ready M N q i js"
  using assms by (induction js arbitrary: i) (simp_all add: addr_def)

lemma path_ready_hopped: "path_ready M N (hopped q) i js = path_ready M N q i js"
  by (induction js arbitrary: i) (simp_all add: rreq_seen_def)

lemma leads_along_cong:
  assumes "\<And>k. k \<in> set js \<Longrightarrow> net_world N' k = net_world N k" "addr N' i = addr N i"
  shows "leads_along N' orig dest i js = leads_along N orig dest i js"
  using assms
proof (induction js arbitrary: i)
  case (Cons j js)
  have "js \<noteq> [] \<Longrightarrow> addr N' (hd js) = addr N (hd js)" using Cons.prems(1) by (simp add: addr_def)
  then show ?case using Cons.IH [of j] Cons.prems by (auto simp: addr_def)
qed simp

lemma path_ready_orig: "path_ready M N q i js \<Longrightarrow> rreq_orig_ip_addr q \<notin> addr N ` set js"
  by (induction js arbitrary: i) auto

lemma path_ready_dest: "path_ready M N q i js \<Longrightarrow> js \<noteq> [] \<Longrightarrow> rreq_orig_ip_addr q \<noteq> rreq_dest_ip_addr q"
  by (induction js arbitrary: i) (auto split: if_splits, metis path_ready.simps(1) neq_Nil_conv)

lemma path_ready_ok: "path_ready M N q i js \<Longrightarrow> k \<in> set js \<Longrightarrow> world_ok (net_world N k)"
  by (induction js arbitrary: i) auto

lemma reply_limit: "Suc n < 64 \<Longrightarrow> DEFAULT_TTL - of_nat n \<noteq> 0"
proof
  assume n: "Suc n < 64" and "DEFAULT_TTL - of_nat n = 0"
  then have "unat (of_nat n :: u8) = 64" by (simp add: DEFAULT_TTL_def flip: eq_iff_diff_eq_0)
  then show False using n by (simp add: unat_of_nat)
qed

text \<open>A node of the path passes the request on, the last one answers it, a node passes the reply back.\<close>

lemma net_pass_on:
  assumes e: "(i, j, Sent a (htons AODV_UDP_PORT) t (rreq_datagram q)) \<in># net_air N" "good_rreq q" "1 < t"
    and j: "world_ok (net_world N j)" "takes_routes (mesh_env M j)" "\<not> rreq_seen q (net_world N j)" "addr N i \<noteq> addr N j"
      "next_hop_to (net_world N j) (rreq_dest_ip_addr q) = None" "rreq_dest_ip_addr q \<notin> {addr N j, addr N i, rreq_orig_ip_addr q}"
    and k: "k \<in> set (mesh_nodes M)" "mesh_link M j k" "w_broadcast_addr (net_world N k) = w_broadcast_addr (net_world N j)"
  obtains l N' w' where "net_step M l N N'" "net_world N' = (net_world N)(j := w')" "world_ok w'"
    "w_ip_addr w' = w_ip_addr (net_world N j)" "w_broadcast_addr w' = w_broadcast_addr (net_world N j)"
    "next_hop_to w' (rreq_orig_ip_addr q) = Some (addr N i)" "next_hop_to w' (rreq_dest_ip_addr q) = None"
    "(j, k, Sent (htonl (w_broadcast_addr (net_world N j))) (htons AODV_UDP_PORT) (t - 1) (rreq_datagram (hopped q))) \<in># net_air N'"
    "\<forall>q'. rreq_dest_ip_addr q' \<noteq> rreq_dest_ip_addr q \<longrightarrow> rreq_seen q' w' = rreq_seen q' (net_world N j)"
    "net_air N \<subseteq># add_mset (i, j, Sent a (htons AODV_UDP_PORT) t (rreq_datagram q)) (net_air N')"
proof -
  have c: "addr N i \<noteq> w_ip_addr (net_world N j)" "rreq_dest_ip_addr q \<noteq> w_ip_addr (net_world N j)"
    "rreq_dest_ip_addr q \<notin> {addr N i, rreq_orig_ip_addr q}" "t \<noteq> 0"
    using j(4,6) e(3) by (auto simp: addr_def)
  from relay_request [OF j(1,2) e(2) j(3) c(1,2) j(5) c(3) e(3)] obtain w' where w':
    "aodv_socket_receive_packet (mesh_env M j) (int (length (rreq_datagram q)))
      (datagram (addr N i) (rreq_datagram q) t) (net_world N j) = Some w'"
    "world_ok w'" "w_ip_addr w' = w_ip_addr (net_world N j)" "w_broadcast_addr w' = w_broadcast_addr (net_world N j)"
    "next_hop_to w' (rreq_orig_ip_addr q) = Some (addr N i)" "next_hop_to w' (rreq_dest_ip_addr q) = None"
    "sent w' = Sent (htonl (w_broadcast_addr (net_world N j))) (htons AODV_UDP_PORT) (t - 1) (rreq_datagram (hopped q))
      # sent (net_world N j)"
    "\<forall>q'. rreq_dest_ip_addr q' \<noteq> rreq_dest_ip_addr q \<longrightarrow> rreq_seen q' w' = rreq_seen q' (net_world N j)" by metis
  obtain l N' where N': "net_step M l N N'" "net_world N' = (net_world N)(j := w')"
    "\<And>e k. sent w' = e # sent (net_world N j) \<Longrightarrow> k \<in> set (mesh_nodes M) \<Longrightarrow> mesh_link M j k \<Longrightarrow>
      hears (net_world N k) e \<Longrightarrow> (j, k, e) \<in># net_air N'"
    "net_air N \<subseteq># add_mset (i, j, Sent a (htons AODV_UDP_PORT) t (rreq_datagram q)) (net_air N')"
    using deliver_step [OF e(1) c(4) w'(1)] by metis
  show ?thesis by (rule that [OF N'(1,2) w'(2-6) N'(3) [OF w'(7)] w'(8) N'(4)]) (use k in simp_all)
qed

lemma net_relay_request:
  assumes e: "(i, j, Sent a (htons AODV_UDP_PORT) t (rreq_datagram q)) \<in># net_air N" "good_rreq q" "1 < t"
    and p: "path_ready M N q i (j # k # ks)"
  obtains l N' w' where "net_step M l N N'" "net_world N' = (net_world N)(j := w')" "world_ok w'"
    "w_ip_addr w' = w_ip_addr (net_world N j)" "w_broadcast_addr w' = w_broadcast_addr (net_world N j)"
    "next_hop_to w' (rreq_orig_ip_addr q) = Some (addr N i)" "next_hop_to w' (rreq_dest_ip_addr q) = None"
    "(j, k, Sent (htonl (w_broadcast_addr (net_world N j))) (htons AODV_UDP_PORT) (t - 1) (rreq_datagram (hopped q))) \<in># net_air N'"
proof -
  have c: "world_ok (net_world N j)" "takes_routes (mesh_env M j)" "\<not> rreq_seen q (net_world N j)" "addr N i \<noteq> addr N j"
    "next_hop_to (net_world N j) (rreq_dest_ip_addr q) = None" "rreq_dest_ip_addr q \<notin> {addr N j, addr N i}"
    "k \<in> set (mesh_nodes M)" "mesh_link M j k" "w_broadcast_addr (net_world N k) = w_broadcast_addr (net_world N j)"
    using p by auto
  have "rreq_orig_ip_addr q \<noteq> rreq_dest_ip_addr q" by (rule path_ready_dest [OF p]) simp
  with c(6) have "rreq_dest_ip_addr q \<notin> {addr N j, addr N i, rreq_orig_ip_addr q}" by auto
  from net_pass_on [OF e c(1-5) this c(7-9)] show ?thesis using that by metis
qed

lemma net_answer_request:
  assumes e: "(i, j, Sent a (htons AODV_UDP_PORT) t (rreq_datagram q)) \<in># net_air N" "good_rreq q" "t \<noteq> 0"
    and p: "path_ready M N q i [j]" and i: "i \<in> set (mesh_nodes M)"
  obtains l N' w' r where "net_step M l N N'" "net_world N' = (net_world N)(j := w')" "world_ok w'"
    "w_ip_addr w' = w_ip_addr (net_world N j)" "next_hop_to w' (rreq_orig_ip_addr q) = Some (addr N i)"
    "(j, i, Sent (htonl (addr N i)) (htons AODV_UDP_PORT) DEFAULT_TTL (rrep_datagram r)) \<in># net_air N'"
    "good_rrep r" "rrep_dest_ip_addr r = rreq_dest_ip_addr q" "rrep_orig_ip_addr r = rreq_orig_ip_addr q"
    "rrep_hop_count r = 0"
proof -
  have c: "mesh_link M j i" "takes_routes (mesh_env M j)" "world_ok (net_world N j)" "\<not> rreq_seen q (net_world N j)"
    "addr N i \<noteq> w_ip_addr (net_world N j)" "rreq_dest_ip_addr q = w_ip_addr (net_world N j)"
    using p by (auto simp: addr_def)
  from answer_request [OF c(3,2) e(2) c(4-6)] obtain w' r where w':
    "aodv_socket_receive_packet (mesh_env M j) (int (length (rreq_datagram q)))
      (datagram (addr N i) (rreq_datagram q) t) (net_world N j) = Some w'"
    "world_ok w'" "w_ip_addr w' = w_ip_addr (net_world N j)" "next_hop_to w' (rreq_orig_ip_addr q) = Some (addr N i)"
    "sent w' = Sent (htonl (addr N i)) (htons AODV_UDP_PORT) DEFAULT_TTL (rrep_datagram r) # sent (net_world N j)"
    "good_rrep r" "rrep_dest_ip_addr r = w_ip_addr (net_world N j)" "rrep_orig_ip_addr r = rreq_orig_ip_addr q"
    "rrep_hop_count r = 0" by metis
  obtain l N' where N': "net_step M l N N'" "net_world N' = (net_world N)(j := w')"
    "\<And>e k. sent w' = e # sent (net_world N j) \<Longrightarrow> k \<in> set (mesh_nodes M) \<Longrightarrow> mesh_link M j k \<Longrightarrow>
      hears (net_world N k) e \<Longrightarrow> (j, k, e) \<in># net_air N'"
    using deliver_step [OF e(1,3) w'(1)] by metis
  show ?thesis
    by (rule that [OF N'(1,2) w'(2-4) N'(3) [OF w'(5) i c(1)] w'(6) _ w'(8,9)]) (use c w' in \<open>simp_all add: addr_def\<close>)
qed

lemma net_relay_reply:
  assumes e: "(k, j, Sent a (htons AODV_UDP_PORT) h (rrep_datagram r)) \<in># net_air N" "good_rrep r" "h \<noteq> 0"
    and j: "world_ok (net_world N j)" "takes_routes (mesh_env M j)" "addr N k \<noteq> addr N j"
      "next_hop_to (net_world N j) (rrep_dest_ip_addr r) = None" "rrep_orig_ip_addr r \<noteq> addr N j"
      "next_hop_to (net_world N j) (rrep_orig_ip_addr r) = Some (addr N i)"
      "rrep_orig_ip_addr r \<notin> {addr N k, rrep_dest_ip_addr r}"
    and i: "i \<in> set (mesh_nodes M)" "mesh_link M j i"
  obtains l N' w' where "net_step M l N N'" "net_world N' = (net_world N)(j := w')" "world_ok w'"
    "w_ip_addr w' = w_ip_addr (net_world N j)" "next_hop_to w' (rrep_dest_ip_addr r) = Some (addr N k)"
    "next_hop_to w' (rrep_orig_ip_addr r) = Some (addr N i)"
    "(j, i, Sent (htonl (addr N i)) (htons AODV_UDP_PORT) (h - 1) (rrep_datagram (rhopped r))) \<in># net_air N'"
proof -
  have k: "addr N k \<noteq> w_ip_addr (net_world N j)" "rrep_orig_ip_addr r \<noteq> w_ip_addr (net_world N j)"
    using j(3,5) by (simp_all add: addr_def)
  from relay_reply [OF j(1,2) e(2) k(1) j(4) k(2) j(6,7)] obtain w' where w':
    "aodv_socket_receive_packet (mesh_env M j) (int (length (rrep_datagram r)))
      (datagram (addr N k) (rrep_datagram r) h) (net_world N j) = Some w'"
    "world_ok w'" "w_ip_addr w' = w_ip_addr (net_world N j)" "next_hop_to w' (rrep_dest_ip_addr r) = Some (addr N k)"
    "next_hop_to w' (rrep_orig_ip_addr r) = Some (addr N i)"
    "sent w' = Sent (htonl (addr N i)) (htons AODV_UDP_PORT) (h - 1) (rrep_datagram (rhopped r)) # sent (net_world N j)"
    by metis
  obtain l N' where N': "net_step M l N N'" "net_world N' = (net_world N)(j := w')"
    "\<And>e k. sent w' = e # sent (net_world N j) \<Longrightarrow> k \<in> set (mesh_nodes M) \<Longrightarrow> mesh_link M j k \<Longrightarrow>
      hears (net_world N k) e \<Longrightarrow> (j, k, e) \<in># net_air N'"
    using deliver_step [OF e(1,3) w'(1)] by metis
  show ?thesis
    by (rule that [OF N'(1,2) w'(2-5) N'(3) [OF w'(6) i]]) (simp add: addr_def)
qed

text \<open>
  The state in which the reply \<open>r\<close> is back at \<open>i\<close>, after a run from \<open>N\<close> in which only the nodes of the
  path have moved.
\<close>

definition came_back :: "mesh \<Rightarrow> aodv_rreq \<Rightarrow> nat \<Rightarrow> nat list \<Rightarrow> net \<Rightarrow> net \<Rightarrow> aodv_rrep \<Rightarrow> bool" where
  "came_back M q i js N N' r \<longleftrightarrow> net_runs M N N' \<and>
    (\<forall>k. k \<notin> set js \<longrightarrow> net_world N' k = net_world N k) \<and> (\<forall>k. addr N' k = addr N k) \<and>
    leads_along N' (rreq_orig_ip_addr q) (rreq_dest_ip_addr q) i js \<and>
    (hd js, i, Sent (htonl (addr N i)) (htons AODV_UDP_PORT) (DEFAULT_TTL - of_nat (length (tl js))) (rrep_datagram r))
      \<in># net_air N' \<and>
    good_rrep r \<and> rrep_dest_ip_addr r = rreq_dest_ip_addr q \<and> rrep_orig_ip_addr r = rreq_orig_ip_addr q \<and>
    rrep_hop_count r = of_nat (length (tl js))"

text \<open>
  The request travels to the end of the path and the reply travels back to \<open>i\<close>: by induction over the
  path, every relay passing on the request first and the reply last.
\<close>

lemma request_comes_back:
  assumes "(i, j, Sent a (htons AODV_UDP_PORT) t (rreq_datagram q)) \<in># net_air N" "good_rreq q"
    and "path_ready M N q i (j # js)" "distinct (i # j # js)" "length js < unat t" "length js < 64" "i \<in> set (mesh_nodes M)"
  shows "\<exists>N' r. came_back M q i (j # js) N N' r"
  using assms
proof (induction js arbitrary: i j a t q N)
  case Nil
  then have "t \<noteq> 0" by auto
  from net_answer_request [OF Nil.prems(1,2) this Nil.prems(3,7)] obtain l N' w' r where N':
    "net_step M l N N'" "net_world N' = (net_world N)(j := w')" "world_ok w'"
    "w_ip_addr w' = w_ip_addr (net_world N j)" "next_hop_to w' (rreq_orig_ip_addr q) = Some (addr N i)"
    "(j, i, Sent (htonl (addr N i)) (htons AODV_UDP_PORT) DEFAULT_TTL (rrep_datagram r)) \<in># net_air N'"
    "good_rrep r" "rrep_dest_ip_addr r = rreq_dest_ip_addr q" "rrep_orig_ip_addr r = rreq_orig_ip_addr q"
    "rrep_hop_count r = 0" by metis
  have "net_runs M N N'" by (rule net_runs_step [OF N'(1) net_runs_refl])
  then have "came_back M q i [j] N N' r" using N' Nil.prems(4) by (simp add: came_back_def addr_def)
  then show ?case by blast
next
  case (Cons k ks)
  note prems = Cons.prems
  let ?o = "rreq_orig_ip_addr q" and ?d = "rreq_dest_ip_addr q" and ?h = "DEFAULT_TTL - of_nat (length ks)"
  have p: "j \<in> set (mesh_nodes M)" "mesh_link M j i" "takes_routes (mesh_env M j)" "?o \<noteq> addr N j"
    "addr N k \<noteq> addr N j" "path_ready M N q j (k # ks)"
    using prems(3) by auto
  have od: "?o \<notin> {addr N k, ?d}" using path_ready_orig [OF p(6)] path_ready_dest [OF prems(3)] by auto
  have t: "t \<noteq> 0" "1 < t" using prems(5) by (auto simp: word_less_nat_alt)
  have t1: "length ks < unat (t - 1)" using prems(5) unat_less_one [OF t(1)] by simp
  obtain l N1 w1 where N1: "net_step M l N N1" "net_world N1 = (net_world N)(j := w1)" "world_ok w1"
    "w_ip_addr w1 = w_ip_addr (net_world N j)" "w_broadcast_addr w1 = w_broadcast_addr (net_world N j)"
    "next_hop_to w1 ?o = Some (addr N i)" "next_hop_to w1 ?d = None"
    "(j, k, Sent (htonl (w_broadcast_addr (net_world N j))) (htons AODV_UDP_PORT) (t - 1) (rreq_datagram (hopped q))) \<in># net_air N1"
    using net_relay_request [OF prems(1,2) t(2) prems(3)] by metis
  have a1: "addr N1 m = addr N m" for m using N1(2,4) by (simp add: addr_def)
  have "path_ready M N1 q j (k # ks) = path_ready M N q j (k # ks)"
    by (rule path_ready_cong) (use prems(4) N1(2,5) a1 in auto)
  then have "path_ready M N1 (hopped q) j (k # ks)" using p(6) by (simp only: path_ready_hopped)
  moreover have "distinct (j # k # ks)" "length ks < 64" using prems(4,6) by auto
  ultimately obtain N2 r where "came_back M (hopped q) j (k # ks) N1 N2 r"
    using Cons.IH [OF N1(8) good_hopped(1) [OF prems(2)]] t1 p(1) by blast
  then have N2: "net_runs M N1 N2" "\<forall>m. m \<notin> set (k # ks) \<longrightarrow> net_world N2 m = net_world N1 m"
    "\<And>m. addr N2 m = addr N m" "leads_along N2 ?o ?d j (k # ks)"
    "(k, j, Sent (htonl (addr N1 j)) (htons AODV_UDP_PORT) ?h (rrep_datagram r)) \<in># net_air N2"
    "good_rrep r" "rrep_dest_ip_addr r = ?d" "rrep_orig_ip_addr r = ?o" "rrep_hop_count r = of_nat (length ks)"
    using a1 by (simp_all add: came_back_def)
  have wj: "net_world N2 j = w1" using N2(2) N1(2) prems(4) by auto
  have h: "?h \<noteq> 0" using reply_limit prems(6) by simp
  obtain l3 N3 w3 where N3: "net_step M l3 N2 N3" "net_world N3 = (net_world N2)(j := w3)" "world_ok w3"
    "w_ip_addr w3 = w_ip_addr (net_world N2 j)" "next_hop_to w3 ?d = Some (addr N2 k)" "next_hop_to w3 ?o = Some (addr N2 i)"
    "(j, i, Sent (htonl (addr N2 i)) (htons AODV_UDP_PORT) (?h - 1) (rrep_datagram (rhopped r))) \<in># net_air N3"
    using net_relay_reply [OF N2(5,6) h, of M i] wj N1(3,6,7) N2(3,7,8) p od prems(7) by metis
  have a3: "addr N3 m = addr N m" for m using N3(2,4) N2(3) by (simp add: addr_def)
  have "leads_along N3 ?o ?d j (k # ks) = leads_along N2 ?o ?d j (k # ks)"
    by (rule leads_along_cong) (use N3(2) a3 N2(3) prems(4) in auto)
  then have "leads_along N3 ?o ?d i (j # k # ks)" using N3(2,5,6) N2(3,4) a3 by simp
  moreover have "net_runs M N N3"
    by (rule net_runs_step [OF N1(1)], rule net_runs_trans [OF N2(1)], rule net_runs_step [OF N3(1) net_runs_refl])
  moreover have "?h - 1 = DEFAULT_TTL - of_nat (length (k # ks))" by simp
  then have "(j, i, Sent (htonl (addr N i)) (htons AODV_UDP_PORT) (DEFAULT_TTL - of_nat (length (k # ks)))
      (rrep_datagram (rhopped r))) \<in># net_air N3" using N3(7) N2(3) by (simp only:)
  moreover have "good_rrep (rhopped r)" "rrep_hop_count (rhopped r) = of_nat (length (k # ks))"
    using good_hopped(2) [OF N2(6)] N2(9) by (simp_all add: rhopped_def)
  moreover have "\<forall>m. m \<notin> set (j # k # ks) \<longrightarrow> net_world N3 m = net_world N m" using N3(2) N2(2) N1(2) by simp
  ultimately have "came_back M q i (j # k # ks) N N3 (rhopped r)"
    unfolding came_back_def list.sel using N2(7,8) a3 by (simp only: rhopped_same) blast
  then show ?case by blast
qed

section \<open>Discovery from end to end\<close>

lemma captured_search:
  assumes ok: "world_ok w" and c: "captured nfa" "\<not> cap_aodv nfa" "cap_hook nfa = NF_IP_LOCAL_OUT" "\<not> passes w (cap_dest nfa)"
    and n: "rreq_fifo_waiting_response_for (cap_dest nfa) w = Some False"
  obtains w' p where "manage_packet E nfa w = Some w'" "world_ok w'" "w_ip_addr w' = w_ip_addr w"
    "w_broadcast_addr w' = w_broadcast_addr w" "route_to w' = route_to w" "p \<in> dom (w_pkts w')"
    "packet_dest w' p = cap_dest nfa" "packet_id w' p = cap_id nfa"
    "sent w' = Sent (htonl (w_broadcast_addr w)) (htons AODV_UDP_PORT) 3 (rreq_datagram (own_rreq (cap_dest nfa) None (next_self w)))
      # sent w" "others_kept (cap_dest nfa) w w'"
proof -
  have "waits nfa w" "\<not> stuck nfa w" using c by (auto simp: waits_def stuck_def hook_defs)
  then obtain w' where w': "manage_packet E nfa w = Some w'" "kept_waiting nfa w w'"
    using manage_packet_ok [OF ok c(1), of E] by (auto simp: runs_iff)
  then obtain p where p: "w_pkts w' = (w_pkts w)(p \<mapsto> \<lparr>pf_id = cap_id nfa, pf_dest = cap_dest nfa\<rparr>)"
    by (auto simp: kept_waiting_def)
  have "ucast (expanding_ring_search_ttl 0 0) = (3 :: u8)" by (simp add: expanding_ring_search_ttl_def TTL_START_def)
  then have "w_out w' = rreq_event 3 w (own_rreq (cap_dest nfa) None (next_self w)) # w_out w"
    using w'(2) n by (simp add: kept_waiting_def)
  then have "sent w' = rreq_event 3 w (own_rreq (cap_dest nfa) None (next_self w)) # sent w"
    by (simp add: sent_def)
  moreover have "data_step w w'" "others_kept (cap_dest nfa) w w'" using w'(2) by (simp_all add: kept_waiting_def)
  ultimately show ?thesis
    by (intro that [OF w'(1), of p])
      (simp_all add: data_step_def p packet_dest_def packet_id_def rreq_event_def rreq_datagram_def fun_eq_iff)
qed

text \<open>The two ends: the search that a captured packet starts, and the reply that ends it.\<close>

lemma net_captured_search:
  assumes ok: "world_ok (net_world N s)" and s: "s \<in> set (mesh_nodes M)"
    and c: "captured nfa" "\<not> cap_aodv nfa" "cap_hook nfa = NF_IP_LOCAL_OUT" "\<not> passes (net_world N s) (cap_dest nfa)"
      "rreq_fifo_waiting_response_for (cap_dest nfa) (net_world N s) = Some False"
    and j: "j \<in> set (mesh_nodes M)" "mesh_link M s j" "w_broadcast_addr (net_world N j) = w_broadcast_addr (net_world N s)"
  obtains l N' w' p where "net_step M l N N'" "net_world N' = (net_world N)(s := w')" "world_ok w'"
    "w_ip_addr w' = w_ip_addr (net_world N s)" "w_broadcast_addr w' = w_broadcast_addr (net_world N s)"
    "route_to w' = route_to (net_world N s)" "p \<in> dom (w_pkts w')"
    "packet_dest w' p = cap_dest nfa" "packet_id w' p = cap_id nfa"
    "(s, j, Sent (htonl (w_broadcast_addr (net_world N s))) (htons AODV_UDP_PORT) 3
      (rreq_datagram (own_rreq (cap_dest nfa) None (next_self (net_world N s))))) \<in># net_air N'"
    "others_kept (cap_dest nfa) (net_world N s) w'" "net_air N \<subseteq># net_air N'"
proof -
  from captured_search [OF ok c, of "mesh_env M s"] obtain w' p where w':
    "manage_packet (mesh_env M s) nfa (net_world N s) = Some w'" "world_ok w'" "w_ip_addr w' = w_ip_addr (net_world N s)"
    "w_broadcast_addr w' = w_broadcast_addr (net_world N s)" "route_to w' = route_to (net_world N s)" "p \<in> dom (w_pkts w')"
    "packet_dest w' p = cap_dest nfa" "packet_id w' p = cap_id nfa"
    "sent w' = Sent (htonl (w_broadcast_addr (net_world N s))) (htons AODV_UDP_PORT) 3
      (rreq_datagram (own_rreq (cap_dest nfa) None (next_self (net_world N s)))) # sent (net_world N s)"
    "others_kept (cap_dest nfa) (net_world N s) w'" by metis
  show ?thesis
    by (rule that [OF capture [OF s c(1) w'(1)] _ w'(2-8) _ w'(10)])
      (use j node_acts_parts(3) [OF w'(9), of M] in \<open>simp_all add: node_acts_parts in_copies next_hop_None\<close>)
qed

lemma net_end_reply:
  assumes e: "(j, s, Sent a (htons AODV_UDP_PORT) h (rrep_datagram r)) \<in># net_air N" "good_rrep r" "h \<noteq> 0"
    and s: "world_ok (net_world N s)" "takes_routes (mesh_env M s)" "addr N j \<noteq> addr N s"
      "next_hop_to (net_world N s) (rrep_dest_ip_addr r) = None" "rrep_orig_ip_addr r = addr N s"
  obtains l N' w' where "net_step M l N N'" "net_world N' = (net_world N)(s := w')"
    "w_ip_addr w' = w_ip_addr (net_world N s)"
    "has_route (rrep_dest_ip_addr r) (addr N j) (rrep_hop_count r + 1) (rrep_dest_seq_num r) w'"
    "\<And>p. p \<in> dom (w_pkts (net_world N s)) \<Longrightarrow> packet_dest (net_world N s) p = rrep_dest_ip_addr r \<Longrightarrow>
       Verdict (packet_id (net_world N s) p) NF_ACCEPT \<in> set (w_out w')"
proof -
  have k: "addr N j \<noteq> w_ip_addr (net_world N s)" "rrep_orig_ip_addr r = w_ip_addr (net_world N s)"
    using s(3,5) by (simp_all add: addr_def)
  from end_reply [OF s(1,2) e(2) k(1) s(4) k(2)] obtain w' where w':
    "aodv_socket_receive_packet (mesh_env M s) (int (length (rrep_datagram r)))
      (datagram (addr N j) (rrep_datagram r) h) (net_world N s) = Some w'"
    "w_ip_addr w' = w_ip_addr (net_world N s)"
    "has_route (rrep_dest_ip_addr r) (addr N j) (rrep_hop_count r + 1) (rrep_dest_seq_num r) w'"
    "\<forall>p \<in> dom (w_pkts (net_world N s)). packet_dest (net_world N s) p = rrep_dest_ip_addr r \<longrightarrow>
       p \<notin> dom (w_pkts w') \<and> Verdict (packet_id (net_world N s) p) NF_ACCEPT \<in> set (w_out w')" by metis
  obtain l N' where N': "net_step M l N N'" "net_world N' = (net_world N)(s := w')"
    using deliver_step [OF e(1,3) w'(1)] by metis
  show ?thesis by (rule that [OF N' w'(2,3)]) (use w'(4) in blast)
qed

text \<open>
  C5: a search reaches its destination and comes back. Let a node capture a packet of its own for a
  destination that it neither has a route to nor searches yet, and let there be a path to the
  destination of at most three hops, over links that work in both directions and nodes that have
  not seen the request and know no route to the destination. Then the mesh has a run after which
  the node has a route to the destination over the first node of the path, with the length of
  the path as its hop count; every node of the path has the right next hops towards both ends;
  the packet has been accepted; and no other node has changed.
\<close>
theorem search_finds_destination:
  assumes ok: "world_ok (net_world N s)" and s: "s \<in> set (mesh_nodes M)" "takes_routes (mesh_env M s)"
    and c: "captured nfa" "\<not> cap_aodv nfa" "cap_hook nfa = NF_IP_LOCAL_OUT" "\<not> passes (net_world N s) (cap_dest nfa)"
      "rreq_fifo_waiting_response_for (cap_dest nfa) (net_world N s) = Some False"
      "next_hop_to (net_world N s) (cap_dest nfa) = None"
    and path: "path_ready M N (own_rreq (cap_dest nfa) None (next_self (net_world N s))) s js"
      "js \<noteq> []" "distinct (s # js)" "length js \<le> 3"
  shows "\<exists>N' seq. net_runs M N N' \<and>
    has_route (cap_dest nfa) (addr N (hd js)) (of_nat (length js)) seq (net_world N' s) \<and>
    leads_along N' (addr N s) (cap_dest nfa) s js \<and>
    Verdict (cap_id nfa) NF_ACCEPT \<in> set (w_out (net_world N' s)) \<and>
    (\<forall>k. k \<notin> set (s # js) \<longrightarrow> net_world N' k = net_world N k)"
proof -
  let ?w = "net_world N s" and ?d = "cap_dest nfa"
  let ?q = "own_rreq ?d None (next_self ?w)"
  obtain j ks where js: "js = j # ks" using path(2) by (cases js) auto
  have q: "good_rreq ?q" "rreq_dest_ip_addr ?q = ?d" "rreq_orig_ip_addr ?q = addr N s"
    by (rule good_own(1)) (simp_all add: own_rreq_def next_self_def addr_def)
  have j: "j \<in> set (mesh_nodes M)" "mesh_link M s j" "w_broadcast_addr (net_world N j) = w_broadcast_addr ?w"
    "addr N j \<noteq> addr N s" using path(1) by (auto simp: js)
  obtain l N1 w1 p where N1: "net_step M l N N1" "net_world N1 = (net_world N)(s := w1)" "world_ok w1"
    "w_ip_addr w1 = w_ip_addr ?w" "w_broadcast_addr w1 = w_broadcast_addr ?w" "next_hop_to w1 ?d = None"
    "p \<in> dom (w_pkts w1)" "packet_dest w1 p = ?d" "packet_id w1 p = cap_id nfa"
    "(s, j, Sent (htonl (w_broadcast_addr ?w)) (htons AODV_UDP_PORT) 3 (rreq_datagram ?q)) \<in># net_air N1"
    using net_captured_search [OF ok s(1) c(1-5) j(1-3)] c(6) unfolding next_hop_None by metis
  have a1: "addr N1 m = addr N m" for m using N1(2,4) by (simp add: addr_def)
  have "path_ready M N1 ?q s js = path_ready M N ?q s js"
    by (rule path_ready_cong) (use path(3) N1(2,5) a1 in auto)
  then have "path_ready M N1 ?q s (j # ks)" using path(1) by (simp only: js)
  moreover have "distinct (s # j # ks)" "length ks < unat (3 :: u8)" "length ks < 64" using path(3,4) js by simp_all
  ultimately obtain N2 r where "came_back M ?q s js N1 N2 r"
    using request_comes_back [OF N1(10) q(1)] s(1) unfolding js by blast
  then have N2: "net_runs M N1 N2" "\<forall>m. m \<notin> set js \<longrightarrow> net_world N2 m = net_world N1 m" "\<And>m. addr N2 m = addr N m"
    "leads_along N2 (addr N s) ?d s js"
    "(j, s, Sent (htonl (addr N1 s)) (htons AODV_UDP_PORT) (DEFAULT_TTL - of_nat (length ks)) (rrep_datagram r)) \<in># net_air N2"
    "good_rrep r" "rrep_dest_ip_addr r = ?d" "rrep_orig_ip_addr r = addr N s" "rrep_hop_count r = of_nat (length ks)"
    using a1 q(2,3) by (simp_all add: came_back_def js)
  have ws: "net_world N2 s = w1" using N2(2) N1(2) path(3) by auto
  have h: "DEFAULT_TTL - of_nat (length ks) \<noteq> 0" by (rule reply_limit) (use path(4) js in simp)
  obtain l3 N3 w3 where N3: "net_step M l3 N2 N3" "net_world N3 = (net_world N2)(s := w3)"
    "w_ip_addr w3 = w_ip_addr (net_world N2 s)" "has_route ?d (addr N2 j) (rrep_hop_count r + 1) (rrep_dest_seq_num r) w3"
    "\<And>p. p \<in> dom (w_pkts (net_world N2 s)) \<Longrightarrow> packet_dest (net_world N2 s) p = ?d \<Longrightarrow>
       Verdict (packet_id (net_world N2 s) p) NF_ACCEPT \<in> set (w_out w3)"
    using net_end_reply [OF N2(5,6) h, of M] ws N1(3,6) s(2) N2(3,7,8) j(4) by metis
  have "net_runs M N N3"
    by (rule net_runs_step [OF N1(1)], rule net_runs_trans [OF N2(1)], rule net_runs_step [OF N3(1) net_runs_refl])
  moreover have "has_route ?d (addr N (hd js)) (of_nat (length js)) (rrep_dest_seq_num r) (net_world N3 s)"
    using N3(2,4) N2(3,9) js by (simp add: add.commute)
  moreover have "leads_along N3 (addr N s) ?d s js = leads_along N2 (addr N s) ?d s js"
    by (rule leads_along_cong) (use N3(2,3) path(3) in \<open>auto simp: addr_def\<close>)
  moreover have "Verdict (cap_id nfa) NF_ACCEPT \<in> set (w_out (net_world N3 s))"
    using N3(5) [of p] N1(7-9) unfolding N3(2) fun_upd_same ws by simp
  moreover have "\<forall>k. k \<notin> set (s # js) \<longrightarrow> net_world N3 k = net_world N k" using N3(2) N2(2) N1(2) by simp
  ultimately show ?thesis using N2(4) by blast
qed

text \<open>Three nodes in a row; the first searches the last.\<close>

definition row_mesh :: mesh where
  "row_mesh = \<lparr>mesh_nodes = [0, 1, 2], mesh_link = (\<lambda>i j. i = Suc j \<or> j = Suc i), mesh_env = (\<lambda>_. sample_env)\<rparr>"

definition row_net :: net where
  "row_net = \<lparr>net_world = (\<lambda>i. if i = 0 then sample_world else if i = 1 then sample_world\<lparr>w_ip_addr := 0x0A000005\<rparr>
     else sample_world\<lparr>w_ip_addr := 0x0A000008\<rparr>), net_air = {#}\<rparr>"

lemma row_unseen: "\<not> rreq_seen (own_rreq 0x0A000008 None (next_self sample_world)) (sample_world\<lparr>w_ip_addr := a\<rparr>)"
  by (auto simp: rreq_seen_def own_rreq_def next_self_def sample_parts ran_def split: if_splits)

lemma row_no_route: "route_to (sample_world\<lparr>w_ip_addr := a\<rparr>) 0x0A000008 = None" "route_to sample_world 0x0A000008 = None"
  by (simp_all add: route_to_def route_dst_def sample_parts sample_route_def)

lemma row_ready:
  "path_ready row_mesh row_net (own_rreq 0x0A000008 None (next_self (net_world row_net 0))) 0 [1, 2]"
proof -
  have "rreq_dest_ip_addr (own_rreq d None w) = d" "rreq_orig_ip_addr (own_rreq d None (next_self w)) = w_ip_addr w" for d w
    by (simp_all add: own_rreq_def next_self_def)
  then show ?thesis
    using row_unseen row_no_route sample_takes_routes sample_world_ok
    by (simp add: row_mesh_def row_net_def addr_def sample_parts next_hop_None)
qed

theorem search_finds_destination_witness:
  "\<exists>N' seq. net_runs row_mesh row_net N' \<and> has_route 0x0A000008 0x0A000005 2 seq (net_world N' 0) \<and>
    Verdict 51 NF_ACCEPT \<in> set (w_out (net_world N' 0))"
proof -
  let ?c = "sample_capture 3 0x0A000008"
  have c: "captured ?c" "\<not> cap_aodv ?c" "cap_hook ?c = NF_IP_LOCAL_OUT" "\<not> passes (net_world row_net 0) (cap_dest ?c)"
    "rreq_fifo_waiting_response_for (cap_dest ?c) (net_world row_net 0) = Some False"
    "next_hop_to (net_world row_net 0) (cap_dest ?c) = None"
    using sample_unknown row_no_route(2) by (simp_all add: sample_captured row_net_def hook_defs next_hop_None)
  have "world_ok (net_world row_net 0)" "0 \<in> set (mesh_nodes row_mesh)" "takes_routes (mesh_env row_mesh 0)"
    "distinct [0, 1, 2 :: nat]" "length [1, 2 :: nat] \<le> 3" "[1, 2 :: nat] \<noteq> []"
    using sample_world_ok sample_takes_routes by (simp_all add: row_net_def row_mesh_def)
  from search_finds_destination [OF this(1-3) c _ this(6,4,5)] row_ready
  obtain N' seq where N': "net_runs row_mesh row_net N'"
    "has_route (cap_dest ?c) (addr row_net (hd [1, 2])) (of_nat (length [1, 2 :: nat])) seq (net_world N' 0)"
    "Verdict (cap_id ?c) NF_ACCEPT \<in> set (w_out (net_world N' 0))" by (auto simp: sample_captured)
  have "addr row_net (hd [1, 2]) = 0x0A000005" by (simp add: addr_def row_net_def)
  then show ?thesis using N' by (intro exI [of _ N'] exI [of _ seq]) (simp add: sample_captured)
qed

end
