(* ===== verification/Main_Loop.thy ===== *)
theory Main_Loop
  imports Discovery
begin

text \<open>
  Start, end and main loop of the daemon: \<open>msh_data_init\<close> and \<open>msh_data_shutdown\<close>
  (\<open>meshias_daemon/msh_data.c\<close>), the two sockets they open, and \<open>main\<close> (\<open>meshias.c\<close>) as a step
  relation over its program points.

  The results of the system calls are parameters. What \<open>select\<close> finds ready, and what the
  sockets then deliver, is the label of a step. The variable \<open>next\<close> of \<open>main\<close> is not
  initialised, so its first value is arbitrary; \<open>next_run\<close> is null or points to \<open>next\<close>, and
  \<open>select\<close> may leave any time in what it points to.

  The properties: a start makes the state well-formed, every step keeps it so, the steps that are
  undefined have one of the listed causes, a packet that waits stays or gets a verdict, and a daemon
  that is told to end does so.
\<close>

section \<open>Start\<close>

text \<open>Results of the calls that open the AODV socket and the control socket.\<close>

record socket_env =
  so_socket :: int
  so_broadcast :: int
  so_recvttl :: int
  so_reuseaddr :: int
  so_bind :: int
  so_listen :: int

definition aodv_socket_init :: "socket_env \<Rightarrow> fds \<Rightarrow> int \<times> int \<times> fds" where
  "aodv_socket_init K f =
     (let fd = so_socket K in
      if fd = -1 then (ERR_INIT, fd, f)
      else if so_broadcast K = -1 then (ERR_INIT, fd, f)
      else if so_recvttl K = -1 then (ERR_INIT, fd, f)
      else if so_bind K = -1 then (ERR_INIT, fd, f)
      else (0, fd, register_fd fd f))"

text \<open>\<open>data.comm_fd\<close> is set only after the last call has succeeded; before it is zero.\<close>

definition comm_interface_init :: "socket_env \<Rightarrow> fds \<Rightarrow> int \<times> int \<times> fds" where
  "comm_interface_init K f =
     (let fd = so_socket K in
      if fd = -1 then (-1, 0, f)
      else if so_reuseaddr K = -1 then (-1, 0, f)
      else if so_bind K = -1 then (-1, 0, f)
      else if so_listen K = -1 then (-1, 0, f)
      else (0, fd, register_fd fd f))"

text \<open>
  The global state \<open>data\<close> after \<open>memset\<close>, with an empty heap: null is 0, the flush alarm lies
  at 1 and objects are allocated from 2 on. A zeroed alarm block looks linked.
\<close>

definition blank_world :: world where
  "blank_world = \<lparr>w_end = False, w_net_iface = 0, w_ip_addr = 0, w_broadcast_addr = 0, w_seq_num = 0,
     w_rreq_id = 0, w_num_rreq_sent = 0, w_stats = zero_stats, w_routes = Map.empty, w_table = [],
     w_find_route = 0, w_rreqs = Map.empty, w_rreq_queue = [], w_pkts = Map.empty, w_packets_queue = [],
     w_alarms = \<lparr>al_blocks = [FLUSH_ALARM \<mapsto> zero_block], alarm_root = Null\<rparr>,
     w_live_pkts = 0, w_next_ptr = 2, w_tick = 0, w_out = []\<rparr>"

definition blank_nfq :: nfq_state where
  "blank_nfq = \<lparr>ns_handles = Map.empty, ns_queues = Map.empty, ns_next = 1, ns_msgs = []\<rparr>"

record daemon =
  d_world :: world
  d_nfq :: nfq_state
  d_handle :: ptr
  d_queue :: ptr
  d_fds :: fds
  d_nfqueue_fd :: int
  d_daemon_fd :: int
  d_comm_fd :: int

text \<open>
  What the start depends on: the arguments and the user, libnfnetlink, the sockets, and what
  libnl returns: whether there are a netlink handle, a cache of the links and a cache of the
  addresses, the index of the interface if it is found, and for each of its addresses the local
  and the broadcast address in network byte order. All of them may be null. The result of
  \<open>nl_connect\<close> is ignored; a handle that is not connected shows in the caches.
\<close>

record start_env =
  se_argc :: int
  se_uid :: u32
  se_nfnl :: nfnl_env
  se_talk :: "nfq_msg \<Rightarrow> int"
  se_nfqueue_fd :: int
  se_aodv :: socket_env
  se_comm :: socket_env
  se_handle :: bool
  se_link_cache :: bool
  se_link :: "u32 option"
  se_addr_cache :: bool
  se_addrs :: "(u32 option \<times> u32 option) list"

text \<open>The bytes of an address are copied without a test for null.\<close>

definition init_addr :: "u32 option \<times> u32 option \<Rightarrow> world \<Rightarrow> world option" where
  "init_addr a w = (case a of (local, broadcast) \<Rightarrow> do {
     l \<leftarrow> local;
     let w = w\<lparr>w_ip_addr := ntohl l\<rparr>;
     b \<leftarrow> broadcast;
     Some (w\<lparr>w_broadcast_addr := ntohl b\<rparr>) })"

datatype start = Exit int | Return int daemon

text \<open>
  The tail of \<open>msh_data_init\<close>, from the index of the interface on. The library reads through the
  handle and through the caches that it is given, so a null there is undefined.
\<close>

definition init_tables :: "u32 \<Rightarrow> (u32 option \<times> u32 option) list \<Rightarrow> world \<Rightarrow> world option" where
  "init_tables iface addrs w = do {
     w \<leftarrow> fold_steps init_addr addrs (w\<lparr>w_net_iface := iface\<rparr>);
     w \<leftarrow> routing_table_alloc w;
     let w = packets_fifo_alloc (rreq_fifo_alloc w);
     on_alarms (init_alarm FLUSH_ALARM 0 Flush_alarm_fn) w }"

definition msh_data_init :: "start_env \<Rightarrow> start option" where
  "msh_data_init K =
     (let D = \<lparr>d_world = stats_init blank_world, d_nfq = blank_nfq, d_handle = 0, d_queue = 0, d_fds = create_fds,
        d_nfqueue_fd = 0, d_daemon_fd = 0, d_comm_fd = 0\<rparr> in
      if se_argc K < 2 then Some (Exit 1)
      else if se_uid K \<noteq> 0 then Some (Return ERR_INIT D)
      else do {
        (r, handle, queue, S) \<leftarrow> nfqueue_init (se_nfnl K) (se_talk K) (d_nfq D);
        let D = D\<lparr>d_handle := handle, d_queue := queue, d_nfq := S\<rparr>;
        if r \<noteq> 0 then Some (Return ERR_INIT D)
        else (let D = D\<lparr>d_nfqueue_fd := se_nfqueue_fd K, d_fds := register_fd (se_nfqueue_fd K) (d_fds D)\<rparr> in
          case aodv_socket_init (se_aodv K) (d_fds D) of (r, fd, f) \<Rightarrow>
          let D = D\<lparr>d_daemon_fd := fd, d_fds := f\<rparr> in
          if r \<noteq> 0 then Some (Return ERR_INIT D)
          else (case comm_interface_init (se_comm K) (d_fds D) of (r, fd, f) \<Rightarrow>
            let D = D\<lparr>d_comm_fd := fd, d_fds := f\<rparr> in
            if r \<noteq> 0 then Some (Return ERR_INIT D)
            else defined_if (se_handle K \<and> se_link_cache K) (case se_link K of
                None \<Rightarrow> Some (Return ERR_INIT D)
              | Some iface \<Rightarrow> defined_if (se_addr_cache K) (do {
                  w \<leftarrow> init_tables iface (se_addrs K) (d_world D);
                  Some (Return 1 (D\<lparr>d_world := w\<rparr>)) })))) })"

section \<open>End\<close>

text \<open>
  The part of \<open>msh_data_shutdown\<close> that works on the daemon's own structures, then the capture
  queue. Closing the sockets has no effect on the model.
\<close>

definition shutdown_world :: "env \<Rightarrow> world \<Rightarrow> world option" where
  "shutdown_world E w = do {
     w \<leftarrow> on_alarms (del_alarm FLUSH_ALARM) w;
     w \<leftarrow> routing_table_delete E w;
     w \<leftarrow> rreq_fifo_delete w;
     packets_fifo_delete w }"

definition msh_data_shutdown :: "env \<Rightarrow> (nfq_msg \<Rightarrow> int) \<Rightarrow> int \<Rightarrow> daemon \<Rightarrow> daemon option" where
  "msh_data_shutdown E talk nfnl_close D = do {
     w \<leftarrow> shutdown_world E (d_world D);
     S \<leftarrow> nfqueue_shutdown talk nfnl_close (d_handle D) (d_queue D) (d_nfq D);
     Some (D\<lparr>d_world := w, d_nfq := S\<rparr>) }"

section \<open>What the start establishes\<close>

text \<open>The capture handle and its one queue, with number 0.\<close>

definition capturing :: "nfq_state \<Rightarrow> ptr \<Rightarrow> ptr \<Rightarrow> bool" where
  "capturing S handle queue \<longleftrightarrow> handle \<noteq> 0 \<and> queue \<noteq> 0 \<and> queue_list S handle [queue] \<and>
     nfq_rcv_pkt handle (htons 0) S = Some (Inr queue)"

lemma nfqueue_init_ok:
  "runs (nfqueue_init N talk blank_nfq) (\<lambda>(r, handle, queue, S). r = ERR_INIT \<or> r = 0 \<and> capturing S handle queue)"
proof -
  let ?S = "\<lambda>ms. \<lparr>ns_handles = [1 \<mapsto> \<lparr>h_qh_list = 2\<rparr>], ns_queues = [2 \<mapsto> \<lparr>qh_next = 0, qh_h = 1, qh_id = 0, qh_cb = True\<rparr>],
    ns_next = 3, ns_msgs = ms\<rparr>"
  have l: "queue_list (?S ms) 1 [2]" for ms by (simp add: queue_list_def)
  have "capturing (?S ms) 1 2" for ms
    using l [of ms] nfq_rcv_pkt_eq [OF l, of 0 ms] by (simp add: capturing_def queue_for_def queue_num_def)
  then show ?thesis
    by (simp add: nfqueue_init_def nfq_open_def nfq_open_nfnl_def blank_nfq_def nfq_unbind_pf_def nfq_bind_pf_def
        build_send_cfg_msg_def nfnl_talk_def nfq_create_queue_def Let_def find_qh_def find_qh_from.simps add_qh_def
        upd_queue_def upd_handle_def nfq_set_mode_def numeral_2_eq_2 [symmetric])
qed

text \<open>Every address that libnl reports is there; then the last one is kept.\<close>

definition no_null :: "(u32 option \<times> u32 option) list \<Rightarrow> bool" where
  "no_null addrs \<longleftrightarrow> list_all (\<lambda>(local, broadcast). local \<noteq> None \<and> broadcast \<noteq> None) addrs"

lemma init_addrs:
  "fold_steps init_addr addrs w = (if no_null addrs then
    Some (w\<lparr>w_ip_addr := (if addrs = [] then w_ip_addr w else ntohl (the (fst (last addrs)))),
      w_broadcast_addr := (if addrs = [] then w_broadcast_addr w else ntohl (the (snd (last addrs))))\<rparr>) else None)"
  by (induction addrs arbitrary: w) (auto simp: init_addr_def no_null_def split: prod.splits bind_splits)

text \<open>Nothing known, nothing waiting, no alarm set.\<close>

definition idle :: "world \<Rightarrow> bool" where
  "idle w \<longleftrightarrow> world_ok w \<and> \<not> w_end w \<and> w_table w = [] \<and> w_rreq_queue w = [] \<and> w_packets_queue w = [] \<and>
     waiting (w_alarms w) = {} \<and> w_out w = [] \<and> w_live_pkts w = 0"

lemma init_tables_ok:
  "case init_tables iface addrs (stats_init blank_world) of None \<Rightarrow> \<not> no_null addrs
    | Some w \<Rightarrow> no_null addrs \<and> idle w \<and> w_net_iface w = iface"
proof (cases "no_null addrs")
  case False
  then show ?thesis by (simp add: init_tables_def init_addrs)
next
  case True
  let ?b = "\<lparr>al_linked = False, al_tv = zero_tv, al_data = 2, al_function = Route_alarm_fn\<rparr>"
  let ?f = "\<lparr>al_linked = False, al_tv = zero_tv, al_data = 0, al_function = Flush_alarm_fn\<rparr>"
  define w where "w ip br = blank_world\<lparr>w_net_iface := iface, w_ip_addr := ip, w_broadcast_addr := br,
    w_routes := [2 \<mapsto> zero_route], w_find_route := 2, w_next_ptr := 3,
    w_alarms := \<lparr>al_blocks = [FLUSH_ALARM \<mapsto> ?f, 2 \<mapsto> ?b], alarm_root = Null\<rparr>\<rparr>" for ip br
  have "alarms_ok (w_alarms (w ip br))" for ip br
    by (auto simp: w_def alarms_ok_def red_black_def split: if_splits)
  then have "world_ok (w ip br)" for ip br
    by (auto simp: w_def blank_world_def world_ok_def heap_ok_def blocks_ok_def table_ok_def rreqs_ok_def zero_route_def
        FLUSH_ALARM_def split: if_splits)
  then have "idle (w ip br)" for ip br by (simp add: idle_def w_def blank_world_def waiting_def)
  moreover have "\<exists>ip br. init_tables iface addrs (stats_init blank_world) = Some (w ip br)"
    using True
    by (auto simp: init_tables_def init_addrs routing_table_alloc_def msh_route_alloc_def new_block_def on_alarms_def
        init_alarm_def zero_block_def packets_fifo_alloc_def rreq_fifo_alloc_def w_def blank_world_def stats_init_def
        upd_stats_def FLUSH_ALARM_def Let_def)
  ultimately show ?thesis using True by (auto simp: w_def)
qed

lemma register_fd_set: "readfds (register_fd fd f) = insert fd (readfds f)"
  by (simp add: register_fd_def Let_def)

lemma register_fd_max: "readfds f \<subseteq> {..maxfd f} \<Longrightarrow> readfds (register_fd fd f) \<subseteq> {..maxfd (register_fd fd f)}"
  by (auto simp: register_fd_def Let_def)

text \<open>A daemon that has started: idle, capturing, and with its sockets in the set that is waited for.\<close>

definition started :: "daemon \<Rightarrow> bool" where
  "started D \<longleftrightarrow> idle (d_world D) \<and> capturing (d_nfq D) (d_handle D) (d_queue D) \<and>
     readfds (d_fds D) = {d_nfqueue_fd D, d_daemon_fd D, d_comm_fd D} \<and> readfds (d_fds D) \<subseteq> {..maxfd (d_fds D)}"

lemma socket_inits:
  "aodv_socket_init K f = (r, fd, f') \<Longrightarrow> r = 0 \<Longrightarrow> f' = register_fd fd f"
  "comm_interface_init K f = (r, fd, f') \<Longrightarrow> r = 0 \<Longrightarrow> f' = register_fd fd f"
  by (auto simp: aodv_socket_init_def comm_interface_init_def ERR_INIT_def Let_def split: if_splits)

text \<open>What libnl returns where the start relies on it.\<close>

definition libnl_answers :: "start_env \<Rightarrow> bool" where
  "libnl_answers K \<longleftrightarrow> se_handle K \<and> se_link_cache K \<and> (case se_link K of None \<Rightarrow> True
     | Some iface \<Rightarrow> se_addr_cache K \<and> no_null (se_addrs K))"

lemma msh_data_init_ok:
  "case msh_data_init K of
      None \<Rightarrow> \<not> libnl_answers K
    | Some (Exit c) \<Rightarrow> c = 1 \<and> se_argc K < 2
    | Some (Return r D) \<Rightarrow> r = ERR_INIT \<or> r = 1 \<and> libnl_answers K \<and> started D"
proof -
  let ?N = "nfqueue_init (se_nfnl K) (se_talk K) blank_nfq"
  let ?f1 = "register_fd (se_nfqueue_fd K) create_fds"
  obtain r h q S where N: "?N = Some (r, h, q, S)" "r = ERR_INIT \<or> r = 0 \<and> capturing S h q"
    using nfqueue_init_ok [of "se_nfnl K" "se_talk K"] by (auto simp: runs_iff)
  obtain ra fa f2 where A: "aodv_socket_init (se_aodv K) ?f1 = (ra, fa, f2)" by (metis prod_cases3)
  obtain rc fc f3 where C: "comm_interface_init (se_comm K) f2 = (rc, fc, f3)" by (metis prod_cases3)
  have e: "ERR_INIT \<noteq> 0" by (simp add: ERR_INIT_def)
  consider "se_argc K < 2 \<or> se_uid K \<noteq> 0 \<or> r \<noteq> 0 \<or> ra \<noteq> 0 \<or> rc \<noteq> 0"
    | "\<not> se_argc K < 2" "se_uid K = 0" "r = 0" "ra = 0" "rc = 0" "\<not> (se_handle K \<and> se_link_cache K) \<or> se_link K = None"
    | iface where "\<not> se_argc K < 2" "se_uid K = 0" "r = 0" "ra = 0" "rc = 0" "se_handle K" "se_link_cache K"
        "se_link K = Some iface" by (cases "se_link K") auto
  then show ?thesis
  proof cases
    case 1
    then show ?thesis by (auto simp: msh_data_init_def N(1) A C Let_def)
  next
    case 2
    then show ?thesis
      by (auto simp: msh_data_init_def N(1) A C Let_def defined_if_def libnl_answers_def)
  next
    case 3
    have f: "f2 = register_fd fa ?f1" "f3 = register_fd fc f2"
      using socket_inits(1) [OF A 3(4)] socket_inits(2) [OF C 3(5)] by simp_all
    have r: "readfds f3 = {se_nfqueue_fd K, fa, fc}" by (auto simp: f register_fd_set create_fds_def)
    have m: "readfds f3 \<subseteq> {..maxfd f3}" unfolding f by (intro register_fd_max) (simp add: create_fds_def)
    show ?thesis
    proof (cases "init_tables iface (se_addrs K) (stats_init blank_world)")
      case None
      then show ?thesis
        using 3 N init_tables_ok [of "se_addrs K" iface]
        by (simp add: msh_data_init_def A C Let_def libnl_answers_def defined_if_def)
    next
      case (Some w)
      then show ?thesis
        using 3 N e r m init_tables_ok [of "se_addrs K" iface]
        by (auto simp: msh_data_init_def A C Let_def started_def libnl_answers_def defined_if_def)
    qed
  qed
qed

section \<open>The main loop\<close>

text \<open>What the sockets deliver after \<open>select\<close>; a socket that is not ready delivers nothing.\<close>

record input =
  in_nfqueue :: "(int \<times> nfq_data list) option"
  in_aodv :: "(int \<times> msghdr) option"
  in_comm :: "(int \<times> string) option"

record machine =
  m_data :: daemon
  m_next :: timeval
  m_next_run :: bool

definition when_ready :: "'a option \<Rightarrow> ('a \<Rightarrow> world \<Rightarrow> world option) \<Rightarrow> world \<Rightarrow> world option" where
  "when_ready x f w = (case x of None \<Rightarrow> Some w | Some a \<Rightarrow> f a w)"

text \<open>The first two sockets, and then the control socket, in the order of the loop body.\<close>

definition receive_packets :: "env \<Rightarrow> input \<Rightarrow> world \<Rightarrow> world option" where
  "receive_packets E i w = do {
     w \<leftarrow> when_ready (in_nfqueue i) (\<lambda>(received, msgs). nfqueue_receive_packet E received msgs) w;
     when_ready (in_aodv i) (\<lambda>(numbytes, msg). aodv_socket_receive_packet E numbytes msg) w }"

definition receive_command :: "input \<Rightarrow> world \<Rightarrow> world option" where
  "receive_command i w = when_ready (in_comm i)
     (\<lambda>(ret, bytes) w. map_option snd (comm_interface_receive_packets ret bytes w)) w"

text \<open>\<open>next_run = get_next_alarm_run(&next)\<close> writes \<open>next\<close> only if there is an alarm.\<close>

definition store_next :: "timeval option \<Rightarrow> machine \<Rightarrow> machine" where
  "store_next r m = (case r of None \<Rightarrow> m\<lparr>m_next_run := False\<rparr> | Some t \<Rightarrow> m\<lparr>m_next := t, m_next_run := True\<rparr>)"

definition upd_world :: "world \<Rightarrow> machine \<Rightarrow> machine" where
  "upd_world w m = m\<lparr>m_data := (m_data m)\<lparr>d_world := w\<rparr>\<rparr>"

abbreviation m_world :: "machine \<Rightarrow> world" where
  "m_world m \<equiv> d_world (m_data m)"

definition selected :: "timeval \<Rightarrow> machine \<Rightarrow> machine" where
  "selected left m = (if m_next_run m then m\<lparr>m_next := left\<rparr> else m)"

definition inner_turn :: "env \<Rightarrow> input \<Rightarrow> timeval \<Rightarrow> machine \<Rightarrow> machine option" where
  "inner_turn E i left m = do {
     let m = selected left m;
     w \<leftarrow> receive_packets E i (m_world m);
     w \<leftarrow> receive_command i w;
     (r, w) \<leftarrow> next_alarm_run E w;
     Some (store_next r (upd_world w m)) }"

text \<open>After the inner loop; \<open>process_alarms(&next)\<close> does not assign \<open>next_run\<close>.\<close>

definition alarm_turn :: "env \<Rightarrow> machine \<Rightarrow> machine option" where
  "alarm_turn E m = do {
     (r, w) \<leftarrow> next_alarm_run E (m_world m);
     let m = store_next r (upd_world w m);
     (r, w) \<leftarrow> process_alarms E (m_next m) (m_world m);
     let m = upd_world w m;
     Some (case r of None \<Rightarrow> m | Some t \<Rightarrow> m\<lparr>m_next := t\<rparr>) }"

text \<open>
  The program points: at the condition of the outer loop, at that of the inner loop, after the
  inner loop, returned from \<open>main\<close>, and past an undefined operation.
\<close>

datatype point = Outer machine | Inner machine | After machine | Returned daemon | Crashed

text \<open>
  \<open>Ready i left\<close>: \<open>select\<close> has returned a positive number; \<open>Expired left\<close>: it has returned zero or
  an error. \<open>Closed rc\<close> is the answer of \<open>nfnl_close\<close> at the end.
\<close>

datatype label = Tau | Ready input timeval | Expired timeval | Closed int

inductive main_step :: "env \<Rightarrow> (nfq_msg \<Rightarrow> int) \<Rightarrow> label \<Rightarrow> point \<Rightarrow> point \<Rightarrow> bool" for E talk where
  enter: "\<not> w_end (m_world m) \<Longrightarrow> main_step E talk Tau (Outer m) (Inner m)"
| leave: "w_end (m_world m) \<Longrightarrow> msh_data_shutdown E talk rc (m_data m) = Some D \<Longrightarrow>
    main_step E talk (Closed rc) (Outer m) (Returned D)"
| leave_crash: "w_end (m_world m) \<Longrightarrow> msh_data_shutdown E talk rc (m_data m) = None \<Longrightarrow>
    main_step E talk (Closed rc) (Outer m) Crashed"
| ready: "\<not> w_end (m_world m) \<Longrightarrow> inner_turn E i left m = Some m' \<Longrightarrow>
    main_step E talk (Ready i left) (Inner m) (Inner m')"
| ready_crash: "\<not> w_end (m_world m) \<Longrightarrow> inner_turn E i left m = None \<Longrightarrow>
    main_step E talk (Ready i left) (Inner m) Crashed"
| expired: "\<not> w_end (m_world m) \<Longrightarrow> main_step E talk (Expired left) (Inner m) (After (selected left m))"
| ended: "w_end (m_world m) \<Longrightarrow> main_step E talk Tau (Inner m) (After m)"
| alarms: "alarm_turn E m = Some m' \<Longrightarrow> main_step E talk Tau (After m) (Outer m')"
| alarms_crash: "alarm_turn E m = None \<Longrightarrow> main_step E talk Tau (After m) Crashed"

inductive_simps main_step_at: "main_step E talk l (Outer m) s" "main_step E talk l (Inner m) s" "main_step E talk l (After m) s"

text \<open>
  What the kernel promises of a delivery. A captured packet comes with its metadata and at least
  an IP header; nothing is promised of what follows the header. A datagram lies in the buffer
  with as many bytes as \<open>recvmsg\<close> reports, possibly none, and its hop limit is among the control
  data if there are any.
\<close>

definition packet_captured :: "nfq_data \<Rightarrow> bool" where
  "packet_captured nfa \<longleftrightarrow> (\<exists>hdr ip. nfa NFQA_PACKET_HDR = Some hdr \<and> 7 \<le> length hdr \<and>
     nfa NFQA_PAYLOAD = Some ip \<and> 20 \<le> length ip)"

definition datagram_received :: "int \<Rightarrow> msghdr \<Rightarrow> bool" where
  "datagram_received n msg \<longleftrightarrow> n = -1 \<or> arrives msg n"

fun kernel_delivers :: "label \<Rightarrow> bool" where
  "kernel_delivers (Ready i left) \<longleftrightarrow>
     (case in_nfqueue i of None \<Rightarrow> True | Some (received, msgs) \<Rightarrow> list_all packet_captured msgs) \<and>
     (case in_aodv i of None \<Rightarrow> True | Some (n, msg) \<Rightarrow> datagram_received n msg)"
| "kernel_delivers _ \<longleftrightarrow> True"

inductive reachable :: "env \<Rightarrow> (nfq_msg \<Rightarrow> int) \<Rightarrow> point \<Rightarrow> bool" for E talk where
  start: "msh_data_init K = Some (Return r D) \<Longrightarrow> \<not> r < 0 \<Longrightarrow>
    reachable E talk (Outer \<lparr>m_data = D, m_next = t, m_next_run = False\<rparr>)"
| step: "reachable E talk s \<Longrightarrow> main_step E talk l s s' \<Longrightarrow> kernel_delivers l \<Longrightarrow> reachable E talk s'"


section \<open>One turn of the loop\<close>

text \<open>A packet is released: the kernel is told to accept it, and its destination has become known.\<close>

definition released :: "packets_fifo \<Rightarrow> world \<Rightarrow> world \<Rightarrow> bool" where
  "released e w w' \<longleftrightarrow> (\<exists>es. w_out w' = es @ w_out w \<and> Verdict (pf_id e) NF_ACCEPT \<in> set es) \<and>
     route_to w (pf_dest e) = None \<and> route_to w' (pf_dest e) \<noteq> None"

definition packets_kept :: "world \<Rightarrow> world \<Rightarrow> bool" where
  "packets_kept w w' \<longleftrightarrow> (\<forall>p e. w_pkts w p = Some e \<longrightarrow> w_pkts w' p = Some e \<or> released e w w')"

lemma packets_kept_same: "w_pkts w' = w_pkts w \<Longrightarrow> packets_kept w w'"
  by (simp add: packets_kept_def)

lemma accounted_released:
  assumes "accounted w w'" "world_ok w" "world_ok w'" "w_pkts w p = Some e"
  shows "w_pkts w' p = Some e \<or> released e w w'"
proof (cases "p \<in> dom (w_pkts w')")
  case True
  then show ?thesis using accounted_pkts [OF assms(1)] assms(4) by (auto simp: map_le_def)
next
  case False
  then have "p \<in> dom (w_pkts w) - dom (w_pkts w')" using assms(4) by auto
  moreover have "packet_id w p = pf_id e" "packet_dest w p = pf_dest e"
    using assms(4) by (simp_all add: packet_id_def packet_dest_def)
  ultimately show ?thesis
    using accounted_gone [OF assms(1)] knows_iff [OF assms(2)] knows_iff [OF assms(3)] by (metis released_def)
qed

lemma accounted_packets: "accounted w w' \<Longrightarrow> world_ok w \<Longrightarrow> world_ok w' \<Longrightarrow> packets_kept w w'"
  unfolding packets_kept_def using accounted_released by blast

lemma kept_after_step:
  assumes "data_step u v" "packets_kept v w"
  shows "packets_kept u w"
proof -
  have u: "w_pkts u \<subseteq>\<^sub>m w_pkts v" "\<And>a. route_to v a = route_to u a" using assms(1) by (simp_all add: data_step_def)
  obtain es where es: "w_out v = es @ w_out u" using assms(1) by (auto simp: data_step_def)
  have "released e u w" if r: "released e v w" for e
  proof -
    obtain fs where fs: "w_out w = fs @ w_out v" "Verdict (pf_id e) NF_ACCEPT \<in> set fs"
      using r by (auto simp: released_def)
    then have "w_out w = (fs @ es) @ w_out u" "Verdict (pf_id e) NF_ACCEPT \<in> set (fs @ es)" using es by simp_all
    then show ?thesis using r u(2) unfolding released_def by metis
  qed
  moreover have "w_pkts v p = Some e" if "w_pkts u p = Some e" for p e
    using that u(1) by (metis domI map_le_def)
  ultimately show ?thesis using assms(2) unfolding packets_kept_def by blast
qed

text \<open>Two deliveries that the handlers read past: a UDP packet without its header, and an empty datagram.\<close>

definition short_udp :: "nfq_data \<Rightarrow> bool" where
  "short_udp nfa \<longleftrightarrow> the (nfa NFQA_PAYLOAD) ! 9 = IPPROTO_UDP \<and> length (the (nfa NFQA_PAYLOAD)) < 24"

definition bad_delivery :: "input \<Rightarrow> bool" where
  "bad_delivery i \<longleftrightarrow>
     (case in_nfqueue i of None \<Rightarrow> False | Some (received, msgs) \<Rightarrow> received \<noteq> -1 \<and> (\<exists>nfa \<in> set msgs. short_udp nfa)) \<or>
     (case in_aodv i of None \<Rightarrow> False | Some (n, msg) \<Rightarrow> n = 0)"

lemma captured_iff: "packet_captured nfa \<Longrightarrow> captured nfa \<longleftrightarrow> \<not> short_udp nfa"
  by (auto simp: packet_captured_def captured_def short_udp_def)

lemma short_udp_undefined:
  assumes "packet_captured nfa" "short_udp nfa"
  shows "manage_packet E nfa w = None"
proof -
  obtain hdr ip where h: "nfa NFQA_PACKET_HDR = Some hdr" "7 \<le> length hdr" "nfa NFQA_PAYLOAD = Some ip" "20 \<le> length ip"
    "ip ! 9 = IPPROTO_UDP" "length ip < 24"
    using assms by (auto simp: packet_captured_def short_udp_def)
  then have "nfqueue_packet_is_aodv nfa = None"
    by (simp add: nfqueue_packet_is_aodv_def nfq_get_iphdr_def nfq_get_payload_def nfq_get_udphdr_def
        nfq_get_ip_protocol_def nfq_get_udp_dest_def read8_def read16_def sizeof_iphdr_def defined_if_def)
  then show ?thesis by (auto simp: manage_packet_def split: bind_splits)
qed

lemma manage_packets_cases:
  assumes "world_ok w" "list_all packet_captured msgs"
  shows "case fold_steps (manage_packet E) msgs w of None \<Rightarrow> \<exists>nfa \<in> set msgs. short_udp nfa | Some w' \<Rightarrow> data_step w w'"
  using assms
proof (induction msgs arbitrary: w)
  case Nil
  then show ?case by (simp add: data_step_def)
next
  case (Cons nfa msgs)
  show ?case
  proof (cases "short_udp nfa")
    case True
    then show ?thesis using short_udp_undefined Cons.prems(2) by simp
  next
    case False
    then have "\<forall>x \<in> set [nfa]. captured x" using captured_iff Cons.prems(2) by simp
    from manage_packets_ok [OF Cons.prems(1) this, of E]
    obtain w1 where w1: "manage_packet E nfa w = Some w1" "data_step w w1" by (cases "manage_packet E nfa w") auto
    have "world_ok w1" using w1(2) by (simp add: data_step_def)
    from Cons.IH [OF this] Cons.prems(2) w1 data_step_trans [OF w1(2)] show ?thesis
      by (auto split: option.splits)
  qed
qed

lemma nfqueue_receive_cases:
  assumes "world_ok w" "list_all packet_captured msgs"
  shows "case nfqueue_receive_packet E received msgs w of
      None \<Rightarrow> received \<noteq> -1 \<and> (\<exists>nfa \<in> set msgs. short_udp nfa) | Some w' \<Rightarrow> data_step w w'"
proof -
  have "data_step w (upd_stats f w)" for f using assms(1) by (simp add: data_step_def) (simp add: upd_stats_def)
  then show ?thesis using manage_packets_cases [OF assms, of E] by (auto simp: nfqueue_receive_packet_def split: option.splits)
qed

lemma aodv_socket_receive_cases:
  assumes ok: "world_ok w" and d: "datagram_received n msg"
  shows "case aodv_socket_receive_packet E n msg w of None \<Rightarrow> n = 0
    | Some w' \<Rightarrow> world_ok w' \<and> packets_kept w w' \<and> w_end w' = w_end w"
proof -
  consider "n = -1" | "n = 0" | "n \<noteq> -1" "n \<noteq> 0" by blast
  then show ?thesis
  proof cases
    case 1
    then show ?thesis
      using ok packets_kept_same by (simp add: aodv_socket_receive_packet_def) (simp add: upd_stats_def)
  next
    case 2
    then show ?thesis
      using d empty_datagram_undefined [of msg E w] by (simp add: aodv_socket_receive_packet_def datagram_received_def)
  next
    case 3
    then have "delivered msg n" using d by (auto simp: datagram_received_def arrives_def delivered_def)
    then have "runs (aodv_process_packet E msg n w) (\<lambda>w'. world_ok w' \<and> packets_kept w w' \<and> w_end w' = w_end w)"
      by (intro runs_mono [OF aodv_process_packet_ok [OF ok]])
        (auto intro: accounted_packets [OF _ ok extends_wf] extends_wf)
    then show ?thesis using 3 by (auto simp: aodv_socket_receive_packet_def runs_iff)
  qed
qed

lemma when_ready_cases:
  assumes "\<And>a. x = Some a \<Longrightarrow> case f a w of None \<Rightarrow> R a | Some w' \<Rightarrow> Q w'" "Q w"
  shows "case when_ready x f w of None \<Rightarrow> \<exists>a. x = Some a \<and> R a | Some w' \<Rightarrow> Q w'"
  using assms by (cases x) (auto simp: when_ready_def split: option.splits)

lemma receive_packets_cases:
  assumes ok: "world_ok w" and k: "kernel_delivers (Ready i left)"
  shows "case receive_packets E i w of None \<Rightarrow> bad_delivery i
    | Some w' \<Rightarrow> world_ok w' \<and> packets_kept w w' \<and> w_end w' = w_end w"
proof -
  let ?nf = "\<lambda>(received, msgs). nfqueue_receive_packet E received msgs"
  let ?so = "\<lambda>(numbytes, msg). aodv_socket_receive_packet E numbytes msg"
  have c1: "case when_ready (in_nfqueue i) ?nf w of None \<Rightarrow> bad_delivery i | Some w' \<Rightarrow> data_step w w'"
    using when_ready_cases [where x = "in_nfqueue i" and f = ?nf and w = w and Q = "data_step w" and
        R = "\<lambda>(received, msgs). received \<noteq> -1 \<and> (\<exists>nfa \<in> set msgs. short_udp nfa)"] nfqueue_receive_cases [OF ok] k ok
    by (auto simp: bad_delivery_def data_step_def split: option.splits prod.splits)
  show ?thesis
  proof (cases "when_ready (in_nfqueue i) ?nf w")
    case None
    then show ?thesis using c1 by (simp add: receive_packets_def)
  next
    case (Some w1)
    then have p: "data_step w w1" using c1 by simp
    then have ok1: "world_ok w1" and e: "w_end w1 = w_end w" by (simp_all add: data_step_def)
    have "case when_ready (in_aodv i) ?so w1 of None \<Rightarrow> bad_delivery i
        | Some w' \<Rightarrow> world_ok w' \<and> packets_kept w1 w' \<and> w_end w' = w_end w1"
      using when_ready_cases [where x = "in_aodv i" and f = ?so and w = w1 and R = "\<lambda>(n, msg). n = 0" and
          Q = "\<lambda>w'. world_ok w' \<and> packets_kept w1 w' \<and> w_end w' = w_end w1"] aodv_socket_receive_cases [OF ok1] k ok1
      by (auto simp: bad_delivery_def packets_kept_same split: option.splits prod.splits)
    then show ?thesis using Some e kept_after_step [OF p]
      by (auto simp: receive_packets_def split: option.splits)
  qed
qed

text \<open>Why a command may fail; nothing but the end of the loop and the statistics changes otherwise.\<close>

definition bad_command :: "input \<Rightarrow> world \<Rightarrow> bool" where
  "bad_command i w \<longleftrightarrow> (case in_comm i of None \<Rightarrow> False
     | Some (ret, bytes) \<Rightarrow> \<not> (0 \<le> ret \<and> ret < 128) \<or> prefix MSG_SHOW_ROUTES (command_text ret bytes) \<and> \<not> routes_fit w)"

lemma world_ok_stats: "world_ok (w\<lparr>w_stats := s\<rparr>) = world_ok w"
  using wf_upd_stats [of "\<lambda>_. s" w] by (simp add: upd_stats_def)

lemma receive_command_cases:
  assumes ok: "world_ok w"
  shows "case receive_command i w of None \<Rightarrow> bad_command i w | Some w' \<Rightarrow> world_ok w' \<and> w_pkts w' = w_pkts w \<and>
    w_out w' = w_out w \<and> w_table w' = w_table w \<and> w_routes w' = w_routes w"
  using ok by (auto simp: receive_command_def when_ready_def bad_command_def comm_receive_eq [OF ok]
      world_ok_stats split: option.splits)

lemma machine_world [simp]:
  "m_world (upd_world w m) = w" "m_world (selected left m) = m_world m" "m_world (store_next r m) = m_world m"
  "m_world (m\<lparr>m_next := t\<rparr>) = m_world m"
  "d_nfq (m_data (upd_world w m)) = d_nfq (m_data m)" "m_data (selected left m) = m_data m"
  "m_data (store_next r m) = m_data m" "d_handle (m_data (upd_world w m)) = d_handle (m_data m)"
  "d_queue (m_data (upd_world w m)) = d_queue (m_data m)"
  by (simp_all add: upd_world_def selected_def store_next_def split: option.splits)

text \<open>What every turn of the loop keeps.\<close>

definition machine_ok :: "machine \<Rightarrow> bool" where
  "machine_ok m \<longleftrightarrow> world_ok (m_world m) \<and>
     capturing (d_nfq (m_data m)) (d_handle (m_data m)) (d_queue (m_data m))"

definition turned :: "machine \<Rightarrow> machine \<Rightarrow> bool" where
  "turned m m' \<longleftrightarrow> machine_ok m' \<and> packets_kept (m_world m) (m_world m')"

lemma packets_kept_eq:
  "packets_kept u v \<Longrightarrow> w_pkts w = w_pkts v \<Longrightarrow> w_out w = w_out v \<Longrightarrow> w_table w = w_table v \<Longrightarrow>
    w_routes w = w_routes v \<Longrightarrow> packets_kept u w"
  using route_to_same [of w v] unfolding packets_kept_def released_def by simp

lemma inner_turn_cases:
  assumes m: "machine_ok m" and k: "kernel_delivers (Ready i left)"
  shows "case inner_turn E i left m of
      None \<Rightarrow> (case receive_packets E i (m_world m) of None \<Rightarrow> bad_delivery i | Some w \<Rightarrow> bad_command i w)
    | Some m' \<Rightarrow> turned m m'"
proof -
  have ok: "world_ok (m_world m)" using m by (simp add: machine_ok_def)
  show ?thesis
  proof (cases "receive_packets E i (m_world m)")
    case None
    then show ?thesis using receive_packets_cases [OF ok k, of E] by (simp add: inner_turn_def Let_def)
  next
    case r1: (Some w1)
    then have w1: "world_ok w1" "packets_kept (m_world m) w1"
      using receive_packets_cases [OF ok k, of E] by simp_all
    show ?thesis
    proof (cases "receive_command i w1")
      case None
      then show ?thesis using receive_command_cases [OF w1(1), of i] r1 by (simp add: inner_turn_def Let_def)
    next
      case (Some w2)
      then have w2: "world_ok w2" "w_pkts w2 = w_pkts w1" "w_out w2 = w_out w1" "w_table w2 = w_table w1"
        "w_routes w2 = w_routes w1"
        using receive_command_cases [OF w1(1), of i] by simp_all
      obtain r where r: "next_alarm_run E w2 = Some (r, w2\<lparr>w_tick := Suc (w_tick w2)\<rparr>)"
        using next_alarm_run_ok [OF w2(1)] by metis
      then show ?thesis
        using Some r1 w1 w2 m packets_kept_eq [OF w1(2), of "w2\<lparr>w_tick := Suc (w_tick w2)\<rparr>"]
        by (simp add: inner_turn_def Let_def turned_def machine_ok_def)
    qed
  qed
qed

lemma alarm_turn_cases:
  assumes m: "machine_ok m"
  shows "case alarm_turn E m of
      None \<Rightarrow> overdue_last_try E ((m_world m)\<lparr>w_tick := Suc (w_tick (m_world m))\<rparr>)
    | Some m' \<Rightarrow> turned m m' \<and> w_end (m_world m') = w_end (m_world m) \<and>
        set (w_table (m_world m')) \<subseteq> set (w_table (m_world m))"
proof -
  let ?w = "(m_world m)\<lparr>w_tick := Suc (w_tick (m_world m))\<rparr>"
  have ok: "world_ok (m_world m)" "world_ok ?w" using m by (simp_all add: machine_ok_def)
  obtain r where r: "next_alarm_run E (m_world m) = Some (r, ?w)" using next_alarm_run_ok [OF ok(1)] by metis
  let ?t = "m_next (store_next r (upd_world ?w m))"
  show ?thesis
  proof (cases "process_alarms E ?t ?w")
    case None
    then show ?thesis using process_alarms_cases [OF ok(2), of E ?t] r by (simp add: alarm_turn_def Let_def)
  next
    case (Some x)
    obtain r2 w2 where x: "x = (r2, w2)" by (cases x)
    then have "alarms_ran ?w w2" using process_alarms_cases [OF ok(2), of E ?t] Some by simp
    then have w2: "world_ok w2" "w_pkts w2 = w_pkts (m_world m)" "w_end w2 = w_end (m_world m)"
      "set (w_table w2) \<subseteq> set (w_table (m_world m))"
      by (simp_all add: alarms_ran_def same_pkts_def)
    then show ?thesis
      using Some x r m packets_kept_same [OF w2(2)]
      by (cases r2) (simp_all add: alarm_turn_def Let_def turned_def machine_ok_def)
  qed
qed

section \<open>Shutting down\<close>

text \<open>What deleting the requests needs; the scratch route of the table is gone by then.\<close>

definition requests_ok :: "world \<Rightarrow> bool" where
  "requests_ok w \<longleftrightarrow> alarms_ok (w_alarms w) \<and> distinct (w_rreq_queue w) \<and>
     set (w_rreq_queue w) = dom (w_rreqs w) \<and> dom (w_rreqs w) \<subseteq> dom (al_blocks (w_alarms w))"

lemma entry_delete_step:
  assumes ok: "requests_ok w" and q: "w_rreq_queue w = p # ps"
  shows "runs (rreq_fifo_entry_delete p w) (\<lambda>w'. requests_ok w' \<and> w_rreq_queue w' = ps \<and>
    same_pkts w w' \<and> w_out w' = w_out w)"
proof -
  have p: "p \<in> dom (w_rreqs w)" "p \<notin> set ps" "p \<in> dom (al_blocks (w_alarms w))"
    using ok q unfolding requests_ok_def by auto
  have al: "alarms_ok (w_alarms w)" using ok by (simp add: requests_ok_def)
  from del_alarm_ok [OF al p(3)]
  obtain A where A: "del_alarm p (w_alarms w) = Some A" "alarms_ok A" "waiting A = waiting (w_alarms w) - {p}"
    "al_blocks A = (al_blocks (w_alarms w))(p \<mapsto> (the (al_blocks (w_alarms w) p))\<lparr>al_linked := False\<rparr>)"
    by (auto simp: runs_iff)
  let ?A = "A\<lparr>al_blocks := (al_blocks A)(p := None)\<rparr>"
  let ?w = "w\<lparr>w_rreqs := (w_rreqs w)(p := None), w_rreq_queue := ps, w_alarms := ?A\<rparr>"
  have "alarms_ok ?A" by (rule free_block_ok [OF A(2)]) (simp add: A(3))
  then have "requests_ok ?w" using ok q p(2) A(4) unfolding requests_ok_def by auto
  moreover have "rreq_fifo_entry_delete p w = Some ?w"
    using A(1) p(1) q by (auto simp: rreq_fifo_entry_delete_def on_alarms_def rreq_list_del_def free_block_def)
  ultimately show ?thesis by (simp add: same_pkts_def)
qed

lemma rreq_fifo_delete_ok:
  assumes "requests_ok w"
  shows "runs (rreq_fifo_delete w) (\<lambda>w'. requests_ok w' \<and> w_rreq_queue w' = [] \<and> same_pkts w w' \<and> w_out w' = w_out w)"
proof -
  let ?I = "\<lambda>ps u. requests_ok u \<and> w_rreq_queue u = ps \<and> same_pkts w u \<and> w_out u = w_out w"
  have "runs (rreq_fifo_entry_delete p u) (?I ps)" if "?I (p # ps) u" for p ps u
    by (rule runs_mono [OF entry_delete_step]) (use that in \<open>auto simp: same_pkts_def\<close>)
  then show ?thesis
    unfolding rreq_fifo_delete_def by (rule fold_steps_runs) (use assms in \<open>auto simp: same_pkts_def\<close>)
qed

text \<open>Whenever deleting the requests is defined, it removes them and nothing else.\<close>

lemma entry_delete_parts:
  "rreq_fifo_entry_delete p w = Some w' \<Longrightarrow> same_pkts w w' \<and> w_out w' = w_out w \<and> w_rreqs w' = (w_rreqs w)(p := None)"
  by (auto simp: rreq_fifo_entry_delete_def on_alarms_def rreq_list_del_def free_block_def same_pkts_def
      split: bind_splits if_splits)

lemma entries_delete_parts:
  "fold_steps rreq_fifo_entry_delete ps w = Some w' \<Longrightarrow>
    same_pkts w w' \<and> w_out w' = w_out w \<and> w_rreqs w' = w_rreqs w |` (- set ps)"
proof (induction ps arbitrary: w)
  case Nil
  then show ?case by (simp add: same_pkts_def)
next
  case (Cons p ps)
  obtain w1 where w1: "rreq_fifo_entry_delete p w = Some w1" "fold_steps rreq_fifo_entry_delete ps w1 = Some w'"
    using Cons.prems by (auto split: bind_splits)
  have "(w_rreqs w)(p := None) |` (- set ps) = w_rreqs w |` (- set (p # ps))"
    by (auto simp: restrict_map_def fun_eq_iff)
  then have "w_rreqs w' = w_rreqs w |` (- set (p # ps))" using entry_delete_parts [OF w1(1)] Cons.IH [OF w1(2)] by metis
  then show ?case using entry_delete_parts [OF w1(1)] Cons.IH [OF w1(2)] by (simp add: same_pkts_def)
qed

text \<open>Dropping all packets needs no more than a proper queue.\<close>

definition packets_ok :: "world \<Rightarrow> bool" where
  "packets_ok w \<longleftrightarrow> distinct (w_packets_queue w) \<and> set (w_packets_queue w) = dom (w_pkts w)"

lemma drop_all_step:
  assumes "packets_ok w" "w_packets_queue w = p # ps"
  shows "runs (packet_obj_drop p w) (\<lambda>w'. packets_ok w' \<and> w_packets_queue w' = ps \<and>
    w_out w' = Verdict (packet_id w p) NF_DROP # w_out w \<and> w_rreqs w' = w_rreqs w \<and>
    (\<forall>q \<in> set ps. packet_id w' q = packet_id w q))"
proof -
  obtain e where e: "w_pkts w p = Some e" using assms by (auto simp: packets_ok_def)
  have "p \<notin> set ps" using assms by (auto simp: packets_ok_def)
  then show ?thesis
    using assms e by (auto simp: packet_obj_drop_def nfq_set_verdict_def emit_def packets_list_del_def free_packet_def
        upd_stats_def packets_ok_def packet_id_def Let_def)
qed

lemma drop_all_ok:
  assumes "packets_ok w"
  shows "runs (packets_fifo_delete w) (\<lambda>w'. w_pkts w' = Map.empty \<and> w_rreqs w' = w_rreqs w \<and>
    w_out w' = rev (verdicts w NF_DROP (w_packets_queue w)) @ w_out w)"
proof -
  let ?I = "\<lambda>ps u. packets_ok u \<and> w_packets_queue u = ps \<and> w_rreqs u = w_rreqs w \<and>
    rev (verdicts u NF_DROP ps) @ w_out u = rev (verdicts w NF_DROP (w_packets_queue w)) @ w_out w"
  have "runs (packet_obj_drop p u) (?I ps)" if "?I (p # ps) u" for p ps u
  proof -
    have u: "packets_ok u" "w_packets_queue u = p # ps" and r: "w_rreqs u = w_rreqs w" using that by simp_all
    have out: "rev (verdicts u NF_DROP ps) @ Verdict (packet_id u p) NF_DROP # w_out u =
        rev (verdicts w NF_DROP (w_packets_queue w)) @ w_out w"
      using that by (simp add: verdicts_def)
    show ?thesis
    proof (rule runs_mono [OF drop_all_step [OF u]], elim conjE)
      fix w' assume a: "packets_ok w'" "w_packets_queue w' = ps" "w_out w' = Verdict (packet_id u p) NF_DROP # w_out u"
        "w_rreqs w' = w_rreqs u" "\<forall>q \<in> set ps. packet_id w' q = packet_id u q"
      have "verdicts w' NF_DROP ps = verdicts u NF_DROP ps" using a(5) by (simp add: verdicts_def)
      then have "rev (verdicts w' NF_DROP ps) @ w_out w' = rev (verdicts w NF_DROP (w_packets_queue w)) @ w_out w"
        using out a(3) by simp
      then show "?I ps w'" using a(1,2,4) r by (intro conjI) simp_all
    qed
  qed
  then have "runs (packets_fifo_delete w) (?I [])"
    unfolding packets_fifo_delete_def by (rule fold_steps_runs) (use assms in auto)
  then show ?thesis by (rule runs_mono) (auto simp: packets_ok_def verdicts_def dest!: sym [of "{}"])
qed


text \<open>After the flush alarm and the routes are gone.\<close>

lemma shutdown_routes:
  assumes ok: "world_ok w"
  obtains w1 where "world_ok w1" "same_pkts w w1" "same_rreqs w w1" "w_out w1 = w_out w" "w_table w1 = w_table w"
    "shutdown_world E w = do {
       w \<leftarrow> rreq_fifo_delete (without_routes (insert (w_find_route w1) (set (w_table w1))) w1);
       packets_fifo_delete w }"
proof -
  have d: "FLUSH_ALARM \<in> dom (al_blocks (w_alarms w))" using wf_dom_blocks [OF ok] by simp
  obtain A where A: "del_alarm FLUSH_ALARM (w_alarms w) = Some A" "alarms_ok A"
    "al_blocks A = (al_blocks (w_alarms w))(FLUSH_ALARM \<mapsto> (the (al_blocks (w_alarms w) FLUSH_ALARM))\<lparr>al_linked := False\<rparr>)"
    using del_alarm_ok [OF wf_alarms_ok [OF ok] d] by (auto simp: runs_iff)
  let ?w = "w\<lparr>w_alarms := A\<rparr>"
  have ok1: "world_ok ?w"
    by (rule wf_alarms [OF ok A(2)]) (use A(3) d in \<open>auto split: if_splits\<close>)
  show ?thesis
    by (rule that [OF ok1])
      (simp_all add: same_defs shutdown_world_def on_alarms_def A(1) routing_table_delete_eq [OF ok1])
qed

lemma scratch_gone_requests_ok:
  assumes ok: "world_ok w" and t: "w_table w = []"
  shows "requests_ok (without_routes (insert (w_find_route w) (set (w_table w))) w)"
proof -
  let ?fr = "w_find_route w" and ?A = "w_alarms w"
  have fr: "?fr \<in> dom (w_routes w)" "?fr \<notin> dom (w_rreqs w)" using ok unfolding world_ok_def heap_ok_def by blast+
  obtain b where "al_blocks ?A ?fr = Some b" using wf_dom_blocks [OF ok] fr(1) by fastforce
  moreover from this have "\<not> al_linked b" using wfD(2) [OF ok] by (auto simp: blocks_ok_def)
  ultimately have "?fr \<notin> waiting ?A" using wf_alarms_ok [OF ok] by (auto simp: waiting_iff)
  then have "alarms_ok (?A\<lparr>al_blocks := (al_blocks ?A)(?fr := None)\<rparr>)" by (rule free_block_ok [OF wf_alarms_ok [OF ok]])
  moreover have "al_blocks ?A |` (- {?fr}) = (al_blocks ?A)(?fr := None)" by (auto simp: restrict_map_def fun_eq_iff)
  ultimately have "alarms_ok (w_alarms (without_routes {?fr} w))" by (simp add: without_routes_def)
  moreover have "dom (w_rreqs w) \<subseteq> dom (al_blocks (w_alarms (without_routes {?fr} w)))"
    using wf_dom_blocks [OF ok] fr(2) by (auto simp: without_routes_def restrict_map_def dom_def split: if_splits)
  ultimately show ?thesis
    using ok t unfolding requests_ok_def world_ok_def heap_ok_def by (simp add: without_routes_def)
qed

text \<open>
  Shutting down drops every waiting packet if it gets that far. It does when there is no route in
  the table, or no request.
\<close>

lemma shutdown_world_cases:
  assumes ok: "world_ok w"
  shows "case shutdown_world E w of None \<Rightarrow> w_table w \<noteq> [] \<and> w_rreq_queue w \<noteq> []
    | Some w' \<Rightarrow> w_pkts w' = Map.empty \<and> w_rreqs w' = Map.empty \<and>
        w_out w' = rev (verdicts w NF_DROP (w_packets_queue w)) @ w_out w"
proof -
  obtain w1 where w1: "world_ok w1" "same_pkts w w1" "same_rreqs w w1" "w_out w1 = w_out w" "w_table w1 = w_table w"
    and s: "shutdown_world E w = do {
       w \<leftarrow> rreq_fifo_delete (without_routes (insert (w_find_route w1) (set (w_table w1))) w1);
       packets_fifo_delete w }"
    using shutdown_routes [OF ok, of E] by metis
  define w2 where "w2 = without_routes (insert (w_find_route w1) (set (w_table w1))) w1"
  have e2: "w_pkts w2 = w_pkts w" "w_packets_queue w2 = w_packets_queue w" "w_out w2 = w_out w"
    "w_rreqs w2 = w_rreqs w" "w_rreq_queue w2 = w_rreq_queue w"
    using w1(2-4) by (simp_all add: w2_def without_routes_def same_defs)
  show ?thesis
  proof (cases "rreq_fifo_delete w2")
    case None
    have "w_rreq_queue w \<noteq> []" using None e2(5) by (auto simp: rreq_fifo_delete_def)
    moreover have "w_table w \<noteq> []"
      using None rreq_fifo_delete_ok [OF scratch_gone_requests_ok [OF w1(1)]] w1(5) by (auto simp: runs_iff w2_def)
    ultimately show ?thesis using None by (simp add: s w2_def [symmetric])
  next
    case (Some w3)
    then have p: "same_pkts w2 w3" "w_out w3 = w_out w2" "w_rreqs w3 = w_rreqs w2 |` (- set (w_rreq_queue w2))"
      using entries_delete_parts [of "w_rreq_queue w2" w2 w3] by (simp_all add: rreq_fifo_delete_def)
    have "set (w_rreq_queue w) = dom (w_rreqs w)" using ok by (simp add: world_ok_def heap_ok_def)
    then have r: "w_rreqs w3 = Map.empty" by (auto simp: p(3) e2 restrict_map_def fun_eq_iff)
    have e: "w_pkts w3 = w_pkts w" "w_packets_queue w3 = w_packets_queue w" "w_out w3 = w_out w"
      using p(1,2) e2 by (simp_all add: same_pkts_def)
    then have "packets_ok w3" and v: "verdicts w3 = verdicts w"
      using ok by (auto simp: packets_ok_def world_ok_def heap_ok_def verdicts_def packet_id_def fun_eq_iff)
    from drop_all_ok [OF this(1)] show ?thesis
      using Some r by (auto simp: s w2_def [symmetric] e v runs_iff)
  qed
qed

lemma nfqueue_shutdown_ok:
  assumes "capturing S h q"
  shows "\<exists>S'. nfqueue_shutdown talk rc h q S = Some S'"
proof -
  have l: "queue_list S h [q]" "q \<noteq> 0" "h \<noteq> 0" using assms by (simp_all add: capturing_def)
  obtain x where x: "ns_queues S q = Some x" using l(1) by (auto simp: queue_list_def)
  define S1 where "S1 = S\<lparr>ns_msgs := Config_cmd (qh_id x) NFQNL_CFG_CMD_UNBIND (htons 0) # ns_msgs S\<rparr>"
  have l1: "queue_list S1 h [q]"
    by (rule queue_list_cong [OF l(1)]) (use l(1) in \<open>auto simp: S1_def queue_list_def\<close>)
  obtain S2 where S2: "del_qh q S1 = Some S2" "queue_list S2 h []"
    using del_qh_ok [OF l1, of q] by (auto simp: runs_iff)
  have h: "h \<in> dom (ns_handles S1)" "h \<in> dom (ns_handles S2)"
    using l1 S2(2) by (auto simp: queue_list_def)
  then show ?thesis
    using x S2(1) l(2,3) by (auto simp: nfqueue_shutdown_def nfq_destroy_queue_def build_send_cfg_msg_def nfnl_talk_def
        S1_def [symmetric] nfq_close_def Let_def)
qed

lemma msh_data_shutdown_cases:
  assumes "world_ok (d_world D)" "capturing (d_nfq D) (d_handle D) (d_queue D)"
  shows "case msh_data_shutdown E talk rc D of None \<Rightarrow> w_table (d_world D) \<noteq> [] \<and> w_rreq_queue (d_world D) \<noteq> []
    | Some D' \<Rightarrow> w_pkts (d_world D') = Map.empty \<and> w_rreqs (d_world D') = Map.empty \<and>
        w_out (d_world D') = rev (verdicts (d_world D) NF_DROP (w_packets_queue (d_world D))) @ w_out (d_world D)"
  using shutdown_world_cases [OF assms(1), of E] nfqueue_shutdown_ok [OF assms(2), of talk rc]
  by (auto simp: msh_data_shutdown_def split: option.splits)

section \<open>Reachable states\<close>

fun point_ok :: "point \<Rightarrow> bool" where
  "point_ok (Outer m) = machine_ok m"
| "point_ok (Inner m) = machine_ok m"
| "point_ok (After m) = machine_ok m"
| "point_ok (Returned D) = True"
| "point_ok Crashed = True"

lemma main_step_keeps:
  assumes "main_step E talk l s s'" "point_ok s" "kernel_delivers l"
  shows "point_ok s'"
  using assms
proof cases
  case (ready m i left m')
  then show ?thesis using assms(2,3) inner_turn_cases [of m i left E] by (simp add: turned_def)
next
  case (alarms m m')
  then show ?thesis using assms(2) alarm_turn_cases [of m E] by (simp add: turned_def)
qed (use assms in \<open>auto simp: machine_ok_def\<close>)

lemma reachable_ok: "reachable E talk s \<Longrightarrow> point_ok s"
proof (induction rule: reachable.induct)
  case (start K r D t)
  then have "started D" using msh_data_init_ok [of K] by (auto simp: ERR_INIT_def)
  then show ?case by (simp add: machine_ok_def started_def idle_def)
next
  case (step s l s')
  then show ?case using main_step_keeps by blast
qed


section \<open>Properties of the daemon\<close>

text \<open>A start on interface 2 with one address, on which every call succeeds.\<close>

definition sample_socket :: "int \<Rightarrow> socket_env" where
  "sample_socket fd = \<lparr>so_socket = fd, so_broadcast = 0, so_recvttl = 0, so_reuseaddr = 0, so_bind = 0, so_listen = 0\<rparr>"

definition sample_start :: start_env where
  "sample_start = \<lparr>se_argc = 2, se_uid = 0,
     se_nfnl = \<lparr>nfnl_open = True, nfnl_subsys_open = True, nfnl_callback_register = 0\<rparr>, se_talk = (\<lambda>m. 0),
     se_nfqueue_fd = 4, se_aodv = sample_socket 5, se_comm = sample_socket 6, se_handle = True, se_link_cache = True,
     se_link = Some 2, se_addr_cache = True, se_addrs = [(Some (htonl 0x0A000001), Some (htonl 0x0A0000FF))]\<rparr>"

lemma sample_nfqueue:
  "\<exists>h q S. nfqueue_init (se_nfnl sample_start) (se_talk sample_start) blank_nfq = Some (0, h, q, S)"
  by (simp add: sample_start_def nfqueue_init_def nfq_open_def nfq_open_nfnl_def blank_nfq_def nfq_unbind_pf_def
      nfq_bind_pf_def build_send_cfg_msg_def nfnl_talk_def nfq_create_queue_def Let_def find_qh_def find_qh_from.simps
      add_qh_def upd_queue_def upd_handle_def nfq_set_mode_def)

lemma sample_starts: "\<exists>D. msh_data_init sample_start = Some (Return 1 D)"
proof -
  obtain h q S where "nfqueue_init (se_nfnl sample_start) (se_talk sample_start) blank_nfq = Some (0, h, q, S)"
    using sample_nfqueue by blast
  moreover obtain w where "init_tables 2 (se_addrs sample_start) (stats_init blank_world) = Some w"
    using init_tables_ok [of "se_addrs sample_start" 2]
    by (cases "init_tables 2 (se_addrs sample_start) (stats_init blank_world)") (auto simp: sample_start_def no_null_def)
  ultimately show ?thesis
    by (simp add: msh_data_init_def aodv_socket_init_def comm_interface_init_def Let_def)
      (simp add: sample_start_def sample_socket_def)
qed

text \<open>
  C24: starting the daemon exits with 1 when the interface is not named, returns \<open>ERR_INIT\<close>, succeeds,
  or is undefined; the last only when libnl has returned null for the netlink handle, a cache, or
  the local or broadcast address of an address of the interface. It never succeeds then. When it
  succeeds, the state is well-formed, the routing table and both queues are empty and no alarm is
  set, captured packets go to the daemon's queue, and the set of descriptors holds exactly the
  three sockets, none of them greater than the maximum given to \<open>select\<close>.
\<close>
theorem start_establishes_the_invariant:
  "case msh_data_init K of
      None \<Rightarrow> \<not> libnl_answers K
    | Some (Exit c) \<Rightarrow> c = 1 \<and> se_argc K < 2
    | Some (Return r D) \<Rightarrow> r = ERR_INIT \<or> r = 1 \<and> libnl_answers K \<and> world_ok (d_world D) \<and> w_table (d_world D) = [] \<and>
        w_rreq_queue (d_world D) = [] \<and> w_packets_queue (d_world D) = [] \<and> waiting (w_alarms (d_world D)) = {} \<and>
        nfq_rcv_pkt (d_handle D) (htons 0) (d_nfq D) = Some (Inr (d_queue D)) \<and>
        readfds (d_fds D) = {d_nfqueue_fd D, d_daemon_fd D, d_comm_fd D} \<and> readfds (d_fds D) \<subseteq> {..maxfd (d_fds D)}"
  using msh_data_init_ok [of K]
  by (auto simp: started_def idle_def capturing_def split: option.splits start.splits)

text \<open>
  An interface with an address that has no broadcast address, as a point-to-point link has, makes
  the start fail: all calls succeed and the null is read.
\<close>
theorem start_without_broadcast_address_is_undefined:
  "msh_data_init (sample_start\<lparr>se_addrs := [(Some (htonl 0x0A000001), None)]\<rparr>) = None"
proof -
  obtain h q S where "nfqueue_init (se_nfnl sample_start) (se_talk sample_start) blank_nfq = Some (0, h, q, S)"
    using sample_nfqueue by blast
  moreover have "init_tables 2 [(Some (htonl 0x0A000001), None)] (stats_init blank_world) = None"
    by (simp add: init_tables_def init_addr_def)
  ultimately show ?thesis
    by (simp add: msh_data_init_def aodv_socket_init_def comm_interface_init_def Let_def)
      (simp add: sample_start_def sample_socket_def)
qed

text \<open>The state of the daemon at a point of the loop.\<close>

fun loop_world :: "point \<Rightarrow> world option" where
  "loop_world (Outer m) = Some (m_world m)"
| "loop_world (Inner m) = Some (m_world m)"
| "loop_world (After m) = Some (m_world m)"
| "loop_world (Returned D) = None"
| "loop_world Crashed = None"

text \<open>
  C1: at every point of the main loop that the daemon can reach from a successful start, whatever
  the sockets deliver and whenever the alarms expire, its state is well-formed: the lists hold
  distinct live objects, the alarm tree is a red-black tree in expiry order that holds exactly
  the alarms that are set, the routes of the table have pairwise different destinations, and no
  request has been tried too often.
\<close>
theorem reachable_states_are_well_formed:
  assumes "reachable E talk s" "loop_world s = Some w"
  shows "world_ok w"
  using reachable_ok [OF assms(1)] assms(2) by (cases s) (auto simp: machine_ok_def)

lemma sample_reachable: "\<exists>m. reachable sample_env (\<lambda>m. 0) (Inner m) \<and> idle (m_world m)"
proof -
  obtain D where D: "msh_data_init sample_start = Some (Return 1 D)" using sample_starts by blast
  let ?m = "\<lparr>m_data = D, m_next = zero_tv, m_next_run = False\<rparr>"
  have s: "reachable sample_env (\<lambda>m. 0) (Outer ?m)" using reachable.start [OF D] by simp
  have "started D" using msh_data_init_ok [of sample_start] D by (simp add: ERR_INIT_def)
  then have i: "idle (m_world ?m)" by (simp add: started_def)
  then have "main_step sample_env (\<lambda>m. 0) Tau (Outer ?m) (Inner ?m)"
    by (intro main_step.enter) (simp add: idle_def)
  then have "reachable sample_env (\<lambda>m. 0) (Inner ?m)" using reachable.step [OF s] by simp
  then show ?thesis using i by blast
qed

theorem reachable_states_are_well_formed_witness:
  "\<exists>m. reachable sample_env (\<lambda>m. 0) (Inner m) \<and> world_ok (m_world m)"
  using sample_reachable reachable_states_are_well_formed [of sample_env "\<lambda>m. 0"] by fastforce

text \<open>
  The reasons for an undefined operation at a point of the loop. An answer that reads behind its
  buffer counts as one, although the bytes are read by the kernel and the daemon goes on.
\<close>

definition bad_request :: "int \<Rightarrow> string \<Rightarrow> world \<Rightarrow> bool" where
  "bad_request ret c w \<longleftrightarrow> \<not> (0 \<le> ret \<and> ret < 128) \<or> prefix MSG_KILL c \<or> prefix MSG_RESTART c \<or>
     prefix MSG_SHOW_ROUTES c \<and> 4096 < length (routes_text w)"

fun crash_cause :: "env \<Rightarrow> label \<Rightarrow> point \<Rightarrow> bool" where
  "crash_cause E l (Outer m) \<longleftrightarrow> w_end (m_world m) \<and> w_table (m_world m) \<noteq> [] \<and> w_rreq_queue (m_world m) \<noteq> []"
| "crash_cause E (Ready i left) (Inner m) \<longleftrightarrow> (case receive_packets E i (m_world m) of
       None \<Rightarrow> bad_delivery i
     | Some w \<Rightarrow> (case in_comm i of None \<Rightarrow> False | Some (ret, bytes) \<Rightarrow> bad_request ret (command_text ret bytes) w))"
| "crash_cause E l (After m) \<longleftrightarrow> overdue_last_try E ((m_world m)\<lparr>w_tick := Suc (w_tick (m_world m))\<rparr>)"
| "crash_cause E l s \<longleftrightarrow> False"

text \<open>The step answers a command with bytes from behind the buffer.\<close>

fun overreads :: "env \<Rightarrow> label \<Rightarrow> point \<Rightarrow> bool" where
  "overreads E (Ready i left) (Inner m) \<longleftrightarrow> (case receive_packets E i (m_world m) of
       None \<Rightarrow> False
     | Some w \<Rightarrow> (case in_comm i of None \<Rightarrow> False
         | Some (ret, bytes) \<Rightarrow> (case comm_interface_receive_packets ret bytes w of None \<Rightarrow> False
             | Some (bs, w') \<Rightarrow> leaks bs)))"
| "overreads E l s \<longleftrightarrow> False"

lemma crash_has_cause:
  assumes "reachable E talk s" "kernel_delivers l" "main_step E talk l s Crashed"
  shows "crash_cause E l s"
  using assms(3)
proof cases
  case (leave_crash m rc)
  then have m: "machine_ok m" using reachable_ok [OF assms(1)] by simp
  then show ?thesis
    using leave_crash msh_data_shutdown_cases [of "m_data m" E talk rc] by (auto simp: machine_ok_def)
next
  case (ready_crash m i left)
  then have "machine_ok m" using reachable_ok [OF assms(1)] by simp
  from inner_turn_cases [OF this, of i left E] ready_crash assms(2) show ?thesis
    by (auto simp: bad_command_def bad_request_def routes_fit_def routes_text_def stats_size_def split: option.splits)
next
  case (alarms_crash m)
  then have "machine_ok m" using reachable_ok [OF assms(1)] by simp
  from alarm_turn_cases [OF this, of E] alarms_crash show ?thesis by simp
qed

lemma overread_has_cause:
  assumes "reachable E talk s" "kernel_delivers l" "overreads E l s"
  shows "crash_cause E l s"
proof -
  obtain i left m where s: "l = Ready i left" "s = Inner m" using assms(3) by (cases "(E, l, s)" rule: overreads.cases) auto
  then obtain w ret bytes bs w' where w: "receive_packets E i (m_world m) = Some w" "in_comm i = Some (ret, bytes)"
    "comm_interface_receive_packets ret bytes w = Some (bs, w')" "leaks bs"
    using assms(3) by (auto split: option.splits)
  have "world_ok (m_world m)" using reachable_ok [OF assms(1)] s(2) by (simp add: machine_ok_def)
  then have "world_ok w" using receive_packets_cases [of "m_world m" i left E] assms(2) s(1) w(1) by simp
  from comm_receive_eq [OF this] have "leaks (answer_to (command_text ret bytes) w)"
    using w(3,4) by (auto split: if_splits)
  then show ?thesis using s w(1,2) by (simp add: bad_request_def answer_leaks)
qed

text \<open>
  C2: a step of the daemon is undefined, or answers a command with memory from behind the buffer,
  only in these cases: it ends while both the routing table and the request queue are not empty;
  the alarm of one of its own searches in its last try is due; a captured UDP packet ends before
  its ports, or an empty datagram arrives; the reading of a command failed or filled the buffer
  of 128 bytes; the command is \<open>kill\<close> or \<open>restart\<close>, or it is \<open>showroutes\<close> and the text of the
  routes has more than 4096 characters. No other packet and no other datagram can do it.
\<close>
theorem crashes_have_known_causes:
  assumes "reachable E talk s" "kernel_delivers l" "main_step E talk l s s'" "s' = Crashed \<or> overreads E l s"
  shows "crash_cause E l s"
  using assms crash_has_cause overread_has_cause by blast

lemma sample_idle_step:
  assumes "inner_turn sample_env i zero_tv m = None" "idle (m_world m)"
  shows "main_step sample_env (\<lambda>m. 0) (Ready i zero_tv) (Inner m) Crashed"
  using assms by (intro main_step.ready_crash) (simp_all add: idle_def)

theorem crashes_have_known_causes_witness:
  "\<exists>m. main_step sample_env (\<lambda>m. 0) (Ready \<lparr>in_nfqueue = None, in_aodv = None, in_comm = Some (128, replicate 128 CHR ''x'')\<rparr> zero_tv)
     (Inner m) Crashed \<and>
   crash_cause sample_env (Ready \<lparr>in_nfqueue = None, in_aodv = None, in_comm = Some (128, replicate 128 CHR ''x'')\<rparr> zero_tv) (Inner m)"
proof -
  let ?i = "\<lparr>in_nfqueue = None, in_aodv = None, in_comm = Some (128, replicate 128 CHR ''x'')\<rparr>"
  obtain m where m: "reachable sample_env (\<lambda>m. 0) (Inner m)" "idle (m_world m)" using sample_reachable by blast
  have "inner_turn sample_env ?i zero_tv m = None"
    by (simp add: inner_turn_def receive_packets_def receive_command_def when_ready_def
        comm_interface_receive_packets_def defined_if_def Let_def)
  then have s: "main_step sample_env (\<lambda>m. 0) (Ready ?i zero_tv) (Inner m) Crashed" by (rule sample_idle_step [OF _ m(2)])
  have "kernel_delivers (Ready ?i zero_tv)" by simp
  from crashes_have_known_causes [OF m(1) this s disjI1 [OF refl]] s show ?thesis by blast
qed

text \<open>The daemon after it was told to end, in a state in which nothing was known.\<close>

lemma sample_killed:
  "\<exists>m. reachable sample_env (\<lambda>m. 0) (Inner m) \<and> w_end (m_world m) \<and> w_table (m_world m) = [] \<and>
    waiting (w_alarms (m_world m)) = {}"
proof -
  let ?i = "\<lparr>in_nfqueue = None, in_aodv = None, in_comm = Some (4, ''kill'')\<rparr>"
  obtain m where m: "reachable sample_env (\<lambda>m. 0) (Inner m)" "idle (m_world m)" using sample_reachable by blast
  then have i: "world_ok (m_world m)" "\<not> w_end (m_world m)" by (simp_all add: idle_def)
  have c: "command_text 4 ''kill'' = MSG_KILL" by (simp add: command_text_def msg_defs)
  define w where "w = (m_world m)\<lparr>w_end := True\<rparr>"
  have "comm_interface_receive_packets 4 ''kill'' (m_world m) = Some (answer_to MSG_KILL (m_world m), w)"
    using commands_differ [of MSG_KILL] by (auto simp: comm_receive_eq [OF i(1)] c w_def)
  moreover obtain r where "next_alarm_run sample_env w = Some (r, w\<lparr>w_tick := Suc (w_tick w)\<rparr>)"
    using next_alarm_run_ok [of w sample_env] i(1) by (auto simp: w_def)
  ultimately have "inner_turn sample_env ?i zero_tv m =
      Some (store_next r (upd_world (w\<lparr>w_tick := Suc (w_tick w)\<rparr>) (selected zero_tv m)))"
    by (simp add: inner_turn_def receive_packets_def receive_command_def when_ready_def Let_def)
  then have "reachable sample_env (\<lambda>m. 0) (Inner (store_next r (upd_world (w\<lparr>w_tick := Suc (w_tick w)\<rparr>) (selected zero_tv m))))"
    using reachable.step [OF m(1) main_step.ready, of ?i zero_tv] i(2) by simp
  moreover have "w_end w" "w_table w = []" "waiting (w_alarms w) = {}"
    using m(2) by (simp_all add: w_def idle_def)
  ultimately show ?thesis
    by (intro exI [of _ "store_next r (upd_world (w\<lparr>w_tick := Suc (w_tick w)\<rparr>) (selected zero_tv m))"] conjI) simp_all
qed

text \<open>A packet is dropped: the kernel is told so.\<close>

definition dropped :: "packets_fifo \<Rightarrow> world \<Rightarrow> world \<Rightarrow> bool" where
  "dropped e w w' \<longleftrightarrow> (\<exists>es. w_out w' = es @ w_out w \<and> Verdict (pf_id e) NF_DROP \<in> set es)"

lemma shutdown_drops:
  assumes "machine_ok m" "msh_data_shutdown E talk rc (m_data m) = Some D" "w_pkts (m_world m) p = Some e"
  shows "dropped e (m_world m) (d_world D)"
proof -
  have "w_out (d_world D) = rev (verdicts (m_world m) NF_DROP (w_packets_queue (m_world m))) @ w_out (m_world m)"
    using msh_data_shutdown_cases [of "m_data m" E talk rc] assms(1,2) by (simp add: machine_ok_def)
  moreover have "p \<in> set (w_packets_queue (m_world m))" "packet_id (m_world m) p = pf_id e"
    using assms(1,3) by (auto simp: machine_ok_def world_ok_def heap_ok_def packet_id_def)
  then have "Verdict (pf_id e) NF_DROP \<in> set (rev (verdicts (m_world m) NF_DROP (w_packets_queue (m_world m))))"
    by (force simp: verdicts_def)
  ultimately show ?thesis unfolding dropped_def by blast
qed

text \<open>
  C18: once it has been told to end, with an empty routing table and no search in its last try due,
  the daemon runs the due alarms once more and returns from \<open>main\<close>: every way the program can
  go on consists of these steps. By then each packet that still waited has been dropped, and
  no request is left.
\<close>
theorem kill_ends_the_daemon:
  assumes "reachable E talk (Inner m)" "w_end (m_world m)" "w_table (m_world m) = []"
    and "\<not> overdue_last_try E ((m_world m)\<lparr>w_tick := Suc (w_tick (m_world m))\<rparr>)"
  shows "(\<forall>l s. main_step E talk l (Inner m) s \<longleftrightarrow> l = Tau \<and> s = After m) \<and>
    (\<exists>m'. (\<forall>l s. main_step E talk l (After m) s \<longleftrightarrow> l = Tau \<and> s = Outer m') \<and>
      (\<forall>rc. \<exists>D. (\<forall>s. main_step E talk (Closed rc) (Outer m') s \<longleftrightarrow> s = Returned D) \<and>
        w_pkts (d_world D) = Map.empty \<and> w_rreqs (d_world D) = Map.empty \<and>
        (\<forall>p e. w_pkts (m_world m') p = Some e \<longrightarrow> Verdict (pf_id e) NF_DROP \<in> set (w_out (d_world D)))))"
proof -
  have m: "machine_ok m" using reachable_ok [OF assms(1)] by simp
  obtain m' where t: "alarm_turn E m = Some m'" "machine_ok m'" "w_end (m_world m')" "w_table (m_world m') = []"
    using alarm_turn_cases [OF m, of E] assms(2-4) by (auto simp: turned_def split: option.splits)
  have "\<exists>D. (\<forall>s. main_step E talk (Closed rc) (Outer m') s \<longleftrightarrow> s = Returned D) \<and>
      w_pkts (d_world D) = Map.empty \<and> w_rreqs (d_world D) = Map.empty \<and>
      (\<forall>p e. w_pkts (m_world m') p = Some e \<longrightarrow> Verdict (pf_id e) NF_DROP \<in> set (w_out (d_world D)))" for rc
  proof -
    obtain D where D: "msh_data_shutdown E talk rc (m_data m') = Some D" "w_pkts (d_world D) = Map.empty"
      "w_rreqs (d_world D) = Map.empty"
      using msh_data_shutdown_cases [of "m_data m'" E talk rc] t(2,4)
      by (auto simp: machine_ok_def split: option.splits)
    have "Verdict (pf_id e) NF_DROP \<in> set (w_out (d_world D))" if "w_pkts (m_world m') p = Some e" for p e
      using shutdown_drops [OF t(2) D(1) that] by (auto simp: dropped_def)
    then show ?thesis using D t(3) by (intro exI [of _ D] conjI allI) (auto simp: main_step_at)
  qed
  then show ?thesis using t(1) assms(2) by (auto simp: main_step_at)
qed

theorem kill_ends_the_daemon_witness:
  "\<exists>m m' D. reachable sample_env (\<lambda>m. 0) (Inner m) \<and> main_step sample_env (\<lambda>m. 0) Tau (Inner m) (After m) \<and>
    main_step sample_env (\<lambda>m. 0) Tau (After m) (Outer m') \<and> main_step sample_env (\<lambda>m. 0) (Closed 0) (Outer m') (Returned D)"
proof -
  obtain m where m: "reachable sample_env (\<lambda>m. 0) (Inner m)" "w_end (m_world m)" "w_table (m_world m) = []"
    "waiting (w_alarms (m_world m)) = {}" using sample_killed by blast
  have "\<not> overdue_last_try sample_env ((m_world m)\<lparr>w_tick := Suc (w_tick (m_world m))\<rparr>)"
    using m(4) by (simp add: overdue_last_try_def due_alarms_def)
  note k = kill_ends_the_daemon [OF m(1-3) this]
  then obtain m' where m': "\<forall>l s. main_step sample_env (\<lambda>m. 0) l (After m) s \<longleftrightarrow> l = Tau \<and> s = Outer m'"
    "\<exists>D. \<forall>s. main_step sample_env (\<lambda>m. 0) (Closed 0) (Outer m') s \<longleftrightarrow> s = Returned D" by metis
  then obtain D where "main_step sample_env (\<lambda>m. 0) (Closed 0) (Outer m') (Returned D)" by metis
  then show ?thesis using m(1) k m'(1) by (intro exI conjI) auto
qed

text \<open>
  C3: whatever step of the main loop is taken from a reachable state, a packet that waits for a
  route either still waits with its number and destination; or it has left the queue, the kernel
  was told in this step to accept it, and the step has brought a route to its destination, which
  was not in the table before; or \<open>main\<close> has returned and the kernel was told in this step to drop
  it; or the step is undefined for one of the causes of C2. The code means to drop the packets
  for a destination when the last try of its search is over; that step is undefined (C17), so no
  packet ever leaves the queue that way.
\<close>
theorem waiting_packet_is_released_or_dropped:
  assumes "reachable E talk s" "kernel_delivers l" "main_step E talk l s s'"
    and "loop_world s = Some w" "w_pkts w p = Some e"
  shows "case loop_world s' of
      Some w' \<Rightarrow> w_pkts w' p = Some e \<or> released e w w'
    | None \<Rightarrow> (case s' of Returned D \<Rightarrow> dropped e w (d_world D) | _ \<Rightarrow> crash_cause E l s)"
  using assms(3)
proof cases
  case (ready m i left m')
  then show ?thesis
    using assms(2,4,5) reachable_ok [OF assms(1)] inner_turn_cases [of m i left E]
    by (simp add: turned_def packets_kept_def)
next
  case (alarms m m')
  then show ?thesis
    using assms(4,5) reachable_ok [OF assms(1)] alarm_turn_cases [of m E] by (simp add: turned_def packets_kept_def)
next
  case (leave m rc D)
  then show ?thesis using assms(4,5) reachable_ok [OF assms(1)] shutdown_drops [of m E talk rc D p e] by simp
qed (use assms(4,5) crash_has_cause [OF assms(1-2)] assms(3) in auto)

text \<open>A state with a waiting packet: the first one that the node has sent anywhere.\<close>

lemma sample_packet_captured: "packet_captured (sample_capture hook dest)"
  using sample_captured(1) [of hook dest] by (auto simp: packet_captured_def captured_def)

lemma turn_without_command:
  assumes "receive_packets E i (m_world m) = Some w" "in_comm i = None" "world_ok w"
  obtains m' where "inner_turn E i left m = Some m'" "m_world m' = w\<lparr>w_tick := Suc (w_tick w)\<rparr>"
proof -
  obtain r where "next_alarm_run E w = Some (r, w\<lparr>w_tick := Suc (w_tick w)\<rparr>)" using next_alarm_run_ok [OF assms(3)] by metis
  then show ?thesis using assms that
    by (simp add: inner_turn_def receive_command_def when_ready_def Let_def)
qed

lemma sample_waiting:
  "\<exists>m p e. reachable sample_env (\<lambda>m. 0) (Inner m) \<and> \<not> w_end (m_world m) \<and> w_pkts (m_world m) p = Some e \<and>
    pf_dest e \<noteq> w_ip_addr (m_world m) \<and> route_to (m_world m) (pf_dest e) = None"
proof -
  obtain m where m: "reachable sample_env (\<lambda>m. 0) (Inner m)" "idle (m_world m)" using sample_reachable by blast
  have "(0 :: in_addr) \<noteq> 1" "(1 :: in_addr) \<noteq> 2" "(0 :: in_addr) \<noteq> 2" by simp_all
  then obtain d where d: "d \<noteq> w_broadcast_addr (m_world m)" "d \<noteq> w_ip_addr (m_world m)" by metis
  let ?nfa = "sample_capture 3 d"
  let ?i = "\<lparr>in_nfqueue = Some (1, [?nfa]), in_aodv = None, in_comm = None\<rparr>"
  have ok: "world_ok (m_world m)" "\<not> w_end (m_world m)" using m(2) by (simp_all add: idle_def)
  have n: "route_to (m_world m) d = None" using m(2) by (simp add: route_to_def idle_def)
  have "\<not> passes (m_world m) d" using d n by (simp add: passes_def active_route_def)
  then have "waits ?nfa (m_world m)" "\<not> stuck ?nfa (m_world m)"
    by (simp_all add: waits_def stuck_def sample_captured hook_defs)
  then obtain w where w: "manage_packet sample_env ?nfa (m_world m) = Some w" "kept_waiting ?nfa (m_world m) w"
    using manage_packet_ok [OF ok(1) sample_captured(1) [of 3 d], of sample_env] by (auto simp: runs_iff)
  then obtain p where p: "w_pkts w = (w_pkts (m_world m))(p \<mapsto> \<lparr>pf_id = cap_id ?nfa, pf_dest = cap_dest ?nfa\<rparr>)"
    by (auto simp: kept_waiting_def)
  have ws: "world_ok w" "w_end w = w_end (m_world m)" "route_to w d = None" "w_ip_addr w = w_ip_addr (m_world m)"
    using w(2) n by (simp_all add: kept_waiting_def data_step_def)
  have "receive_packets sample_env ?i (m_world m) = Some w"
    using w(1) by (simp add: receive_packets_def when_ready_def nfqueue_receive_packet_def)
  then obtain m' where m': "inner_turn sample_env ?i zero_tv m = Some m'" "m_world m' = w\<lparr>w_tick := Suc (w_tick w)\<rparr>"
    using turn_without_command ws(1) by (metis input.select_convs(3))
  have "kernel_delivers (Ready ?i zero_tv)" by (simp add: sample_packet_captured)
  from reachable.step [OF m(1) main_step.ready [OF ok(2) m'(1)] this]
  have "reachable sample_env (\<lambda>m. 0) (Inner m')" .
  moreover have "route_to (m_world m') d = None" using ws(3) route_to_same [of "m_world m'" w d] m'(2) by simp
  ultimately show ?thesis
    using ws ok(2) d p m'(2) by (intro exI [of _ m'] exI [of _ p]) (simp add: sample_captured)
qed

text \<open>Then its destination answers, and the packet is let go.\<close>

theorem waiting_packet_is_released_or_dropped_witness:
  "\<exists>m p e i m'. reachable sample_env (\<lambda>m. 0) (Inner m) \<and> w_pkts (m_world m) p = Some e \<and>
    main_step sample_env (\<lambda>m. 0) (Ready i zero_tv) (Inner m) (Inner m') \<and>
    w_pkts (m_world m') p = None \<and> released e (m_world m) (m_world m')"
proof -
  obtain m p e where m: "reachable sample_env (\<lambda>m. 0) (Inner m)" "\<not> w_end (m_world m)" "w_pkts (m_world m) p = Some e"
    "pf_dest e \<noteq> w_ip_addr (m_world m)" "route_to (m_world m) (pf_dest e) = None"
    using sample_waiting by blast
  let ?w = "m_world m" and ?d = "pf_dest e"
  have ok: "world_ok ?w" using reachable_ok [OF m(1)] by (simp add: machine_ok_def)
  define r where "r = own_rrep (own_rreq ?d None ?w) (?w\<lparr>w_ip_addr := ?d\<rparr>)"
  have r: "good_rrep r" "rrep_dest_ip_addr r = ?d" "rrep_orig_ip_addr r = w_ip_addr ?w"
    by (simp_all add: r_def good_own) (simp_all add: own_rrep_def own_rreq_def)
  let ?msg = "datagram ?d (rrep_datagram r) 9" and ?n = "int (length (rrep_datagram r))"
  let ?i = "\<lparr>in_nfqueue = None, in_aodv = Some (?n, ?msg), in_comm = None\<rparr>"
  have "next_hop_to ?w (rrep_dest_ip_addr r) = None" using m(5) r(2) by (simp add: next_hop_None)
  from end_reply [OF ok sample_takes_routes r(1) m(4) this r(3), of 9]
  obtain w' where w': "aodv_socket_receive_packet sample_env ?n ?msg ?w = Some w'" "world_ok w'"
    "\<forall>p \<in> dom (w_pkts ?w). packet_dest ?w p = ?d \<longrightarrow> p \<notin> dom (w_pkts w')"
    unfolding r(2) by metis
  have "receive_packets sample_env ?i ?w = Some w'" using w'(1) by (simp add: receive_packets_def when_ready_def)
  then obtain m' where m': "inner_turn sample_env ?i zero_tv m = Some m'" "m_world m' = w'\<lparr>w_tick := Suc (w_tick w')\<rparr>"
    using turn_without_command w'(2) by (metis input.select_convs(3))
  have s: "main_step sample_env (\<lambda>m. 0) (Ready ?i zero_tv) (Inner m) (Inner m')" by (rule main_step.ready [OF m(2) m'(1)])
  have "datagram_received ?n ?msg"
    by (simp add: datagram_received_def arrives_def datagram_def aodv_pkt_receive_ttl_def)
  then have k: "kernel_delivers (Ready ?i zero_tv)" by simp
  have g: "w_pkts (m_world m') p = None" using bspec [OF w'(3), of p] m(3) m'(2) by (auto simp: packet_dest_def)
  have "released e (m_world m) (m_world m')"
    using waiting_packet_is_released_or_dropped [OF m(1) k s, of ?w p e] m(3) g by simp
  then show ?thesis using m(1,3) s g by blast
qed

end
