(* ===== verification/Loops.thy ===== *)
theory Loops
  imports Discovery
begin

text \<open>
  A routing loop. The way back to the originator is replaced by every new request, whatever its
  sequence number, so two requests of one node that cross between two of its neighbours leave
  the neighbours pointing at each other.
\<close>

section \<open>Nodes that know nothing of a destination\<close>

definition unknown :: "in_addr \<Rightarrow> world \<Rightarrow> bool" where
  "unknown d w \<longleftrightarrow> next_hop_to w d = None \<and> (\<forall>e \<in> ran (w_rreqs w). rq_dst e \<noteq> d)"

lemma unknown_unseen: "unknown (rreq_dest_ip_addr q) w \<Longrightarrow> \<not> rreq_seen q w"
  by (auto simp: unknown_def rreq_seen_def)

lemma unknown_searchable:
  assumes "world_ok w" "unknown d w" "d \<noteq> w_broadcast_addr w" "d \<noteq> w_ip_addr w"
  shows "\<not> passes w d" "rreq_fifo_waiting_response_for d w = Some False"
  using assms by (auto simp: unknown_def passes_def active_route_def next_hop_None rreq_fifo_waiting_eq)

lemma unknown_kept: "others_kept d w w' \<Longrightarrow> route_to w' = route_to w \<Longrightarrow> d' \<noteq> d \<Longrightarrow> unknown d' w \<Longrightarrow> unknown d' w'"
  by (auto simp: unknown_def others_kept_def next_hop_None)

lemma still_under_way: "A \<subseteq># add_mset x B \<Longrightarrow> y \<in># A \<Longrightarrow> y \<noteq> x \<Longrightarrow> y \<in># B"
  by (drule mset_subset_eqD, assumption) simp

section \<open>One request at one neighbour\<close>

lemma net_learns:
  assumes e: "(i, j, Sent a (htons AODV_UDP_PORT) t (rreq_datagram q)) \<in># net_air N" "good_rreq q" "t \<noteq> 0"
    and j: "world_ok (net_world N j)" "takes_routes (mesh_env M j)" "\<not> rreq_seen q (net_world N j)" "addr N i \<noteq> addr N j"
  obtains l N' w' where "net_step M l N N'" "net_world N' = (net_world N)(j := w')" "w_ip_addr w' = w_ip_addr (net_world N j)"
    "next_hop_to w' (rreq_orig_ip_addr q) = Some (addr N i)"
    "net_air N \<subseteq># add_mset (i, j, Sent a (htons AODV_UDP_PORT) t (rreq_datagram q)) (net_air N')"
proof -
  have ip: "addr N i \<noteq> w_ip_addr (net_world N j)" using j(4) by (simp add: addr_def)
  obtain w' where w':
    "aodv_socket_receive_packet (mesh_env M j) (int (length (rreq_datagram q)))
      (datagram (addr N i) (rreq_datagram q) t) (net_world N j) = Some w'"
    "world_ok w'" "w_ip_addr w' = w_ip_addr (net_world N j)"
    "has_route (rreq_orig_ip_addr q) (addr N i) (rreq_hop_count q) (rreq_orig_seq_num q) w'"
    using fresh_request [OF j(1,2) e(2) j(3) ip, of t] by metis
  obtain l N' where N': "net_step M l N N'" "net_world N' = (net_world N)(j := w')"
    "net_air N \<subseteq># add_mset (i, j, Sent a (htons AODV_UDP_PORT) t (rreq_datagram q)) (net_air N')"
    using deliver_step [OF e(1,3) w'(1)] by metis
  show ?thesis by (rule that [OF N'(1,2) w'(3) has_route_next_hop [OF w'(2,4)] N'(3)])
qed

section \<open>Two requests cross\<close>

text \<open>A packet of the node that starts a search.\<close>

definition starts_search :: "nfq_data \<Rightarrow> bool" where
  "starts_search nfa \<longleftrightarrow> captured nfa \<and> \<not> cap_aodv nfa \<and> cap_hook nfa = NF_IP_LOCAL_OUT"

lemma net_search:
  assumes c: "starts_search nfa" "unknown (cap_dest nfa) (net_world N a)" and ok: "world_ok (net_world N a)" "a \<in> set (mesh_nodes M)"
    and d: "cap_dest nfa \<noteq> w_broadcast_addr (net_world N a)" "cap_dest nfa \<noteq> addr N a"
    and j: "j \<in> set (mesh_nodes M)" "mesh_link M a j" "w_broadcast_addr (net_world N j) = w_broadcast_addr (net_world N a)"
  obtains l N' w' q where "net_step M l N N'" "net_world N' = (net_world N)(a := w')" "world_ok w'"
    "w_ip_addr w' = w_ip_addr (net_world N a)" "w_broadcast_addr w' = w_broadcast_addr (net_world N a)"
    "\<forall>d. d \<noteq> cap_dest nfa \<longrightarrow> unknown d (net_world N a) \<longrightarrow> unknown d w'" "net_air N \<subseteq># net_air N'"
    "(a, j, Sent (htonl (w_broadcast_addr (net_world N a))) (htons AODV_UDP_PORT) 3 (rreq_datagram q)) \<in># net_air N'"
    "good_rreq q" "rreq_dest_ip_addr q = cap_dest nfa" "rreq_orig_ip_addr q = addr N a"
proof -
  let ?w = "net_world N a" and ?q = "own_rreq (cap_dest nfa) None (next_self (net_world N a))"
  have s: "\<not> passes ?w (cap_dest nfa)" "rreq_fifo_waiting_response_for (cap_dest nfa) ?w = Some False"
    using unknown_searchable [OF ok(1) c(2) d(1)] d(2) by (simp_all add: addr_def)
  have c': "captured nfa" "\<not> cap_aodv nfa" "cap_hook nfa = NF_IP_LOCAL_OUT" using c(1) by (simp_all add: starts_search_def)
  obtain l N' w' where N': "net_step M l N N'" "net_world N' = (net_world N)(a := w')" "world_ok w'"
    "w_ip_addr w' = w_ip_addr ?w" "w_broadcast_addr w' = w_broadcast_addr ?w" "route_to w' = route_to ?w"
    "(a, j, Sent (htonl (w_broadcast_addr ?w)) (htons AODV_UDP_PORT) 3 (rreq_datagram ?q)) \<in># net_air N'"
    "others_kept (cap_dest nfa) ?w w'" "net_air N \<subseteq># net_air N'"
    using net_captured_search [OF ok c' s j] by metis
  have k: "\<forall>d. d \<noteq> cap_dest nfa \<longrightarrow> unknown d ?w \<longrightarrow> unknown d w'" using unknown_kept [OF N'(8,6)] by blast
  have q: "rreq_dest_ip_addr ?q = cap_dest nfa" "rreq_orig_ip_addr ?q = addr N a"
    by (simp_all add: own_rreq_def next_self_def addr_def)
  show ?thesis by (rule that [OF N'(1-5) k N'(9,7) good_own(1) q])
qed

text \<open>
  The two requests are under way, the first to \<open>c\<close> and the second to \<open>b\<close>. First both nodes pass on
  what they got; each of them has not seen the other request.
\<close>

lemma requests_passed_on:
  assumes nodes: "b \<in> set (mesh_nodes M)" "c \<in> set (mesh_nodes M)" "mesh_link M b c" "mesh_link M c b"
    "takes_routes (mesh_env M b)" "takes_routes (mesh_env M c)"
    and differ: "addr N a \<noteq> addr N b" "addr N a \<noteq> addr N c" "b \<noteq> c" "w_broadcast_addr (net_world N b) = w_broadcast_addr (net_world N c)"
    and ok: "world_ok (net_world N b)" "world_ok (net_world N c)"
    and q1: "(a, c, Sent x (htons AODV_UDP_PORT) 3 (rreq_datagram q1)) \<in># net_air N" "good_rreq q1" "rreq_orig_ip_addr q1 = addr N a"
    and q2: "(a, b, Sent x (htons AODV_UDP_PORT) 3 (rreq_datagram q2)) \<in># net_air N" "good_rreq q2" "rreq_orig_ip_addr q2 = addr N a"
    and dest: "rreq_dest_ip_addr q1 \<noteq> rreq_dest_ip_addr q2" "rreq_dest_ip_addr q1 \<notin> {addr N a, addr N c}"
      "rreq_dest_ip_addr q2 \<notin> {addr N a, addr N b}"
    and new: "\<forall>q \<in> {q1, q2}. unknown (rreq_dest_ip_addr q) (net_world N b) \<and> unknown (rreq_dest_ip_addr q) (net_world N c)"
  obtains N' where "net_runs M N N'" "world_ok (net_world N' b)" "world_ok (net_world N' c)" "\<And>i. addr N' i = addr N i"
    "\<not> rreq_seen q1 (net_world N' b)" "\<not> rreq_seen q2 (net_world N' c)"
    "(c, b, Sent (htonl (w_broadcast_addr (net_world N c))) (htons AODV_UDP_PORT) (3 - 1) (rreq_datagram (hopped q1))) \<in># net_air N'"
    "(b, c, Sent (htonl (w_broadcast_addr (net_world N c))) (htons AODV_UDP_PORT) (3 - 1) (rreq_datagram (hopped q2))) \<in># net_air N'"
proof -
  let ?e1 = "(a, c, Sent x (htons AODV_UDP_PORT) 3 (rreq_datagram q1))"
    and ?e2 = "(a, b, Sent x (htons AODV_UDP_PORT) 3 (rreq_datagram q2))"
    and ?x = "htonl (w_broadcast_addr (net_world N c))"
  let ?f1 = "(c, b, Sent ?x (htons AODV_UDP_PORT) (3 - 1) (rreq_datagram (hopped q1)))"
    and ?f2 = "(b, c, Sent ?x (htons AODV_UDP_PORT) (3 - 1) (rreq_datagram (hopped q2)))"
  have unseen: "\<not> rreq_seen q1 (net_world N b)" "\<not> rreq_seen q1 (net_world N c)" "\<not> rreq_seen q2 (net_world N b)"
    "\<not> rreq_seen q2 (net_world N c)" using new by (simp_all add: unknown_unseen)
  have hops: "next_hop_to (net_world N c) (rreq_dest_ip_addr q1) = None" "next_hop_to (net_world N b) (rreq_dest_ip_addr q2) = None"
    using new by (simp_all add: unknown_def)
  have d: "rreq_dest_ip_addr q1 \<notin> {addr N c, addr N a, rreq_orig_ip_addr q1}" using dest(2) q1(3) by simp
  have t: "(1 :: u8) < 3" by simp
  obtain l1 N1 wc where N1: "net_step M l1 N N1" "net_world N1 = (net_world N)(c := wc)" "world_ok wc"
    "w_ip_addr wc = w_ip_addr (net_world N c)" "w_broadcast_addr wc = w_broadcast_addr (net_world N c)" "?f1 \<in># net_air N1"
    "\<forall>q'. rreq_dest_ip_addr q' \<noteq> rreq_dest_ip_addr q1 \<longrightarrow> rreq_seen q' wc = rreq_seen q' (net_world N c)"
    "net_air N \<subseteq># add_mset ?e1 (net_air N1)"
    using net_pass_on [OF q1(1,2) t ok(2) nodes(6) unseen(2) differ(2) hops(1) d nodes(1,4) differ(4)] by metis
  have a1: "addr N1 i = addr N i" for i using N1(2,4) by (simp add: addr_def)
  have e2: "?e2 \<in># net_air N1" using still_under_way [OF N1(8) q2(1)] differ(3) by auto
  have b1: "net_world N1 b = net_world N b" "net_world N1 c = wc" using N1(2) differ(3) by auto
  have d': "rreq_dest_ip_addr q2 \<notin> {addr N1 b, addr N1 a, rreq_orig_ip_addr q2}" using dest(3) q2(3) a1 by simp
  have p: "world_ok (net_world N1 b)" "\<not> rreq_seen q2 (net_world N1 b)" "addr N1 a \<noteq> addr N1 b"
    "next_hop_to (net_world N1 b) (rreq_dest_ip_addr q2) = None"
    "w_broadcast_addr (net_world N1 c) = w_broadcast_addr (net_world N1 b)"
    using ok(1) unseen(3) hops(2) differ(1,4) N1(5) a1 by (simp_all add: b1)
  obtain l2 N2 wb where N2: "net_step M l2 N1 N2" "net_world N2 = (net_world N1)(b := wb)" "world_ok wb"
    "w_ip_addr wb = w_ip_addr (net_world N b)" "?f2 \<in># net_air N2"
    "\<forall>q'. rreq_dest_ip_addr q' \<noteq> rreq_dest_ip_addr q2 \<longrightarrow> rreq_seen q' wb = rreq_seen q' (net_world N b)"
    "net_air N1 \<subseteq># add_mset ?e2 (net_air N2)"
    using net_pass_on [OF e2 q2(2) t p(1) nodes(5) p(2,3,4) d' nodes(2,3) p(5)] unfolding b1 differ(4) by metis
  have w2: "net_world N2 b = wb" "net_world N2 c = wc" using N2(2) b1 differ(3) by auto
  have "net_runs M N N2" by (rule net_runs_step [OF N1(1)], rule net_runs_step [OF N2(1) net_runs_refl])
  moreover have "addr N2 i = addr N i" for i using N2(2,4) a1 b1(1) by (simp add: addr_def)
  moreover have "?f1 \<in># net_air N2" using still_under_way [OF N2(7) N1(6)] differ(2) by auto
  ultimately show ?thesis using that [of N2] N1(3,7) N2(3,5,6) unseen dest(1) unfolding w2 by metis
qed

text \<open>Then each of them gets what the other one passed on.\<close>

lemma copies_cross:
  assumes f: "(c, b, Sent x (htons AODV_UDP_PORT) t (rreq_datagram q1)) \<in># net_air N" "good_rreq q1"
    "(b, c, Sent x (htons AODV_UDP_PORT) t (rreq_datagram q2)) \<in># net_air N" "good_rreq q2" "t \<noteq> 0"
    and orig: "rreq_orig_ip_addr q1 = o'" "rreq_orig_ip_addr q2 = o'"
    and nodes: "takes_routes (mesh_env M b)" "takes_routes (mesh_env M c)" "addr N b \<noteq> addr N c"
    and ok: "world_ok (net_world N b)" "world_ok (net_world N c)"
    and new: "\<not> rreq_seen q1 (net_world N b)" "\<not> rreq_seen q2 (net_world N c)"
  shows "\<exists>N'. net_runs M N N' \<and> next_hop_to (net_world N' b) o' = Some (addr N c) \<and>
    next_hop_to (net_world N' c) o' = Some (addr N b)"
proof -
  let ?f1 = "(c, b, Sent x (htons AODV_UDP_PORT) t (rreq_datagram q1))"
    and ?f2 = "(b, c, Sent x (htons AODV_UDP_PORT) t (rreq_datagram q2))"
  have ne: "b \<noteq> c" using nodes(3) by auto
  obtain l1 N1 wb where N1: "net_step M l1 N N1" "net_world N1 = (net_world N)(b := wb)"
    "w_ip_addr wb = w_ip_addr (net_world N b)" "next_hop_to wb o' = Some (addr N c)" "net_air N \<subseteq># add_mset ?f1 (net_air N1)"
    using net_learns [OF f(1,2,5) ok(1) nodes(1) new(1) nodes(3) [symmetric]] unfolding orig by metis
  have a1: "addr N1 i = addr N i" for i using N1(2,3) by (simp add: addr_def)
  have f2: "?f2 \<in># net_air N1" using still_under_way [OF N1(5) f(3)] ne by auto
  have c: "world_ok (net_world N1 c)" "\<not> rreq_seen q2 (net_world N1 c)" "addr N1 b \<noteq> addr N1 c"
    using N1(2) ne ok(2) new(2) nodes(3) a1 by simp_all
  obtain l2 N2 wc where N2: "net_step M l2 N1 N2" "net_world N2 = (net_world N1)(c := wc)" "next_hop_to wc o' = Some (addr N b)"
    using net_learns [OF f2 f(4,5) c(1) nodes(2) c(2,3)] unfolding orig a1 by metis
  have "net_runs M N N2" by (rule net_runs_step [OF N1(1)], rule net_runs_step [OF N2(1) net_runs_refl])
  then show ?thesis using N2(2,3) N1(2,4) ne by auto
qed

text \<open>Both requests come from captured packets.\<close>

lemma two_searches:
  assumes nodes: "{a, b, c} \<subseteq> set (mesh_nodes M)" "mesh_link M a b" "mesh_link M a c" "a \<noteq> b" "a \<noteq> c"
    and bc: "\<forall>i \<in> {a, b, c}. w_broadcast_addr (net_world N i) = bc" and ok: "world_ok (net_world N a)"
    and pkts: "starts_search nfa" "starts_search nfb" "cap_dest nfa \<noteq> cap_dest nfb"
    and dest: "\<forall>d \<in> {cap_dest nfa, cap_dest nfb}. d \<notin> {bc, addr N a} \<and> unknown d (net_world N a)"
  obtains N' q1 q2 where "net_runs M N N'" "\<And>i. addr N' i = addr N i" "\<And>i. i \<noteq> a \<Longrightarrow> net_world N' i = net_world N i"
    "(a, c, Sent (htonl bc) (htons AODV_UDP_PORT) 3 (rreq_datagram q1)) \<in># net_air N'"
    "(a, b, Sent (htonl bc) (htons AODV_UDP_PORT) 3 (rreq_datagram q2)) \<in># net_air N'"
    "good_rreq q1" "rreq_dest_ip_addr q1 = cap_dest nfa" "rreq_orig_ip_addr q1 = addr N a"
    "good_rreq q2" "rreq_dest_ip_addr q2 = cap_dest nfb" "rreq_orig_ip_addr q2 = addr N a"
proof -
  let ?d1 = "cap_dest nfa" and ?d2 = "cap_dest nfb"
  have A: "unknown ?d1 (net_world N a)" "a \<in> set (mesh_nodes M)" "?d1 \<noteq> w_broadcast_addr (net_world N a)" "?d1 \<noteq> addr N a"
    "c \<in> set (mesh_nodes M)" "w_broadcast_addr (net_world N c) = w_broadcast_addr (net_world N a)"
    using nodes(1) bc dest by simp_all
  obtain l1 N1 w1 q1 where N1: "net_step M l1 N N1" "net_world N1 = (net_world N)(a := w1)" "world_ok w1"
    "w_ip_addr w1 = w_ip_addr (net_world N a)" "w_broadcast_addr w1 = w_broadcast_addr (net_world N a)"
    "\<forall>d. d \<noteq> ?d1 \<longrightarrow> unknown d (net_world N a) \<longrightarrow> unknown d w1"
    "(a, c, Sent (htonl (w_broadcast_addr (net_world N a))) (htons AODV_UDP_PORT) 3 (rreq_datagram q1)) \<in># net_air N1"
    "good_rreq q1" "rreq_dest_ip_addr q1 = ?d1" "rreq_orig_ip_addr q1 = addr N a"
    using net_search [OF pkts(1) A(1) ok A(2-5) nodes(3) A(6)] by metis
  have a1: "addr N1 i = addr N i" for i using N1(2,4) by (simp add: addr_def)
  have w1: "net_world N1 a = w1" "net_world N1 b = net_world N b" using N1(2) nodes(4) by auto
  have B: "unknown ?d2 (net_world N1 a)" "world_ok (net_world N1 a)" "?d2 \<noteq> w_broadcast_addr (net_world N1 a)"
    "?d2 \<noteq> addr N1 a" "b \<in> set (mesh_nodes M)" "w_broadcast_addr (net_world N1 b) = w_broadcast_addr (net_world N1 a)"
    using nodes(1) bc dest pkts(3) N1(3,5,6) a1 unfolding w1 by simp_all
  obtain l2 N2 w2 q2 where N2: "net_step M l2 N1 N2" "net_world N2 = (net_world N1)(a := w2)"
    "w_ip_addr w2 = w_ip_addr (net_world N1 a)" "net_air N1 \<subseteq># net_air N2"
    "(a, b, Sent (htonl (w_broadcast_addr (net_world N1 a))) (htons AODV_UDP_PORT) 3 (rreq_datagram q2)) \<in># net_air N2"
    "good_rreq q2" "rreq_dest_ip_addr q2 = ?d2" "rreq_orig_ip_addr q2 = addr N1 a"
    using net_search [OF pkts(2) B(1,2) A(2) B(3-5) nodes(2) B(6)] by metis
  have b: "w_broadcast_addr (net_world N a) = bc" "w_broadcast_addr (net_world N1 a) = bc" using bc N1(5) w1 by simp_all
  have "net_runs M N N2" by (rule net_runs_step [OF N1(1)], rule net_runs_step [OF N2(1) net_runs_refl])
  moreover have "addr N2 i = addr N i" for i using N2(2,3) a1 by (simp add: addr_def)
  moreover have "net_world N2 i = net_world N i" if "i \<noteq> a" for i using that N1(2) N2(2) by simp
  ultimately show ?thesis
    using that [of N2 q1 q2] N1(7-10) N2(5-8) mset_subset_eqD [OF N2(4) N1(7)] unfolding b a1 by blast
qed

text \<open>
  C8: requests that cross make a routing loop. Let a node that hears two neighbours, which hear each
  other, capture packets for two destinations that none of the three knows anything about. Then
  the mesh has a run after which the route of either neighbour back to the node leads over the
  other neighbour: what they forward to the node goes to and fro between them.
\<close>
theorem crossing_requests_make_a_loop:
  assumes nodes: "{a, b, c} \<subseteq> set (mesh_nodes M)" "mesh_link M a b" "mesh_link M a c" "mesh_link M b c" "mesh_link M c b"
    "takes_routes (mesh_env M b)" "takes_routes (mesh_env M c)"
    and differ: "distinct [addr N a, addr N b, addr N c]"
    and ok: "\<forall>i \<in> {a, b, c}. world_ok (net_world N i)" "\<forall>i \<in> {a, b, c}. w_broadcast_addr (net_world N i) = bc"
    and pkts: "starts_search nfa" "starts_search nfb" "cap_dest nfa \<noteq> cap_dest nfb"
    and dest: "\<forall>d \<in> {cap_dest nfa, cap_dest nfb}. d \<notin> {bc, addr N a, addr N b, addr N c} \<and>
      (\<forall>i \<in> {a, b, c}. unknown d (net_world N i))"
  shows "\<exists>N'. net_runs M N N' \<and> next_hop_to (net_world N' b) (addr N a) = Some (addr N c) \<and>
    next_hop_to (net_world N' c) (addr N a) = Some (addr N b)"
proof -
  have ne: "a \<noteq> b" "a \<noteq> c" "b \<noteq> c" "b \<in> set (mesh_nodes M)" "c \<in> set (mesh_nodes M)" "world_ok (net_world N a)"
    using differ nodes(1) ok(1) by auto
  have d: "\<forall>d \<in> {cap_dest nfa, cap_dest nfb}. d \<notin> {bc, addr N a} \<and> unknown d (net_world N a)" using dest by auto
  obtain N1 q1 q2 where N1: "net_runs M N N1" "\<And>i. addr N1 i = addr N i" "\<And>i. i \<noteq> a \<Longrightarrow> net_world N1 i = net_world N i"
    "(a, c, Sent (htonl bc) (htons AODV_UDP_PORT) 3 (rreq_datagram q1)) \<in># net_air N1"
    "(a, b, Sent (htonl bc) (htons AODV_UDP_PORT) 3 (rreq_datagram q2)) \<in># net_air N1"
    "good_rreq q1" "rreq_dest_ip_addr q1 = cap_dest nfa" "rreq_orig_ip_addr q1 = addr N a"
    "good_rreq q2" "rreq_dest_ip_addr q2 = cap_dest nfb" "rreq_orig_ip_addr q2 = addr N a"
    using two_searches [OF nodes(1-3) ne(1,2) ok(2) ne(6) pkts d] by blast
  have w: "net_world N1 b = net_world N b" "net_world N1 c = net_world N c" using N1(3) ne by auto
  obtain N2 where N2: "net_runs M N1 N2" "world_ok (net_world N2 b)" "world_ok (net_world N2 c)" "\<And>i. addr N2 i = addr N1 i"
    "\<not> rreq_seen q1 (net_world N2 b)" "\<not> rreq_seen q2 (net_world N2 c)"
    "(c, b, Sent (htonl (w_broadcast_addr (net_world N1 c))) (htons AODV_UDP_PORT) (3 - 1) (rreq_datagram (hopped q1))) \<in># net_air N2"
    "(b, c, Sent (htonl (w_broadcast_addr (net_world N1 c))) (htons AODV_UDP_PORT) (3 - 1) (rreq_datagram (hopped q2))) \<in># net_air N2"
    by (rule requests_passed_on [OF ne(4,5) nodes(4-7) _ _ ne(3) _ _ _ N1(4,6) _ N1(5,9)])
      (use differ ok dest pkts(3) N1(2,7,8,10,11) w in auto)
  have g: "good_rreq (hopped q1)" "good_rreq (hopped q2)" "rreq_orig_ip_addr (hopped q1) = addr N a"
    "rreq_orig_ip_addr (hopped q2) = addr N a" "addr N2 b \<noteq> addr N2 c" "(3 - 1 :: u8) \<noteq> 0"
    "\<not> rreq_seen (hopped q1) (net_world N2 b)" "\<not> rreq_seen (hopped q2) (net_world N2 c)"
    using good_hopped(1) N1(2,6,8,9,11) N2(4-6) differ by (simp_all add: rreq_seen_def)
  obtain N3 where N3: "net_runs M N2 N3" "next_hop_to (net_world N3 b) (addr N a) = Some (addr N2 c)"
    "next_hop_to (net_world N3 c) (addr N a) = Some (addr N2 b)"
    using copies_cross [OF N2(7) g(1) N2(8) g(2,6,3,4) nodes(6,7) g(5) N2(2,3) g(7,8)] by blast
  have "net_runs M N N3" by (rule net_runs_trans [OF N1(1)], rule net_runs_trans [OF N2(1) N3(1)])
  then show ?thesis using N3(2,3) N1(2) N2(4) by auto
qed

text \<open>Three nodes that all hear each other.\<close>

definition triangle_mesh :: mesh where
  "triangle_mesh = \<lparr>mesh_nodes = [0, 1, 2], mesh_link = (\<lambda>i j. i \<noteq> j), mesh_env = (\<lambda>_. sample_env)\<rparr>"

definition triangle_net :: net where
  "triangle_net = \<lparr>net_world = (\<lambda>i. if i = 0 then sample_world else if i = 1 then sample_world\<lparr>w_ip_addr := 0x0A000005\<rparr>
     else sample_world\<lparr>w_ip_addr := 0x0A000006\<rparr>), net_air = {#}\<rparr>"

lemma triangle_start: "net_start triangle_net"
  using sample_world_ok by (simp add: net_start_def triangle_net_def)

lemma triangle_unknown: "d \<in> {0x0A000008, 0x0A00000A} \<Longrightarrow> unknown d (net_world triangle_net i)"
  by (auto simp: unknown_def next_hop_to_def route_to_def route_dst_def triangle_net_def sample_parts sample_route_def ran_def
      split: if_splits)

theorem crossing_requests_make_a_loop_witness:
  "\<exists>N'. net_runs triangle_mesh triangle_net N' \<and>
    next_hop_to (net_world N' 1) 0x0A000001 = Some 0x0A000006 \<and> next_hop_to (net_world N' 2) 0x0A000001 = Some 0x0A000005"
proof -
  let ?n = "sample_capture 3 0x0A000008" and ?m = "sample_capture 3 0x0A00000A"
  have a: "addr triangle_net 0 = 0x0A000001" "addr triangle_net (Suc 0) = 0x0A000005" "addr triangle_net 1 = 0x0A000005" "addr triangle_net 2 = 0x0A000006"
    by (simp_all add: addr_def triangle_net_def sample_parts)
  have M: "{0, 1, 2} \<subseteq> set (mesh_nodes triangle_mesh)" "mesh_link triangle_mesh 0 1" "mesh_link triangle_mesh 0 2"
    "mesh_link triangle_mesh 1 2" "mesh_link triangle_mesh 2 1" "takes_routes (mesh_env triangle_mesh 1)"
    "takes_routes (mesh_env triangle_mesh 2)"
    using sample_takes_routes by (simp_all add: triangle_mesh_def)
  have N: "distinct [addr triangle_net 0, addr triangle_net 1, addr triangle_net 2]"
    "\<forall>i \<in> {0, 1, 2}. world_ok (net_world triangle_net i)"
    "\<forall>i \<in> {0, 1, 2}. w_broadcast_addr (net_world triangle_net i) = 0x0A0000FF"
    using triangle_start by (simp_all only: a) (simp_all add: net_start_def triangle_net_def sample_parts)
  have c: "starts_search ?n" "starts_search ?m" "cap_dest ?n = 0x0A000008" "cap_dest ?m = 0x0A00000A"
    by (simp_all add: starts_search_def sample_captured hook_defs)
  have d: "cap_dest ?n \<noteq> cap_dest ?m" "\<forall>d \<in> {cap_dest ?n, cap_dest ?m}.
      d \<notin> {0x0A0000FF, addr triangle_net 0, addr triangle_net 1, addr triangle_net 2} \<and>
      (\<forall>i \<in> {0, 1, 2}. unknown d (net_world triangle_net i))"
    using triangle_unknown by (simp_all add: c a)
  from crossing_requests_make_a_loop [OF M N c(1,2) d] show ?thesis by (simp only: a)
qed

end
