(* ===== verification/Spec2Isabelle.thy ===== *)
theory Spec2Isabelle
  imports Hlist Ipq Client Examples Main_Loop Loops
begin

text \<open>
  A verification library for \<^emph>\<open>meshias\<close>, a user-space daemon that routes the packets of a wireless
  mesh network with the AODV protocol. The daemon captures data packets through a netfilter
  queue, decides whether there is a route for them, keeps those without a route waiting while it
  searches for one, exchanges route requests and route replies with its neighbours over UDP, and
  keeps the routing table of the kernel in step with its own. A text client asks it for its
  routes and statistics over TCP.

  \<^bold>\<open>How the parts interact.\<close> \<open>main\<close> (\<open>meshias_daemon/meshias.c\<close>) waits for the three sockets
  and calls, in this order, \<open>nfqueue_receive_packet\<close>, \<open>aodv_socket_receive_packet\<close> and
  \<open>comm_interface_receive_packets\<close>, then runs the due alarms. Captured packets go through
  \<open>routing_table_update_route\<close>; without a route they are queued (\<open>packets_fifo.c\<close>) and
  \<open>aodv_find_route\<close> broadcasts a request and records it (\<open>rreq_fifo.c\<close>). Replies add routes, and
  \<open>routing_table_add\<close> lets the queued packets go. Routes and pending requests carry an alarm
  (\<open>libmeshias/alarm/alarm.c\<close>) in a red-black tree; the callbacks age routes and repeat searches.

  \<^bold>\<open>How programs are modelled.\<close> An operation is a function into \<open>'a option\<close>: \<open>None\<close> is undefined
  behaviour of the C code (a null or freed object is used, a buffer is left, a shift amount is too
  large). \<open>runs m Q\<close> says that \<open>m\<close> is defined and its result satisfies \<open>Q\<close>. The global variables
  and the heap are one record, \<open>world\<close>; heap objects are named by addresses and live in finite
  maps, so a freed object is one outside its map. Calls with an effect outside (a datagram, a
  verdict on a packet, a change of the kernel's routes) are events in \<open>w_out\<close>, the latest first.
  The answers of the outside (the clock, the results of system calls and of libnl and libnfnetlink)
  are parameters (\<open>env\<close>, \<open>nfnl_env\<close>, \<open>start_env\<close>, \<open>talk\<close>, \<open>dialogue\<close>). Integers have the width they have in C,
  and addresses and message fields are converted between byte orders where the code does it.

  \<^bold>\<open>Theories.\<close>
  \<^item> \<^theory_text>\<open>Prelude\<close>: types, \<open>runs\<close>, and facts on lists, maps and words that the others share.
  \<^item> \<^theory_text>\<open>Bytes\<close>: byte orders, loading and storing integers.
  \<^item> \<^theory_text>\<open>Linux_List\<close>: the intrusive lists of \<open>alarm/linux_list.h\<close>, pointer by pointer, and their
    abstraction to sequences; the interface \<open>intrusive_list\<close> and its interpretation.
  \<^item> \<^theory_text>\<open>Hlist\<close>: the lists with a single-pointer head of the same file, which provide the interface
    \<open>intrusive_list\<close> too.
  \<^item> \<^theory_text>\<open>Rbtree\<close>: \<open>alarm/rbtree.c\<close>, on a subtree with the chain of its parents; the interface
    \<open>ordered_index\<close> and its interpretation.
  \<^item> \<^theory_text>\<open>Config\<close>: \<open>aodv/configuration_parameters.c\<close> and the conversions of \<open>utils.c\<close>.
  \<^item> \<^theory_text>\<open>Alarm\<close>: alarm blocks and the alarm tree of \<open>alarm/alarm.c\<close>; times are a linear order.
  \<^item> \<^theory_text>\<open>World\<close>: the state of the daemon (\<open>msh_data.h\<close>, \<open>statistics.h\<close>), its invariant \<open>world_ok\<close>, and
    the relations between the states before and after an operation (\<open>extends\<close>, \<open>quiet\<close>).
  \<^item> \<^theory_text>\<open>Msh_Route\<close>, \<^theory_text>\<open>Packets_Fifo\<close>, \<^theory_text>\<open>Routing_Table\<close>, \<^theory_text>\<open>Rreq_Fifo\<close>: the files of the same names.
  \<^item> \<^theory_text>\<open>Packet\<close>, \<^theory_text>\<open>Logic\<close>, \<^theory_text>\<open>Protocol\<close>: \<open>aodv/packet.c\<close>, \<open>aodv/logic.c\<close>, and what the handlers
    of the messages do as a protocol.
  \<^item> \<^theory_text>\<open>Nfq\<close>, \<^theory_text>\<open>Nfqueue\<close>: the bundled \<open>libnetfilter_queue\<close>, and the capture of packets in \<open>nfqueue.c\<close>.
  \<^item> \<^theory_text>\<open>Headers\<close>: the header structures of \<open>libnetfilter_queue_headers.c\<close> in memory, what the daemon
    reads of a packet from the network, and \<open>nfqueue_packet_print\<close>.
  \<^item> \<^theory_text>\<open>Ipq\<close>: the compatibility layer \<open>libipq_compat.c\<close>.
  \<^item> \<^theory_text>\<open>Comm\<close>: \<open>communication_interface.c\<close> and \<open>libmeshias.c\<close>; \<^theory_text>\<open>Client\<close>: \<open>meshias-tools.c\<close>.
  \<^item> \<^theory_text>\<open>Daemon\<close>: running the alarms (\<open>do_alarm_run\<close>) and the AODV socket; the interface
    \<open>alarm_callback\<close>, interpreted by the three callbacks of the daemon.
  \<^item> \<^theory_text>\<open>Main_Loop\<close>: \<open>msh_data.c\<close> and \<open>main\<close> as a step relation, with the properties of all
    reachable states: the invariant, the causes of undefined behaviour, the fate of the packets
    that wait, and the end.
  \<^item> \<^theory_text>\<open>Network\<close>: several daemons at once. A \<open>mesh\<close> says which nodes hear one another and what the
    clock and the kernel of each node answer; a \<open>net\<close> is the state of every daemon with the
    multiset of the datagrams under way, which are lost or delivered in any order. Every datagram
    a daemon sends passes the checks of every other one, and every flood dies out.
  \<^item> \<^theory_text>\<open>Discovery\<close>: a search across the mesh, hop by hop, on top of the handlers of \<^theory_text>\<open>Protocol\<close>: the
    request reaches its destination, the reply comes back, and the waiting packet is released.
  \<^item> \<^theory_text>\<open>Loops\<close>: requests that cross, and the routing loop that they leave behind, because the way
    back to an originator is replaced whatever the sequence number of the request.
  \<^item> \<^theory_text>\<open>Examples\<close>: the programs \<open>nfqnl_test.c\<close>, \<open>examples/linuxlists.c\<close>, \<open>examples/nfqueue2.c\<close> and
    \<open>examples/broadcaster.c\<close>, each on top of the model of the part that it exercises.

  \<^bold>\<open>Groups of lemmas.\<close> Per component there are: definedness and the invariant after every
  operation (\<open>..._ok\<close>), equations that give the result of an operation (\<open>..._eq\<close>), and frame facts
  (\<open>..._same\<close>, \<open>..._keeps\<close>). The theorems that carry a number are the properties of the library.

  \<^bold>\<open>Termination and bounds.\<close> Nothing in the library takes fuel. Loops over lists recurse on the list;
  loops over pointers and over the tree are partial functions in the option monad, shown to return
  on well-formed stores. The main loop does not end, so it is a step relation. The client waits for
  a valid command for ever when its input ends; its loop is shown to end for a session that quits.
  A search is followed over paths of up to three nodes, since a first request is sent with the hop
  limit 3. A datagram sent with the hop limit 0, which the kernel refuses to set, may arrive with
  any hop limit; the theorem that floods die out is about the others.

  \<^bold>\<open>Not modelled.\<close> Debug output. Those example programs that only make
  socket calls, use libnl, or keep a pointer into a receive buffer that the next packet overwrites. The files of the daemon's directory that
  are copies of files of \<open>libmeshias\<close> and are not built, and the declarations in
  \<open>libmeshias/comm_packets.h\<close>, which nothing uses. The list traversals marked \<open>rcu\<close>, which need a
  barrier that is not defined in user space. Concurrency: the program has one thread.
  Failing allocations: the C code does not test for them. The contents of \<open>libnl\<close>,
  \<open>libnfnetlink\<close> and the kernel, which are parameters; where the start passes a null that libnl
  returned on to libnl, it is undefined.

  \<^bold>\<open>Freed memory and memory behind a buffer.\<close> \<open>routing_table_delete\<close> frees routes whose alarms are still
  linked into the alarm tree. A deletion from the tree is therefore defined only if all nodes that it
  reads or writes are live (\<open>rb_erase_uses\<close> of \<^theory_text>\<open>Rbtree\<close>, \<open>erase_alarm\<close> of \<^theory_text>\<open>Alarm\<close>); insertions and
  traversals of the tree do not happen any more at that point. The answers of the control interface
  are sent in blocks of 1024 bytes, past the end of a shorter buffer. It is the kernel that reads
  those bytes, for \<open>send\<close>, whose result is ignored; so the daemon goes on and the bytes are the
  \<open>Behind\<close> bytes of the answer. The property on the causes of undefined behaviour counts such a step
  as undefined.
\<close>

end
